(* ===== verification/Prelude.thy ===== *)
theory Prelude
  imports Main "HOL-Library.Word" "HOL-Library.Multiset"
begin

text \<open>
  Shared vocabulary of the development: failures as values, the two combinators that
  thread them, memory reads and writes with explicit bounds, and the arithmetic of
  offset vectors (running sums and subranges) on which every all-to-all step rests.
\<close>

section \<open>Failures as values\<close>

text \<open>
  Every way the C++ code can fail to produce a result is a constructor: a failed
  \<open>assert\<close>, an access outside an allocation or a vector, a receive no send matches,
  a message of another size than the posted receive, a use of a handle that is not there
  (any more), the \<open>std::runtime_error\<close>s the sources throw, and \<open>exit(1)\<close> of the checking
  macros of \<open>error.hpp\<close>.
\<close>

datatype failure =
    AssertFailed
  | OutOfBounds
  | DivideByZero
  | Unmatched
  | SizeMismatch
  | NoBufferedCache
  | BadPointer
  | TooManyRanks
  | UnsupportedType
  | FloatingPointException
  | UnknownRegistrationMethod
  | UnknownCommunicatorName
  | ExternalError
  | Exit nat

type_synonym 'a res = "failure + 'a"

type_synonym rank = nat
type_synonym byte = "8 word"

named_theorems res_simps \<open>evaluation of the failure combinators\<close>
named_theorems offset_simps \<open>running sums and subranges\<close>

fun ebind :: "'a res \<Rightarrow> ('a \<Rightarrow> 'b res) \<Rightarrow> 'b res" where
  "ebind (Inl e) f = Inl e"
| "ebind (Inr x) f = f x"

definition guard :: "bool \<Rightarrow> failure \<Rightarrow> unit res" where
  "guard b e = (if b then Inr () else Inl e)"

fun emap :: "('a \<Rightarrow> 'b res) \<Rightarrow> 'a list \<Rightarrow> 'b list res" where
  "emap f [] = Inr []"
| "emap f (x # xs) = ebind (f x) (\<lambda>y. ebind (emap f xs) (\<lambda>ys. Inr (y # ys)))"

fun efold :: "('s \<Rightarrow> 'a \<Rightarrow> 's res) \<Rightarrow> 's \<Rightarrow> 'a list \<Rightarrow> 's res" where
  "efold f s [] = Inr s"
| "efold f s (x # xs) = ebind (f s x) (\<lambda>s'. efold f s' xs)"

text \<open>\<open>v[i]\<close> on a \<open>std::vector\<close>; an index past the end is undefined behaviour.\<close>

definition vec_at :: "'a list \<Rightarrow> nat \<Rightarrow> 'a res" where
  "vec_at xs i = (if i < length xs then Inr (xs ! i) else Inl OutOfBounds)"

lemma vec_at_ok [simp]: "i < length xs \<Longrightarrow> vec_at xs i = Inr (xs ! i)"
  by (simp add: vec_at_def)

lemma ebind_Inl_iff: "ebind m f = Inl e \<longleftrightarrow> m = Inl e \<or> (\<exists>x. m = Inr x \<and> f x = Inl e)"
  by (cases m) simp_all

lemma ebind_Inr_iff [res_simps]: "ebind m f = Inr y \<longleftrightarrow> (\<exists>x. m = Inr x \<and> f x = Inr y)"
  by (cases m) auto

lemma ebind_assoc: "ebind (ebind m f) g = ebind m (\<lambda>x. ebind (f x) g)"
  by (cases m) auto

lemma guard_Inr_iff [res_simps]: "guard b e = Inr u \<longleftrightarrow> b"
  by (simp add: guard_def)

lemma guard_True [simp]: "guard True e = Inr ()"
  by (simp add: guard_def)

lemma guard_False [simp]: "guard False e = Inl e"
  by (simp add: guard_def)

lemma emap_Inr:
  "(\<And>x. x \<in> set xs \<Longrightarrow> f x = Inr (g x)) \<Longrightarrow> emap f xs = Inr (map g xs)"
  by (induction xs) auto

lemma emap_map_Inr:
  "(\<And>x. x \<in> set xs \<Longrightarrow> f (g x) = Inr (h x)) \<Longrightarrow> emap f (map g xs) = Inr (map h xs)"
  by (induction xs) auto

lemma choose_results:
  "(\<And>r. r < n \<Longrightarrow> \<exists>t. A r = Inr t \<and> B r t) \<Longrightarrow> \<exists>f. \<forall>r < (n :: nat). A r = Inr (f r) \<and> B r (f r)"
  by metis

lemma emap_cong [fundef_cong]:
  "xs = ys \<Longrightarrow> (\<And>x. x \<in> set ys \<Longrightarrow> f x = g x) \<Longrightarrow> emap f xs = emap g ys"
  by (induction xs arbitrary: ys) auto

lemma emap_Inr_iff [res_simps]:
  "emap f xs = Inr ys \<longleftrightarrow> list_all2 (\<lambda>x y. f x = Inr y) xs ys"
proof (induction xs arbitrary: ys)
  case Nil
  then show ?case by auto
next
  case (Cons x xs)
  then show ?case
    by (cases ys) (auto simp: res_simps)
qed

lemma emap_length: "emap f xs = Inr ys \<Longrightarrow> length ys = length xs"
  by (auto simp: emap_Inr_iff list_all2_lengthD)

lemma emap_nth: "emap f xs = Inr ys \<Longrightarrow> i < length xs \<Longrightarrow> f (xs ! i) = Inr (ys ! i)"
  by (auto simp: emap_Inr_iff list_all2_conv_all_nth)

lemma efold_append: "efold f s (xs @ ys) = ebind (efold f s xs) (\<lambda>t. efold f t ys)"
  by (induction xs arbitrary: s) (auto simp: ebind_assoc)

lemma emap_defined: "\<forall>x \<in> set xs. \<exists>y. f x = Inr y \<Longrightarrow> \<exists>ys. emap f xs = Inr ys"
  by (induction xs) auto

lemma emap_fails: "x \<in> set xs \<Longrightarrow> f x = Inl e \<Longrightarrow> \<exists>e'. emap f xs = Inl e'"
proof (induction xs)
  case (Cons y ys)
  then show ?case by (cases "f y") auto
qed simp

lemma emap_fails_only:
  "x \<in> set xs \<Longrightarrow> f x = Inl e \<Longrightarrow> (\<And>y e'. y \<in> set xs \<Longrightarrow> f y = Inl e' \<Longrightarrow> e' = e) \<Longrightarrow> emap f xs = Inl e"
proof (induction xs)
  case (Cons y ys)
  show ?case
  proof (cases "f y")
    case (Inl e')
    then show ?thesis using Cons.prems(3) [of y e'] by simp
  next
    case (Inr z)
    then have "x \<in> set ys" using Cons.prems(1,2) by auto
    then have "emap f ys = Inl e" by (rule Cons.IH [OF _ Cons.prems(2)]) (rule Cons.prems(3), simp_all)
    then show ?thesis using Inr by simp
  qed
qed simp

section \<open>Memory\<close>

text \<open>
  An allocation is a list of cells (bytes for the untyped buffers, machine integers for
  typed device vectors). \<open>read_mem\<close> and \<open>write_mem\<close> are the two halves of a
  \<open>cudaMemcpy\<close>: an address range outside the allocation, undefined behaviour in the
  C++ code, is the failure \<open>OutOfBounds\<close>.
\<close>

definition subrange :: "'a list \<Rightarrow> int \<Rightarrow> int \<Rightarrow> 'a list" where
  "subrange xs a b = take (nat (b - a)) (drop (nat a) xs)"

definition read_mem :: "'a list \<Rightarrow> int \<Rightarrow> int \<Rightarrow> 'a list res" where
  "read_mem m a n =
     (if 0 \<le> a \<and> 0 \<le> n \<and> a + n \<le> int (length m) then Inr (subrange m a (a + n))
      else Inl OutOfBounds)"

definition write_mem :: "'a list \<Rightarrow> int \<Rightarrow> 'a list \<Rightarrow> 'a list res" where
  "write_mem m a d =
     (if 0 \<le> a \<and> a + int (length d) \<le> int (length m)
      then Inr (take (nat a) m @ d @ drop (nat a + length d) m)
      else Inl OutOfBounds)"

lemma read_mem_ok [simp]:
  "0 \<le> a \<Longrightarrow> 0 \<le> n \<Longrightarrow> a + n \<le> int (length m) \<Longrightarrow> read_mem m a n = Inr (subrange m a (a + n))"
  by (simp add: read_mem_def)

lemma length_subrange [offset_simps]:
  "0 \<le> a \<Longrightarrow> a \<le> b \<Longrightarrow> b \<le> int (length xs) \<Longrightarrow> length (subrange xs a b) = nat (b - a)"
  by (simp add: subrange_def)

lemma length_write_mem: "write_mem m a d = Inr m' \<Longrightarrow> length m' = length m"
  by (auto simp: write_mem_def split: if_splits)

lemma subrange_all [simp]: "subrange xs 0 (int (length xs)) = xs"
  by (simp add: subrange_def)

lemma subrange_empty [simp]: "b \<le> a \<Longrightarrow> subrange xs a b = []"
  by (simp add: subrange_def)

lemma subrange_append:
  assumes "0 \<le> a" "a \<le> b" "b \<le> c"
  shows "subrange xs a b @ subrange xs b c = subrange xs a c"
proof -
  have "nat (c - a) = nat (b - a) + nat (c - b)" and "nat b = nat a + nat (b - a)"
    using assms by auto
  then show ?thesis
    by (simp add: subrange_def take_add add.commute)
qed

lemma nth_subrange:
  "0 \<le> a \<Longrightarrow> int i < b - a \<Longrightarrow> b \<le> int (length xs) \<Longrightarrow> subrange xs a b ! i = xs ! (nat a + i)"
  by (simp add: subrange_def)

lemma subrange_map: "subrange (map f xs) a b = map f (subrange xs a b)"
  by (simp add: subrange_def take_map drop_map)

lemma write_then_read:
  assumes "write_mem m a d = Inr m'"
  shows "read_mem m' a (int (length d)) = Inr d"
proof -
  from assms have b: "0 \<le> a" "a + int (length d) \<le> int (length m)"
    and m': "m' = take (nat a) m @ d @ drop (nat a + length d) m"
    by (auto simp: write_mem_def split: if_splits)
  then have "length (take (nat a) m) = nat a" by auto
  then have "subrange m' a (a + int (length d)) = d"
    by (simp add: subrange_def m')
  moreover have "length m' = length m" using assms by (rule length_write_mem)
  ultimately show ?thesis using b by simp
qed

section \<open>Offset vectors\<close>

text \<open>
  \<open>partial_sum\<close> is \<open>std::partial_sum\<close> started at an accumulator; an offset vector
  is \<open>0\<close> followed by the running sums of the counts.
\<close>

fun partial_sum :: "'a::plus \<Rightarrow> 'a list \<Rightarrow> 'a list" where
  "partial_sum acc [] = []"
| "partial_sum acc (x # xs) = (acc + x) # partial_sum (acc + x) xs"

lemma length_partial_sum [simp]: "length (partial_sum acc xs) = length xs"
  by (induction xs arbitrary: acc) auto

lemma partial_sum_nth:
  fixes acc :: "'a::comm_monoid_add"
  shows "i \<le> length xs \<Longrightarrow> (acc # partial_sum acc xs) ! i = acc + sum_list (take i xs)"
proof (induction xs arbitrary: acc i)
  case Nil
  then show ?case by simp
next
  case (Cons x xs)
  show ?case
  proof (cases i)
    case 0
    then show ?thesis by simp
  next
    case (Suc j)
    with Cons.prems have "((acc + x) # partial_sum (acc + x) xs) ! j = acc + x + sum_list (take j xs)"
      by (intro Cons.IH) simp
    with Suc show ?thesis by (simp add: add.assoc)
  qed
qed

lemma partial_sum_diff:
  fixes xs :: "'a::ab_group_add list"
  assumes "i < length xs"
  shows "(acc # partial_sum acc xs) ! Suc i - (acc # partial_sum acc xs) ! i = xs ! i"
  using assms
  by (simp only: partial_sum_nth Suc_leI less_imp_le) (simp add: take_Suc_conv_app_nth)

text \<open>A well-formed offset vector for \<open>g\<close> partitions: \<open>g + 1\<close> non-decreasing entries.\<close>

definition offsets_ok :: "nat \<Rightarrow> int list \<Rightarrow> bool" where
  "offsets_ok g offs \<longleftrightarrow> length offs = Suc g \<and> 0 \<le> offs ! 0 \<and> sorted offs"

lemma offsets_ok_mono:
  "offsets_ok g offs \<Longrightarrow> i \<le> j \<Longrightarrow> j \<le> g \<Longrightarrow> offs ! i \<le> offs ! j"
  by (auto simp: offsets_ok_def sorted_iff_nth_mono)

lemma offsets_ok_nonneg: "offsets_ok g offs \<Longrightarrow> i \<le> g \<Longrightarrow> 0 \<le> offs ! i"
  using offsets_ok_mono [of g offs 0 i] by (auto simp: offsets_ok_def)

lemma offsets_ok_last: "offsets_ok g offs \<Longrightarrow> last offs = offs ! g"
  by (cases "offs = []") (auto simp: offsets_ok_def last_conv_nth)

lemma sorted_partial_sum:
  fixes acc :: int
  assumes "\<forall>x \<in> set xs. 0 \<le> x"
  shows "sorted (acc # partial_sum acc xs)"
  using assms
proof (induction xs arbitrary: acc)
  case Nil
  then show ?case by simp
next
  case (Cons x xs)
  then have "sorted ((acc + x) # partial_sum (acc + x) xs)" by simp
  with Cons.prems show ?case by auto
qed

lemma offsets_ok_partial_sum:
  "\<forall>x \<in> set xs. (0::int) \<le> x \<Longrightarrow> length xs = g \<Longrightarrow> offsets_ok g (0 # partial_sum 0 xs)"
  using sorted_partial_sum [of xs 0] by (simp add: offsets_ok_def)


section \<open>Assembling a buffer from segments\<close>

text \<open>
  \<open>seg m offs sz i\<close>: the bytes of partition \<open>i\<close> when elements have \<open>sz\<close> bytes. A run of
  writes at increasing addresses that meet each other leaves the concatenation of the
  pieces, with the old bytes where nothing is written.
\<close>

definition seg :: "'a list \<Rightarrow> int list \<Rightarrow> nat \<Rightarrow> nat \<Rightarrow> 'a list" where
  "seg m offs sz i = subrange m (offs ! i * int sz) (offs ! Suc i * int sz)"

lemma sum_list_concat_map: "sum_list (concat (map f xs)) = sum_list (map (\<lambda>x. sum_list (f x)) xs)"
  by (induction xs) simp_all

lemma int_length_concat: "int (length (concat (map f xs))) = sum_list (map (\<lambda>x. int (length (f x))) xs)"
  by (induction xs) simp_all

lemma concat_map_if_singleton:
  "concat (map (\<lambda>i. if P i then [h i] else []) xs) = map h (filter P xs)"
  by (induction xs) auto

text \<open>\<open>addr\<close> is an increasing sequence of addresses up to \<open>addr n\<close>.\<close>

definition addresses :: "nat \<Rightarrow> (nat \<Rightarrow> int) \<Rightarrow> bool" where
  "addresses n addr \<longleftrightarrow> addr 0 = 0 \<and> (\<forall>i < n. addr i \<le> addr (Suc i))"

lemma addresses_mono: "addresses n addr \<Longrightarrow> i \<le> j \<Longrightarrow> j \<le> n \<Longrightarrow> addr i \<le> addr j"
proof (induction j)
  case 0
  then show ?case by simp
next
  case (Suc j)
  then show ?case by (cases "i = Suc j") (auto simp: addresses_def intro: order_trans)
qed

lemma addresses_nonneg: "addresses n addr \<Longrightarrow> i \<le> n \<Longrightarrow> 0 \<le> addr i"
  using addresses_mono [of n addr 0 i] by (simp add: addresses_def)

lemma addresses_offsets:
  assumes "offsets_ok n offs" and "offs ! 0 = 0"
  shows "addresses n (\<lambda>i. offs ! i * int sz)"
  using assms offsets_ok_mono [OF assms(1)] by (auto simp: addresses_def intro!: mult_right_mono)

lemma length_pieces:
  assumes "addresses n addr" and "\<forall>i < n. int (length (d i)) = addr (Suc i) - addr i" and "k \<le> n"
  shows "int (length (concat (map d [0..<k]))) = addr k"
  using assms(3)
proof (induction k)
  case 0
  then show ?case using assms(1) by (simp add: addresses_def)
next
  case (Suc k)
  then show ?case using assms(2) by simp
qed

lemma subrange_pieces:
  assumes "addresses n addr" and "\<forall>i < n. int (length (d i)) = addr (Suc i) - addr i" and "j < n"
  shows "subrange (concat (map d [0..<n])) (addr j) (addr (Suc j)) = d j"
proof -
  have "[0..<n] = [0..<j] @ j # [Suc j..<n]"
    using assms(3) upt_add_eq_append [of 0 j "n - j"] upt_conv_Cons [of j n] by simp
  then have split: "concat (map d [0..<n]) = concat (map d [0..<j]) @ d j @ concat (map d [Suc j..<n])"
    by simp
  have "length (concat (map d [0..<j])) = nat (addr j)"
    using length_pieces [OF assms(1,2), of j] assms(3) by simp
  moreover have "length (d j) = nat (addr (Suc j) - addr j)"
    using assms(2,3) by (metis nat_int)
  ultimately show ?thesis by (simp add: subrange_def split)
qed

lemma write_segments:
  assumes addr: "addresses n addr" and len: "int (length mem) = addr n"
    and d: "\<forall>i < n. P i \<longrightarrow> int (length (d i)) = addr (Suc i) - addr i" and "k \<le> n"
  shows "efold (\<lambda>m i. if P i then write_mem m (addr i) (d i) else Inr m) mem [0..<k] =
    Inr (concat (map (\<lambda>i. if P i then d i else subrange mem (addr i) (addr (Suc i))) [0..<k]) @ drop (nat (addr k)) mem)"
  using \<open>k \<le> n\<close>
proof (induction k)
  case 0
  then show ?case using addr by (simp add: addresses_def)
next
  case (Suc k)
  let ?piece = "\<lambda>i. if P i then d i else subrange mem (addr i) (addr (Suc i))"
  let ?pre = "concat (map ?piece [0..<k])"
  have bounds: "0 \<le> addr k" "addr k \<le> addr (Suc k)" "addr (Suc k) \<le> addr n"
    using Suc.prems addr addresses_nonneg [OF addr] addresses_mono [OF addr] by auto
  have "int (length (?piece i)) = addr (Suc i) - addr i" if "i < n" for i
    using that d len addresses_nonneg [OF addr, of i] addresses_mono [OF addr, of i "Suc i"]
      addresses_mono [OF addr, of "Suc i" n] by (auto simp: length_subrange)
  then have pre: "length ?pre = nat (addr k)"
    using length_pieces [OF addr, of ?piece k] Suc.prems by simp
  have drop_split: "drop (nat (addr k)) mem = subrange mem (addr k) (addr (Suc k)) @ drop (nat (addr (Suc k))) mem"
  proof -
    have "nat (addr (Suc k)) = nat (addr (Suc k) - addr k) + nat (addr k)" using bounds by auto
    then show ?thesis by (simp add: subrange_def flip: drop_drop)
  qed
  show ?case
  proof (cases "P k")
    case True
    then have dk: "int (length (d k)) = addr (Suc k) - addr k" using d Suc.prems by auto
    have "write_mem (?pre @ drop (nat (addr k)) mem) (addr k) (d k) =
        Inr (?pre @ d k @ drop (nat (addr (Suc k))) mem)"
    proof -
      have "nat (addr k) + length (d k) = nat (addr (Suc k))" using dk bounds by linarith
      moreover have "addr k + int (length (d k)) \<le> int (length (?pre @ drop (nat (addr k)) mem))"
        using pre len bounds dk by simp
      ultimately show ?thesis using pre bounds by (simp add: write_mem_def add.commute)
    qed
    then show ?thesis using Suc True by (simp add: efold_append)
  next
    case False
    then show ?thesis using Suc by (simp add: efold_append drop_split)
  qed
qed

lemma write_all_segments:
  assumes "addresses n addr" and "int (length mem) = addr n"
    and "\<forall>i < n. P i \<longrightarrow> int (length (d i)) = addr (Suc i) - addr i"
  shows "efold (\<lambda>m i. if P i then write_mem m (addr i) (d i) else Inr m) mem [0..<n] =
    Inr (concat (map (\<lambda>i. if P i then d i else subrange mem (addr i) (addr (Suc i))) [0..<n]))"
  using write_segments [OF assms order_refl] assms(2) by simp

lemma int_sum_list: "int (\<Sum>x \<leftarrow> xs. f x) = (\<Sum>x \<leftarrow> xs. int (f x))"
  by (induction xs) simp_all

lemma sum_list_upt: "(\<Sum>k \<leftarrow> [0..<n]. f k) = (\<Sum>k < n. f k)"
  by (simp add: interv_sum_list_conv_sum_set_nat atLeast0LessThan)

lemma concat_single:
  assumes "s < N"
  shows "concat (map (\<lambda>i. if i = s then x else []) [0..<N]) = x"
proof -
  have "[0..<N] = [0..<s] @ s # [Suc s..<N]"
    using assms upt_add_eq_append [of 0 s "N - s"] upt_conv_Cons [of s N] by simp
  moreover have "concat (map (\<lambda>i. if i = s then x else []) [0..<s]) = []"
    "concat (map (\<lambda>i. if i = s then x else []) [Suc s..<N]) = []"
    by (auto simp: concat_eq_Nil_conv)
  ultimately show ?thesis
    by (simp only: map_append concat_append list.map concat.simps simp_thms if_True append_Nil append_Nil2)
qed

end
