(* ===== verification/Comm_Group.thy ===== *)
theory Comm_Group
  imports Prelude
begin

text \<open>
  The class \<open>CommunicationGroup\<close> of \<open>src/src/all_to_all_comm.hpp\<close>: which ranks talk to
  each other in an all-to-all, and the numbering of the members inside the group. Ranks
  and sizes are non-negative \<open>int\<close>s of the code, here \<open>nat\<close>; the operands of every
  \<open>/\<close> and \<open>%\<close> are non-negative, so \<open>div\<close> and \<open>mod\<close> are the C++ operations.
\<close>

section \<open>State and operations\<close>

record comm_group =
  mpi_rank :: rank
  group_start :: nat
  grid_size :: nat
  stride :: nat

text \<open>
  The constructor on the rank \<open>r\<close> that \<open>MPI_Comm_rank\<close> reports: \<open>comm_group_at\<close> is the
  object it builds, \<open>CommunicationGroup\<close> adds the trap of a zero divisor and the assertion
  that the stride divides the grid.
\<close>

definition comm_group_at :: "nat \<Rightarrow> nat \<Rightarrow> rank \<Rightarrow> comm_group" where
  "comm_group_at grid st r =
     \<lparr>mpi_rank = r, group_start = r div grid * grid + r mod st, grid_size = grid, stride = st\<rparr>"

definition CommunicationGroup :: "nat \<Rightarrow> nat \<Rightarrow> rank \<Rightarrow> comm_group res" where
  "CommunicationGroup grid st r =
     (if st = 0 then Inl DivideByZero
      else if grid mod st \<noteq> 0 then Inl AssertFailed
      else if grid = 0 then Inl DivideByZero
      else Inr (comm_group_at grid st r))"

definition group_size :: "comm_group \<Rightarrow> nat" where
  "group_size g = grid_size g div stride g"

definition get_global_rank :: "comm_group \<Rightarrow> nat \<Rightarrow> rank" where
  "get_global_rank g local_idx = group_start g + local_idx * stride g"

definition get_local_idx :: "comm_group \<Rightarrow> nat" where
  "get_local_idx g = (mpi_rank g - group_start g) div stride g"

text \<open>The members of the group, in the order every loop over the group visits them.\<close>

definition members :: "comm_group \<Rightarrow> rank list" where
  "members g = map (get_global_rank g) [0..<group_size g]"

text \<open>
  What the class comment asks of its arguments: the grid divides the number \<open>N\<close> of ranks
  and the stride divides the grid; the number of ranks is an \<open>int\<close>.
\<close>

definition group_params :: "nat \<Rightarrow> nat \<Rightarrow> nat \<Rightarrow> bool" where
  "group_params N grid st \<longleftrightarrow> 0 < st \<and> 0 < grid \<and> st dvd grid \<and> grid dvd N \<and> N < 2 ^ 31"

section \<open>Facts of the numbering\<close>

lemma CommunicationGroup_ok:
  "group_params N grid st \<Longrightarrow> CommunicationGroup grid st r = Inr (comm_group_at grid st r)"
  by (auto simp: CommunicationGroup_def group_params_def)

lemma group_fields [simp]:
  "mpi_rank (comm_group_at grid st r) = r"
  "grid_size (comm_group_at grid st r) = grid"
  "stride (comm_group_at grid st r) = st"
  by (simp_all add: comm_group_at_def)

lemma group_size_at: "group_size (comm_group_at grid st r) = grid div st"
  by (simp add: group_size_def)

lemma group_size_pos: "group_params N grid st \<Longrightarrow> 0 < group_size (comm_group_at grid st r)"
  by (auto simp: group_params_def group_size_at dvd_imp_le div_greater_zero_iff)

lemma length_members [simp]: "length (members g) = group_size g"
  by (simp add: members_def)

lemma nth_members: "i < group_size g \<Longrightarrow> members g ! i = get_global_rank g i"
  by (simp add: members_def)

lemma global_rank_inj:
  "0 < stride g \<Longrightarrow> get_global_rank g i = get_global_rank g j \<longleftrightarrow> i = j"
  by (simp add: get_global_rank_def)

lemma distinct_members: "0 < stride g \<Longrightarrow> distinct (members g)"
  by (auto simp: members_def distinct_map inj_on_def global_rank_inj)

text \<open>The decomposition of a rank into grid, position in the group and residue.\<close>

lemma rank_decomposition:
  assumes "group_params N grid st"
  shows "r = group_start (comm_group_at grid st r) + (r mod grid) div st * st"
proof -
  from assms have "st dvd grid" by (simp add: group_params_def)
  then have "r mod grid mod st = r mod st" by (rule mod_mod_cancel)
  then have "r mod grid = (r mod grid) div st * st + r mod st"
    by (metis div_mult_mod_eq)
  moreover have "r = r div grid * grid + r mod grid" by simp
  ultimately have "r = r div grid * grid + r mod st + (r mod grid) div st * st"
    by linarith
  then show ?thesis by (simp only: comm_group_at_def comm_group.simps)
qed

lemma local_idx_eq:
  assumes "group_params N grid st"
  shows "get_local_idx (comm_group_at grid st r) = (r mod grid) div st"
proof -
  from rank_decomposition [OF assms, of r]
  have "r - group_start (comm_group_at grid st r) = (r mod grid) div st * st" by linarith
  then show ?thesis using assms by (simp add: get_local_idx_def group_params_def)
qed

lemma own_global_rank:
  assumes "group_params N grid st"
  shows "get_global_rank (comm_group_at grid st r) (get_local_idx (comm_group_at grid st r)) = r"
  using rank_decomposition [OF assms, of r]
  by (simp add: get_global_rank_def local_idx_eq [OF assms])

lemma local_idx_less:
  assumes "group_params N grid st"
  shows "get_local_idx (comm_group_at grid st r) < group_size (comm_group_at grid st r)"
proof -
  from assms have pos: "0 < grid" "0 < st" and "st dvd grid"
    by (auto simp: group_params_def)
  then have "(r mod grid) div st < grid div st"
    by (metis dvd_div_mult_self less_mult_imp_div_less mod_less_divisor)
  then show ?thesis by (simp add: local_idx_eq [OF assms] group_size_at)
qed

text \<open>The member at position \<open>i\<close> lies in the same grid, in the same residue class.\<close>

lemma member_coordinates:
  assumes "group_params N grid st" and "i < group_size (comm_group_at grid st r)"
  defines "m \<equiv> get_global_rank (comm_group_at grid st r) i"
  shows "m div grid = r div grid" and "m mod st = r mod st" and "(m mod grid) div st = i"
proof -
  from assms(1) have pos: "0 < st" "0 < grid" and dvd: "st dvd grid"
    by (auto simp: group_params_def)
  from assms(2) dvd have "i * st + st \<le> grid"
    by (metis add.commute dvd_div_mult_self group_size_at less_eq_Suc_le mult_Suc mult_le_mono1)
  moreover have "r mod st < st" using pos by simp
  ultimately have less: "r mod st + i * st < grid" by linarith
  have m: "m = r div grid * grid + (r mod st + i * st)"
    by (simp add: m_def get_global_rank_def comm_group_at_def)
  with less show "m div grid = r div grid" by simp
  from m less have mg: "m mod grid = r mod st + i * st" by simp
  from dvd obtain k where "grid = st * k" by blast
  then have "m = r mod st + st * (r div grid * k + i)" by (simp add: m algebra_simps)
  then show "m mod st = r mod st" by (simp only: mod_mult_self2 mod_mod_trivial)
  show "(m mod grid) div st = i" using pos by (simp add: mg)
qed

lemma member_same_group:
  assumes "group_params N grid st" and "i < group_size (comm_group_at grid st r)"
  shows "group_start (comm_group_at grid st (get_global_rank (comm_group_at grid st r) i))
           = group_start (comm_group_at grid st r)"
  using member_coordinates [OF assms] by (simp add: comm_group_at_def)

lemma member_global_rank:
  assumes "group_params N grid st" and "i < group_size (comm_group_at grid st r)"
  shows "get_global_rank (comm_group_at grid st (get_global_rank (comm_group_at grid st r) i)) j
           = get_global_rank (comm_group_at grid st r) j"
  using member_same_group [OF assms] by (simp add: get_global_rank_def)

lemma member_members:
  assumes "group_params N grid st" and "i < group_size (comm_group_at grid st r)"
  shows "members (comm_group_at grid st (get_global_rank (comm_group_at grid st r) i))
           = members (comm_group_at grid st r)"
  using member_global_rank [OF assms] by (simp add: members_def group_size_at)

lemma member_local_idx:
  assumes "group_params N grid st" and "i < group_size (comm_group_at grid st r)"
  shows "get_local_idx (comm_group_at grid st (get_global_rank (comm_group_at grid st r) i)) = i"
  using member_coordinates [OF assms] by (simp add: local_idx_eq [OF assms(1)])

lemma member_less:
  assumes "group_params N grid st" and "i < group_size (comm_group_at grid st r)" and "r < N"
  shows "get_global_rank (comm_group_at grid st r) i < N"
proof -
  from assms(1) obtain k where N: "N = grid * k" and pos: "0 < grid"
    by (auto simp: group_params_def)
  with assms(3) have "r div grid < k" by (simp add: less_mult_imp_div_less mult.commute)
  with member_coordinates(1) [OF assms(1,2)] N pos show ?thesis
    by (metis div_less_iff_less_mult mult.commute)
qed

lemma members_less:
  assumes "group_params N grid st" and "r < N" and "s \<in> set (members (comm_group_at grid st r))"
  shows "s < N"
  using assms member_less [OF assms(1)] by (auto simp: members_def)

lemma members_iff:
  assumes "group_params N grid st"
  shows "s \<in> set (members (comm_group_at grid st r)) \<longleftrightarrow>
           s div grid = r div grid \<and> s mod st = r mod st"
proof
  assume "s \<in> set (members (comm_group_at grid st r))"
  then show "s div grid = r div grid \<and> s mod st = r mod st"
    using member_coordinates [OF assms] by (auto simp: members_def)
next
  assume s: "s div grid = r div grid \<and> s mod st = r mod st"
  then have "group_start (comm_group_at grid st s) = group_start (comm_group_at grid st r)"
    by (simp add: comm_group_at_def)
  then have "get_global_rank (comm_group_at grid st r) (get_local_idx (comm_group_at grid st s)) = s"
    using own_global_rank [OF assms, of s] by (simp add: get_global_rank_def)
  moreover have "get_local_idx (comm_group_at grid st s) < group_size (comm_group_at grid st r)"
    using local_idx_less [OF assms, of s] by (simp add: group_size_at)
  ultimately show "s \<in> set (members (comm_group_at grid st r))"
    by (force simp: members_def)
qed

lemma members_self: "group_params N grid st \<Longrightarrow> r \<in> set (members (comm_group_at grid st r))"
  by (simp add: members_iff)

lemma members_sym:
  "group_params N grid st \<Longrightarrow>
     s \<in> set (members (comm_group_at grid st r)) \<longleftrightarrow> r \<in> set (members (comm_group_at grid st s))"
  by (auto simp: members_iff)

text \<open>The two groups of the distributed join: all ranks, and the ranks one stride apart.\<close>

lemma members_stride1:
  "members (comm_group_at n 1 r) = map (\<lambda>i. r div n * n + i) [0..<n]"
  by (simp add: members_def get_global_rank_def comm_group_at_def group_size_def)

lemma members_all:
  "r < n \<Longrightarrow> members (comm_group_at n 1 r) = [0..<n]"
  unfolding members_stride1 by (simp add: map_idI)

lemmas group_facts =
  group_size_at own_global_rank local_idx_less member_global_rank member_members member_local_idx

end
