(* ===== verification/Transport.thy ===== *)
theory Transport
  imports Comm_Group
begin

text \<open>
  Point-to-point message exchange as the program relies on it. A collective step of the
  SPMD program is a round: every rank posts a list of sends (destination and message)
  and a list of receives (source ranks). MPI and the classes derived from \<open>Communicator\<close>
  match the receives a rank posts for a source with the messages that source sent to it,
  in order. The locale \<open>p2p_transport\<close> is that promise; the clients' lemmas are proved in
  it once, and every communicator of the program is an instance.
\<close>

section \<open>Matching receives with sends\<close>

text \<open>The messages addressed to rank \<open>r\<close> among the sends of one rank, in posting order.\<close>

definition msgs_to :: "(rank \<times> 'm) list \<Rightarrow> rank \<Rightarrow> 'm list" where
  "msgs_to snds r = map snd (filter (\<lambda>p. fst p = r) snds)"

fun match_recvs :: "('k \<Rightarrow> 'm list) \<Rightarrow> 'k list \<Rightarrow> ('m list \<times> ('k \<Rightarrow> 'm list)) res" where
  "match_recvs q [] = Inr ([], q)"
| "match_recvs q (s # ss) =
     (case q s of
        [] \<Rightarrow> Inl Unmatched
      | m # ms \<Rightarrow> ebind (match_recvs (q(s := ms)) ss) (\<lambda>(rs, q'). Inr (m # rs, q')))"

definition incoming_queues :: "(rank \<times> 'm) list list \<Rightarrow> rank \<Rightarrow> rank \<Rightarrow> 'm list" where
  "incoming_queues snds r s = (if s < length snds then msgs_to (snds ! s) r else [])"

definition fifo_exchange :: "(rank \<times> 'm) list list \<Rightarrow> rank \<Rightarrow> rank list \<Rightarrow> 'm list res" where
  "fifo_exchange snds r srcs = ebind (match_recvs (incoming_queues snds r) srcs) (\<lambda>(ms, q). Inr ms)"

text \<open>
  The rounds a transport has to serve: \<open>N\<close> ranks (\<open>mpi_size\<close> is an \<open>int\<close>) send admissible messages to each other,
  and at most one per destination unless the transport can take several.
\<close>

definition admissible :: "('m \<Rightarrow> bool) \<Rightarrow> nat \<Rightarrow> bool \<Rightarrow> (rank \<times> 'm) list list \<Rightarrow> bool" where
  "admissible okm N multi snds \<longleftrightarrow>
     length snds = N \<and> N < 2 ^ 31 \<and>
     (\<forall>xs \<in> set snds. (\<forall>p \<in> set xs. fst p < N \<and> okm (snd p)) \<and> (multi \<or> distinct (map fst xs)))"

lemma msgs_to_append [simp]: "msgs_to (xs @ ys) r = msgs_to xs r @ msgs_to ys r"
  by (simp add: msgs_to_def)

lemma msgs_to_concat: "msgs_to (concat xss) r = concat (map (\<lambda>xs. msgs_to xs r) xss)"
  by (induction xss) (simp_all add: msgs_to_def)

lemma msgs_to_Nil [simp]: "msgs_to [] r = []"
  by (simp add: msgs_to_def)

lemma msgs_to_map_distinct:
  assumes "distinct is" and "inj_on f (set is)" and "k \<in> set is"
  shows "msgs_to (map (\<lambda>i. (f i, d i)) is) (f k) = [d k]"
  using assms
proof (induction "is")
  case Nil
  then show ?case by simp
next
  case (Cons i "is")
  show ?case
  proof (cases "k = i")
    case True
    with Cons.prems have "filter (\<lambda>p. fst p = f k) (map (\<lambda>i. (f i, d i)) is) = []"
      by (force simp: filter_empty_conv inj_on_def)
    with True show ?thesis by (simp add: msgs_to_def)
  next
    case False
    with Cons.prems have "f i \<noteq> f k" and "k \<in> set is" by (auto simp: inj_on_def)
    with Cons show ?thesis by (simp add: msgs_to_def)
  qed
qed

lemma msgs_to_absent: "(\<And>i. i \<in> set is \<Longrightarrow> f i \<noteq> r) \<Longrightarrow> msgs_to (map (\<lambda>i. (f i, d i)) is) r = []"
  by (auto simp: msgs_to_def filter_empty_conv)

lemma match_recvs_append:
  "match_recvs q (xs @ ys) =
     ebind (match_recvs q xs) (\<lambda>(ms, q'). ebind (match_recvs q' ys) (\<lambda>(ns, q''). Inr (ms @ ns, q'')))"
proof (induction xs arbitrary: q)
  case Nil
  show ?case by (cases "match_recvs q ys") auto
next
  case (Cons x xs)
  show ?case
  proof (cases "q x")
    case Nil
    then show ?thesis by simp
  next
    case (Cons m ms)
    then show ?thesis
      by (simp add: Cons.IH ebind_assoc split_def fun_upd_def)
  qed
qed

lemma match_recvs_distinct:
  assumes "distinct ss" and "\<forall>s \<in> set ss. q s \<noteq> []"
  shows "match_recvs q ss = Inr (map (\<lambda>s. hd (q s)) ss, \<lambda>s. if s \<in> set ss then tl (q s) else q s)"
  using assms
proof (induction ss arbitrary: q)
  case Nil
  then show ?case by simp
next
  case (Cons s ss)
  then obtain m ms where q: "q s = m # ms" by (auto simp: neq_Nil_conv)
  let ?q = "q(s := ms)"
  have "match_recvs ?q ss = Inr (map (\<lambda>s. hd (?q s)) ss, \<lambda>t. if t \<in> set ss then tl (?q t) else ?q t)"
    using Cons.prems by (intro Cons.IH) auto
  moreover have "map (\<lambda>s. hd (?q s)) ss = map (\<lambda>s. hd (q s)) ss"
    using Cons.prems by auto
  moreover have "(\<lambda>t. if t \<in> set ss then tl (?q t) else ?q t) =
      (\<lambda>t. if t \<in> set (s # ss) then tl (q t) else q t)"
    using Cons.prems q by (auto simp: fun_eq_iff)
  ultimately show ?case by (simp add: q)
qed

text \<open>
  Several messages per pair: when every source has sent one message for each of the
  steps \<open>bs\<close> and the receives are posted step by step, step \<open>b\<close> receives the messages
  of step \<open>b\<close>.
\<close>

lemma match_recvs_grouped:
  assumes "distinct ss" and "\<forall>s \<in> set ss. q s = map (\<lambda>b. f b s) bs"
  shows "\<exists>q'. match_recvs q (concat (map (\<lambda>_. ss) bs)) = Inr (concat (map (\<lambda>b. map (f b) ss) bs), q')"
  using assms(2)
proof (induction bs arbitrary: q)
  case Nil
  then show ?case by simp
next
  case (Cons b bs)
  let ?q = "\<lambda>s. if s \<in> set ss then tl (q s) else q s"
  have "match_recvs q ss = Inr (map (\<lambda>s. hd (q s)) ss, ?q)"
    using Cons.prems by (intro match_recvs_distinct assms(1)) auto
  moreover have "map (\<lambda>s. hd (q s)) ss = map (f b) ss"
    using Cons.prems by auto
  moreover obtain q' where
    "match_recvs ?q (concat (map (\<lambda>_. ss) bs)) = Inr (concat (map (\<lambda>b. map (f b) ss) bs), q')"
    using Cons.IH [of ?q] Cons.prems by auto
  ultimately show ?case by (simp add: match_recvs_append)
qed

text \<open>Matching commutes with a conversion of the messages, and only delivers what was sent.\<close>

lemma match_recvs_messages:
  "match_recvs q xs = Inr (ms, qr) \<Longrightarrow>
     (\<exists>qr'. match_recvs (\<lambda>s. map f (q s)) xs = Inr (map f ms, qr')) \<and>
     length ms = length xs \<and> set ms \<subseteq> (\<Union>s. set (q s))"
proof (induction xs arbitrary: q ms)
  case Nil
  then show ?case by simp
next
  case (Cons x xs)
  then obtain m rest ms' where q: "q x = m # rest" and ms: "ms = m # ms'"
    and rec: "match_recvs (q(x := rest)) xs = Inr (ms', qr)"
    by (cases "q x") (auto simp: res_simps)
  have f: "(\<lambda>s. map f ((q(x := rest)) s)) = (\<lambda>s. map f (q s))(x := map f rest)" by auto
  note ih' = Cons.IH [OF rec]
  note ih = ih' [THEN conjunct2, THEN conjunct1] ih' [THEN conjunct2, THEN conjunct2]
  from ih' [THEN conjunct1, unfolded f]
  obtain qr' where "match_recvs ((\<lambda>s. map f (q s))(x := map f rest)) xs = Inr (map f ms', qr')" ..
  moreover have "set ms \<subseteq> (\<Union>s. set (q s))"
  proof -
    have "set ((q(x := rest)) s) \<subseteq> set (q s)" for s using q by (cases "s = x") (simp_all add: subset_insertI)
    then have "(\<Union>s. set ((q(x := rest)) s)) \<subseteq> (\<Union>s. set (q s))" by (rule UN_mono [OF subset_refl])
    with ih(2) have "set ms' \<subseteq> (\<Union>s. set (q s))" by (rule subset_trans)
    moreover have "m \<in> set (q x)" using q by simp
    ultimately show ?thesis using ms by auto
  qed
  ultimately show ?case using q ms ih(1) by simp
qed

lemma incoming_queues_map:
  "incoming_queues (map (map (\<lambda>p. (fst p, f (snd p)))) snds) r = (\<lambda>s. map f (incoming_queues snds r s))"
  by (auto simp: incoming_queues_def msgs_to_def filter_map comp_def fun_eq_iff)

lemma fifo_exchange_map:
  assumes "fifo_exchange snds r srcs = Inr ms"
  shows "fifo_exchange (map (map (\<lambda>p. (fst p, f (snd p)))) snds) r srcs = Inr (map f ms)"
    and "length ms = length srcs"
    and "m \<in> set ms \<Longrightarrow> \<exists>xs \<in> set snds. \<exists>p \<in> set xs. m = snd p"
proof -
  obtain qr where m: "match_recvs (incoming_queues snds r) srcs = Inr (ms, qr)"
    using assms by (auto simp: fifo_exchange_def res_simps)
  note mm = match_recvs_messages [OF m, of f]
  show "fifo_exchange (map (map (\<lambda>p. (fst p, f (snd p)))) snds) r srcs = Inr (map f ms)"
    using mm by (auto simp: fifo_exchange_def incoming_queues_map)
  show "length ms = length srcs" using mm by blast
  show "\<exists>xs \<in> set snds. \<exists>p \<in> set xs. m = snd p" if "m \<in> set ms"
  proof -
    obtain s where "m \<in> set (incoming_queues snds r s)" using mm \<open>m \<in> set ms\<close> by blast
    then have "s < length snds" and "m \<in> snd ` set (snds ! s)"
      by (auto simp: incoming_queues_def msgs_to_def split: if_splits)
    then show ?thesis using nth_mem [of s snds] by blast
  qed
qed

section \<open>The interface\<close>

text \<open>
  \<open>exch snds r srcs\<close> is what rank \<open>r\<close> has received, in the order of its posted receives
  \<open>srcs\<close>, when the round in which rank \<open>s\<close> posted \<open>snds ! s\<close> is over. The law: in an
  admissible round, if first-in-first-out matching serves every receive, the round
  returns exactly those messages. \<open>multi\<close> says whether two ranks may exchange several
  messages in one round, which is what \<open>group_by_batch\<close> asks of a communicator.
\<close>

locale p2p_transport =
  fixes exch :: "(rank \<times> 'm) list list \<Rightarrow> rank \<Rightarrow> rank list \<Rightarrow> 'm list res"
    and okm :: "'m \<Rightarrow> bool"
    and N :: nat
    and multi :: bool
  assumes exch_fifo:
    "admissible okm N multi snds \<Longrightarrow> r < N \<Longrightarrow> fifo_exchange snds r srcs = Inr ms \<Longrightarrow> exch snds r srcs = Inr ms"
begin

lemma grouped_round:
  assumes "admissible okm N multi snds" and "r < N" and "distinct ss"
    and "\<forall>s \<in> set ss. s < length snds \<and> msgs_to (snds ! s) r = map (\<lambda>b. f b s) bs"
  shows "exch snds r (concat (map (\<lambda>_. ss) bs)) = Inr (concat (map (\<lambda>b. map (f b) ss) bs))"
proof -
  have "\<forall>s \<in> set ss. incoming_queues snds r s = map (\<lambda>b. f b s) bs"
    using assms(4) by (auto simp: incoming_queues_def)
  from match_recvs_grouped [OF assms(3) this]
  have "fifo_exchange snds r (concat (map (\<lambda>_. ss) bs)) = Inr (concat (map (\<lambda>b. map (f b) ss) bs))"
    by (auto simp: fifo_exchange_def)
  with assms(1,2) show ?thesis by (rule exch_fifo)
qed

lemma single_round:
  assumes "admissible okm N multi snds" and "r < N" and "distinct ss"
    and "\<forall>s \<in> set ss. s < length snds \<and> msgs_to (snds ! s) r = [f s]"
  shows "exch snds r ss = Inr (map f ss)"
  using grouped_round [OF assms(1-3), of "\<lambda>_. f" "[0]"] assms(4) by simp

end

text \<open>
  Matching in order is itself a transport: the reference instance, and the one the
  witnesses use for MPI.
\<close>

interpretation fifo: p2p_transport fifo_exchange "\<lambda>_. True" N multi for N multi
  by unfold_locales

end
