(* ===== verification/Size_Exchange.thy ===== *)
theory Size_Exchange
  imports Transport
begin

text \<open>
  The two overloads of \<open>communicate_sizes\<close> (\<open>src/src/all_to_all_comm.cpp\<close>): every rank
  tells every member of its group how many elements it will send, over MPI, and turns
  the counts it receives into receive offsets. The functions are collective: they take
  the argument of every rank, in rank order, and return the result of every rank. MPI is
  the parameter \<open>mpi\<close>, a transport of \<open>int64_t\<close> messages. Offsets are \<open>int\<close>s: they are
  positions in device buffers, far below the bounds of \<open>int64_t\<close>.
\<close>

section \<open>The operations\<close>

definition size_messages :: "comm_group \<Rightarrow> int list \<Rightarrow> (rank \<times> int) list res" where
  "size_messages g send_offset =
     emap (\<lambda>local_idx.
        ebind (vec_at send_offset (Suc local_idx)) (\<lambda>b.
        ebind (vec_at send_offset local_idx) (\<lambda>a.
          Inr (get_global_rank g local_idx, b - a))))
      [0..<group_size g]"

definition communicate_sizes ::
  "((rank \<times> int) list list \<Rightarrow> rank \<Rightarrow> rank list \<Rightarrow> int list res) \<Rightarrow> nat \<Rightarrow> nat \<Rightarrow>
     int list list \<Rightarrow> int list list res" where
  "communicate_sizes mpi grid st send_offsets =
     ebind (emap (\<lambda>r. size_messages (comm_group_at grid st r) (send_offsets ! r))
              [0..<length send_offsets]) (\<lambda>snds.
       emap (\<lambda>r. ebind (mpi snds r (members (comm_group_at grid st r))) (\<lambda>recv_count.
              Inr (0 # partial_sum 0 recv_count)))
         [0..<length send_offsets])"

text \<open>The overload for \<open>cudf::size_type\<close> offsets widens them to \<open>int64_t\<close> first.\<close>

definition communicate_sizes_size_type ::
  "((rank \<times> int) list list \<Rightarrow> rank \<Rightarrow> rank list \<Rightarrow> int list res) \<Rightarrow> nat \<Rightarrow> nat \<Rightarrow>
     32 word list list \<Rightarrow> int list list res" where
  "communicate_sizes_size_type mpi grid st send_offsets =
     communicate_sizes mpi grid st (map (map sint) send_offsets)"

section \<open>What every rank learns\<close>

text \<open>
  The count rank \<open>r\<close> has to receive from rank \<open>s\<close>: what \<open>s\<close> keeps for the local index of
  \<open>r\<close>.
\<close>

definition sent_count :: "int list list \<Rightarrow> nat \<Rightarrow> rank \<Rightarrow> int" where
  "sent_count offs k s = offs ! s ! Suc k - offs ! s ! k"

definition recv_offsets_spec :: "nat \<Rightarrow> nat \<Rightarrow> int list list \<Rightarrow> rank \<Rightarrow> int list" where
  "recv_offsets_spec grid st offs r =
     0 # partial_sum 0 (map (sent_count offs (get_local_idx (comm_group_at grid st r)))
                          (members (comm_group_at grid st r)))"

lemma size_messages_ok:
  assumes "length offs = Suc (group_size g)"
  shows "size_messages g offs =
     Inr (map (\<lambda>i. (get_global_rank g i, offs ! Suc i - offs ! i)) [0..<group_size g])"
  using assms unfolding size_messages_def by (intro emap_Inr) auto

text \<open>
  One pattern serves every collective of the program: rank \<open>s\<close> posts one message for
  each of its members, so the member at local index \<open>k\<close> finds exactly the message for
  \<open>k\<close>.
\<close>

lemma msgs_to_member:
  assumes "group_params N grid st" and "s \<in> set (members (comm_group_at grid st r))"
  shows "msgs_to (map (\<lambda>i. (get_global_rank (comm_group_at grid st s) i, d i))
                    [0..<group_size (comm_group_at grid st s)]) r
           = [d (get_local_idx (comm_group_at grid st r))]"
proof -
  let ?g = "comm_group_at grid st s" and ?k = "get_local_idx (comm_group_at grid st r)"
  from assms have "r \<in> set (members ?g)" by (simp add: members_sym)
  then obtain i where i: "i < group_size ?g" "get_global_rank ?g i = r"
    by (auto simp: members_def)
  with assms(1) have "?k = i" by (metis member_local_idx)
  moreover have "inj_on (get_global_rank ?g) (set [0..<group_size ?g])"
    using assms(1) by (auto simp: inj_on_def global_rank_inj group_params_def)
  ultimately show ?thesis
    using i msgs_to_map_distinct [of "[0..<group_size ?g]" "get_global_rank ?g" ?k d] by simp
qed

lemma communicate_sizes_eq:
  assumes mpi: "p2p_transport mpi (\<lambda>_. True) N False"
    and grp: "group_params N grid st" and N: "length offs = N"
    and len: "\<forall>r < N. length (offs ! r) = Suc (grid div st)"
  shows "communicate_sizes mpi grid st offs = Inr (map (recv_offsets_spec grid st offs) [0..<N])"
proof -
  let ?g = "comm_group_at grid st"
  let ?snd = "\<lambda>s. map (\<lambda>i. (get_global_rank (?g s) i, offs ! s ! Suc i - offs ! s ! i))
                [0..<group_size (?g s)]"
  have snds: "emap (\<lambda>r. size_messages (?g r) (offs ! r)) [0..<length offs] = Inr (map ?snd [0..<N])"
    unfolding N using len by (intro emap_Inr size_messages_ok) (simp add: group_size_at)
  have recv: "mpi (map ?snd [0..<N]) r (members (?g r)) =
      Inr (map (sent_count offs (get_local_idx (?g r))) (members (?g r)))" if "r < N" for r
  proof (rule p2p_transport.single_round [OF mpi])
    show "distinct (members (?g r))"
      using grp by (intro distinct_members) (simp add: group_params_def)
    have "distinct (members (?g s))" for s
      using grp by (intro distinct_members) (simp add: group_params_def)
    then have "distinct (map fst (?snd s))" for s by (simp add: members_def comp_def)
    then show "admissible (\<lambda>_. True) N False (map ?snd [0..<N])"
      using member_less [OF grp] grp by (auto simp: admissible_def group_params_def)
    show "\<forall>s \<in> set (members (?g r)). s < length (map ?snd [0..<N]) \<and>
        msgs_to (map ?snd [0..<N] ! s) r = [sent_count offs (get_local_idx (?g r)) s]"
      using members_less [OF grp that] msgs_to_member [OF grp] by (auto simp: sent_count_def)
  qed (rule that)
  have "communicate_sizes mpi grid st offs =
      emap (\<lambda>r. ebind (mpi (map ?snd [0..<N]) r (members (?g r))) (\<lambda>c. Inr (0 # partial_sum 0 c))) [0..<N]"
    unfolding communicate_sizes_def by (simp only: N snds [unfolded N] ebind.simps)
  also have "\<dots> = Inr (map (recv_offsets_spec grid st offs) [0..<N])"
    by (rule emap_Inr) (simp add: recv recv_offsets_spec_def)
  finally show ?thesis .
qed

lemma length_recv_offsets_spec [simp]:
  "length (recv_offsets_spec grid st offs r) = Suc (grid div st)"
  by (simp add: recv_offsets_spec_def group_size_at)

lemma recv_offsets_spec_diff:
  assumes "i < grid div st"
  shows "recv_offsets_spec grid st offs r ! Suc i - recv_offsets_spec grid st offs r ! i =
     sent_count offs (get_local_idx (comm_group_at grid st r))
       (get_global_rank (comm_group_at grid st r) i)"
  using assms unfolding recv_offsets_spec_def
  by (subst partial_sum_diff) (auto simp: group_size_at nth_members)

lemma recv_offsets_spec_0 [simp]: "recv_offsets_spec grid st offs r ! 0 = 0"
  by (simp add: recv_offsets_spec_def)

lemma recv_offsets_spec_ok:
  assumes "group_params N grid st" and "r < N" and "\<forall>s < N. offsets_ok (grid div st) (offs ! s)"
  shows "offsets_ok (grid div st) (recv_offsets_spec grid st offs r)"
proof -
  let ?g = "comm_group_at grid st r"
  have "get_local_idx ?g < grid div st"
    using local_idx_less [OF assms(1), of r] by (simp add: group_size_at)
  then have "0 \<le> sent_count offs (get_local_idx ?g) s" if "s \<in> set (members ?g)" for s
    using offsets_ok_mono [of "grid div st" "offs ! s" "get_local_idx ?g" "Suc (get_local_idx ?g)"]
      members_less [OF assms(1,2) that] assms(3) by (simp add: sent_count_def)
  then show ?thesis
    unfolding recv_offsets_spec_def by (intro offsets_ok_partial_sum) (auto simp: group_size_at)
qed

end
