(* ===== verification/Table.thy ===== *)
theory Table
  imports Prelude
begin

unbundle bit_operations_syntax

text \<open>
  The data the program moves: columns and tables of cuDF as the sources use them, and
  the byte image of the \<open>int32_t\<close> device vectors (string sizes, string offsets) that the
  communicator transports as untyped memory. cuDF itself is not part of the repository:
  its type traits are the parameter record \<open>cudf\<close> over the type \<open>'d\<close> of its fixed-width
  data types, and \<open>cudf_ok\<close> states what its documentation says of them.
\<close>

section \<open>Element types\<close>

text \<open>
  The C++ element types \<open>cudf::type_dispatcher\<close> selects a template instance by. A
  timestamp or duration type carries its representation type \<open>T::rep\<close>.
\<close>

datatype ctype =
    Int8 | UInt8 | Int16 | UInt16 | Int32 | UInt32 | Int64 | UInt64
  | Bool8 | Float32 | Float64
  | TimeT ctype
  | OtherT

fun sizeof :: "ctype \<Rightarrow> nat" where
  "sizeof Int8 = 1"
| "sizeof UInt8 = 1"
| "sizeof Bool8 = 1"
| "sizeof Int16 = 2"
| "sizeof UInt16 = 2"
| "sizeof Int32 = 4"
| "sizeof UInt32 = 4"
| "sizeof Float32 = 4"
| "sizeof Int64 = 8"
| "sizeof UInt64 = 8"
| "sizeof Float64 = 8"
| "sizeof (TimeT rep) = sizeof rep"
| "sizeof OtherT = 0"

record 'd cudf =
  size_of :: "'d \<Rightarrow> nat"
  type_dispatcher :: "'d \<Rightarrow> ctype"
  offset_dtype :: 'd
  char_dtype :: 'd

text \<open>
  Documented facts: every fixed-width type has a positive size, which is the size of the
  C++ type it dispatches to when that is one of the types above; the two subcolumns of a
  string column hold \<open>INT32\<close> offsets and \<open>INT8\<close> characters.
\<close>

definition cudf_ok :: "'d cudf \<Rightarrow> bool" where
  "cudf_ok env \<longleftrightarrow>
     (\<forall>d. 0 < size_of env d) \<and>
     (\<forall>d. 0 < sizeof (type_dispatcher env d) \<longrightarrow> size_of env d = sizeof (type_dispatcher env d)) \<and>
     type_dispatcher env (offset_dtype env) = Int32 \<and>
     type_dispatcher env (char_dtype env) = Int8"

lemma cudf_ok_size [simp]: "cudf_ok env \<Longrightarrow> 0 < size_of env d"
  by (simp add: cudf_ok_def)

lemma cudf_ok_offset [simp]: "cudf_ok env \<Longrightarrow> size_of env (offset_dtype env) = 4"
  unfolding cudf_ok_def by (metis sizeof.simps(6) zero_less_numeral)

lemma cudf_ok_char [simp]: "cudf_ok env \<Longrightarrow> size_of env (char_dtype env) = 1"
  unfolding cudf_ok_def by (metis sizeof.simps(1) zero_less_one)

section \<open>Columns and tables\<close>

text \<open>
  A fixed-width column is its data type and its device buffer (\<open>head()\<close>); a string
  column is its offset subcolumn (\<open>child(0)\<close>) and its char subcolumn (\<open>child(1)\<close>).
\<close>

datatype 'd column =
    is_FixedWidth: FixedWidth (dtype: 'd) (head: "byte list")
  | is_Strings: Strings (offsets: "32 word list") (chars: "byte list")

type_synonym 'd table = "'d column list"

fun column_size :: "'d cudf \<Rightarrow> 'd column \<Rightarrow> nat" where
  "column_size env (FixedWidth d bs) = length bs div size_of env d"
| "column_size env (Strings offs cs) = length offs - 1"

text \<open>Well-formed columns of \<open>n\<close> rows, and the rows they hold (each the bytes of a value).\<close>

fun column_ok :: "'d cudf \<Rightarrow> nat \<Rightarrow> 'd column \<Rightarrow> bool" where
  "column_ok env n (FixedWidth d bs) \<longleftrightarrow> length bs = n * size_of env d"
| "column_ok env n (Strings offs cs) \<longleftrightarrow>
     offsets_ok n (map sint offs) \<and> sint (last offs) \<le> int (length cs)"

definition table_ok :: "'d cudf \<Rightarrow> nat \<Rightarrow> 'd table \<Rightarrow> bool" where
  "table_ok env n t \<longleftrightarrow> list_all (column_ok env n) t"

fun cell :: "'d cudf \<Rightarrow> 'd column \<Rightarrow> nat \<Rightarrow> byte list" where
  "cell env (FixedWidth d bs) i = subrange bs (int i * int (size_of env d)) (int (Suc i) * int (size_of env d))"
| "cell env (Strings offs cs) i = subrange cs (sint (offs ! i)) (sint (offs ! Suc i))"

definition column_rows :: "'d cudf \<Rightarrow> nat \<Rightarrow> 'd column \<Rightarrow> byte list list" where
  "column_rows env n c = map (cell env c) [0..<n]"

definition table_rows :: "'d cudf \<Rightarrow> nat \<Rightarrow> 'd table \<Rightarrow> byte list list list" where
  "table_rows env n t = map (\<lambda>i. map (\<lambda>c. cell env c i) t) [0..<n]"

text \<open>The schema of a table: the data type of every column, \<open>None\<close> for strings.\<close>

fun column_type :: "'d column \<Rightarrow> 'd option" where
  "column_type (FixedWidth d bs) = Some d"
| "column_type (Strings offs cs) = None"

definition schema :: "'d table \<Rightarrow> 'd option list" where
  "schema t = map column_type t"

lemma length_column_rows [simp]: "length (column_rows env n c) = n"
  by (simp add: column_rows_def)

lemma length_table_rows [simp]: "length (table_rows env n t) = n"
  by (simp add: table_rows_def)

lemma column_ok_size: "cudf_ok env \<Longrightarrow> column_ok env n c \<Longrightarrow> column_size env c = n"
  by (cases c) (auto simp: offsets_ok_def)

section \<open>Device vectors of 32-bit integers as bytes\<close>

definition le32 :: "32 word \<Rightarrow> byte list" where
  "le32 w = [ucast w, ucast (drop_bit 8 w), ucast (drop_bit 16 w), ucast (drop_bit 24 w)]"

fun of_le32 :: "byte list \<Rightarrow> 32 word" where
  "of_le32 [a, b, c, d] =
     ucast a OR push_bit 8 (ucast b) OR push_bit 16 (ucast c) OR push_bit 24 (ucast d)"
| "of_le32 _ = 0"

definition enc32s :: "32 word list \<Rightarrow> byte list" where
  "enc32s ws = concat (map le32 ws)"

fun dec32s :: "byte list \<Rightarrow> 32 word list" where
  "dec32s (a # b # c # d # bs) = of_le32 [a, b, c, d] # dec32s bs"
| "dec32s _ = []"

lemma of_le32_le32 [simp]: "of_le32 (le32 w) = w"
proof (rule bit_word_eqI)
  fix n :: nat
  assume "n < LENGTH(32)"
  then have n: "n < 32" by simp
  consider "n < 8" | "8 \<le> n" "n < 16" | "16 \<le> n" "n < 24" | "24 \<le> n" by linarith
  then show "bit (of_le32 (le32 w)) n = bit w n"
    by cases (use n in \<open>auto simp: le32_def bit_or_iff bit_push_bit_iff bit_drop_bit_eq
      bit_unsigned_iff min_def dest: bit_imp_le_length\<close>)
qed

lemma length_le32 [simp]: "length (le32 w) = 4"
  by (simp add: le32_def)

lemma length_enc32s [simp]: "length (enc32s ws) = 4 * length ws"
  by (induction ws) (simp_all add: enc32s_def)

lemma dec32s_le32_append: "dec32s (le32 w @ bs) = w # dec32s bs"
  using of_le32_le32 [of w] by (simp add: le32_def del: of_le32.simps of_le32_le32)

lemma dec32s_enc32s [simp]: "dec32s (enc32s ws) = ws"
  by (induction ws) (simp_all add: enc32s_def dec32s_le32_append)

lemma enc32s_append: "enc32s (xs @ ys) = enc32s xs @ enc32s ys"
  by (simp add: enc32s_def)

lemma enc32s_concat: "enc32s (concat xss) = concat (map enc32s xss)"
  by (induction xss) (simp_all add: enc32s_def)

lemma drop_enc32s: "drop (4 * n) (enc32s ws) = enc32s (drop n ws)"
proof (induction n arbitrary: ws)
  case 0
  show ?case by simp
next
  case (Suc n)
  then show ?case by (cases ws) (simp_all add: enc32s_def add.commute)
qed

lemma take_enc32s: "take (4 * n) (enc32s ws) = enc32s (take n ws)"
proof (induction n arbitrary: ws)
  case 0
  show ?case by (simp add: enc32s_def)
next
  case (Suc n)
  then show ?case by (cases ws) (simp_all add: enc32s_def)
qed

lemma subrange_enc32s:
  assumes "0 \<le> a" "a \<le> b"
  shows "subrange (enc32s ws) (a * 4) (b * 4) = enc32s (subrange ws a b)"
proof -
  have "nat (b * 4 - a * 4) = 4 * nat (b - a)" and "nat (a * 4) = 4 * nat a"
    using assms by auto
  then show ?thesis by (simp add: subrange_def drop_enc32s take_enc32s)
qed

end
