(* ===== verification/Compression.thy ===== *)
theory Compression
  imports Table
begin

text \<open>
  \<open>src/src/compression.hpp\<close> and \<open>compression.cpp\<close>: the compression options of a table,
  how the root's choice reaches every rank, and the functors that compress the partitions
  of a buffer and decompress them on the other side. nvcomp is not part of the
  repository: its compressor, decompressor and selector are parameters, and \<open>nvcomp_ok\<close>
  states that decompression inverts compression within the announced bounds.
\<close>

section \<open>Options\<close>

datatype compression_method = CompNone | CompCascaded | CompLz4

record cascaded_format =
  num_RLEs :: int
  num_deltas :: int
  use_bp :: int

definition default_format :: cascaded_format where
  "default_format = \<lparr>num_RLEs = 0, num_deltas = 0, use_bp = 0\<rparr>"

datatype column_compression_options =
  ColumnCompressionOptions
    (compression_method: compression_method)
    (cascaded_format: cascaded_format)
    (children_compression_options: "column_compression_options list")

text \<open>The default arguments of the C++ constructor.\<close>

definition default_options :: column_compression_options where
  "default_options = ColumnCompressionOptions CompNone default_format []"

fun is_cascaded_supported :: "ctype \<Rightarrow> bool" where
  "is_cascaded_supported T \<longleftrightarrow> T \<in> {Int8, UInt8, Int16, UInt16, Int32, UInt32, Int64, UInt64}"

fun is_time_t :: "ctype \<Rightarrow> bool" where
  "is_time_t (TimeT rep) \<longleftrightarrow> True"
| "is_time_t T \<longleftrightarrow> False"

section \<open>The functors\<close>

text \<open>
  nvcomp: \<open>nv_bound\<close> is the compressed size \<open>configure\<close> announces for so many input
  bytes, \<open>nv_output_bytes\<close> the size the decompressor reads from compressed data, and
  \<open>nv_select\<close> the auto-selector, which raises a floating point exception on some buffers
  (\<open>None\<close>). Scratch space is not modelled.
\<close>

record nvcomp =
  nv_bound :: "cascaded_format \<Rightarrow> ctype \<Rightarrow> int \<Rightarrow> nat"
  nv_compress :: "cascaded_format \<Rightarrow> ctype \<Rightarrow> byte list \<Rightarrow> byte list"
  nv_output_bytes :: "byte list \<Rightarrow> nat"
  nv_decompress :: "byte list \<Rightarrow> byte list"
  nv_select :: "ctype \<Rightarrow> byte list \<Rightarrow> cascaded_format option"

text \<open>
  The selector draws \<open>num_samples\<close> samples of \<open>sample_size\<close> elements. The tests
  \<open>string_payload.cu\<close> and \<open>compare_against_analytical.cu\<close> leave out small tables because a
  buffer with fewer elements can end the program with a floating point exception.
\<close>

definition sample_size :: nat where
  "sample_size = 1024"

definition num_samples :: nat where
  "num_samples = 100"

definition selector_elements :: nat where
  "selector_elements = sample_size * num_samples"

lemma selector_elements_eq [simp]: "selector_elements = 102400"
  by (simp add: selector_elements_def sample_size_def num_samples_def)

definition nvcomp_ok :: "nvcomp \<Rightarrow> bool" where
  "nvcomp_ok nv \<longleftrightarrow>
     (\<forall>fmt T x. is_cascaded_supported T \<longrightarrow> x \<noteq> [] \<longrightarrow>
        length (nv_compress nv fmt T x) \<le> nv_bound nv fmt T (int (length x)) \<and>
        nv_output_bytes nv (nv_compress nv fmt T x) = length x \<and>
        nv_decompress nv (nv_compress nv fmt T x) = x) \<and>
     (\<forall>T x. is_cascaded_supported T \<longrightarrow> selector_elements * sizeof T \<le> length x \<longrightarrow> nv_select nv T x \<noteq> None)"

text \<open>
  \<open>compression_functor\<close> on an arithmetic type: a first pass asks every non-empty partition
  for its bound and allocates the output, a second pass compresses into it and records
  the actual size. A partition is its byte address in the source buffer and its number
  of elements.
\<close>

definition configure_pass :: "nvcomp \<Rightarrow> cascaded_format \<Rightarrow> ctype \<Rightarrow> int list \<Rightarrow> (byte list \<times> nat) list" where
  "configure_pass nv fmt T counts =
     map (\<lambda>count. if count = 0 then ([], 0)
            else let n = nv_bound nv fmt T (count * int (sizeof T)) in (replicate n 0, n)) counts"

definition compress_pass ::
  "nvcomp \<Rightarrow> cascaded_format \<Rightarrow> ctype \<Rightarrow> byte list \<Rightarrow> (int \<times> int) list \<Rightarrow>
     (byte list \<times> nat) list \<Rightarrow> (byte list \<times> nat) list res" where
  "compress_pass nv fmt T src parts bufs =
     emap (\<lambda>((addr, count), (buf, n)).
        if count = 0 then Inr (buf, n)
        else ebind (read_mem src addr (count * int (sizeof T))) (\<lambda>x.
             let y = nv_compress nv fmt T x
             in ebind (write_mem buf 0 y) (\<lambda>buf'. Inr (buf', length y))))
      (zip parts bufs)"

fun compression_functor ::
  "nvcomp \<Rightarrow> ctype \<Rightarrow> cascaded_format \<Rightarrow> byte list \<Rightarrow> (int \<times> int) list \<Rightarrow> (byte list \<times> nat) list res" where
  "compression_functor nv (TimeT rep) fmt src parts = compression_functor nv rep fmt src parts"
| "compression_functor nv T fmt src parts =
     (if is_cascaded_supported T
      then compress_pass nv fmt T src parts (configure_pass nv fmt T (map snd parts))
      else Inl UnsupportedType)"

text \<open>
  \<open>decompression_functor\<close>: the first pass configures every decompressor and asserts the
  size of its output, the second writes the outputs. A partition is the address and the
  size of its compressed data, the output address and the expected element count.
\<close>

definition check_pass ::
  "nvcomp \<Rightarrow> ctype \<Rightarrow> byte list \<Rightarrow> (int \<times> int \<times> int \<times> int) list \<Rightarrow> unit list res" where
  "check_pass nv T cdata parts =
     emap (\<lambda>(caddr, csize, oaddr, expected).
        if expected = 0 then Inr ()
        else ebind (read_mem cdata caddr csize) (\<lambda>y.
             guard (int (nv_output_bytes nv y) = expected * int (sizeof T)) AssertFailed)) parts"

definition decompress_pass ::
  "nvcomp \<Rightarrow> ctype \<Rightarrow> byte list \<Rightarrow> (int \<times> int \<times> int \<times> int) list \<Rightarrow> byte list \<Rightarrow> byte list res" where
  "decompress_pass nv T cdata parts out =
     efold (\<lambda>m (caddr, csize, oaddr, expected).
        if expected = 0 then Inr m
        else ebind (read_mem cdata caddr csize) (\<lambda>y. write_mem m oaddr (nv_decompress nv y))) out parts"

fun decompression_functor ::
  "nvcomp \<Rightarrow> ctype \<Rightarrow> byte list \<Rightarrow> (int \<times> int \<times> int \<times> int) list \<Rightarrow> byte list \<Rightarrow> byte list res" where
  "decompression_functor nv (TimeT rep) cdata parts out = decompression_functor nv rep cdata parts out"
| "decompression_functor nv T cdata parts out =
     (if is_cascaded_supported T
      then ebind (check_pass nv T cdata parts) (\<lambda>us. decompress_pass nv T cdata parts out)
      else Inl UnsupportedType)"

fun cascaded_selector_functor :: "nvcomp \<Rightarrow> ctype \<Rightarrow> byte list \<Rightarrow> cascaded_format res" where
  "cascaded_selector_functor nv (TimeT rep) x = cascaded_selector_functor nv rep x"
| "cascaded_selector_functor nv T x =
     (if is_cascaded_supported T
      then (case nv_select nv T x of None \<Rightarrow> Inl FloatingPointException | Some opts \<Rightarrow> Inr opts)
      else Inl UnsupportedType)"

section \<open>Choosing options\<close>

definition auto_select_column :: "nvcomp \<Rightarrow> 'd cudf \<Rightarrow> 'd column \<Rightarrow> column_compression_options res" where
  "auto_select_column nv env c =
     (case c of
        Strings offs cs \<Rightarrow>
          ebind (cascaded_selector_functor nv (type_dispatcher env (offset_dtype env)) (enc32s offs))
            (\<lambda>f. Inr (ColumnCompressionOptions CompNone default_format
                        [ColumnCompressionOptions CompCascaded f [], default_options]))
      | FixedWidth d bs \<Rightarrow>
          ebind (cascaded_selector_functor nv (type_dispatcher env d) bs)
            (\<lambda>f. Inr (ColumnCompressionOptions CompCascaded f [])))"

definition generate_auto_select_compression_options ::
  "nvcomp \<Rightarrow> 'd cudf \<Rightarrow> 'd table \<Rightarrow> column_compression_options list res" where
  "generate_auto_select_compression_options nv env t = emap (auto_select_column nv env) t"

definition generate_none_compression_options :: "'d table \<Rightarrow> column_compression_options list" where
  "generate_none_compression_options t =
     map (\<lambda>c. case c of
            Strings offs cs \<Rightarrow>
              ColumnCompressionOptions CompNone default_format [default_options, default_options]
          | FixedWidth d bs \<Rightarrow> default_options) t"

text \<open>
  The options a column can be communicated with: a string column needs the options of its
  two subcolumns, and a buffer is either sent as it is or cascaded, which its type must
  support.
\<close>

fun cascaded_type :: "ctype \<Rightarrow> bool" where
  "cascaded_type (TimeT rep) = cascaded_type rep"
| "cascaded_type T = is_cascaded_supported T"

text \<open>The arithmetic type the functors end up with.\<close>

fun base_type :: "ctype \<Rightarrow> ctype" where
  "base_type (TimeT rep) = base_type rep"
| "base_type T = T"

definition sendable :: "'d cudf \<Rightarrow> 'd \<Rightarrow> compression_method \<Rightarrow> bool" where
  "sendable env d m \<longleftrightarrow>
     m = CompNone \<or> m = CompCascaded \<and> cascaded_type (type_dispatcher env d)"

fun column_options_ok :: "'d cudf \<Rightarrow> 'd column \<Rightarrow> column_compression_options \<Rightarrow> bool" where
  "column_options_ok env (FixedWidth d bs) opt \<longleftrightarrow> sendable env d (compression_method opt)"
| "column_options_ok env (Strings offs cs) opt \<longleftrightarrow>
     (\<exists>o0 o1. children_compression_options opt = [o0, o1] \<and>
        sendable env (offset_dtype env) (compression_method o0) \<and>
        sendable env (char_dtype env) (compression_method o1))"

definition table_options_ok :: "'d cudf \<Rightarrow> 'd table \<Rightarrow> column_compression_options list \<Rightarrow> bool" where
  "table_options_ok env t opts \<longleftrightarrow> list_all2 (column_options_ok env) t opts"

lemma cascaded_selector_functor_eq:
  "cascaded_selector_functor nv T x =
     (if cascaded_type T
      then (case nv_select nv (base_type T) x of None \<Rightarrow> Inl FloatingPointException | Some opts \<Rightarrow> Inr opts)
      else Inl UnsupportedType)"
  by (induction nv T x rule: cascaded_selector_functor.induct) simp_all

text \<open>
  The buffer the selector reads of a column, the offsets of a string column, has enough
  elements for it, unless its type is rejected before.
\<close>

fun selectable :: "'d cudf \<Rightarrow> 'd column \<Rightarrow> bool" where
  "selectable env (Strings offs cs) \<longleftrightarrow> selector_elements \<le> length offs"
| "selectable env (FixedWidth d bs) \<longleftrightarrow>
     (cascaded_type (type_dispatcher env d) \<longrightarrow> selector_elements * size_of env d \<le> length bs)"

section \<open>The functors as functions of the partitions\<close>

lemma sizeof_base_type [simp]: "sizeof (base_type T) = sizeof T"
  by (induction T) auto

lemma cascaded_type_base: "cascaded_type T \<Longrightarrow> is_cascaded_supported (base_type T)"
  by (induction T rule: cascaded_type.induct) simp_all

lemma cascaded_type_sizeof: "cascaded_type T \<Longrightarrow> 0 < sizeof T"
  by (induction T rule: cascaded_type.induct) auto

lemma compression_functor_eq:
  "compression_functor nv T fmt src parts =
     (if cascaded_type T
      then compress_pass nv fmt (base_type T) src parts (configure_pass nv fmt (base_type T) (map snd parts))
      else Inl UnsupportedType)"
  by (induction nv T fmt src parts rule: compression_functor.induct) simp_all

lemma decompression_functor_eq:
  "decompression_functor nv T cdata parts out =
     (if cascaded_type T
      then ebind (check_pass nv (base_type T) cdata parts)
             (\<lambda>us. decompress_pass nv (base_type T) cdata parts out)
      else Inl UnsupportedType)"
  by (induction nv T cdata parts out rule: decompression_functor.induct) simp_all

text \<open>What one partition compresses to: the compressed bytes, padded to the announced bound.\<close>

definition part_bytes :: "nvcomp \<Rightarrow> cascaded_format \<Rightarrow> ctype \<Rightarrow> byte list \<Rightarrow> int \<times> int \<Rightarrow> byte list" where
  "part_bytes nv fmt T src p =
     (if snd p = 0 then []
      else nv_compress nv fmt (base_type T) (subrange src (fst p) (fst p + snd p * int (sizeof T))))"

definition part_valid :: "ctype \<Rightarrow> byte list \<Rightarrow> int \<times> int \<Rightarrow> bool" where
  "part_valid T src p \<longleftrightarrow>
     0 \<le> snd p \<and> (snd p \<noteq> 0 \<longrightarrow> 0 \<le> fst p \<and> fst p + snd p * int (sizeof T) \<le> int (length src))"

definition padded_part :: "nvcomp \<Rightarrow> cascaded_format \<Rightarrow> ctype \<Rightarrow> byte list \<Rightarrow> int \<times> int \<Rightarrow> byte list \<times> nat" where
  "padded_part nv fmt T src p =
     (let y = part_bytes nv fmt T src p
      in (if snd p = 0 then [] else y @ replicate (nv_bound nv fmt (base_type T) (snd p * int (sizeof T)) - length y) 0,
          length y))"

lemma take_padded_part:
  "take (snd (padded_part nv fmt T src p)) (fst (padded_part nv fmt T src p)) = part_bytes nv fmt T src p"
  by (simp add: padded_part_def part_bytes_def Let_def)

lemma snd_padded_part: "snd (padded_part nv fmt T src p) = length (part_bytes nv fmt T src p)"
  by (simp add: padded_part_def Let_def)

lemma part_input_length:
  assumes "part_valid T src p" "snd p \<noteq> 0" "cascaded_type T"
  shows "int (length (subrange src (fst p) (fst p + snd p * int (sizeof T)))) = snd p * int (sizeof T)"
    and "subrange src (fst p) (fst p + snd p * int (sizeof T)) \<noteq> []"
proof -
  from assms have "0 < snd p * int (sizeof T)"
    using cascaded_type_sizeof [of T] by (simp add: part_valid_def)
  then show len: "int (length (subrange src (fst p) (fst p + snd p * int (sizeof T)))) = snd p * int (sizeof T)"
    using assms by (simp add: part_valid_def length_subrange)
  with \<open>0 < snd p * int (sizeof T)\<close> show "subrange src (fst p) (fst p + snd p * int (sizeof T)) \<noteq> []"
    by auto
qed

lemma compression_functor_ok:
  assumes nv: "nvcomp_ok nv" and T: "cascaded_type T" and valid: "\<forall>p \<in> set parts. part_valid T src p"
  shows "compression_functor nv T fmt src parts = Inr (map (padded_part nv fmt T src) parts)"
proof -
  let ?T = "base_type T"
  let ?conf = "\<lambda>count::int. if count = 0 then ([], 0)
      else let n = nv_bound nv fmt ?T (count * int (sizeof ?T)) in (replicate n (0::byte), n)"
  let ?step = "\<lambda>((addr::int, count::int), (buf::byte list, n::nat)).
      if count = 0 then Inr (buf, n)
      else ebind (read_mem src addr (count * int (sizeof ?T))) (\<lambda>x.
           let y = nv_compress nv fmt ?T x in ebind (write_mem buf 0 y) (\<lambda>buf'. Inr (buf', length y)))"
  have step: "?step (p, ?conf (snd p)) = Inr (padded_part nv fmt T src p)" if p: "p \<in> set parts" for p
  proof (cases "snd p = 0")
    case True
    then show ?thesis by (simp add: padded_part_def part_bytes_def split_def)
  next
    case False
    let ?x = "subrange src (fst p) (fst p + snd p * int (sizeof T))"
    from p valid have "part_valid T src p" by simp
    note len = part_input_length [OF this False T]
    then have "length (nv_compress nv fmt ?T ?x) \<le> nv_bound nv fmt ?T (snd p * int (sizeof T))"
      using nv cascaded_type_base [OF T] unfolding nvcomp_ok_def by metis
    with False \<open>part_valid T src p\<close> show ?thesis
      by (simp add: padded_part_def part_bytes_def part_valid_def split_def Let_def write_mem_def)
  qed
  have "zip parts (configure_pass nv fmt ?T (map snd parts)) = map (\<lambda>p. (p, ?conf (snd p))) parts"
    by (simp add: configure_pass_def zip_map2 comp_def zip_same_conv_map)
  then have "compress_pass nv fmt ?T src parts (configure_pass nv fmt ?T (map snd parts)) =
      emap ?step (map (\<lambda>p. (p, ?conf (snd p))) parts)"
    by (simp only: compress_pass_def)
  also have "\<dots> = Inr (map (padded_part nv fmt T src) parts)"
    using step by (auto simp: emap_Inr_iff list_all2_map1 list_all2_map2 list_all2_same)
  finally show ?thesis using T by (simp add: compression_functor_eq)
qed

text \<open>Decompression of what a non-empty partition was compressed to.\<close>

lemma part_bytes_decode:
  assumes nv: "nvcomp_ok nv" and T: "cascaded_type T" and valid: "part_valid T src p" and "snd p \<noteq> 0"
  shows "int (nv_output_bytes nv (part_bytes nv fmt T src p)) = snd p * int (sizeof T)"
    and "nv_decompress nv (part_bytes nv fmt T src p) = subrange src (fst p) (fst p + snd p * int (sizeof T))"
proof -
  let ?x = "subrange src (fst p) (fst p + snd p * int (sizeof T))"
  note len = part_input_length [OF valid assms(4) T]
  have "nv_output_bytes nv (nv_compress nv fmt (base_type T) ?x) = length ?x"
    "nv_decompress nv (nv_compress nv fmt (base_type T) ?x) = ?x"
    using nv cascaded_type_base [OF T] len(2) unfolding nvcomp_ok_def by blast+
  with len(1) assms(4) show "int (nv_output_bytes nv (part_bytes nv fmt T src p)) = snd p * int (sizeof T)"
    and "nv_decompress nv (part_bytes nv fmt T src p) = ?x"
    by (simp_all add: part_bytes_def)
qed

end
