(* ===== verification/All_To_All.thy ===== *)
theory All_To_All
  imports Size_Exchange Compression
begin

text \<open>
  The all-to-all communication of \<open>src/src/all_to_all_comm.cpp\<close>: sending and receiving
  the partitions of one buffer, compressing them first when asked to, the loop over all
  buffers, and the decompression afterwards. The functions are collective: the state is
  the vector of \<open>AllToAllCommBuffer\<close>s of every rank, in rank order.
\<close>

section \<open>Buffers\<close>

record 'd a2a_buffer =
  send_buffer :: "byte list"
  recv_buffer :: "byte list"
  send_offsets :: "int list"
  recv_offsets :: "int list"
  buf_dtype :: 'd
  buf_method :: compression_method
  buf_format :: cascaded_format
  compressed_send_buffer :: "byte list"
  compressed_recv_buffer :: "byte list"
  compressed_send_offsets :: "int list"
  compressed_recv_offsets :: "int list"

definition AllToAllCommBuffer ::
  "byte list \<Rightarrow> byte list \<Rightarrow> int list \<Rightarrow> int list \<Rightarrow> 'd \<Rightarrow> compression_method \<Rightarrow> cascaded_format \<Rightarrow>
     'd a2a_buffer" where
  "AllToAllCommBuffer sb rb so ro d m f =
     \<lparr>send_buffer = sb, recv_buffer = rb, send_offsets = so, recv_offsets = ro, buf_dtype = d,
      buf_method = m, buf_format = f, compressed_send_buffer = [], compressed_recv_buffer = [],
      compressed_send_offsets = [], compressed_recv_offsets = []\<rparr>"

text \<open>A message of a \<open>Communicator\<close>: the element size and the bytes of the elements.\<close>

type_synonym msg = "nat \<times> byte list"

text \<open>A posted receive: the source, and the byte address and byte count to fill.\<close>

type_synonym posted = "rank \<times> int \<times> int"

text \<open>\<open>uncompressed_counts\<close> is a vector of \<open>cudf::size_type\<close>: the count is narrowed.\<close>

definition narrow32 :: "int \<Rightarrow> int" where
  "narrow32 x = sint (word_of_int x :: 32 word)"

section \<open>One buffer on one rank\<close>

definition send_data_by_offset ::
  "byte list \<Rightarrow> int list \<Rightarrow> nat \<Rightarrow> comm_group \<Rightarrow> rank \<Rightarrow> bool \<Rightarrow> (rank \<times> msg) list res" where
  "send_data_by_offset data offset item_size g me self_send =
     ebind (emap (\<lambda>local_idx.
        let target_rank = get_global_rank g local_idx in
        if \<not> self_send \<and> target_rank = me then Inr []
        else ebind (vec_at offset (Suc local_idx)) (\<lambda>b.
             ebind (vec_at offset local_idx) (\<lambda>a.
             ebind (read_mem data (a * int item_size) ((b - a) * int item_size)) (\<lambda>bs.
               Inr [(target_rank, (item_size, bs))]))))
      [0..<group_size g]) (\<lambda>xss. Inr (concat xss))"

definition recv_data_by_offset ::
  "int list \<Rightarrow> nat \<Rightarrow> comm_group \<Rightarrow> rank \<Rightarrow> bool \<Rightarrow> posted list res" where
  "recv_data_by_offset offset item_size g me self_recv =
     ebind (emap (\<lambda>local_idx.
        let source_rank = get_global_rank g local_idx in
        if \<not> self_recv \<and> me = source_rank then Inr []
        else ebind (vec_at offset (Suc local_idx)) (\<lambda>b.
             ebind (vec_at offset local_idx) (\<lambda>a.
               Inr [(source_rank, a * int item_size, (b - a) * int item_size)])))
      [0..<group_size g]) (\<lambda>xss. Inr (concat xss))"

text \<open>The completion of posted receives: every message lands at the address posted for it.\<close>

fun complete_recvs :: "byte list \<Rightarrow> posted list \<Rightarrow> msg list \<Rightarrow> byte list res" where
  "complete_recvs mem [] ms = Inr mem"
| "complete_recvs mem (p # ps) [] = Inl Unmatched"
| "complete_recvs mem ((src, addr, n) # ps) ((es, bs) # ms) =
     (if int (length bs) \<noteq> n then Inl SizeMismatch
      else ebind (write_mem mem addr bs) (\<lambda>mem'. complete_recvs mem' ps ms))"

section \<open>Compression of one buffer\<close>

definition compress_partitions ::
  "nvcomp \<Rightarrow> 'd cudf \<Rightarrow> comm_group \<Rightarrow> rank \<Rightarrow> bool \<Rightarrow> 'd a2a_buffer \<Rightarrow> (byte list \<times> nat) list res" where
  "compress_partitions nv env g me include_current_rank buf =
     ebind (emap (\<lambda>local_idx.
        if \<not> include_current_rank \<and> get_global_rank g local_idx = me then Inr (0, 0)
        else ebind (vec_at (send_offsets buf) (Suc local_idx)) (\<lambda>b.
             ebind (vec_at (send_offsets buf) local_idx) (\<lambda>a.
               Inr (a * int (size_of env (buf_dtype buf)), narrow32 (b - a)))))
      [0..<group_size g])
     (compression_functor nv (type_dispatcher env (buf_dtype buf)) (buf_format buf) (send_buffer buf))"

text \<open>The compressed partitions are merged into one buffer at their offsets.\<close>

definition merge_compressed ::
  "comm_group \<Rightarrow> rank \<Rightarrow> bool \<Rightarrow> int list \<Rightarrow> (byte list \<times> nat) list \<Rightarrow> byte list res" where
  "merge_compressed g me include_current_rank offs outs =
     efold (\<lambda>m local_idx.
        if \<not> include_current_rank \<and> get_global_rank g local_idx = me then Inr m
        else ebind (vec_at outs local_idx) (\<lambda>(b, n).
             ebind (read_mem b 0 (int n)) (\<lambda>d.
             ebind (vec_at offs local_idx) (\<lambda>a. write_mem m a d))))
      (replicate (nat (last offs)) 0) [0..<group_size g]"

definition compressed_offsets :: "(byte list \<times> nat) list \<Rightarrow> int list" where
  "compressed_offsets outs = 0 # partial_sum 0 (map (\<lambda>p. int (snd p)) outs)"

text \<open>
  The preparation of one buffer on all ranks: compress, exchange the compressed sizes,
  merge, and allocate the receive buffer for compressed data.
\<close>

definition prepare_compressed ::
  "nvcomp \<Rightarrow> 'd cudf \<Rightarrow> ((rank \<times> int) list list \<Rightarrow> rank \<Rightarrow> rank list \<Rightarrow> int list res) \<Rightarrow>
     nat \<Rightarrow> nat \<Rightarrow> bool \<Rightarrow> 'd a2a_buffer list \<Rightarrow> 'd a2a_buffer list res" where
  "prepare_compressed nv env mpi grid st incl bufs =
     (let g = comm_group_at grid st; N = length bufs in
      ebind (emap (\<lambda>r. compress_partitions nv env (g r) r incl (bufs ! r)) [0..<N]) (\<lambda>outs.
      ebind (communicate_sizes mpi grid st (map compressed_offsets outs)) (\<lambda>roffs.
      emap (\<lambda>r.
        ebind (merge_compressed (g r) r incl (compressed_offsets (outs ! r)) (outs ! r)) (\<lambda>merged.
          Inr ((bufs ! r)\<lparr>compressed_send_buffer := merged,
                          compressed_recv_buffer := replicate (nat (last (roffs ! r))) 0,
                          compressed_send_offsets := compressed_offsets (outs ! r),
                          compressed_recv_offsets := roffs ! r\<rparr>)))
        [0..<N])))"

definition prepare_buffer ::
  "nvcomp \<Rightarrow> 'd cudf \<Rightarrow> ((rank \<times> int) list list \<Rightarrow> rank \<Rightarrow> rank list \<Rightarrow> int list res) \<Rightarrow>
     nat \<Rightarrow> nat \<Rightarrow> bool \<Rightarrow> 'd a2a_buffer list \<Rightarrow> 'd a2a_buffer list res" where
  "prepare_buffer nv env mpi grid st incl bufs =
     (if list_all (\<lambda>buf. buf_method buf = CompNone) bufs then Inr bufs
      else if list_all (\<lambda>buf. buf_method buf = CompCascaded) bufs
           then prepare_compressed nv env mpi grid st incl bufs
      else if list_ex (\<lambda>buf. buf_method buf = CompLz4) bufs then Inl AssertFailed
      else Inl Unmatched)"

section \<open>Communication of several buffers\<close>

definition post_sends :: "'d cudf \<Rightarrow> comm_group \<Rightarrow> rank \<Rightarrow> bool \<Rightarrow> 'd a2a_buffer \<Rightarrow> (rank \<times> msg) list res" where
  "post_sends env g me incl buf =
     (if buf_method buf = CompNone
      then send_data_by_offset (send_buffer buf) (send_offsets buf) (size_of env (buf_dtype buf)) g me incl
      else send_data_by_offset (compressed_send_buffer buf) (compressed_send_offsets buf) 1 g me incl)"

definition post_recvs :: "'d cudf \<Rightarrow> comm_group \<Rightarrow> rank \<Rightarrow> bool \<Rightarrow> 'd a2a_buffer \<Rightarrow> posted list res" where
  "post_recvs env g me incl buf =
     (if buf_method buf = CompNone
      then recv_data_by_offset (recv_offsets buf) (size_of env (buf_dtype buf)) g me incl
      else recv_data_by_offset (compressed_recv_offsets buf) 1 g me incl)"

definition complete_buffer :: "'d a2a_buffer \<Rightarrow> posted list \<Rightarrow> msg list \<Rightarrow> 'd a2a_buffer res" where
  "complete_buffer buf ps ms =
     (if buf_method buf = CompNone
      then ebind (complete_recvs (recv_buffer buf) ps ms) (\<lambda>m. Inr (buf\<lparr>recv_buffer := m\<rparr>))
      else ebind (complete_recvs (compressed_recv_buffer buf) ps ms)
             (\<lambda>m. Inr (buf\<lparr>compressed_recv_buffer := m\<rparr>)))"

text \<open>
  The sends and receives between one \<open>start()\<close> and the matching \<open>stop()\<close>, for the buffers
  with the indices \<open>bs\<close>: the messages a rank receives come in the order of its posted
  receives, buffer by buffer.
\<close>

fun deliver :: "'d a2a_buffer list \<Rightarrow> (nat \<times> posted list) list \<Rightarrow> msg list \<Rightarrow> 'd a2a_buffer list res" where
  "deliver bufs [] ms = Inr bufs"
| "deliver bufs ((b, ps) # rest) ms =
     ebind (complete_buffer (bufs ! b) ps (take (length ps) ms)) (\<lambda>buf.
       deliver (bufs[b := buf]) rest (drop (length ps) ms))"

definition receive_all ::
  "((rank \<times> msg) list list \<Rightarrow> rank \<Rightarrow> rank list \<Rightarrow> msg list res) \<Rightarrow> 'd cudf \<Rightarrow> comm_group \<Rightarrow> rank \<Rightarrow>
     bool \<Rightarrow> (rank \<times> msg) list list \<Rightarrow> nat list \<Rightarrow> 'd a2a_buffer list \<Rightarrow> 'd a2a_buffer list res" where
  "receive_all exch env g me incl snds bs bufs =
     ebind (emap (\<lambda>b. post_recvs env g me incl (bufs ! b)) bs) (\<lambda>posted.
     ebind (exch snds me (map fst (concat posted))) (\<lambda>ms. deliver bufs (zip bs posted) ms))"

definition comm_round ::
  "((rank \<times> msg) list list \<Rightarrow> rank \<Rightarrow> rank list \<Rightarrow> msg list res) \<Rightarrow> 'd cudf \<Rightarrow> nat \<Rightarrow> nat \<Rightarrow> bool \<Rightarrow>
     nat list \<Rightarrow> 'd a2a_buffer list list \<Rightarrow> 'd a2a_buffer list list res" where
  "comm_round exch env grid st incl bs world =
     (let g = comm_group_at grid st; N = length world in
      ebind (emap (\<lambda>r. ebind (emap (\<lambda>b. post_sends env (g r) r incl (world ! r ! b)) bs)
                         (\<lambda>xss. Inr (concat xss))) [0..<N]) (\<lambda>snds.
      emap (\<lambda>r. receive_all exch env (g r) r incl snds bs (world ! r)) [0..<N]))"

text \<open>Column \<open>b\<close> of the world: buffer \<open>b\<close> of every rank.\<close>

definition at_buffer :: "('d a2a_buffer list \<Rightarrow> 'd a2a_buffer list res) \<Rightarrow> nat \<Rightarrow>
    'd a2a_buffer list list \<Rightarrow> 'd a2a_buffer list list res" where
  "at_buffer f b world =
     ebind (f (map (\<lambda>bufs. bufs ! b) world)) (\<lambda>col.
       Inr (map (\<lambda>(bufs, buf). bufs[b := buf]) (zip world col)))"

text \<open>
  \<open>all_to_all_comm\<close>: a communicator that groups by batch has all buffers in one round
  (the caller brackets the call with \<open>start\<close> and \<open>stop\<close>), any other runs a round for
  every buffer.
\<close>

definition all_to_all_comm ::
  "nvcomp \<Rightarrow> 'd cudf \<Rightarrow> ((rank \<times> int) list list \<Rightarrow> rank \<Rightarrow> rank list \<Rightarrow> int list res) \<Rightarrow>
     ((rank \<times> msg) list list \<Rightarrow> rank \<Rightarrow> rank list \<Rightarrow> msg list res) \<Rightarrow> bool \<Rightarrow>
     nat \<Rightarrow> nat \<Rightarrow> bool \<Rightarrow> 'd a2a_buffer list list \<Rightarrow> 'd a2a_buffer list list res" where
  "all_to_all_comm nv env mpi exch group_by_batch grid st incl world =
     (let bs = [0..<(case world of [] \<Rightarrow> 0 | bufs # _ \<Rightarrow> length bufs)];
          prep = (\<lambda>w b. at_buffer (prepare_buffer nv env mpi grid st incl) b w)
      in if group_by_batch
         then ebind (efold prep world bs) (comm_round exch env grid st incl bs)
         else efold (\<lambda>w b. ebind (prep w b) (comm_round exch env grid st incl [b])) world bs)"

section \<open>Postprocessing\<close>

text \<open>Decompression into the receive buffer, on one rank; uncompressed buffers are skipped.\<close>

definition postprocess_buffer ::
  "nvcomp \<Rightarrow> 'd cudf \<Rightarrow> comm_group \<Rightarrow> rank \<Rightarrow> bool \<Rightarrow> 'd a2a_buffer \<Rightarrow> 'd a2a_buffer res" where
  "postprocess_buffer nv env g me incl buf =
     (if buf_method buf = CompNone then Inr buf
      else ebind (emap (\<lambda>local_idx.
             if \<not> incl \<and> get_global_rank g local_idx = me then Inr (0, 0, 0, 0)
             else ebind (vec_at (compressed_recv_offsets buf) local_idx) (\<lambda>ca.
                  ebind (vec_at (compressed_recv_offsets buf) (Suc local_idx)) (\<lambda>cb.
                  ebind (vec_at (recv_offsets buf) local_idx) (\<lambda>a.
                  ebind (vec_at (recv_offsets buf) (Suc local_idx)) (\<lambda>b.
                    Inr (ca, cb - ca, a * int (size_of env (buf_dtype buf)), b - a))))))
             [0..<group_size g]) (\<lambda>parts.
           ebind (decompression_functor nv (type_dispatcher env (buf_dtype buf))
                    (compressed_recv_buffer buf) parts (recv_buffer buf)) (\<lambda>m.
             Inr (buf\<lparr>recv_buffer := m\<rparr>))))"

definition postprocess_all_to_all_comm ::
  "nvcomp \<Rightarrow> 'd cudf \<Rightarrow> nat \<Rightarrow> nat \<Rightarrow> bool \<Rightarrow> 'd a2a_buffer list list \<Rightarrow> 'd a2a_buffer list list res" where
  "postprocess_all_to_all_comm nv env grid st incl world =
     emap (\<lambda>r. emap (postprocess_buffer nv env (comm_group_at grid st r) r incl) (world ! r))
       [0..<length world]"

end
