(* ===== verification/All_To_All_Correct.thy ===== *)
theory All_To_All_Correct
  imports All_To_All
begin

text \<open>
  Correctness of the all-to-all communication: for every buffer, every rank ends with
  the partitions its peers hold for it, in the order of the group, whether the buffer is
  compressed or not and however the communicator groups the messages. The proofs treat a
  buffer as a function from ranks to that rank's \<open>AllToAllCommBuffer\<close>.
\<close>

section \<open>Posting and completing one buffer\<close>

definition talks_to :: "comm_group \<Rightarrow> rank \<Rightarrow> bool \<Rightarrow> nat \<Rightarrow> bool" where
  "talks_to g me incl i \<longleftrightarrow> incl \<or> get_global_rank g i \<noteq> me"

definition talk_idxs :: "comm_group \<Rightarrow> rank \<Rightarrow> bool \<Rightarrow> nat list" where
  "talk_idxs g me incl = filter (talks_to g me incl) [0..<group_size g]"

lemma concat_singletons: "concat (map (\<lambda>i. if P i then [] else [h i]) xs) = map h (filter (\<lambda>i. \<not> P i) xs)"
  by (induction xs) auto

lemma offsets_ok_range:
  assumes "offsets_ok n offs" and "offs ! n * int sz \<le> int (length data)" and "i < n"
  shows "0 \<le> offs ! i * int sz" "offs ! i * int sz \<le> offs ! Suc i * int sz"
    "offs ! Suc i * int sz \<le> int (length data)"
proof -
  from assms(1,3) have "0 \<le> offs ! i" "offs ! i \<le> offs ! Suc i" "offs ! Suc i \<le> offs ! n"
    by (auto intro: offsets_ok_nonneg offsets_ok_mono)
  then show "0 \<le> offs ! i * int sz" "offs ! i * int sz \<le> offs ! Suc i * int sz"
    by (simp_all add: mult_right_mono)
  have "offs ! Suc i * int sz \<le> offs ! n * int sz"
    using \<open>offs ! Suc i \<le> offs ! n\<close> by (simp add: mult_right_mono)
  with assms(2) show "offs ! Suc i * int sz \<le> int (length data)" by simp
qed

lemma length_seg:
  assumes "offsets_ok n offs" and "offs ! n * int sz \<le> int (length data)" and "i < n"
  shows "int (length (seg data offs sz i)) = (offs ! Suc i - offs ! i) * int sz"
  using offsets_ok_range [OF assms] by (simp add: seg_def length_subrange algebra_simps)

lemma read_seg:
  assumes "offsets_ok n offs" and "offs ! n * int sz \<le> int (length data)" and "i < n"
  shows "read_mem data (offs ! i * int sz) ((offs ! Suc i - offs ! i) * int sz) = Inr (seg data offs sz i)"
proof -
  have sum: "offs ! i * int sz + (offs ! Suc i - offs ! i) * int sz = offs ! Suc i * int sz"
    by (simp add: algebra_simps)
  have "0 \<le> (offs ! Suc i - offs ! i) * int sz"
    using offsets_ok_range(2) [OF assms] by (simp add: left_diff_distrib)
  then show ?thesis
    using offsets_ok_range(1,3) [OF assms] by (simp add: read_mem_def sum seg_def)
qed

lemma send_data_by_offset_ok:
  assumes offs: "offsets_ok (group_size g) offs"
    and fits: "offs ! group_size g * int sz \<le> int (length data)"
  shows "send_data_by_offset data offs sz g me incl =
    Inr (map (\<lambda>i. (get_global_rank g i, (sz, seg data offs sz i))) (talk_idxs g me incl))"
proof -
  have len: "length offs = Suc (group_size g)" using offs by (simp add: offsets_ok_def)
  let ?out = "\<lambda>i. if \<not> incl \<and> get_global_rank g i = me then []
                else [(get_global_rank g i, (sz, seg data offs sz i))]"
  have "send_data_by_offset data offs sz g me incl = Inr (concat (map ?out [0..<group_size g]))"
    unfolding send_data_by_offset_def
    by (subst emap_Inr [where g = ?out]) (auto simp: Let_def len read_seg [OF offs fits])
  then show ?thesis by (simp add: concat_singletons talk_idxs_def talks_to_def [abs_def])
qed

lemma recv_data_by_offset_ok:
  assumes "length offs = Suc (group_size g)"
  shows "recv_data_by_offset offs sz g me incl =
    Inr (map (\<lambda>i. (get_global_rank g i, offs ! i * int sz, (offs ! Suc i - offs ! i) * int sz))
          (talk_idxs g me incl))"
proof -
  let ?out = "\<lambda>i. if \<not> incl \<and> me = get_global_rank g i then []
                else [(get_global_rank g i, offs ! i * int sz, (offs ! Suc i - offs ! i) * int sz)]"
  have "recv_data_by_offset offs sz g me incl = Inr (concat (map ?out [0..<group_size g]))"
    unfolding recv_data_by_offset_def
    by (subst emap_Inr [where g = ?out]) (auto simp: Let_def assms)
  then show ?thesis by (simp add: concat_singletons talk_idxs_def talks_to_def [abs_def] eq_commute [of me])
qed

lemma complete_recvs_efold:
  assumes "\<forall>i \<in> set xs. int (length (snd (m i))) = n i"
  shows "complete_recvs mem (map (\<lambda>i. (src i, addr i, n i)) xs) (map m xs) =
    efold (\<lambda>mem i. write_mem mem (addr i) (snd (m i))) mem xs"
  using assms
proof (induction xs arbitrary: mem)
  case Nil
  then show ?case by simp
next
  case (Cons x xs)
  obtain es bs where "m x = (es, bs)" by (cases "m x")
  with Cons.prems Cons.IH have
    "complete_recvs mem (map (\<lambda>i. (src i, addr i, n i)) (x # xs)) (map m (x # xs)) =
      ebind (write_mem mem (addr x) bs) (\<lambda>mem'. complete_recvs mem' (map (\<lambda>i. (src i, addr i, n i)) xs) (map m xs))"
    by simp
  with Cons \<open>m x = (es, bs)\<close> show ?case by simp
qed

lemma efold_filter:
  "efold f s (filter P xs) = efold (\<lambda>s x. if P x then f s x else Inr s) s xs"
  by (induction xs arbitrary: s) auto

text \<open>
  What a receive buffer holds when the segments \<open>m i\<close> of the peers have arrived: the
  segment of the rank itself keeps its old bytes when it is excluded.
\<close>

definition assembled :: "comm_group \<Rightarrow> rank \<Rightarrow> bool \<Rightarrow> byte list \<Rightarrow> int list \<Rightarrow> nat \<Rightarrow> (nat \<Rightarrow> byte list) \<Rightarrow> byte list" where
  "assembled g me incl mem offs sz m =
     concat (map (\<lambda>i. if talks_to g me incl i then m i else seg mem offs sz i) [0..<group_size g])"

lemma complete_recvs_ok:
  assumes offs: "offsets_ok (group_size g) offs" "offs ! 0 = 0"
    and mem: "int (length mem) = offs ! group_size g * int sz"
    and m: "\<forall>i < group_size g. talks_to g me incl i \<longrightarrow>
              int (length (snd (m i))) = (offs ! Suc i - offs ! i) * int sz"
  shows "complete_recvs mem
     (map (\<lambda>i. (get_global_rank g i, offs ! i * int sz, (offs ! Suc i - offs ! i) * int sz)) (talk_idxs g me incl))
     (map m (talk_idxs g me incl)) = Inr (assembled g me incl mem offs sz (\<lambda>i. snd (m i)))"
proof -
  let ?addr = "\<lambda>i. offs ! i * int sz"
  have "complete_recvs mem
     (map (\<lambda>i. (get_global_rank g i, offs ! i * int sz, (offs ! Suc i - offs ! i) * int sz)) (talk_idxs g me incl))
     (map m (talk_idxs g me incl)) =
     efold (\<lambda>mem i. write_mem mem (?addr i) (snd (m i))) mem (talk_idxs g me incl)"
    using m by (intro complete_recvs_efold) (simp add: talk_idxs_def)
  also have "\<dots> = efold (\<lambda>mem i. if talks_to g me incl i then write_mem mem (?addr i) (snd (m i)) else Inr mem)
      mem [0..<group_size g]"
    by (simp add: talk_idxs_def efold_filter)
  also have "\<dots> = Inr (assembled g me incl mem offs sz (\<lambda>i. snd (m i)))"
    using m unfolding assembled_def seg_def
    by (intro write_all_segments [OF addresses_offsets [OF offs] mem]) (simp add: left_diff_distrib)
  finally show ?thesis .
qed

section \<open>The buffer a round transports\<close>

text \<open>
  An uncompressed buffer is transported itself, a compressed one through its compressed
  buffers with elements of one byte.
\<close>

definition w_data :: "'d a2a_buffer \<Rightarrow> byte list" where
  "w_data b = (if buf_method b = CompNone then send_buffer b else compressed_send_buffer b)"

definition w_offs :: "'d a2a_buffer \<Rightarrow> int list" where
  "w_offs b = (if buf_method b = CompNone then send_offsets b else compressed_send_offsets b)"

definition w_item :: "'d cudf \<Rightarrow> 'd a2a_buffer \<Rightarrow> nat" where
  "w_item env b = (if buf_method b = CompNone then size_of env (buf_dtype b) else 1)"

definition w_dst :: "'d a2a_buffer \<Rightarrow> byte list" where
  "w_dst b = (if buf_method b = CompNone then recv_buffer b else compressed_recv_buffer b)"

definition w_roffs :: "'d a2a_buffer \<Rightarrow> int list" where
  "w_roffs b = (if buf_method b = CompNone then recv_offsets b else compressed_recv_offsets b)"

definition set_w_dst :: "byte list \<Rightarrow> 'd a2a_buffer \<Rightarrow> 'd a2a_buffer" where
  "set_w_dst m b =
     (if buf_method b = CompNone then b\<lparr>recv_buffer := m\<rparr> else b\<lparr>compressed_recv_buffer := m\<rparr>)"

definition wire_ok :: "'d cudf \<Rightarrow> nat \<Rightarrow> nat \<Rightarrow> nat \<Rightarrow> nat \<Rightarrow> (rank \<Rightarrow> 'd a2a_buffer) \<Rightarrow> bool" where
  "wire_ok env N grid st sz c \<longleftrightarrow>
     (\<forall>r < N. w_item env (c r) = sz \<and>
        offsets_ok (grid div st) (w_offs (c r)) \<and>
        w_offs (c r) ! (grid div st) * int sz \<le> int (length (w_data (c r))) \<and>
        w_roffs (c r) = recv_offsets_spec grid st (map (\<lambda>s. w_offs (c s)) [0..<N]) r \<and>
        int (length (w_dst (c r))) = w_roffs (c r) ! (grid div st) * int sz)"

text \<open>The message rank \<open>s\<close> has for rank \<open>r\<close>, and the state of \<open>r\<close> after the round.\<close>

definition msg_for :: "'d cudf \<Rightarrow> nat \<Rightarrow> nat \<Rightarrow> (rank \<Rightarrow> 'd a2a_buffer) \<Rightarrow> rank \<Rightarrow> rank \<Rightarrow> msg" where
  "msg_for env grid st c r s =
     (w_item env (c s),
      seg (w_data (c s)) (w_offs (c s)) (w_item env (c s)) (get_local_idx (comm_group_at grid st r)))"

definition transported :: "'d cudf \<Rightarrow> nat \<Rightarrow> nat \<Rightarrow> bool \<Rightarrow> (rank \<Rightarrow> 'd a2a_buffer) \<Rightarrow> rank \<Rightarrow> 'd a2a_buffer" where
  "transported env grid st incl c r =
     (let g = comm_group_at grid st r in
      set_w_dst (assembled g r incl (w_dst (c r)) (w_roffs (c r)) (w_item env (c r))
                   (\<lambda>i. snd (msg_for env grid st c r (get_global_rank g i)))) (c r))"

lemma post_sends_ok:
  assumes "wire_ok env N grid st sz c" and "r < N"
  shows "post_sends env (comm_group_at grid st r) me incl (c r) =
    Inr (map (\<lambda>i. (get_global_rank (comm_group_at grid st r) i,
                   (sz, seg (w_data (c r)) (w_offs (c r)) sz i))) (talk_idxs (comm_group_at grid st r) me incl))"
proof -
  have "post_sends env (comm_group_at grid st r) me incl (c r) =
      send_data_by_offset (w_data (c r)) (w_offs (c r)) (w_item env (c r)) (comm_group_at grid st r) me incl"
    by (simp add: post_sends_def w_data_def w_offs_def w_item_def)
  with assms show ?thesis
    by (simp add: wire_ok_def send_data_by_offset_ok group_size_at)
qed

lemma post_recvs_ok:
  assumes "wire_ok env N grid st sz c" and "r < N"
  shows "post_recvs env (comm_group_at grid st r) me incl (c r) =
    Inr (map (\<lambda>i. (get_global_rank (comm_group_at grid st r) i, w_roffs (c r) ! i * int sz,
                   (w_roffs (c r) ! Suc i - w_roffs (c r) ! i) * int sz))
          (talk_idxs (comm_group_at grid st r) me incl))"
proof -
  have "post_recvs env (comm_group_at grid st r) me incl (c r) =
      recv_data_by_offset (w_roffs (c r)) (w_item env (c r)) (comm_group_at grid st r) me incl"
    by (simp add: post_recvs_def w_roffs_def w_item_def)
  with assms show ?thesis
    by (simp add: wire_ok_def recv_data_by_offset_ok group_size_at)
qed

lemma complete_buffer_w:
  "complete_buffer buf ps ms = ebind (complete_recvs (w_dst buf) ps ms) (\<lambda>m. Inr (set_w_dst m buf))"
  by (simp add: complete_buffer_def w_dst_def set_w_dst_def)

text \<open>Sender and receiver agree on the length of every message.\<close>

lemma msg_length:
  assumes w: "wire_ok env N grid st sz c" and grp: "group_params N grid st" and "r < N" and i: "i < grid div st"
  defines "g \<equiv> comm_group_at grid st r"
  shows "int (length (snd (msg_for env grid st c r (get_global_rank g i)))) =
    (w_roffs (c r) ! Suc i - w_roffs (c r) ! i) * int sz"
proof -
  let ?s = "get_global_rank g i" and ?k = "get_local_idx g"
  have s: "?s < N"
    unfolding g_def using i by (intro member_less [OF grp]) (simp_all add: group_size_at \<open>r < N\<close>)
  have k: "?k < grid div st"
    unfolding g_def using local_idx_less [OF grp, of r] by (simp add: group_size_at)
  have "int (length (snd (msg_for env grid st c r ?s))) = (w_offs (c ?s) ! Suc ?k - w_offs (c ?s) ! ?k) * int sz"
    using w s k length_seg [of "grid div st" "w_offs (c ?s)" sz "w_data (c ?s)" ?k]
    by (simp add: msg_for_def wire_ok_def flip: g_def)
  moreover have "w_roffs (c r) ! Suc i - w_roffs (c r) ! i = w_offs (c ?s) ! Suc ?k - w_offs (c ?s) ! ?k"
    using w \<open>r < N\<close> s i unfolding g_def
    by (simp add: wire_ok_def recv_offsets_spec_diff sent_count_def)
  ultimately show ?thesis by simp
qed

lemma wire_roffs_ok:
  assumes w: "wire_ok env N grid st sz c" and grp: "group_params N grid st" and "r < N"
  shows "offsets_ok (grid div st) (w_roffs (c r))" and "w_roffs (c r) ! 0 = 0"
proof -
  have "w_roffs (c r) = recv_offsets_spec grid st (map (\<lambda>s. w_offs (c s)) [0..<N]) r"
    using w \<open>r < N\<close> by (simp add: wire_ok_def)
  moreover have "offsets_ok (grid div st) \<dots>"
    using w by (intro recv_offsets_spec_ok [OF grp \<open>r < N\<close>]) (simp add: wire_ok_def)
  ultimately show "offsets_ok (grid div st) (w_roffs (c r))" and "w_roffs (c r) ! 0 = 0"
    by simp_all
qed

lemma complete_buffer_ok:
  assumes w: "wire_ok env N grid st sz c" and grp: "group_params N grid st" and "r < N"
  defines "g \<equiv> comm_group_at grid st r"
  shows "complete_buffer (c r)
     (map (\<lambda>i. (get_global_rank g i, w_roffs (c r) ! i * int sz,
                (w_roffs (c r) ! Suc i - w_roffs (c r) ! i) * int sz)) (talk_idxs g r incl))
     (map (\<lambda>i. msg_for env grid st c r (get_global_rank g i)) (talk_idxs g r incl))
     = Inr (transported env grid st incl c r)"
proof -
  have n: "group_size g = grid div st" by (simp add: g_def group_size_at)
  have sz: "w_item env (c r) = sz" and len: "int (length (w_dst (c r))) = w_roffs (c r) ! (grid div st) * int sz"
    using w \<open>r < N\<close> by (simp_all add: wire_ok_def)
  show ?thesis
    unfolding complete_buffer_w
    using wire_roffs_ok [OF w grp \<open>r < N\<close>] len msg_length [OF w grp \<open>r < N\<close>]
    by (subst complete_recvs_ok) (simp_all add: n transported_def Let_def sz flip: g_def)
qed

end
