(* ===== verification/All_To_All_World.thy ===== *)
theory All_To_All_World
  imports All_To_All_Correct
begin

text \<open>
  From one buffer on one rank to the whole step: a round over several buffers, the
  compression of a buffer on all ranks, the loop of \<open>all_to_all_comm\<close> in both grouping
  modes, and the decompression. A world of \<open>B\<close> buffers on \<open>N\<close> ranks is \<open>mat B N F\<close> for a
  function \<open>F\<close> from buffers and ranks.
\<close>

definition mat :: "nat \<Rightarrow> nat \<Rightarrow> (nat \<Rightarrow> rank \<Rightarrow> 'b) \<Rightarrow> 'b list list" where
  "mat B N F = map (\<lambda>r. map (\<lambda>b. F b r) [0..<B]) [0..<N]"

lemma length_mat [simp]: "length (mat B N F) = N"
  by (simp add: mat_def)

lemma nth_mat [simp]: "r < N \<Longrightarrow> mat B N F ! r = map (\<lambda>b. F b r) [0..<B]"
  by (simp add: mat_def)

lemma mat_cong: "(\<And>b r. b < B \<Longrightarrow> r < N \<Longrightarrow> F b r = G b r) \<Longrightarrow> mat B N F = mat B N G"
  by (simp add: mat_def)

section \<open>A round\<close>

lemma deliver_ok:
  assumes "distinct bs" and "set bs \<subseteq> {..<length bufs}"
    and "\<forall>b \<in> set bs. length (ms b) = length (ps b) \<and> complete_buffer (bufs ! b) (ps b) (ms b) = Inr (out b)"
  shows "deliver bufs (zip bs (map ps bs)) (concat (map ms bs)) =
    Inr (map (\<lambda>b. if b \<in> set bs then out b else bufs ! b) [0..<length bufs])"
  using assms
proof (induction bs arbitrary: bufs)
  case Nil
  then show ?case by (simp add: map_nth)
next
  case (Cons b bs)
  let ?bufs = "bufs[b := out b]"
  have "deliver ?bufs (zip bs (map ps bs)) (concat (map ms bs)) =
      Inr (map (\<lambda>b'. if b' \<in> set bs then out b' else ?bufs ! b') [0..<length ?bufs])"
  proof (rule Cons.IH)
    have "?bufs ! b' = bufs ! b'" if "b' \<in> set bs" for b'
      using that Cons.prems(1) by (metis distinct.simps(2) nth_list_update_neq)
    with Cons.prems(3) show "\<forall>b' \<in> set bs. length (ms b') = length (ps b') \<and>
        complete_buffer (?bufs ! b') (ps b') (ms b') = Inr (out b')" by simp
  qed (use Cons.prems in auto)
  moreover have "map (\<lambda>b'. if b' \<in> set bs then out b' else ?bufs ! b') [0..<length ?bufs] =
      map (\<lambda>b'. if b' \<in> set (b # bs) then out b' else bufs ! b') [0..<length bufs]"
    using Cons.prems by auto
  ultimately show ?case using Cons.prems by simp
qed

text \<open>The members a rank exchanges messages with.\<close>

definition peers :: "comm_group \<Rightarrow> rank \<Rightarrow> bool \<Rightarrow> rank list" where
  "peers g me incl = map (get_global_rank g) (talk_idxs g me incl)"

lemma peers_eq: "peers g me incl = filter (\<lambda>s. incl \<or> s \<noteq> me) (members g)"
  by (simp add: peers_def talk_idxs_def members_def filter_map comp_def talks_to_def [abs_def])

lemma msgs_to_peer:
  assumes grp: "group_params N grid st" and s: "s \<in> set (peers (comm_group_at grid st r) r incl)"
  shows "msgs_to (map (\<lambda>i. (get_global_rank (comm_group_at grid st s) i, d i))
                    (talk_idxs (comm_group_at grid st s) s incl)) r
           = [d (get_local_idx (comm_group_at grid st r))]"
proof -
  let ?g = "comm_group_at grid st s" and ?k = "get_local_idx (comm_group_at grid st r)"
  from s have mem: "s \<in> set (members (comm_group_at grid st r))" and "incl \<or> s \<noteq> r"
    by (auto simp: peers_eq)
  then have "r \<in> set (members ?g)" using grp by (simp add: members_sym)
  then obtain i where i: "i < group_size ?g" "get_global_rank ?g i = r"
    by (auto simp: members_def)
  with grp have k: "?k = i" by (metis member_local_idx)
  have "inj_on (get_global_rank ?g) (set (talk_idxs ?g s incl))"
    using grp by (auto simp: inj_on_def global_rank_inj group_params_def)
  moreover have "?k \<in> set (talk_idxs ?g s incl)"
    using i k \<open>incl \<or> s \<noteq> r\<close> by (auto simp: talk_idxs_def talks_to_def)
  ultimately show ?thesis
    using msgs_to_map_distinct [of "talk_idxs ?g s incl" "get_global_rank ?g" ?k d] i k
    by (simp add: talk_idxs_def)
qed

definition okm_sizes :: "(msg \<Rightarrow> bool) \<Rightarrow> nat set \<Rightarrow> bool" where
  "okm_sizes okm szs \<longleftrightarrow> (\<forall>sz \<in> szs. \<forall>bs. sz dvd length bs \<longrightarrow> okm (sz, bs))"

lemma seg_dvd:
  assumes "offsets_ok n offs" and "offs ! n * int sz \<le> int (length data)" and "i < n"
  shows "sz dvd length (seg data offs sz i)"
  using length_seg [OF assms] by (metis dvd_triv_right int_dvd_int_iff)

lemma comm_round_ok:
  assumes tr: "p2p_transport exch okm N multi" and grp: "group_params N grid st"
    and bs: "distinct bs" "set bs \<subseteq> {..<B}" "multi \<or> length bs \<le> 1"
    and w: "\<forall>b \<in> set bs. wire_ok env N grid st (sz b) (F b)"
    and okm: "okm_sizes okm (sz ` set bs)"
  shows "comm_round exch env grid st incl bs (mat B N F) =
    Inr (mat B N (\<lambda>b r. if b \<in> set bs then transported env grid st incl (F b) r else F b r))"
proof -
  let ?g = "comm_group_at grid st"
  let ?snd = "\<lambda>b r. map (\<lambda>i. (get_global_rank (?g r) i, (sz b, seg (w_data (F b r)) (w_offs (F b r)) (sz b) i)))
                      (talk_idxs (?g r) r incl)"
  let ?snds = "map (\<lambda>r. concat (map (\<lambda>b. ?snd b r) bs)) [0..<N]"
  let ?post = "\<lambda>r b. map (\<lambda>i. (get_global_rank (?g r) i, w_roffs (F b r) ! i * int (sz b),
                 (w_roffs (F b r) ! Suc i - w_roffs (F b r) ! i) * int (sz b))) (talk_idxs (?g r) r incl)"
  let ?ms = "\<lambda>r b. map (msg_for env grid st (F b) r) (peers (?g r) r incl)"
  have at: "mat B N F ! r ! b = F b r" if "b \<in> set bs" "r < N" for b r
  proof -
    from that(1) bs(2) have "b < B" by auto
    with that(2) show ?thesis by simp
  qed
  have "emap (\<lambda>b. post_sends env (?g r) r incl (mat B N F ! r ! b)) bs = Inr (map (\<lambda>b. ?snd b r) bs)"
    if "r < N" for r
    using w that by (intro emap_Inr) (auto simp: at simp del: nth_mat intro!: post_sends_ok)
  then have sends: "emap (\<lambda>r. ebind (emap (\<lambda>b. post_sends env (?g r) r incl (mat B N F ! r ! b)) bs)
      (\<lambda>xss. Inr (concat xss))) [0..<N] = Inr ?snds"
    by (intro emap_Inr) simp
  have okmsgs: "admissible okm N multi ?snds"
  proof -
    have "okm (sz b, seg (w_data (F b r)) (w_offs (F b r)) (sz b) i)"
      if "b \<in> set bs" "r < N" "i \<in> set (talk_idxs (?g r) r incl)" for b r i
      using that w okm seg_dvd [of "grid div st" "w_offs (F b r)" "sz b" "w_data (F b r)" i]
      by (auto simp: wire_ok_def okm_sizes_def talk_idxs_def group_size_at)
    moreover have "get_global_rank (?g r) i < N" if "r < N" "i \<in> set (talk_idxs (?g r) r incl)" for r i
      using that member_less [OF grp _ that(1)] by (simp add: talk_idxs_def)
    moreover have "distinct (map fst (concat (map (\<lambda>b. ?snd b r) bs)))" if "\<not> multi" for r
    proof -
      have "distinct (map (get_global_rank (?g r)) (talk_idxs (?g r) r incl))"
        using grp by (simp add: flip: peers_def) (simp add: peers_eq distinct_members group_params_def)
      moreover have "bs = [] \<or> (\<exists>b. bs = [b])" using bs(3) that by (cases bs) auto
      ultimately show ?thesis by (auto simp: comp_def)
    qed
    moreover have "N < 2 ^ 31" using grp by (simp add: group_params_def)
    ultimately show ?thesis by (auto simp: admissible_def)
  qed
  have exch: "exch ?snds r (concat (map (\<lambda>_. peers (?g r) r incl) bs)) = Inr (concat (map (?ms r) bs))"
    if r: "r < N" for r
  proof -
    have "distinct (peers (?g r) r incl)"
      using grp by (simp add: peers_eq distinct_members group_params_def)
    moreover have "\<forall>s \<in> set (peers (?g r) r incl). s < length ?snds \<and>
        msgs_to (?snds ! s) r = map (\<lambda>b. msg_for env grid st (F b) r s) bs"
    proof
      fix s assume s: "s \<in> set (peers (?g r) r incl)"
      then have "s < N" using members_less [OF grp r] by (simp add: peers_eq)
      moreover have "msgs_to (?snd b s) r = [msg_for env grid st (F b) r s]" if "b \<in> set bs" for b
        using msgs_to_peer [OF grp s] w that \<open>s < N\<close> by (simp add: msg_for_def wire_ok_def)
      then have "map (\<lambda>b. msgs_to (?snd b s) r) bs = map (\<lambda>b. [msg_for env grid st (F b) r s]) bs"
        by simp
      then have "concat (map (\<lambda>b. msgs_to (?snd b s) r) bs) = map (\<lambda>b. msg_for env grid st (F b) r s) bs"
        by (simp only: concat_map_singleton)
      ultimately show "s < length ?snds \<and>
          msgs_to (?snds ! s) r = map (\<lambda>b. msg_for env grid st (F b) r s) bs"
        by (simp add: msgs_to_concat comp_def)
    qed
    ultimately show ?thesis
      by (rule p2p_transport.grouped_round [OF tr okmsgs r])
  qed
  have recv: "receive_all exch env (?g r) r incl ?snds bs (mat B N F ! r) =
      Inr (map (\<lambda>b. if b \<in> set bs then transported env grid st incl (F b) r else F b r) [0..<B])"
    if r: "r < N" for r
  proof -
    have post: "emap (\<lambda>b. post_recvs env (?g r) r incl (mat B N F ! r ! b)) bs = Inr (map (?post r) bs)"
      using w r by (intro emap_Inr) (auto simp: at simp del: nth_mat intro!: post_recvs_ok)
    have srcs: "map fst (concat (map (?post r) bs)) = concat (map (\<lambda>_. peers (?g r) r incl) bs)"
      by (simp add: map_concat peers_def comp_def)
    have "complete_buffer (F b r) (?post r b) (?ms r b) = Inr (transported env grid st incl (F b) r)"
      if "b \<in> set bs" for b
      using complete_buffer_ok [of env N grid st "sz b" "F b" r incl] w that grp r
      by (simp add: peers_def comp_def)
    then have "deliver (mat B N F ! r) (zip bs (map (?post r) bs)) (concat (map (?ms r) bs)) =
        Inr (map (\<lambda>b. if b \<in> set bs then transported env grid st incl (F b) r else mat B N F ! r ! b)
          [0..<length (mat B N F ! r)])"
    proof (intro deliver_ok bs(1))
      show "set bs \<subseteq> {..<length (mat B N F ! r)}" using bs r by simp
    qed (use r in \<open>simp add: peers_def at del: nth_mat\<close>)
    also have "map (\<lambda>b. if b \<in> set bs then transported env grid st incl (F b) r else mat B N F ! r ! b)
          [0..<length (mat B N F ! r)] =
        map (\<lambda>b. if b \<in> set bs then transported env grid st incl (F b) r else F b r) [0..<B]"
      using r by simp
    finally show ?thesis
      by (simp only: receive_all_def post ebind.simps srcs exch [OF r])
  qed
  have "comm_round exch env grid st incl bs (mat B N F) =
      emap (\<lambda>r. receive_all exch env (?g r) r incl ?snds bs (mat B N F ! r)) [0..<N]"
    unfolding comm_round_def Let_def length_mat by (simp only: sends ebind.simps)
  also have "\<dots> = Inr (mat B N (\<lambda>b r. if b \<in> set bs then transported env grid st incl (F b) r else F b r))"
    unfolding mat_def [of B N "\<lambda>b r. if b \<in> set bs then _ b r else _ b r"]
    by (rule emap_Inr) (simp only: recv set_upt atLeastLessThan_iff)
  finally show ?thesis .
qed

end
