(* ===== verification/All_To_All_Delivery.thy ===== *)
theory All_To_All_Delivery
  imports All_To_All_World
begin

text \<open>
  The compressed path, and the delivery theorem: preparing, transporting and
  postprocessing a buffer leaves in every receive buffer the partitions of the peers, for
  either compression method. \<open>buffer_ready\<close> is the contract of a plan (an
  \<open>AllToAllCommBuffer\<close> on every rank) before the communication.
\<close>

definition buffer_ready ::
  "'d cudf \<Rightarrow> nat \<Rightarrow> nat \<Rightarrow> nat \<Rightarrow> 'd \<Rightarrow> compression_method \<Rightarrow> (rank \<Rightarrow> 'd a2a_buffer) \<Rightarrow> bool" where
  "buffer_ready env N grid st d m c \<longleftrightarrow>
     sendable env d m \<and>
     (\<forall>r < N. buf_dtype (c r) = d \<and> buf_method (c r) = m \<and>
        offsets_ok (grid div st) (send_offsets (c r)) \<and>
        send_offsets (c r) ! (grid div st) < 2 ^ 31 \<and>
        send_offsets (c r) ! (grid div st) * int (size_of env d) \<le> int (length (send_buffer (c r))) \<and>
        recv_offsets (c r) = recv_offsets_spec grid st (map (\<lambda>s. send_offsets (c s)) [0..<N]) r \<and>
        int (length (recv_buffer (c r))) = recv_offsets (c r) ! (grid div st) * int (size_of env d))"

lemma narrow32_id: "0 \<le> x \<Longrightarrow> x < 2 ^ 31 \<Longrightarrow> narrow32 x = x"
  unfolding narrow32_def by (simp add: signed_of_int signed_take_bit_int_eq_self)

lemma efold_cong:
  "(\<And>s x. x \<in> set xs \<Longrightarrow> f s x = g s x) \<Longrightarrow> efold f s xs = efold g s xs"
proof (induction xs arbitrary: s)
  case Nil
  show ?case by simp
next
  case (Cons x xs)
  then have "f s x = g s x" and "\<And>t. efold f t xs = efold g t xs" by auto
  then show ?case by simp
qed

lemma efold_map: "efold f s (map h xs) = efold (\<lambda>s x. f s (h x)) s xs"
proof (induction xs arbitrary: s)
  case Nil
  show ?case by simp
next
  case (Cons x xs)
  then have "(\<lambda>t. efold f t (map h xs)) = (\<lambda>t. efold (\<lambda>s x. f s (h x)) t xs)" by auto
  then show ?case by simp
qed

section \<open>Compressing on one rank\<close>

text \<open>The partition for local index \<open>i\<close> and its compressed bytes.\<close>

definition part_of :: "'d cudf \<Rightarrow> comm_group \<Rightarrow> rank \<Rightarrow> bool \<Rightarrow> 'd a2a_buffer \<Rightarrow> nat \<Rightarrow> int \<times> int" where
  "part_of env g me incl buf i =
     (if talks_to g me incl i
      then (send_offsets buf ! i * int (size_of env (buf_dtype buf)), send_offsets buf ! Suc i - send_offsets buf ! i)
      else (0, 0))"

definition comp_part :: "nvcomp \<Rightarrow> 'd cudf \<Rightarrow> comm_group \<Rightarrow> rank \<Rightarrow> bool \<Rightarrow> 'd a2a_buffer \<Rightarrow> nat \<Rightarrow> byte list" where
  "comp_part nv env g me incl buf i =
     part_bytes nv (buf_format buf) (type_dispatcher env (buf_dtype buf)) (send_buffer buf) (part_of env g me incl buf i)"

definition comp_offs :: "nvcomp \<Rightarrow> 'd cudf \<Rightarrow> comm_group \<Rightarrow> rank \<Rightarrow> bool \<Rightarrow> 'd a2a_buffer \<Rightarrow> int list" where
  "comp_offs nv env g me incl buf =
     0 # partial_sum 0 (map (\<lambda>i. int (length (comp_part nv env g me incl buf i))) [0..<group_size g])"

definition comp_buffer :: "nvcomp \<Rightarrow> 'd cudf \<Rightarrow> comm_group \<Rightarrow> rank \<Rightarrow> bool \<Rightarrow> 'd a2a_buffer \<Rightarrow> byte list" where
  "comp_buffer nv env g me incl buf = concat (map (comp_part nv env g me incl buf) [0..<group_size g])"

lemma sendable_size:
  "cudf_ok env \<Longrightarrow> cascaded_type (type_dispatcher env d) \<Longrightarrow> sizeof (type_dispatcher env d) = size_of env d"
  using cascaded_type_sizeof [of "type_dispatcher env d"] by (auto simp: cudf_ok_def)

lemma ready_cascaded:
  assumes "buffer_ready env N grid st d CompCascaded c"
  shows "cascaded_type (type_dispatcher env d)"
  using assms by (simp add: buffer_ready_def sendable_def)

text \<open>What a compressed plan needs of its environment, kept together for the lemmas below.\<close>

definition comp_ready :: "nvcomp \<Rightarrow> 'd cudf \<Rightarrow> nat \<Rightarrow> nat \<Rightarrow> nat \<Rightarrow> 'd \<Rightarrow> (rank \<Rightarrow> 'd a2a_buffer) \<Rightarrow> bool" where
  "comp_ready nv env N grid st d c \<longleftrightarrow>
     nvcomp_ok nv \<and> cudf_ok env \<and> group_params N grid st \<and> buffer_ready env N grid st d CompCascaded c"

lemma comp_readyD:
  assumes "comp_ready nv env N grid st d c"
  shows "nvcomp_ok nv" "cudf_ok env" "group_params N grid st" "buffer_ready env N grid st d CompCascaded c"
    "cascaded_type (type_dispatcher env d)" "sizeof (type_dispatcher env d) = size_of env d"
proof -
  from assms show "nvcomp_ok nv" "cudf_ok env" "group_params N grid st"
    and ready: "buffer_ready env N grid st d CompCascaded c"
    by (simp_all add: comp_ready_def)
  from ready show "cascaded_type (type_dispatcher env d)" by (rule ready_cascaded)
  with \<open>cudf_ok env\<close> show "sizeof (type_dispatcher env d) = size_of env d" by (rule sendable_size)
qed

lemma comp_ready_rank:
  assumes "comp_ready nv env N grid st d c" and "r < N"
  shows "buf_dtype (c r) = d" "buf_method (c r) = CompCascaded"
    "offsets_ok (grid div st) (send_offsets (c r))"
    "send_offsets (c r) ! (grid div st) < 2 ^ 31"
    "send_offsets (c r) ! (grid div st) * int (size_of env d) \<le> int (length (send_buffer (c r)))"
    "recv_offsets (c r) = recv_offsets_spec grid st (map (\<lambda>s. send_offsets (c s)) [0..<N]) r"
    "int (length (recv_buffer (c r))) = recv_offsets (c r) ! (grid div st) * int (size_of env d)"
  using comp_readyD(4) [OF assms(1)] assms(2) unfolding buffer_ready_def by auto

lemma part_count:
  assumes "comp_ready nv env N grid st d c" and "r < N" and "i < grid div st"
  shows "0 \<le> send_offsets (c r) ! Suc i - send_offsets (c r) ! i"
    and "send_offsets (c r) ! Suc i - send_offsets (c r) ! i < 2 ^ 31"
proof -
  note rank = comp_ready_rank [OF assms(1,2)]
  have "0 \<le> send_offsets (c r) ! i" "send_offsets (c r) ! i \<le> send_offsets (c r) ! Suc i"
    "send_offsets (c r) ! Suc i \<le> send_offsets (c r) ! (grid div st)"
    using rank(3) assms(3) by (auto intro: offsets_ok_nonneg offsets_ok_mono)
  with rank(4) show "0 \<le> send_offsets (c r) ! Suc i - send_offsets (c r) ! i"
    and "send_offsets (c r) ! Suc i - send_offsets (c r) ! i < 2 ^ 31" by linarith+
qed

lemma part_of_valid:
  assumes cr: "comp_ready nv env N grid st d c" and "r < N" and "i < grid div st"
  shows "part_valid (type_dispatcher env d) (send_buffer (c r)) (part_of env g me incl (c r) i)"
proof -
  note rank = comp_ready_rank [OF cr assms(2)]
  have "send_offsets (c r) ! i * int (size_of env d) +
      (send_offsets (c r) ! Suc i - send_offsets (c r) ! i) * int (size_of env d) =
      send_offsets (c r) ! Suc i * int (size_of env d)"
    by (simp add: algebra_simps)
  with part_count [OF assms] offsets_ok_range [OF rank(3,5) assms(3)] show ?thesis
    by (simp add: part_valid_def part_of_def rank comp_readyD(6) [OF cr])
qed

lemma compress_partitions_ok:
  assumes cr: "comp_ready nv env N grid st d c" and r: "r < N"
  defines "g \<equiv> comm_group_at grid st r"
  shows "compress_partitions nv env g r incl (c r) =
    Inr (map (\<lambda>i. padded_part nv (buf_format (c r)) (type_dispatcher env d) (send_buffer (c r))
                    (part_of env g r incl (c r) i)) [0..<grid div st])"
proof -
  note rank = comp_ready_rank [OF cr r]
  have n: "group_size g = grid div st" by (simp add: g_def group_size_at)
  have len: "length (send_offsets (c r)) = Suc (grid div st)" using rank(3) by (simp add: offsets_ok_def)
  let ?step = "\<lambda>local_idx.
      if \<not> incl \<and> get_global_rank g local_idx = r then Inr (0, 0)
      else ebind (vec_at (send_offsets (c r)) (Suc local_idx)) (\<lambda>b.
           ebind (vec_at (send_offsets (c r)) local_idx) (\<lambda>a.
             Inr (a * int (size_of env (buf_dtype (c r))), narrow32 (b - a))))"
  have "emap ?step [0..<grid div st] = Inr (map (part_of env g r incl (c r)) [0..<grid div st])"
    by (rule emap_Inr) (simp add: len part_of_def talks_to_def narrow32_id [OF part_count [OF cr r]])
  then have "compress_partitions nv env g r incl (c r) =
      compression_functor nv (type_dispatcher env d) (buf_format (c r)) (send_buffer (c r))
        (map (part_of env g r incl (c r)) [0..<grid div st])"
    unfolding compress_partitions_def n by (simp only: ebind.simps rank(1))
  also have "\<dots> = Inr (map (padded_part nv (buf_format (c r)) (type_dispatcher env d) (send_buffer (c r)))
      (map (part_of env g r incl (c r)) [0..<grid div st]))"
    using part_of_valid [OF cr r] comp_readyD [OF cr] by (intro compression_functor_ok) auto
  finally show ?thesis by (simp add: comp_def)
qed

lemma compressed_offsets_ok:
  assumes cr: "comp_ready nv env N grid st d c" and r: "r < N"
  defines "g \<equiv> comm_group_at grid st r"
  shows "compressed_offsets (map (\<lambda>i. padded_part nv (buf_format (c r)) (type_dispatcher env d) (send_buffer (c r))
           (part_of env g r incl (c r) i)) [0..<grid div st]) = comp_offs nv env g r incl (c r)"
  using comp_ready_rank(1) [OF cr r]
  by (simp add: compressed_offsets_def comp_offs_def comp_part_def snd_padded_part g_def group_size_at comp_def)

text \<open>The compressed offsets delimit the compressed partitions in the merged buffer.\<close>

lemma comp_offs_addresses: "addresses (group_size g) ((!) (comp_offs nv env g me incl buf))"
proof -
  let ?lens = "map (\<lambda>i. int (length (comp_part nv env g me incl buf i))) [0..<group_size g]"
  have "comp_offs nv env g me incl buf ! i \<le> comp_offs nv env g me incl buf ! Suc i" if "i < group_size g" for i
  proof -
    have "comp_offs nv env g me incl buf ! Suc i - comp_offs nv env g me incl buf ! i = ?lens ! i"
      unfolding comp_offs_def by (rule partial_sum_diff) (simp add: that)
    moreover have "0 \<le> ?lens ! i" using that by simp
    ultimately show ?thesis by linarith
  qed
  then show ?thesis by (simp add: addresses_def comp_offs_def)
qed

lemma comp_offs_diff:
  "i < group_size g \<Longrightarrow> int (length (comp_part nv env g me incl buf i)) =
     comp_offs nv env g me incl buf ! Suc i - comp_offs nv env g me incl buf ! i"
  unfolding comp_offs_def by (subst partial_sum_diff) auto

lemma comp_offs_offsets_ok: "offsets_ok (group_size g) (comp_offs nv env g me incl buf)"
  unfolding comp_offs_def by (rule offsets_ok_partial_sum) auto

lemma length_comp_offs [simp]: "length (comp_offs nv env g me incl buf) = Suc (group_size g)"
  by (simp add: comp_offs_def)

lemma length_comp_buffer:
  "int (length (comp_buffer nv env g me incl buf)) = comp_offs nv env g me incl buf ! group_size g"
  unfolding comp_buffer_def
  by (rule length_pieces [OF comp_offs_addresses]) (auto intro: comp_offs_diff)

lemma seg_comp_buffer:
  assumes "i < group_size g"
  shows "seg (comp_buffer nv env g me incl buf) (comp_offs nv env g me incl buf) 1 i = comp_part nv env g me incl buf i"
  unfolding seg_def comp_buffer_def
  by (simp add: subrange_pieces [OF comp_offs_addresses] comp_offs_diff assms)

lemma merge_compressed_ok:
  assumes cr: "comp_ready nv env N grid st d c" and r: "r < N"
  defines "g \<equiv> comm_group_at grid st r"
  shows "merge_compressed g r incl (comp_offs nv env g r incl (c r))
     (map (\<lambda>i. padded_part nv (buf_format (c r)) (type_dispatcher env d) (send_buffer (c r))
            (part_of env g r incl (c r) i)) [0..<grid div st]) = Inr (comp_buffer nv env g r incl (c r))"
proof -
  let ?offs = "comp_offs nv env g r incl (c r)" and ?part = "comp_part nv env g r incl (c r)"
  let ?outs = "map (\<lambda>i. padded_part nv (buf_format (c r)) (type_dispatcher env d) (send_buffer (c r))
            (part_of env g r incl (c r) i)) [0..<grid div st]"
  have n: "group_size g = grid div st" by (simp add: g_def group_size_at)
  have d: "buf_dtype (c r) = d" using comp_ready_rank(1) [OF cr r] .
  have last: "last ?offs = ?offs ! group_size g"
    by (rule offsets_ok_last [OF comp_offs_offsets_ok])
  have nonneg: "0 \<le> ?offs ! group_size g"
    by (rule offsets_ok_nonneg [OF comp_offs_offsets_ok order_refl])
  have read: "read_mem (fst (?outs ! i)) 0 (int (snd (?outs ! i))) = Inr (?part i)" if "i < group_size g" for i
  proof -
    let ?p = "padded_part nv (buf_format (c r)) (type_dispatcher env d) (send_buffer (c r)) (part_of env g r incl (c r) i)"
    have "snd ?p \<le> length (fst ?p)" by (auto simp: padded_part_def Let_def part_bytes_def)
    moreover have "take (snd ?p) (fst ?p) = ?part i" by (simp add: take_padded_part comp_part_def d)
    ultimately show ?thesis using that n by (simp add: read_mem_def subrange_def)
  qed
  have "merge_compressed g r incl ?offs ?outs =
      efold (\<lambda>m i. if talks_to g r incl i then write_mem m (?offs ! i) (?part i) else Inr m)
        (replicate (nat (?offs ! group_size g)) 0) [0..<group_size g]"
    unfolding merge_compressed_def last
    by (rule efold_cong) (use read n in \<open>auto simp: talks_to_def split_def\<close>)
  also have "\<dots> = Inr (concat (map (\<lambda>i. if talks_to g r incl i then ?part i
      else subrange (replicate (nat (?offs ! group_size g)) 0) (?offs ! i) (?offs ! Suc i)) [0..<group_size g]))"
    using nonneg by (intro write_all_segments comp_offs_addresses) (auto simp: comp_offs_diff)
  also have "(\<lambda>i. if talks_to g r incl i then ?part i
      else subrange (replicate (nat (?offs ! group_size g)) 0) (?offs ! i) (?offs ! Suc i)) i = ?part i"
    if "i < group_size g" for i
    using comp_offs_diff [OF that, of nv env r incl "c r"]
    by (auto simp: comp_part_def part_of_def part_bytes_def)
  then have "map (\<lambda>i. if talks_to g r incl i then ?part i
      else subrange (replicate (nat (?offs ! group_size g)) 0) (?offs ! i) (?offs ! Suc i)) [0..<group_size g] =
      map ?part [0..<group_size g]" by simp
  finally show ?thesis by (simp add: comp_buffer_def)
qed

section \<open>Preparing a buffer on all ranks\<close>

definition prepared ::
  "nvcomp \<Rightarrow> 'd cudf \<Rightarrow> nat \<Rightarrow> nat \<Rightarrow> nat \<Rightarrow> bool \<Rightarrow> (rank \<Rightarrow> 'd a2a_buffer) \<Rightarrow> rank \<Rightarrow> 'd a2a_buffer" where
  "prepared nv env N grid st incl c r =
     (let g = comm_group_at grid st;
          offs = (\<lambda>s. comp_offs nv env (g s) s incl (c s));
          roffs = recv_offsets_spec grid st (map offs [0..<N]) r
      in if buf_method (c r) = CompNone then c r
         else (c r)\<lparr>compressed_send_buffer := comp_buffer nv env (g r) r incl (c r),
                    compressed_recv_buffer := replicate (nat (last roffs)) 0,
                    compressed_send_offsets := offs r,
                    compressed_recv_offsets := roffs\<rparr>)"

lemma prepare_compressed_ok:
  assumes cr: "comp_ready nv env N grid st d c" and mpi: "p2p_transport mpi (\<lambda>_. True) N False"
  shows "prepare_compressed nv env mpi grid st incl (map c [0..<N]) =
    Inr (map (prepared nv env N grid st incl c) [0..<N])"
proof -
  let ?g = "comm_group_at grid st" and ?offs = "\<lambda>s. comp_offs nv env (comm_group_at grid st s) s incl (c s)"
  let ?outs = "\<lambda>r. map (\<lambda>i. padded_part nv (buf_format (c r)) (type_dispatcher env d) (send_buffer (c r))
            (part_of env (?g r) r incl (c r) i)) [0..<grid div st]"
  have outs: "emap (\<lambda>r. compress_partitions nv env (?g r) r incl (map c [0..<N] ! r)) [0..<N] = Inr (map ?outs [0..<N])"
    by (rule emap_Inr) (simp add: compress_partitions_ok [OF cr])
  have offs: "map compressed_offsets (map ?outs [0..<N]) = map ?offs [0..<N]"
    by (simp add: compressed_offsets_ok [OF cr])
  have sizes: "communicate_sizes mpi grid st (map ?offs [0..<N]) =
      Inr (map (recv_offsets_spec grid st (map ?offs [0..<N])) [0..<N])"
    by (rule communicate_sizes_eq [OF mpi comp_readyD(3) [OF cr]]) (simp_all add: group_size_at)
  have meth: "buf_method (c r) \<noteq> CompNone" if "r < N" for r
    using comp_ready_rank(2) [OF cr that] by simp
  show ?thesis
    unfolding prepare_compressed_def Let_def length_map length_upt diff_zero outs ebind.simps offs sizes
    by (rule emap_Inr) (simp add: compressed_offsets_ok [OF cr] merge_compressed_ok [OF cr] meth prepared_def Let_def)
qed

lemma prepare_buffer_ok:
  assumes "nvcomp_ok nv" and "cudf_ok env" and grp: "group_params N grid st" and mpi: "p2p_transport mpi (\<lambda>_. True) N False"
    and ready: "buffer_ready env N grid st d m c"
  shows "prepare_buffer nv env mpi grid st incl (map c [0..<N]) = Inr (map (prepared nv env N grid st incl c) [0..<N])"
proof (cases "m = CompNone")
  case True
  then have "\<forall>r < N. buf_method (c r) = CompNone" using ready by (simp add: buffer_ready_def)
  then show ?thesis by (simp add: prepare_buffer_def list_all_iff prepared_def Let_def)
next
  case False
  with ready have m: "m = CompCascaded" by (auto simp: buffer_ready_def sendable_def)
  with assms have cr: "comp_ready nv env N grid st d c" by (simp add: comp_ready_def)
  show ?thesis
  proof (cases "N = 0")
    case True
    then show ?thesis by (simp add: prepare_buffer_def)
  next
    case False
    then have "\<not> list_all (\<lambda>buf. buf_method buf = CompNone) (map c [0..<N])"
      using comp_ready_rank(2) [OF cr, of 0] by (auto simp: list_all_iff intro!: bexI [of _ 0])
    moreover have "list_all (\<lambda>buf. buf_method buf = CompCascaded) (map c [0..<N])"
      using comp_ready_rank(2) [OF cr] by (simp add: list_all_iff)
    ultimately show ?thesis by (simp only: prepare_buffer_def if_True if_False prepare_compressed_ok [OF cr mpi])
  qed
qed

end
