(* ===== verification/Delivery.thy ===== *)
theory Delivery
  imports All_To_All_Delivery
begin

text \<open>
  The delivery theorem of the all-to-all communication, assembled from the preparation,
  the round and the decompression.
\<close>

section \<open>Prepared buffers are transportable\<close>

definition wire_size :: "'d cudf \<Rightarrow> 'd \<Rightarrow> compression_method \<Rightarrow> nat" where
  "wire_size env d m = (if m = CompNone then size_of env d else 1)"

lemma prepared_none:
  "buf_method (c r) = CompNone \<Longrightarrow> prepared nv env N grid st incl c r = c r"
  by (simp add: prepared_def Let_def)

lemma prepared_cascaded:
  fixes incl :: bool
  assumes "comp_ready nv env N grid st d c" and "r < N"
  defines "g \<equiv> comm_group_at grid st" and "p \<equiv> prepared nv env N grid st incl c r"
  shows "w_data p = comp_buffer nv env (g r) r incl (c r)"
    "w_offs p = comp_offs nv env (g r) r incl (c r)"
    "w_item env p = 1"
    "w_roffs p = recv_offsets_spec grid st (map (\<lambda>s. comp_offs nv env (g s) s incl (c s)) [0..<N]) r"
    "w_dst p = replicate (nat (last (w_roffs p))) 0"
    "buf_method p = CompCascaded" "buf_dtype p = d" "recv_offsets p = recv_offsets (c r)"
    "recv_buffer p = recv_buffer (c r)" "compressed_recv_offsets p = w_roffs p"
  using comp_ready_rank(1,2) [OF assms(1,2)]
  by (simp_all add: p_def g_def prepared_def Let_def w_data_def w_offs_def w_item_def w_roffs_def w_dst_def)

lemma comp_offs_at_ok: "offsets_ok (grid div st) (comp_offs nv env (comm_group_at grid st s) me incl buf)"
  using comp_offs_offsets_ok [of "comm_group_at grid st s" nv env me incl buf] by (simp add: group_size_at)

lemma prepared_wire_ok:
  assumes nv: "nvcomp_ok nv" and env: "cudf_ok env" and grp: "group_params N grid st"
    and ready: "buffer_ready env N grid st d m c"
  shows "wire_ok env N grid st (wire_size env d m) (prepared nv env N grid st incl c)"
proof (cases "m = CompNone")
  case True
  with ready have none: "buf_method (c r) = CompNone" if "r < N" for r
    using that by (simp add: buffer_ready_def)
  have offs: "map (\<lambda>s. w_offs (prepared nv env N grid st incl c s)) [0..<N] = map (\<lambda>s. send_offsets (c s)) [0..<N]"
    using none by (intro map_cong) (simp_all add: prepared_none w_offs_def)
  show ?thesis
    unfolding wire_ok_def offs using ready True none
    by (simp add: wire_size_def prepared_none buffer_ready_def
        w_data_def w_offs_def w_item_def w_roffs_def w_dst_def)
next
  case False
  with ready have m: "m = CompCascaded" by (auto simp: buffer_ready_def sendable_def)
  with assms have cr: "comp_ready nv env N grid st d c" by (simp add: comp_ready_def)
  let ?g = "comm_group_at grid st" and ?p = "prepared nv env N grid st incl c"
  let ?offs = "\<lambda>s. comp_offs nv env (?g s) s incl (c s)"
  have offs: "map (\<lambda>s. w_offs (?p s)) [0..<N] = map ?offs [0..<N]"
    by (simp add: prepared_cascaded [OF cr])
  have ok: "\<forall>s < N. offsets_ok (grid div st) (map ?offs [0..<N] ! s)"
    by (simp add: comp_offs_at_ok)
  have "w_item env (?p r) = 1 \<and> offsets_ok (grid div st) (w_offs (?p r)) \<and>
      w_offs (?p r) ! (grid div st) * int 1 \<le> int (length (w_data (?p r))) \<and>
      w_roffs (?p r) = recv_offsets_spec grid st (map (\<lambda>s. w_offs (?p s)) [0..<N]) r \<and>
      int (length (w_dst (?p r))) = w_roffs (?p r) ! (grid div st) * int 1" if r: "r < N" for r
  proof -
    have rok: "offsets_ok (grid div st) (w_roffs (?p r))"
      unfolding prepared_cascaded(4) [OF cr r] by (rule recv_offsets_spec_ok [OF grp r ok])
    have "int (length (w_dst (?p r))) = w_roffs (?p r) ! (grid div st)"
      unfolding prepared_cascaded(5) [OF cr r] offsets_ok_last [OF rok]
      using offsets_ok_nonneg [OF rok order_refl] by simp
    moreover have "int (length (w_data (?p r))) = w_offs (?p r) ! (grid div st)"
      unfolding prepared_cascaded(1,2) [OF cr r] by (simp add: length_comp_buffer group_size_at)
    moreover have "offsets_ok (grid div st) (w_offs (?p r))"
      unfolding prepared_cascaded(2) [OF cr r] by (rule comp_offs_at_ok)
    ultimately show ?thesis
      by (simp add: prepared_cascaded(3) [OF cr r] prepared_cascaded(4) [OF cr r] offs)
  qed
  then show ?thesis by (simp add: wire_ok_def wire_size_def m)
qed

section \<open>The loop over the buffers\<close>

lemma at_buffer_mat:
  assumes "b < B" and "f (map (F b) [0..<N]) = Inr (map c [0..<N])"
  shows "at_buffer f b (mat B N F) = Inr (mat B N (F(b := c)))"
proof -
  have col: "map (\<lambda>bufs. bufs ! b) (mat B N F) = map (F b) [0..<N]"
    using assms(1) by (simp add: mat_def comp_def)
  have "map (\<lambda>(bufs, buf). bufs[b := buf]) (zip (mat B N F) (map c [0..<N])) = mat B N (F(b := c))"
  proof (rule nth_equalityI)
    fix r assume "r < length (map (\<lambda>(bufs, buf). bufs[b := buf]) (zip (mat B N F) (map c [0..<N])))"
    then have "r < N" by simp
    then show "map (\<lambda>(bufs, buf). bufs[b := buf]) (zip (mat B N F) (map c [0..<N])) ! r = mat B N (F(b := c)) ! r"
      using assms(1) by (auto intro!: nth_equalityI simp: nth_list_update)
  qed simp
  then show ?thesis by (simp add: at_buffer_def col assms(2))
qed

definition after_comm ::
  "nvcomp \<Rightarrow> 'd cudf \<Rightarrow> nat \<Rightarrow> nat \<Rightarrow> nat \<Rightarrow> bool \<Rightarrow> (rank \<Rightarrow> 'd a2a_buffer) \<Rightarrow> rank \<Rightarrow> 'd a2a_buffer" where
  "after_comm nv env N grid st incl c = transported env grid st incl (prepared nv env N grid st incl c)"

definition plans_ready ::
  "'d cudf \<Rightarrow> nat \<Rightarrow> nat \<Rightarrow> nat \<Rightarrow> nat \<Rightarrow> (nat \<Rightarrow> 'd) \<Rightarrow> (nat \<Rightarrow> compression_method) \<Rightarrow>
     (nat \<Rightarrow> rank \<Rightarrow> 'd a2a_buffer) \<Rightarrow> bool" where
  "plans_ready env N grid st B d m F \<longleftrightarrow> (\<forall>b < B. buffer_ready env N grid st (d b) (m b) (F b))"

lemma all_to_all_comm_ok:
  assumes nv: "nvcomp_ok nv" and env: "cudf_ok env" and grp: "group_params N grid st"
    and mpi: "p2p_transport mpi (\<lambda>_. True) N False" and tr: "p2p_transport exch okm N multi"
    and ready: "plans_ready env N grid st B d m F"
    and okm: "okm_sizes okm ((\<lambda>b. wire_size env (d b) (m b)) ` {..<B})" and "0 < N" and multi: "gbb \<longrightarrow> multi"
  shows "all_to_all_comm nv env mpi exch gbb grid st incl (mat B N F) =
    Inr (mat B N (\<lambda>b. after_comm nv env N grid st incl (F b)))"
proof -
  let ?prep = "\<lambda>w b. at_buffer (prepare_buffer nv env mpi grid st incl) b w"
  let ?p = "\<lambda>b. prepared nv env N grid st incl (F b)" and ?a = "\<lambda>b. after_comm nv env N grid st incl (F b)"
  let ?sz = "\<lambda>b. wire_size env (d b) (m b)"
  have B: "(case mat B N F of [] \<Rightarrow> 0 | bufs # _ \<Rightarrow> length bufs) = B"
    using \<open>0 < N\<close> by (cases N) (simp_all add: mat_def upt_conv_Cons del: upt_Suc)
  have prep: "?prep (mat B N G) b = Inr (mat B N (G(b := ?p b)))" if "b < B" "G b = F b" for b G
    using that ready by (intro at_buffer_mat) (auto simp: plans_ready_def intro: prepare_buffer_ok [OF nv env grp mpi])
  have wire: "wire_ok env N grid st (?sz b) (?p b)" if "b < B" for b
    using prepared_wire_ok [OF nv env grp] ready that by (simp add: plans_ready_def)
  show ?thesis
  proof (cases gbb)
    case True
    have "efold ?prep (mat B N F) [0..<k] = Inr (mat B N (\<lambda>b. if b < k then ?p b else F b))" if "k \<le> B" for k
      using that
    proof (induction k)
      case (Suc k)
      then have "efold ?prep (mat B N F) [0..<Suc k] =
          Inr (mat B N ((\<lambda>b. if b < k then ?p b else F b)(k := ?p k)))"
        by (simp add: efold_append prep)
      also have "(\<lambda>b. if b < k then ?p b else F b)(k := ?p k) = (\<lambda>b. if b < Suc k then ?p b else F b)"
        by auto
      finally show ?case .
    qed simp
    from this [of B] have "efold ?prep (mat B N F) [0..<B] = Inr (mat B N ?p)"
      by (simp cong: mat_cong)
    moreover have "comm_round exch env grid st incl [0..<B] (mat B N ?p) = Inr (mat B N ?a)"
      using wire okm True multi comm_round_ok [OF tr grp, of "[0..<B]" B env ?sz ?p incl]
      by (simp add: after_comm_def lessThan_atLeast0 cong: mat_cong)
    ultimately show ?thesis using True by (simp add: all_to_all_comm_def Let_def B)
  next
    case False
    let ?step = "\<lambda>w b. ebind (?prep w b) (comm_round exch env grid st incl [b])"
    have "efold ?step (mat B N F) [0..<k] = Inr (mat B N (\<lambda>b. if b < k then ?a b else F b))" if "k \<le> B" for k
      using that
    proof (induction k)
      case (Suc k)
      let ?G = "(\<lambda>b. if b < k then ?a b else F b)"
      have "okm_sizes okm {?sz k}" using okm Suc.prems by (simp add: okm_sizes_def)
      then have "comm_round exch env grid st incl [k] (mat B N (?G(k := ?p k))) =
          Inr (mat B N (\<lambda>b r. if b \<in> set [k] then transported env grid st incl ((?G(k := ?p k)) b) r
            else (?G(k := ?p k)) b r))"
        using Suc.prems wire [of k] by (intro comm_round_ok [OF tr grp, of "[k]" B env ?sz]) auto
      also have "\<dots> = Inr (mat B N (\<lambda>b. if b < Suc k then ?a b else F b))"
        by (simp add: after_comm_def) (rule mat_cong, auto simp: after_comm_def)
      finally show ?case using Suc by (simp add: efold_append prep)
    qed simp
    from this [of B] have "efold ?step (mat B N F) [0..<B] = Inr (mat B N ?a)"
      by (simp cong: mat_cong)
    then show ?thesis using False by (simp add: all_to_all_comm_def Let_def B)
  qed
qed


section \<open>Postprocessing and the delivery theorem\<close>

text \<open>
  The bytes rank \<open>r\<close> must end with: for every member of its group, in order, the partition
  that member holds for \<open>r\<close>. With \<open>incl\<close> false the place of the rank's own partition
  keeps what it held before.
\<close>

definition delivered :: "'d cudf \<Rightarrow> nat \<Rightarrow> nat \<Rightarrow> bool \<Rightarrow> (rank \<Rightarrow> 'd a2a_buffer) \<Rightarrow> rank \<Rightarrow> byte list" where
  "delivered env grid st incl c r =
     (let g = comm_group_at grid st r; w = (\<lambda>s. size_of env (buf_dtype (c s))) in
      concat (map (\<lambda>s. if \<not> incl \<and> s = r
                       then seg (recv_buffer (c r)) (recv_offsets (c r)) (w r) (get_local_idx g)
                       else seg (send_buffer (c s)) (send_offsets (c s)) (w s) (get_local_idx g))
                (members g)))"

lemma delivered_assembled:
  fixes r :: rank
  assumes grp: "group_params N grid st"
  defines "g \<equiv> comm_group_at grid st r"
  shows "delivered env grid st incl c r =
    assembled g r incl (recv_buffer (c r)) (recv_offsets (c r)) (size_of env (buf_dtype (c r)))
      (\<lambda>i. seg (send_buffer (c (get_global_rank g i))) (send_offsets (c (get_global_rank g i)))
              (size_of env (buf_dtype (c (get_global_rank g i)))) (get_local_idx g))"
proof -
  have "get_global_rank g i = r \<longleftrightarrow> i = get_local_idx g" if "i < group_size g" for i
    using that own_global_rank [OF grp, of r] member_local_idx [OF grp, of i r] unfolding g_def by metis
  then show ?thesis
    by (auto simp: delivered_def assembled_def members_def Let_def talks_to_def comp_def simp flip: g_def
        intro!: arg_cong [where f = concat])
qed

lemma after_comm_none:
  assumes grp: "group_params N grid st" and "r < N" and none: "\<forall>s < N. buf_method (c s) = CompNone"
  shows "after_comm nv env N grid st incl c r = (c r)\<lparr>recv_buffer := delivered env grid st incl c r\<rparr>"
proof -
  let ?g = "comm_group_at grid st r" and ?p = "prepared nv env N grid st incl c"
  have p: "?p s = c s" if "s < N" for s using none that by (simp add: prepared_none)
  have m: "get_global_rank ?g i < N" if "i < group_size ?g" for i
    using that by (intro member_less [OF grp] \<open>r < N\<close>)
  have "snd (msg_for env grid st ?p r (get_global_rank ?g i)) =
      seg (send_buffer (c (get_global_rank ?g i))) (send_offsets (c (get_global_rank ?g i)))
        (size_of env (buf_dtype (c (get_global_rank ?g i)))) (get_local_idx ?g)" if "i < group_size ?g" for i
    using p [OF m [OF that]] none m [OF that] by (simp add: msg_for_def w_data_def w_offs_def w_item_def)
  then have "assembled ?g r incl (recv_buffer (c r)) (recv_offsets (c r)) (size_of env (buf_dtype (c r)))
      (\<lambda>i. snd (msg_for env grid st ?p r (get_global_rank ?g i))) = delivered env grid st incl c r"
    unfolding delivered_assembled [OF grp] assembled_def
    by (intro arg_cong [where f = concat] map_cong) auto
  then show ?thesis
    using none \<open>r < N\<close>
    by (simp add: after_comm_def transported_def Let_def p set_w_dst_def w_dst_def w_roffs_def w_item_def)
qed

text \<open>The compressed bytes that arrive, piece by piece.\<close>

definition arrived :: "nvcomp \<Rightarrow> 'd cudf \<Rightarrow> nat \<Rightarrow> nat \<Rightarrow> nat \<Rightarrow> bool \<Rightarrow> (rank \<Rightarrow> 'd a2a_buffer) \<Rightarrow> rank \<Rightarrow> nat \<Rightarrow> byte list" where
  "arrived nv env N grid st incl c r i =
     (let g = comm_group_at grid st; p = prepared nv env N grid st incl c r; s = get_global_rank (g r) i in
      if talks_to (g r) r incl i then comp_part nv env (g s) s incl (c s) (get_local_idx (g r))
      else seg (w_dst p) (w_roffs p) 1 i)"

lemma after_comm_cascaded:
  assumes cr: "comp_ready nv env N grid st d c" and r: "r < N"
  shows "compressed_recv_buffer (after_comm nv env N grid st incl c r) =
      concat (map (arrived nv env N grid st incl c r) [0..<grid div st])"
    and "after_comm nv env N grid st incl c r =
      (prepared nv env N grid st incl c r)\<lparr>compressed_recv_buffer :=
        concat (map (arrived nv env N grid st incl c r) [0..<grid div st])\<rparr>"
proof -
  let ?g = "comm_group_at grid st" and ?p = "prepared nv env N grid st incl c"
  note grp = comp_readyD(3) [OF cr]
  have k: "get_local_idx (?g r) < grid div st"
    using local_idx_less [OF grp, of r] by (simp add: group_size_at)
  have "snd (msg_for env grid st ?p r (get_global_rank (?g r) i)) =
      comp_part nv env (?g (get_global_rank (?g r) i)) (get_global_rank (?g r) i) incl
        (c (get_global_rank (?g r) i)) (get_local_idx (?g r))" if "i < grid div st" for i
  proof -
    have "get_global_rank (?g r) i < N"
      using that by (intro member_less [OF grp] r) (simp add: group_size_at)
    note pc = prepared_cascaded [OF cr this, of incl]
    show ?thesis unfolding msg_for_def snd_conv pc(1,2,3)
      by (rule seg_comp_buffer) (simp add: group_size_at k)
  qed
  then have "assembled (?g r) r incl (w_dst (?p r)) (w_roffs (?p r)) (w_item env (?p r))
      (\<lambda>i. snd (msg_for env grid st ?p r (get_global_rank (?g r) i))) =
      concat (map (arrived nv env N grid st incl c r) [0..<grid div st])"
    unfolding assembled_def
    by (intro arg_cong [where f = concat] map_cong)
      (auto simp: arrived_def Let_def group_size_at prepared_cascaded(3) [OF cr r])
  then show eq: "after_comm nv env N grid st incl c r =
      (prepared nv env N grid st incl c r)\<lparr>compressed_recv_buffer :=
        concat (map (arrived nv env N grid st incl c r) [0..<grid div st])\<rparr>"
    using prepared_cascaded(6) [OF cr r, of incl]
    by (simp add: after_comm_def transported_def Let_def set_w_dst_def)
  show "compressed_recv_buffer (after_comm nv env N grid st incl c r) =
      concat (map (arrived nv env N grid st incl c r) [0..<grid div st])"
    unfolding eq by simp
qed

lemma arrived_length:
  fixes incl :: bool
  assumes cr: "comp_ready nv env N grid st d c" and r: "r < N" and i: "i < grid div st"
  defines "roffs \<equiv> w_roffs (prepared nv env N grid st incl c r)"
  shows "int (length (arrived nv env N grid st incl c r i)) = roffs ! Suc i - roffs ! i"
proof -
  let ?g = "comm_group_at grid st" and ?p = "prepared nv env N grid st incl c"
  let ?s = "get_global_rank (?g r) i" and ?k = "get_local_idx (?g r)"
  note grp = comp_readyD(3) [OF cr]
  have wire: "wire_ok env N grid st 1 ?p"
    using prepared_wire_ok [OF comp_readyD(1,2,3,4) [OF cr], of incl] by (simp add: wire_size_def)
  show ?thesis
  proof (cases "talks_to (?g r) r incl i")
    case True
    have s: "?s < N" using i by (intro member_less [OF grp] r) (simp add: group_size_at)
    have k: "?k < grid div st" using local_idx_less [OF grp, of r] by (simp add: group_size_at)
    then have "int (length (arrived nv env N grid st incl c r i)) =
        comp_offs nv env (?g ?s) ?s incl (c ?s) ! Suc ?k - comp_offs nv env (?g ?s) ?s incl (c ?s) ! ?k"
      using True by (simp add: arrived_def Let_def comp_offs_diff group_size_at)
    also have "\<dots> = roffs ! Suc i - roffs ! i"
      unfolding roffs_def prepared_cascaded(4) [OF cr r]
      using s i by (simp add: recv_offsets_spec_diff sent_count_def)
    finally show ?thesis .
  next
    case False
    have "int (length (w_dst (?p r))) = roffs ! (grid div st)"
      using wire r by (simp add: wire_ok_def roffs_def)
    then show ?thesis
      using False length_seg [OF wire_roffs_ok(1) [OF wire grp r], of 1 "w_dst (?p r)" i] i
      by (simp add: arrived_def Let_def flip: roffs_def)
  qed
qed

lemma arrived_addresses:
  assumes cr: "comp_ready nv env N grid st d c" and r: "r < N"
  shows "addresses (grid div st) ((!) (w_roffs (prepared nv env N grid st incl c r)))"
proof -
  have "wire_ok env N grid st 1 (prepared nv env N grid st incl c)"
    using prepared_wire_ok [OF comp_readyD(1,2,3,4) [OF cr], of incl] by (simp add: wire_size_def)
  from wire_roffs_ok [OF this comp_readyD(3) [OF cr] r] show ?thesis
    using addresses_offsets [of "grid div st" "w_roffs (prepared nv env N grid st incl c r)" 1] by simp
qed

lemma read_arrived:
  fixes incl :: bool
  assumes cr: "comp_ready nv env N grid st d c" and r: "r < N" and i: "i < grid div st"
  defines "roffs \<equiv> w_roffs (prepared nv env N grid st incl c r)"
  shows "read_mem (concat (map (arrived nv env N grid st incl c r) [0..<grid div st]))
     (roffs ! i) (roffs ! Suc i - roffs ! i) = Inr (arrived nv env N grid st incl c r i)"
proof -
  note addr = arrived_addresses [OF cr r, of incl, folded roffs_def]
  have len: "\<forall>i < grid div st. int (length (arrived nv env N grid st incl c r i)) = roffs ! Suc i - roffs ! i"
    using arrived_length [OF cr r] by (simp add: roffs_def)
  have "subrange (concat (map (arrived nv env N grid st incl c r) [0..<grid div st])) (roffs ! i) (roffs ! Suc i) =
      arrived nv env N grid st incl c r i"
    by (rule subrange_pieces [OF addr len i])
  moreover have "int (length (concat (map (arrived nv env N grid st incl c r) [0..<grid div st]))) = roffs ! (grid div st)"
    by (rule length_pieces [OF addr len order_refl])
  moreover have "0 \<le> roffs ! i" "roffs ! i \<le> roffs ! Suc i" "roffs ! Suc i \<le> roffs ! (grid div st)"
    using i addresses_nonneg [OF addr, of i] addresses_mono [OF addr, of i "Suc i"]
      addresses_mono [OF addr, of "Suc i" "grid div st"] by auto
  ultimately show ?thesis by (simp add: read_mem_def)
qed

text \<open>A partition of a peer that arrived decodes to the peer's bytes.\<close>

lemma arrived_decode:
  fixes incl :: bool
  assumes cr: "comp_ready nv env N grid st d c" and r: "r < N" and i: "i < grid div st"
  defines "g \<equiv> comm_group_at grid st r" and "X \<equiv> arrived nv env N grid st incl c r i"
    and "cnt \<equiv> recv_offsets (c r) ! Suc i - recv_offsets (c r) ! i"
  defines "s \<equiv> get_global_rank g i"
  defines "x \<equiv> seg (send_buffer (c s)) (send_offsets (c s)) (size_of env d) (get_local_idx g)"
  assumes talks: "talks_to g r incl i"
  shows "cnt \<noteq> 0 \<Longrightarrow> int (nv_output_bytes nv X) = cnt * int (size_of env d)"
    and "cnt \<noteq> 0 \<Longrightarrow> nv_decompress nv X = x"
    and "int (length x) = cnt * int (size_of env d)"
proof -
  let ?T = "type_dispatcher env d" and ?k = "get_local_idx g" and ?so = "send_offsets (c s)"
  note crD = comp_readyD [OF cr]
  have s: "s < N" unfolding s_def g_def using i by (intro member_less [OF crD(3)] r) (simp add: group_size_at)
  have k: "?k < grid div st" unfolding g_def using local_idx_less [OF crD(3), of r] by (simp add: group_size_at)
  note rank = comp_ready_rank [OF cr s]
  have cnt: "cnt = ?so ! Suc ?k - ?so ! ?k"
    unfolding cnt_def comp_ready_rank(6) [OF cr r] s_def g_def
    using i s by (simp add: recv_offsets_spec_diff sent_count_def s_def g_def)
  have "get_global_rank (comm_group_at grid st s) ?k = r"
    using own_global_rank [OF crD(3), of r] member_global_rank [OF crD(3), of i r ?k] i
    by (simp add: s_def g_def group_size_at)
  then have "talks_to (comm_group_at grid st s) s incl ?k"
    using talks by (auto simp: talks_to_def s_def)
  then have part: "part_of env (comm_group_at grid st s) s incl (c s) ?k = (?so ! ?k * int (size_of env d), cnt)"
    by (simp add: part_of_def rank cnt)
  have X: "X = part_bytes nv (buf_format (c s)) ?T (send_buffer (c s)) (?so ! ?k * int (size_of env d), cnt)"
    unfolding X_def arrived_def Let_def using talks
    by (simp add: comp_part_def rank part flip: g_def s_def)
  have valid: "part_valid ?T (send_buffer (c s)) (?so ! ?k * int (size_of env d), cnt)"
    using part_of_valid [OF cr s k] part by metis
  have x: "x = subrange (send_buffer (c s)) (?so ! ?k * int (size_of env d))
      (?so ! ?k * int (size_of env d) + cnt * int (size_of env d))"
    by (simp add: x_def seg_def cnt algebra_simps)
  show "int (length x) = cnt * int (size_of env d)"
    unfolding x_def cnt by (rule length_seg [OF rank(3,5) k])
  assume "cnt \<noteq> 0"
  with part_bytes_decode [OF crD(1,5) valid, of "buf_format (c s)"]
  show "int (nv_output_bytes nv X) = cnt * int (size_of env d)" and "nv_decompress nv X = x"
    by (simp_all add: X x crD(6))
qed

end
