(* ===== verification/Postprocess.thy ===== *)
theory Postprocess
  imports Delivery
begin

text \<open>
  Decompression on the receiving rank, and the whole path of a buffer: prepare, transport,
  postprocess.
\<close>

lemma postprocess_none:
  "buf_method buf = CompNone \<Longrightarrow> postprocess_buffer nv env g me incl buf = Inr buf"
  by (simp add: postprocess_buffer_def)

lemma emap_unit: "(\<And>x. x \<in> set xs \<Longrightarrow> f x = Inr ()) \<Longrightarrow> emap f xs = Inr (map (\<lambda>_. ()) xs)"
  by (rule emap_Inr) auto

lemma comp_ready_recv_offsets:
  assumes cr: "comp_ready nv env N grid st d c" and r: "r < N"
  shows "offsets_ok (grid div st) (recv_offsets (c r))" and "recv_offsets (c r) ! 0 = 0"
proof -
  note crD = comp_readyD [OF cr]
  have "\<forall>s < N. offsets_ok (grid div st) (map (\<lambda>s. send_offsets (c s)) [0..<N] ! s)"
    using comp_ready_rank(3) [OF cr] by simp
  from recv_offsets_spec_ok [OF crD(3) r this]
  show "offsets_ok (grid div st) (recv_offsets (c r))" by (simp add: comp_ready_rank(6) [OF cr r])
  show "recv_offsets (c r) ! 0 = 0" by (simp add: comp_ready_rank(6) [OF cr r] recv_offsets_spec_0)
qed

text \<open>The descriptor of the partition of local index \<open>i\<close> that the decompressor is given.\<close>

definition arrived_part ::
  "'d cudf \<Rightarrow> comm_group \<Rightarrow> rank \<Rightarrow> bool \<Rightarrow> 'd a2a_buffer \<Rightarrow> nat \<Rightarrow> int \<times> int \<times> int \<times> int" where
  "arrived_part env g me incl buf i =
     (if talks_to g me incl i
      then (compressed_recv_offsets buf ! i, compressed_recv_offsets buf ! Suc i - compressed_recv_offsets buf ! i,
            recv_offsets buf ! i * int (size_of env (buf_dtype buf)), recv_offsets buf ! Suc i - recv_offsets buf ! i)
      else (0, 0, 0, 0))"

lemma postprocess_buffer_parts:
  assumes "buf_method buf = CompCascaded"
    and "length (compressed_recv_offsets buf) = Suc (group_size g)" and "length (recv_offsets buf) = Suc (group_size g)"
  shows "postprocess_buffer nv env g me incl buf =
     ebind (decompression_functor nv (type_dispatcher env (buf_dtype buf)) (compressed_recv_buffer buf)
              (map (arrived_part env g me incl buf) [0..<group_size g]) (recv_buffer buf))
       (\<lambda>m. Inr (buf\<lparr>recv_buffer := m\<rparr>))"
proof -
  have "emap (\<lambda>local_idx.
             if \<not> incl \<and> get_global_rank g local_idx = me then Inr (0, 0, 0, 0)
             else ebind (vec_at (compressed_recv_offsets buf) local_idx) (\<lambda>ca.
                  ebind (vec_at (compressed_recv_offsets buf) (Suc local_idx)) (\<lambda>cb.
                  ebind (vec_at (recv_offsets buf) local_idx) (\<lambda>a.
                  ebind (vec_at (recv_offsets buf) (Suc local_idx)) (\<lambda>b.
                    Inr (ca, cb - ca, a * int (size_of env (buf_dtype buf)), b - a))))))
             [0..<group_size g] = Inr (map (arrived_part env g me incl buf) [0..<group_size g])"
    using assms by (intro emap_Inr) (auto simp: arrived_part_def talks_to_def)
  with assms(1) show ?thesis by (simp add: postprocess_buffer_def)
qed

lemma decompress_arrived:
  assumes cr: "comp_ready nv env N grid st d c" and r: "r < N"
  shows "decompression_functor nv (type_dispatcher env d)
      (compressed_recv_buffer (after_comm nv env N grid st incl c r))
      (map (arrived_part env (comm_group_at grid st r) r incl (after_comm nv env N grid st incl c r)) [0..<grid div st])
      (recv_buffer (c r)) = Inr (delivered env grid st incl c r)"
proof -
  let ?g = "comm_group_at grid st r" and ?a = "after_comm nv env N grid st incl c r" and ?n = "grid div st"
  let ?A = "arrived nv env N grid st incl c r" and ?ro = "recv_offsets (c r)" and ?sz = "size_of env d"
  let ?part = "arrived_part env ?g r incl ?a" and ?T = "base_type (type_dispatcher env d)"
  let ?mem = "compressed_recv_buffer ?a"
  note crD = comp_readyD [OF cr] and rank = comp_ready_rank [OF cr r]
  note pc = prepared_cascaded [OF cr r, of incl]
  have fields: "buf_dtype ?a = d" "recv_offsets ?a = ?ro"
    "compressed_recv_offsets ?a = w_roffs (prepared nv env N grid st incl c r)"
    unfolding after_comm_cascaded(2) [OF cr r] by (simp_all add: pc)
  have part: "?part i = (if talks_to ?g r incl i
      then (w_roffs (prepared nv env N grid st incl c r) ! i,
            w_roffs (prepared nv env N grid st incl c r) ! Suc i - w_roffs (prepared nv env N grid st incl c r) ! i,
            ?ro ! i * int ?sz, ?ro ! Suc i - ?ro ! i) else (0, 0, 0, 0))" for i
    by (simp add: arrived_part_def fields)
  have read: "read_mem ?mem (fst (?part i)) (fst (snd (?part i))) = Inr (?A i)"
    if "talks_to ?g r incl i" "i < ?n" for i
    using that read_arrived [OF cr r, of i incl] by (simp add: part after_comm_cascaded(1) [OF cr r])
  note decode = arrived_decode [OF cr r]
  have check: "check_pass nv ?T ?mem (map ?part [0..<?n]) = Inr (map (\<lambda>_. ()) (map ?part [0..<?n]))"
    unfolding check_pass_def
  proof (rule emap_unit)
    fix p assume "p \<in> set (map ?part [0..<?n])"
    then obtain i where i: "i < ?n" "p = ?part i" by auto
    with read [of i] decode(1) [of i incl] show
      "(case p of (caddr, csize, oaddr, expected) \<Rightarrow>
        if expected = 0 then Inr ()
        else ebind (read_mem ?mem caddr csize)
               (\<lambda>y. guard (int (nv_output_bytes nv y) = expected * int (sizeof ?T)) AssertFailed)) = Inr ()"
      by (auto simp: part crD(6))
  qed
  let ?P = "\<lambda>i. talks_to ?g r incl i \<and> ?ro ! Suc i - ?ro ! i \<noteq> 0"
  have step: "(case ?part i of (caddr, csize, oaddr, expected) \<Rightarrow>
        if expected = 0 then Inr m
        else ebind (read_mem ?mem caddr csize) (\<lambda>y. write_mem m oaddr (nv_decompress nv y))) =
      (if ?P i then write_mem m (?ro ! i * int ?sz) (nv_decompress nv (?A i)) else Inr m)" if "i < ?n" for m i
    using read [of i] that by (auto simp: part)
  let ?seg = "\<lambda>i. seg (recv_buffer (c r)) ?ro ?sz i"
  have "decompress_pass nv ?T ?mem (map ?part [0..<?n]) (recv_buffer (c r)) =
      efold (\<lambda>m i. if ?P i then write_mem m (?ro ! i * int ?sz) (nv_decompress nv (?A i)) else Inr m)
        (recv_buffer (c r)) [0..<?n]"
    unfolding decompress_pass_def efold_map by (rule efold_cong) (use step in simp)
  also have "\<dots> = Inr (concat (map (\<lambda>i. if ?P i then nv_decompress nv (?A i) else ?seg i) [0..<?n]))"
    unfolding seg_def
  proof (rule write_all_segments)
    show "addresses ?n (\<lambda>i. ?ro ! i * int ?sz)"
      by (rule addresses_offsets [OF comp_ready_recv_offsets [OF cr r]])
    show "int (length (recv_buffer (c r))) = ?ro ! ?n * int ?sz" by (rule rank(7))
    show "\<forall>i < ?n. ?P i \<longrightarrow> int (length (nv_decompress nv (?A i))) = ?ro ! Suc i * int ?sz - ?ro ! i * int ?sz"
      using decode(2,3) [where incl = incl] by (simp add: left_diff_distrib)
  qed
  also have "concat (map (\<lambda>i. if ?P i then nv_decompress nv (?A i) else ?seg i) [0..<?n]) =
      delivered env grid st incl c r"
    unfolding delivered_assembled [OF crD(3)] assembled_def group_size_at
  proof (intro arg_cong [where f = concat] map_cong refl)
    fix i assume "i \<in> set [0..<?n]"
    then have i: "i < ?n" by simp
    let ?s = "get_global_rank ?g i"
    have s: "?s < N" using i by (intro member_less [OF crD(3)] r) (simp add: group_size_at)
    show "(if ?P i then nv_decompress nv (?A i) else ?seg i) =
        (if talks_to ?g r incl i then seg (send_buffer (c ?s)) (send_offsets (c ?s)) (size_of env (buf_dtype (c ?s)))
           (get_local_idx ?g) else seg (recv_buffer (c r)) ?ro (size_of env (buf_dtype (c r))) i)"
    proof (cases "talks_to ?g r incl i")
      case True
      with decode(2,3) [OF i True] show ?thesis
        by (auto simp: comp_ready_rank(1) [OF cr s] seg_def)
    next
      case False
      then show ?thesis by (simp add: rank(1))
    qed
  qed
  finally show ?thesis
    using check crD(5) by (simp add: decompression_functor_eq)
qed

lemma postprocess_cascaded:
  assumes cr: "comp_ready nv env N grid st d c" and r: "r < N"
  shows "postprocess_buffer nv env (comm_group_at grid st r) r incl (after_comm nv env N grid st incl c r) =
     Inr ((after_comm nv env N grid st incl c r)\<lparr>recv_buffer := delivered env grid st incl c r\<rparr>)"
proof -
  let ?a = "after_comm nv env N grid st incl c r"
  note crD = comp_readyD [OF cr] and pc = prepared_cascaded [OF cr r, of incl]
  have fields: "buf_dtype ?a = d" "recv_offsets ?a = recv_offsets (c r)" "buf_method ?a = CompCascaded"
    "recv_buffer ?a = recv_buffer (c r)"
    "compressed_recv_offsets ?a = w_roffs (prepared nv env N grid st incl c r)"
    unfolding after_comm_cascaded(2) [OF cr r] by (simp_all add: pc)
  have wire: "wire_ok env N grid st 1 (prepared nv env N grid st incl c)"
    using prepared_wire_ok [OF crD(1,2,3,4), of incl] by (simp add: wire_size_def)
  have "length (compressed_recv_offsets ?a) = Suc (grid div st)"
    using wire_roffs_ok(1) [OF wire crD(3) r] by (simp add: fields offsets_ok_def)
  moreover have "length (recv_offsets ?a) = Suc (grid div st)"
    using comp_ready_recv_offsets(1) [OF cr r] by (simp add: fields offsets_ok_def)
  ultimately show ?thesis
    using decompress_arrived [OF cr r, of incl]
    by (simp add: postprocess_buffer_parts fields group_size_at)
qed

text \<open>The buffer of a rank after the whole path.\<close>

definition final_buffer ::
  "nvcomp \<Rightarrow> 'd cudf \<Rightarrow> nat \<Rightarrow> nat \<Rightarrow> nat \<Rightarrow> bool \<Rightarrow> (rank \<Rightarrow> 'd a2a_buffer) \<Rightarrow> rank \<Rightarrow> 'd a2a_buffer" where
  "final_buffer nv env N grid st incl c r =
     (after_comm nv env N grid st incl c r)\<lparr>recv_buffer := delivered env grid st incl c r\<rparr>"

lemma recv_buffer_final [simp]:
  "recv_buffer (final_buffer nv env N grid st incl c r) = delivered env grid st incl c r"
  by (simp add: final_buffer_def)

lemma postprocess_buffer_ok:
  assumes nv: "nvcomp_ok nv" and env: "cudf_ok env" and grp: "group_params N grid st"
    and ready: "buffer_ready env N grid st d m c" and r: "r < N"
  shows "postprocess_buffer nv env (comm_group_at grid st r) r incl (after_comm nv env N grid st incl c r) =
     Inr (final_buffer nv env N grid st incl c r)"
proof (cases "m = CompNone")
  case True
  with ready have none: "\<forall>s < N. buf_method (c s) = CompNone" by (simp add: buffer_ready_def)
  note eq = after_comm_none [OF grp r none, of nv env incl]
  show ?thesis using none r by (simp add: postprocess_none eq final_buffer_def)
next
  case False
  with ready have "m = CompCascaded" by (auto simp: buffer_ready_def sendable_def)
  with assms have "comp_ready nv env N grid st d c" by (simp add: comp_ready_def)
  from postprocess_cascaded [OF this r] show ?thesis by (simp add: final_buffer_def)
qed

lemma postprocess_all_ok:
  assumes nv: "nvcomp_ok nv" and env: "cudf_ok env" and grp: "group_params N grid st"
    and ready: "plans_ready env N grid st B d m F"
  shows "postprocess_all_to_all_comm nv env grid st incl (mat B N (\<lambda>b. after_comm nv env N grid st incl (F b))) =
     Inr (mat B N (\<lambda>b. final_buffer nv env N grid st incl (F b)))"
proof -
  have "emap (postprocess_buffer nv env (comm_group_at grid st r) r incl)
      (map (\<lambda>b. after_comm nv env N grid st incl (F b) r) [0..<B]) =
      Inr (map (\<lambda>b. final_buffer nv env N grid st incl (F b) r) [0..<B])" if "r < N" for r
    using that ready unfolding plans_ready_def emap_Inr_iff
    by (auto simp: list_all2_conv_all_nth intro: postprocess_buffer_ok [OF nv env grp])
  then show ?thesis
    unfolding postprocess_all_to_all_comm_def mat_def
    by (simp add: emap_Inr_iff list_all2_conv_all_nth)
qed

text \<open>\<open>all_to_all_comm\<close> followed by \<open>postprocess_all_to_all_comm\<close>.\<close>

definition communicate_buffers ::
  "nvcomp \<Rightarrow> 'd cudf \<Rightarrow> ((rank \<times> int) list list \<Rightarrow> rank \<Rightarrow> rank list \<Rightarrow> int list res) \<Rightarrow>
     ((rank \<times> msg) list list \<Rightarrow> rank \<Rightarrow> rank list \<Rightarrow> msg list res) \<Rightarrow> bool \<Rightarrow>
     nat \<Rightarrow> nat \<Rightarrow> bool \<Rightarrow> 'd a2a_buffer list list \<Rightarrow> 'd a2a_buffer list list res" where
  "communicate_buffers nv env mpi exch group_by_batch grid st incl world =
     ebind (all_to_all_comm nv env mpi exch group_by_batch grid st incl world)
       (postprocess_all_to_all_comm nv env grid st incl)"

lemma communicate_buffers_ok:
  assumes nv: "nvcomp_ok nv" and env: "cudf_ok env" and grp: "group_params N grid st"
    and mpi: "p2p_transport mpi (\<lambda>_. True) N False" and tr: "p2p_transport exch okm N multi"
    and ready: "plans_ready env N grid st B d m F"
    and okm: "okm_sizes okm ((\<lambda>b. wire_size env (d b) (m b)) ` {..<B})" and "0 < N" and "gbb \<longrightarrow> multi"
  shows "communicate_buffers nv env mpi exch gbb grid st incl (mat B N F) =
    Inr (mat B N (\<lambda>b. final_buffer nv env N grid st incl (F b)))"
  by (simp add: communicate_buffers_def all_to_all_comm_ok [OF assms] postprocess_all_ok [OF nv env grp ready])

end
