(* ===== verification/Strings_Column.thy ===== *)
theory Strings_Column
  imports Postprocess
begin

text \<open>
  \<open>src/src/strings_column.cu\<close>: the offset subcolumn of a string column cannot be sent as
  it is, so the program sends the size of every string and scans the sizes back into
  offsets. Offsets and sizes are \<open>cudf::size_type\<close>, 32-bit words; the \<open>int64_t\<close> receive
  offsets are \<open>int\<close>s. The sources and results of \<open>gather_string_offsets\<close>, which
  communicates, are those of all ranks.
\<close>

section \<open>The operations\<close>

text \<open>
  \<open>thrust::gather\<close> of the offset subcolumn \<open>offs\<close> at the indices \<open>d_offsets\<close>, into a
  zero-initialised device vector of \<open>n\<close> elements.
\<close>

definition gather_offsets :: "nat \<Rightarrow> 32 word list \<Rightarrow> 32 word list \<Rightarrow> 32 word list res" where
  "gather_offsets n d_offsets offs =
     (if n < length d_offsets then Inl OutOfBounds
      else ebind (emap (\<lambda>i. if sint i < 0 then Inl OutOfBounds else vec_at offs (nat (sint i))) d_offsets)
             (\<lambda>xs. Inr (xs @ replicate (n - length xs) 0)))"

text \<open>
  One column of \<open>gather_string_offsets\<close> on all ranks: the string send offsets and the
  string receive offsets, empty for a fixed-width column. Ranks that disagree about the
  kind of the column would leave MPI messages unmatched.
\<close>

definition gather_column ::
  "((rank \<times> int) list list \<Rightarrow> rank \<Rightarrow> rank list \<Rightarrow> int list res) \<Rightarrow> nat \<Rightarrow> nat \<Rightarrow>
     32 word list list \<Rightarrow> 'd column list \<Rightarrow> (32 word list \<times> int list) list res" where
  "gather_column mpi grid st offs cols =
     (if list_all (\<lambda>c. \<not> is_Strings c) cols then Inr (map (\<lambda>_. ([], [])) cols)
      else if list_all is_Strings cols
           then ebind (emap (\<lambda>(d, c). gather_offsets (Suc (grid div st)) d (offsets c)) (zip offs cols))
                  (\<lambda>snds. ebind (communicate_sizes_size_type mpi grid st snds)
                  (\<lambda>rcvs. Inr (zip snds rcvs)))
      else Inl Unmatched)"

definition gather_string_offsets ::
  "((rank \<times> int) list list \<Rightarrow> rank \<Rightarrow> rank list \<Rightarrow> int list res) \<Rightarrow> nat \<Rightarrow> nat \<Rightarrow>
     'd table list \<Rightarrow> 32 word list list \<Rightarrow> (32 word list list \<times> int list list) list res" where
  "gather_string_offsets mpi grid st tables offs =
     (let ncols = (case tables of [] \<Rightarrow> 0 | t # _ \<Rightarrow> length t) in
      if list_all (\<lambda>t. length t = ncols) tables
      then ebind (emap (\<lambda>icol. gather_column mpi grid st offs (map (\<lambda>t. t ! icol) tables)) [0..<ncols])
             (\<lambda>cols. Inr (map (\<lambda>r. (map (\<lambda>c. fst (c ! r)) cols, map (\<lambda>c. snd (c ! r)) cols))
                            [0..<length tables]))
      else Inl Unmatched)"

text \<open>\<open>calculate_string_sizes_from_offsets\<close>: neighbouring differences of rows \<open>begin..end\<close>.\<close>

fun string_sizes :: "32 word \<Rightarrow> 32 word \<Rightarrow> 'd column \<Rightarrow> 32 word list res" where
  "string_sizes b e (FixedWidth d bs) = Inr []"
| "string_sizes b e (Strings offs cs) =
     ebind (read_mem offs (sint b + 1) (sint e - sint b)) (\<lambda>upper.
     ebind (read_mem offs (sint b) (sint e - sint b)) (\<lambda>lower.
       Inr (map2 (-) upper lower)))"

definition calculate_string_sizes_from_offsets ::
  "'d table \<Rightarrow> 32 word \<Rightarrow> 32 word \<Rightarrow> 32 word list list res" where
  "calculate_string_sizes_from_offsets input_table b e = emap (string_sizes b e) input_table"

text \<open>
  \<open>calculate_string_offsets_from_sizes\<close>: the scan of the sizes, behind a zero, overwrites
  the offset subcolumn.
\<close>

fun scan_sizes :: "32 word list list \<Rightarrow> nat \<Rightarrow> 'd column \<Rightarrow> 'd column res" where
  "scan_sizes input_sizes icol (FixedWidth d bs) = Inr (FixedWidth d bs)"
| "scan_sizes input_sizes icol (Strings offs cs) =
     ebind (vec_at input_sizes icol) (\<lambda>sizes.
     ebind (read_mem sizes 0 (int (length offs) - 1)) (\<lambda>ss.
     ebind (write_mem offs 1 (partial_sum 0 ss)) (\<lambda>scanned.
     ebind (write_mem scanned 0 [0]) (\<lambda>offs'.
       Inr (Strings offs' cs)))))"

definition calculate_string_offsets_from_sizes :: "'d table \<Rightarrow> 32 word list list \<Rightarrow> 'd table res" where
  "calculate_string_offsets_from_sizes output_table input_sizes =
     emap (\<lambda>icol. scan_sizes input_sizes icol (output_table ! icol)) [0..<length output_table]"

definition allocate_string_sizes_receive_buffer :: "'d table \<Rightarrow> int list \<Rightarrow> 32 word list list" where
  "allocate_string_sizes_receive_buffer input_table recv_offs =
     map (\<lambda>c. if is_Strings c then replicate (nat (last recv_offs)) 0 else []) input_table"

section \<open>Sizes and offsets\<close>

lemma gather_offsets_ok:
  assumes "length d_offsets \<le> n" and "\<forall>i \<in> set d_offsets. 0 \<le> sint i \<and> nat (sint i) < length offs"
  shows "gather_offsets n d_offsets offs =
     Inr (map (\<lambda>i. offs ! nat (sint i)) d_offsets @ replicate (n - length d_offsets) 0)"
proof -
  have "emap (\<lambda>i. if sint i < 0 then Inl OutOfBounds else vec_at offs (nat (sint i))) d_offsets =
      Inr (map (\<lambda>i. offs ! nat (sint i)) d_offsets)"
    using assms(2) by (intro emap_Inr) auto
  then show ?thesis using assms(1) by (simp add: gather_offsets_def)
qed

lemma string_sizes_ok:
  assumes "0 \<le> sint b" and "sint b \<le> sint e" and "sint e < int (length offs)"
  shows "string_sizes b e (Strings offs cs) =
     Inr (map (\<lambda>i. offs ! Suc i - offs ! i) [nat (sint b)..<nat (sint e)])"
proof -
  let ?b = "nat (sint b)" and ?e = "nat (sint e)"
  have "subrange offs (sint b + 1) (sint b + 1 + (sint e - sint b)) = map (\<lambda>i. offs ! Suc i) [?b..<?e]"
    "subrange offs (sint b) (sint b + (sint e - sint b)) = map (\<lambda>i. offs ! i) [?b..<?e]"
    using assms by (auto intro!: nth_equalityI simp: subrange_def nat_diff_distrib nat_add_distrib)
  then show ?thesis
    using assms by (simp add: zip_map_map zip_same_conv_map comp_def)
qed

text \<open>The scan telescopes: it undoes the differences in word arithmetic, whatever wraps.\<close>

lemma partial_sum_differences:
  fixes offs :: "'a::ab_group_add list"
  shows "offs \<noteq> [] \<Longrightarrow>
     partial_sum (hd offs) (map (\<lambda>i. offs ! Suc i - offs ! i) [0..<length offs - 1]) = tl offs"
proof (induction offs)
  case Nil
  then show ?case by simp
next
  case (Cons x offs)
  show ?case
  proof (cases offs)
    case Nil
    then show ?thesis by simp
  next
    case (Cons y ys)
    have upt: "[0..<length (y # ys)] = 0 # map Suc [0..<length ys]"
      using map_Suc_upt [of 0 "length ys"] by (simp add: upt_conv_Cons del: upt_Suc)
    have "partial_sum y (map (\<lambda>i. (y # ys) ! Suc i - (y # ys) ! i) [0..<length ys]) = ys"
      using Cons.IH Cons by simp
    then show ?thesis using Cons upt by (simp add: comp_def del: upt_Suc)
  qed
qed

lemma scan_sizes_ok:
  assumes "icol < length input_sizes" and "length offs = Suc (length (input_sizes ! icol))"
  shows "scan_sizes input_sizes icol (Strings offs cs) =
     Inr (Strings (0 # partial_sum 0 (input_sizes ! icol)) cs)"
proof -
  let ?ss = "input_sizes ! icol"
  have "read_mem ?ss 0 (int (length offs) - 1) = Inr ?ss"
    using assms(2) by (simp add: read_mem_def)
  moreover have "write_mem offs 1 (partial_sum 0 ?ss) = Inr (take 1 offs @ partial_sum 0 ?ss)"
    using assms(2) by (simp add: write_mem_def)
  moreover have "write_mem (take 1 offs @ partial_sum 0 ?ss) 0 [0] = Inr (0 # partial_sum 0 ?ss)"
    using assms(2) by (cases offs) (simp_all add: write_mem_def)
  ultimately show ?thesis using assms(1) by simp
qed

section \<open>Rows of a column\<close>

text \<open>Cutting a char buffer into strings of given sizes.\<close>

fun split_chars :: "nat list \<Rightarrow> byte list \<Rightarrow> byte list list" where
  "split_chars [] cs = []"
| "split_chars (n # ns) cs = take n cs # split_chars ns (drop n cs)"

lemma length_split_chars [simp]: "length (split_chars ns cs) = length ns"
  by (induction ns arbitrary: cs) simp_all

lemma split_chars_append:
  "length cs = sum_list ns \<Longrightarrow> split_chars (ns @ ms) (cs @ ds) = split_chars ns cs @ split_chars ms ds"
  by (induction ns arbitrary: cs) auto

lemma split_chars_extra: "sum_list ns \<le> length cs \<Longrightarrow> split_chars ns (cs @ ds) = split_chars ns cs"
  by (induction ns arbitrary: cs) auto

lemma nth_split_chars:
  "i < length ns \<Longrightarrow> split_chars ns cs ! i = take (ns ! i) (drop (sum_list (take i ns)) cs)"
proof (induction ns arbitrary: i cs)
  case Nil
  then show ?case by simp
next
  case (Cons n ns)
  then show ?case by (cases i) (simp_all add: add.commute)
qed

text \<open>The rows \<open>a\<close> to \<open>b\<close> of a column.\<close>

definition slice_rows :: "'d cudf \<Rightarrow> 'd column \<Rightarrow> nat \<Rightarrow> nat \<Rightarrow> byte list list" where
  "slice_rows env c a b = map (cell env c) [a..<b]"

lemma length_slice_rows [simp]: "length (slice_rows env c a b) = b - a"
  by (simp add: slice_rows_def)

lemma column_rows_slice: "column_rows env n c = slice_rows env c 0 n"
  by (simp add: column_rows_def slice_rows_def)

end
