(* ===== verification/Column_Rows.thy ===== *)
theory Column_Rows
  imports Strings_Column
begin

text \<open>
  The rows of columns that are built from pieces: what concatenating fixed-width buffers,
  or string sizes and char buffers, means for the rows. Machine offsets are read with
  \<open>sint\<close>; sums and differences stay exact below \<open>2\<^sup>3\<^sup>1\<close>.
\<close>

section \<open>Exact 32-bit arithmetic\<close>

lemma sint_plus32:
  fixes x y :: "32 word"
  assumes "- (2 ^ 31) \<le> sint x + sint y" and "sint x + sint y < 2 ^ 31"
  shows "sint (x + y) = sint x + sint y"
  using assms by (simp add: sint_word_ariths signed_take_bit_int_eq_self)

lemma sint_minus32:
  fixes x y :: "32 word"
  assumes "- (2 ^ 31) \<le> sint x - sint y" and "sint x - sint y < 2 ^ 31"
  shows "sint (x - y) = sint x - sint y"
  using assms by (simp add: sint_word_ariths signed_take_bit_int_eq_self)

lemma sint_less32: "sint (x :: 32 word) < 2 ^ 31"
  using sint_lt [of x] by simp

lemma sint_sum_list32:
  fixes ws :: "32 word list"
  assumes "\<forall>w \<in> set ws. 0 \<le> sint w" and "sum_list (map sint ws) < 2 ^ 31"
  shows "sint (sum_list ws) = sum_list (map sint ws)"
  using assms
proof (induction ws)
  case Nil
  then show ?case by simp
next
  case (Cons w ws)
  have "0 \<le> sum_list (map sint ws)" using Cons.prems by (intro sum_list_nonneg) auto
  with Cons.prems have IH: "sint (sum_list ws) = sum_list (map sint ws)" by (intro Cons.IH) auto
  have "sint (w + sum_list ws) = sint w + sint (sum_list ws)"
  proof (rule sint_plus32)
    show "sint w + sint (sum_list ws) < 2 ^ 31" unfolding IH using Cons.prems by simp
    show "- (2 ^ 31) \<le> sint w + sint (sum_list ws)"
      unfolding IH using Cons.prems \<open>0 \<le> sum_list (map sint ws)\<close> by auto
  qed
  then show ?case by (simp add: IH)
qed

lemma sint_partial_sum32:
  fixes ws :: "32 word list"
  assumes "\<forall>w \<in> set ws. 0 \<le> sint w" and "sum_list (map sint ws) < 2 ^ 31"
  shows "map sint (partial_sum 0 ws) = partial_sum 0 (map sint ws)"
proof (rule nth_equalityI)
  fix i assume "i < length (map sint (partial_sum 0 ws))"
  then have i: "i < length ws" by simp
  have nth: "partial_sum 0 xs ! i = sum_list (take (Suc i) xs)" if "length xs = length ws"
    for xs :: "'a::comm_monoid_add list"
    using partial_sum_nth [of "Suc i" xs 0] i that by simp
  have "sum_list (map sint ws) = sum_list (map sint (take (Suc i) ws)) + sum_list (map sint (drop (Suc i) ws))"
    by (metis append_take_drop_id map_append sum_list_append)
  moreover have "0 \<le> sum_list (map sint (drop (Suc i) ws))"
    using assms(1) by (intro sum_list_nonneg) (auto dest: in_set_dropD)
  ultimately have "sum_list (map sint (take (Suc i) ws)) < 2 ^ 31" using assms(2) by linarith
  then have "sint (sum_list (take (Suc i) ws)) = sum_list (map sint (take (Suc i) ws))"
    using assms(1) by (intro sint_sum_list32) (auto dest: in_set_takeD)
  then show "map sint (partial_sum 0 ws) ! i = partial_sum 0 (map sint ws) ! i"
    using i by (simp add: nth take_map)
qed simp

lemma offsets_sint_diff:
  assumes "offsets_ok n (map sint (offs :: 32 word list))" and "i < n"
  shows "sint (offs ! Suc i - offs ! i) = sint (offs ! Suc i) - sint (offs ! i)"
    and "0 \<le> sint (offs ! Suc i - offs ! i)"
proof -
  from assms have "length offs = Suc n" by (simp add: offsets_ok_def)
  with assms have "0 \<le> sint (offs ! i)" "sint (offs ! i) \<le> sint (offs ! Suc i)"
    using offsets_ok_nonneg [OF assms(1), of i] offsets_ok_mono [OF assms(1), of i "Suc i"] by auto
  with sint_less32 [of "offs ! Suc i"]
  show "sint (offs ! Suc i - offs ! i) = sint (offs ! Suc i) - sint (offs ! i)"
    by (intro sint_minus32) linarith+
  with \<open>sint (offs ! i) \<le> sint (offs ! Suc i)\<close> show "0 \<le> sint (offs ! Suc i - offs ! i)" by simp
qed

section \<open>Fixed-width columns\<close>

lemma subrange_subrange:
  assumes "0 \<le> a" "0 \<le> i" "i \<le> j" "a + j \<le> b"
  shows "subrange (subrange xs a b) i j = subrange xs (a + i) (a + j)"
proof -
  have "take (nat (j - i)) (drop (nat i) (take (nat (b - a)) (drop (nat a) xs))) =
      take (nat (j - i)) (drop (nat i + nat a) xs)"
    using assms by (simp add: drop_take min_def nat_le_iff)
  then show ?thesis using assms by (simp add: subrange_def nat_add_distrib add.commute)
qed

lemma slice_fixed:
  assumes "a \<le> b"
  shows "slice_rows env (FixedWidth d bs) a b =
    column_rows env (b - a) (FixedWidth d (subrange bs (int a * int (size_of env d)) (int b * int (size_of env d))))"
proof (rule nth_equalityI)
  fix i assume "i < length (slice_rows env (FixedWidth d bs) a b)"
  then have i: "i < b - a" by simp
  let ?w = "int (size_of env d)"
  have "int a * ?w + int (Suc i) * ?w \<le> int b * ?w"
    using i by (simp flip: distrib_right add: mult_right_mono)
  moreover have "int i * ?w \<le> int (Suc i) * ?w" by (simp add: mult_right_mono)
  ultimately have "subrange (subrange bs (int a * ?w) (int b * ?w)) (int i * ?w) (int (Suc i) * ?w) =
      subrange bs (int a * ?w + int i * ?w) (int a * ?w + int (Suc i) * ?w)"
    by (intro subrange_subrange) simp_all
  then show "slice_rows env (FixedWidth d bs) a b ! i =
      column_rows env (b - a) (FixedWidth d (subrange bs (int a * ?w) (int b * ?w))) ! i"
    using i by (simp add: slice_rows_def column_rows_def algebra_simps)
qed (simp add: assms)

lemma column_rows_fixed_append:
  assumes "length b1 = n1 * size_of env d" and "length b2 = n2 * size_of env d"
  shows "column_rows env (n1 + n2) (FixedWidth d (b1 @ b2)) =
    column_rows env n1 (FixedWidth d b1) @ column_rows env n2 (FixedWidth d b2)"
proof (rule nth_equalityI)
  fix i assume "i < length (column_rows env (n1 + n2) (FixedWidth d (b1 @ b2)))"
  then have i: "i < n1 + n2" by simp
  let ?w = "size_of env d"
  have nat_i: "nat (int k * int ?w) = k * ?w" for k by (simp flip: of_nat_mult)
  have cell_i: "cell env (FixedWidth d bs) k = take ?w (drop (k * ?w) bs)" for k bs
  proof -
    have "nat (int (Suc k) * int ?w - int k * int ?w) = ?w" by (simp add: distrib_right)
    then show ?thesis by (simp add: subrange_def nat_i)
  qed
  show "column_rows env (n1 + n2) (FixedWidth d (b1 @ b2)) ! i =
      (column_rows env n1 (FixedWidth d b1) @ column_rows env n2 (FixedWidth d b2)) ! i"
  proof (cases "i < n1")
    case True
    then have "Suc i * ?w \<le> n1 * ?w" by (intro mult_le_mono1) simp
    then have "i * ?w + ?w \<le> length b1" using assms(1) by simp
    with True i show ?thesis by (simp add: column_rows_def cell_i nth_append del: cell.simps)
  next
    case False
    then have "(i - n1) * ?w = i * ?w - length b1" "length b1 \<le> i * ?w"
      using assms(1) by (simp_all add: diff_mult_distrib mult_le_mono1)
    with False i show ?thesis by (simp add: column_rows_def cell_i nth_append del: cell.simps)
  qed
qed simp

lemma column_rows_fixed_concat:
  assumes "\<forall>x \<in> set xs. length (f x) = n x * size_of env d"
  shows "column_rows env (sum_list (map n xs)) (FixedWidth d (concat (map f xs))) =
    concat (map (\<lambda>x. column_rows env (n x) (FixedWidth d (f x))) xs)"
  using assms
proof (induction xs)
  case Nil
  then show ?case by (simp add: column_rows_def)
next
  case (Cons x xs)
  have "length (concat (map f xs)) = sum_list (map n xs) * size_of env d"
    using Cons.prems by (induction xs) (simp_all add: distrib_right)
  with Cons show ?case by (simp add: column_rows_fixed_append)
qed

section \<open>String columns\<close>

lemma sum_list_nat_sint:
  "\<forall>w \<in> set ws. 0 \<le> sint w \<Longrightarrow> int (sum_list (map (\<lambda>w. nat (sint w)) ws)) = sum_list (map sint ws)"
  by (induction ws) simp_all

lemma column_rows_strings:
  assumes nonneg: "\<forall>w \<in> set sizes. 0 \<le> sint w" and bound: "sum_list (map sint sizes) < 2 ^ 31"
  shows "column_rows env (length sizes) (Strings (0 # partial_sum 0 sizes) cs) =
    split_chars (map (\<lambda>w. nat (sint w)) sizes) cs"
proof (rule nth_equalityI)
  fix i assume "i < length (column_rows env (length sizes) (Strings (0 # partial_sum 0 sizes) cs))"
  then have i: "i < length sizes" by simp
  let ?offs = "0 # partial_sum 0 sizes"
  have sint_off: "sint (?offs ! k) = int (sum_list (take k (map (\<lambda>w. nat (sint w)) sizes)))"
    if k: "k \<le> length sizes" for k
  proof -
    have sub: "\<forall>w \<in> set (take k sizes). 0 \<le> sint w" using nonneg by (meson in_set_takeD)
    have "sum_list (map sint sizes) = sum_list (map sint (take k sizes)) + sum_list (map sint (drop k sizes))"
      by (metis append_take_drop_id map_append sum_list_append)
    moreover have "0 \<le> sum_list (map sint (drop k sizes))"
      using nonneg by (intro sum_list_nonneg) (auto dest: in_set_dropD)
    ultimately have "sum_list (map sint (take k sizes)) < 2 ^ 31" using bound by linarith
    with sub have "sint (sum_list (take k sizes)) = sum_list (map sint (take k sizes))"
      by (rule sint_sum_list32)
    also have "\<dots> = int (sum_list (map (\<lambda>w. nat (sint w)) (take k sizes)))"
      by (rule sum_list_nat_sint [OF sub, symmetric])
    finally show ?thesis by (simp only: partial_sum_nth [OF k]) (simp add: take_map)
  qed
  have "sint (?offs ! Suc i) = sint (?offs ! i) + sint (sizes ! i)"
    using i nonneg by (simp only: sint_off [OF Suc_leI [OF i]] sint_off [OF less_imp_le [OF i]])
      (simp add: take_Suc_conv_app_nth)
  then show "column_rows env (length sizes) (Strings ?offs cs) ! i =
      split_chars (map (\<lambda>w. nat (sint w)) sizes) cs ! i"
    using i sint_off [OF less_imp_le [OF i]]
    by (simp add: column_rows_def nth_split_chars subrange_def)
qed simp

lemma sum_size_differences:
  assumes "offsets_ok n (map sint (offs :: 32 word list))" and "a + i \<le> n"
  shows "int (sum_list (map (\<lambda>j. nat (sint (offs ! Suc j - offs ! j))) [a..<a + i])) =
     sint (offs ! (a + i)) - sint (offs ! a)"
  using assms(2)
proof (induction i)
  case 0
  then show ?case by simp
next
  case (Suc i)
  then show ?case using offsets_sint_diff [OF assms(1), of "a + i"] by simp
qed

lemma slice_strings:
  assumes ok: "column_ok env n (Strings offs cs)" and "a \<le> b" "b \<le> n"
  shows "slice_rows env (Strings offs cs) a b =
    split_chars (map (\<lambda>i. nat (sint (offs ! Suc i - offs ! i))) [a..<b])
      (subrange cs (sint (offs ! a)) (sint (offs ! b)))"
proof (rule nth_equalityI)
  fix i assume "i < length (slice_rows env (Strings offs cs) a b)"
  then have i: "i < b - a" by simp
  let ?szs = "map (\<lambda>i. nat (sint (offs ! Suc i - offs ! i))) [a..<b]"
  from ok have offs: "offsets_ok n (map sint offs)" by simp
  then have len: "length offs = Suc n" by (simp add: offsets_ok_def)
  have mono: "0 \<le> sint (offs ! k)" "k \<le> l \<Longrightarrow> l \<le> n \<Longrightarrow> sint (offs ! k) \<le> sint (offs ! l)" if "k \<le> n" for k l
    using that offsets_ok_nonneg [OF offs, of k] offsets_ok_mono [OF offs, of k l] len by simp_all
  have "take i ?szs = map (\<lambda>i. nat (sint (offs ! Suc i - offs ! i))) [a..<a + i]"
    using i by (simp add: take_map)
  then have sum: "sum_list (take i ?szs) = nat (sint (offs ! (a + i)) - sint (offs ! a))"
  proof -
    have "a + i \<le> n" using i assms(3) by linarith
    from sum_size_differences [OF offs this] show ?thesis by (simp only: \<open>take i ?szs = _\<close>)
  qed
  have sz: "int (?szs ! i) = sint (offs ! Suc (a + i)) - sint (offs ! (a + i))"
    using i assms(3) offsets_sint_diff [OF offs, of "a + i"] by simp
  let ?x = "sint (offs ! a)" and ?y = "sint (offs ! b)" and ?p = "sint (offs ! (a + i))" and ?q = "sint (offs ! Suc (a + i))"
  have bounds: "0 \<le> ?x" "?x \<le> ?p" "?p \<le> ?q" "?q \<le> ?y"
    using i assms(3) mono by auto
  have "take (?szs ! i) (drop (nat (?p - ?x)) (subrange cs ?x ?y)) = subrange (subrange cs ?x ?y) (?p - ?x) (?q - ?x)"
  proof -
    have "?szs ! i = nat (?q - ?x - (?p - ?x))" using sz by linarith
    then show ?thesis by (simp add: subrange_def)
  qed
  also have "\<dots> = subrange cs ?p ?q"
    using bounds by (subst subrange_subrange) auto
  finally show "slice_rows env (Strings offs cs) a b ! i = split_chars ?szs (subrange cs ?x ?y) ! i"
    using i by (simp add: slice_rows_def nth_split_chars sum)
qed (simp add: slice_rows_def)

lemma split_chars_concat:
  assumes "\<forall>x \<in> set xs. length (cs x) = sum_list (ns x)"
  shows "split_chars (concat (map ns xs)) (concat (map cs xs)) = concat (map (\<lambda>x. split_chars (ns x) (cs x)) xs)"
  using assms by (induction xs) (simp_all add: split_chars_append)

text \<open>A slice of the string sizes and of the chars of a column, and the bytes it stands for.\<close>

definition row_sizes :: "32 word list \<Rightarrow> nat \<Rightarrow> nat \<Rightarrow> 32 word list" where
  "row_sizes offs a b = map (\<lambda>i. offs ! Suc i - offs ! i) [a..<b]"

lemma length_row_sizes [simp]: "length (row_sizes offs a b) = b - a"
  by (simp add: row_sizes_def)

lemma row_sizes_nonneg:
  "offsets_ok n (map sint offs) \<Longrightarrow> b \<le> n \<Longrightarrow> w \<in> set (row_sizes offs a b) \<Longrightarrow> 0 \<le> sint w"
  by (auto simp: row_sizes_def intro: offsets_sint_diff(2))

lemma sum_row_sizes:
  assumes "offsets_ok n (map sint offs)" and "a \<le> b" "b \<le> n"
  shows "sum_list (map sint (row_sizes offs a b)) = sint (offs ! b) - sint (offs ! a)"
    and "int (sum_list (map (\<lambda>w. nat (sint w)) (row_sizes offs a b))) = sint (offs ! b) - sint (offs ! a)"
proof -
  show 2: "int (sum_list (map (\<lambda>w. nat (sint w)) (row_sizes offs a b))) = sint (offs ! b) - sint (offs ! a)"
    using sum_size_differences [OF assms(1), of a "b - a"] assms(2,3) by (simp add: row_sizes_def comp_def)
  show "sum_list (map sint (row_sizes offs a b)) = sint (offs ! b) - sint (offs ! a)"
    using 2 sum_list_nat_sint [of "row_sizes offs a b"] row_sizes_nonneg [OF assms(1,3)] by auto
qed

lemma subrange_row_sizes:
  assumes "a \<le> b"  "b \<le> n"
  shows "subrange (row_sizes offs 0 n) (int a) (int b) = row_sizes offs a b"
  using assms by (simp add: row_sizes_def subrange_def take_map drop_map nat_diff_distrib)

end
