(* ===== verification/Table_Comm.thy ===== *)
theory Table_Comm
  imports Column_Rows
begin

text \<open>
  The class \<open>AllToAllCommunicator\<close> of \<open>src/src/all_to_all_comm.cpp\<close>: an all-to-all of a
  whole table. A device pointer inside an \<open>AllToAllCommBuffer\<close> is modelled by the bytes it
  points to; \<open>store_columns\<close> is where the receive buffers, which alias the columns of the
  communicated table and the string size vectors, are read back into them.
\<close>

section \<open>State\<close>

record 'd a2a_communicator =
  input_table :: "'d table"
  cm_group :: comm_group
  explicit_copy_to_current_rank :: bool
  row_send_offsets :: "32 word list"
  row_recv_offsets :: "int list"
  string_send_offsets :: "32 word list list"
  string_recv_offsets :: "int list list"
  string_sizes_to_send :: "32 word list list"
  string_sizes_received :: "32 word list list"
  table_compression_options :: "column_compression_options list"

text \<open>The constructors, on all ranks: the second one groups all ranks.\<close>

definition AllToAllCommunicator ::
  "((rank \<times> int) list list \<Rightarrow> rank \<Rightarrow> rank list \<Rightarrow> int list res) \<Rightarrow> nat \<Rightarrow> nat \<Rightarrow>
     'd table list \<Rightarrow> 32 word list list \<Rightarrow> column_compression_options list list \<Rightarrow> bool \<Rightarrow>
     'd a2a_communicator list res" where
  "AllToAllCommunicator mpi grid st tables offs opts explicit_copy =
     ebind (communicate_sizes_size_type mpi grid st offs) (\<lambda>recv_offs.
     ebind (gather_string_offsets mpi grid st tables offs) (\<lambda>string_offs.
     emap (\<lambda>r. ebind (calculate_string_sizes_from_offsets (tables ! r) (hd (offs ! r)) (last (offs ! r)))
                 (\<lambda>sizes.
             Inr \<lparr>input_table = tables ! r, cm_group = comm_group_at grid st r,
                  explicit_copy_to_current_rank = explicit_copy,
                  row_send_offsets = offs ! r, row_recv_offsets = recv_offs ! r,
                  string_send_offsets = fst (string_offs ! r),
                  string_recv_offsets = snd (string_offs ! r),
                  string_sizes_to_send = sizes,
                  string_sizes_received =
                    allocate_string_sizes_receive_buffer (tables ! r) (recv_offs ! r),
                  table_compression_options = opts ! r\<rparr>))
       [0..<length tables]))"

definition AllToAllCommunicator_all ::
  "((rank \<times> int) list list \<Rightarrow> rank \<Rightarrow> rank list \<Rightarrow> int list res) \<Rightarrow>
     'd table list \<Rightarrow> 32 word list list \<Rightarrow> column_compression_options list list \<Rightarrow> bool \<Rightarrow>
     'd a2a_communicator list res" where
  "AllToAllCommunicator_all mpi tables offs opts explicit_copy =
     AllToAllCommunicator mpi (length tables) 1 tables offs opts explicit_copy"

section \<open>Allocating the communicated table\<close>

text \<open>
  The cuDF factories take the row count as a \<open>size_type\<close>, to which the \<open>int64_t\<close> offset
  is narrowed, and reject a negative one; the contents of new memory are zero here.
\<close>

definition allocate_column ::
  "'d cudf \<Rightarrow> int list \<Rightarrow> int list list \<Rightarrow> nat \<Rightarrow> 'd column \<Rightarrow> 'd column res" where
  "allocate_column env recv_offs string_recv_offs icol c =
     (let nrows = narrow32 (last recv_offs) in
      case c of
        Strings offs cs \<Rightarrow>
          ebind (vec_at string_recv_offs icol) (\<lambda>soffs.
            let nchars = narrow32 (last soffs);
                noffsets = narrow32 (last recv_offs + 1) in
            if nrows < 0 \<or> nchars < 0 \<or> noffsets < 0 then Inl ExternalError
            else Inr (Strings (replicate (nat noffsets) 0) (replicate (nat nchars) 0)))
      | FixedWidth d bs \<Rightarrow>
          if nrows < 0 then Inl ExternalError
          else Inr (FixedWidth d (replicate (nat nrows * size_of env d) 0)))"

definition allocate_communicated_table_helper ::
  "'d cudf \<Rightarrow> 'd table \<Rightarrow> int list \<Rightarrow> int list list \<Rightarrow> 'd table res" where
  "allocate_communicated_table_helper env input recv_offs string_recv_offs =
     emap (\<lambda>icol. allocate_column env recv_offs string_recv_offs icol (input ! icol)) [0..<length input]"

text \<open>
  The explicit copy of the own partition of one column: into the column, or into the
  received sizes and the chars.
\<close>

definition copy_column ::
  "'d cudf \<Rightarrow> 'd a2a_communicator \<Rightarrow> nat \<Rightarrow> nat \<Rightarrow> 'd column \<Rightarrow> 32 word list \<Rightarrow> ('d column \<times> 32 word list) res" where
  "copy_column env cm local_idx icol out sizes =
     ebind (vec_at (row_send_offsets cm) local_idx) (\<lambda>sw.
     ebind (vec_at (row_recv_offsets cm) local_idx) (\<lambda>ra.
     ebind (vec_at (row_recv_offsets cm) (Suc local_idx)) (\<lambda>rb.
       case (input_table cm ! icol, out) of
         (FixedWidth d bs, FixedWidth d' bs') \<Rightarrow>
           let dtype_size = int (size_of env d) in
           ebind (read_mem bs (sint sw * dtype_size) ((rb - ra) * dtype_size)) (\<lambda>x.
           ebind (write_mem bs' (ra * dtype_size) x) (\<lambda>m. Inr (FixedWidth d' m, sizes)))
       | (Strings offs cs, Strings offs' cs') \<Rightarrow>
           ebind (vec_at (string_sizes_to_send cm) icol) (\<lambda>snd_sizes.
           ebind (read_mem snd_sizes (sint sw) (rb - ra)) (\<lambda>ss.
           ebind (write_mem sizes ra ss) (\<lambda>sizes'.
           ebind (vec_at (string_send_offsets cm) icol) (\<lambda>so.
           ebind (vec_at (string_recv_offsets cm) icol) (\<lambda>ro.
           ebind (vec_at so local_idx) (\<lambda>a.
           ebind (vec_at so (Suc local_idx)) (\<lambda>b.
           ebind (vec_at ro local_idx) (\<lambda>c.
           ebind (read_mem cs (sint a) (sint (b - a))) (\<lambda>x.
           ebind (write_mem cs' c x) (\<lambda>m. Inr (Strings offs' m, sizes')))))))))))
       | _ \<Rightarrow> Inl Unmatched)))"

definition copy_table_to_current_rank ::
  "'d cudf \<Rightarrow> 'd a2a_communicator \<Rightarrow> 'd table \<Rightarrow> ('d table \<times> 32 word list list) res" where
  "copy_table_to_current_rank env cm communicated =
     (let local_idx = get_local_idx (cm_group cm) in
      ebind (emap (\<lambda>icol. copy_column env cm local_idx icol (communicated ! icol)
                            (string_sizes_received cm ! icol))
               [0..<length (input_table cm)]) (\<lambda>cols.
        Inr (map fst cols, map snd cols)))"

text \<open>The method allocates the table and, for an explicit copy, fills in the own partition.\<close>

definition allocate_communicated_table ::
  "'d cudf \<Rightarrow> 'd a2a_communicator \<Rightarrow> ('d table \<times> 'd a2a_communicator) res" where
  "allocate_communicated_table env cm =
     ebind (allocate_communicated_table_helper env (input_table cm) (row_recv_offsets cm)
              (string_recv_offsets cm)) (\<lambda>t.
       if explicit_copy_to_current_rank cm
       then ebind (copy_table_to_current_rank env cm t) (\<lambda>(t', sizes).
              Inr (t', cm\<lparr>string_sizes_received := sizes\<rparr>))
       else Inr (t, cm))"

section \<open>Launching the communication\<close>

text \<open>The buffers of one column: one for fixed width, sizes and chars for strings.\<close>

definition column_buffers ::
  "'d cudf \<Rightarrow> 'd a2a_communicator \<Rightarrow> nat \<Rightarrow> 'd column \<Rightarrow> 'd a2a_buffer list res" where
  "column_buffers env cm icol out =
     ebind (vec_at (table_compression_options cm) icol) (\<lambda>opt.
       case (input_table cm ! icol, out) of
         (FixedWidth d bs, FixedWidth d' bs') \<Rightarrow>
           if d \<noteq> d' then Inl AssertFailed
           else Inr [AllToAllCommBuffer bs bs' (map sint (row_send_offsets cm)) (row_recv_offsets cm)
                       d (compression_method opt) (cascaded_format opt)]
       | (Strings offs cs, Strings offs' cs') \<Rightarrow>
           ebind (vec_at (children_compression_options opt) 0) (\<lambda>o0.
           ebind (vec_at (children_compression_options opt) 1) (\<lambda>o1.
           ebind (vec_at (string_sizes_to_send cm) icol) (\<lambda>ss.
           ebind (vec_at (string_sizes_received cm) icol) (\<lambda>sr.
           ebind (vec_at (string_send_offsets cm) icol) (\<lambda>so.
           ebind (vec_at (string_recv_offsets cm) icol) (\<lambda>ro.
             Inr [AllToAllCommBuffer (enc32s ss) (enc32s sr) (map sint (row_send_offsets cm))
                    (row_recv_offsets cm) (offset_dtype env) (compression_method o0) (cascaded_format o0),
                  AllToAllCommBuffer cs cs' (map sint so) ro
                    (char_dtype env) (compression_method o1) (cascaded_format o1)]))))))
       | _ \<Rightarrow> Inl AssertFailed)"

definition append_to_all_to_all_comm_buffers ::
  "'d cudf \<Rightarrow> 'd a2a_communicator \<Rightarrow> 'd table \<Rightarrow> 'd a2a_buffer list \<Rightarrow> 'd a2a_buffer list res" where
  "append_to_all_to_all_comm_buffers env cm output bufs =
     ebind (emap (\<lambda>icol. column_buffers env cm icol (output ! icol)) [0..<length (input_table cm)])
       (\<lambda>bss. Inr (bufs @ concat bss))"

text \<open>
  The overload for tables without string columns (used by the benchmark of the
  all-to-all) passes empty vectors for everything that concerns strings.
\<close>

definition append_to_all_to_all_comm_buffers_fixed ::
  "'d cudf \<Rightarrow> 'd table \<Rightarrow> 'd table \<Rightarrow> comm_group \<Rightarrow> 32 word list \<Rightarrow> int list \<Rightarrow>
     column_compression_options list \<Rightarrow> 'd a2a_buffer list \<Rightarrow> 'd a2a_buffer list res" where
  "append_to_all_to_all_comm_buffers_fixed env input output g send_offs recv_offs opts bufs =
     append_to_all_to_all_comm_buffers env
       \<lparr>input_table = input, cm_group = g, explicit_copy_to_current_rank = False,
        row_send_offsets = send_offs, row_recv_offsets = recv_offs, string_send_offsets = [],
        string_recv_offsets = [], string_sizes_to_send = [], string_sizes_received = [],
        table_compression_options = opts\<rparr> output bufs"

text \<open>
  Reading the receive buffers back into the table and the received sizes, in the order in
  which they were appended.
\<close>

fun store_columns :: "'d table \<Rightarrow> 'd a2a_buffer list \<Rightarrow> 'd table \<times> 32 word list list" where
  "store_columns [] bufs = ([], [])"
| "store_columns (FixedWidth d bs # t) bufs =
     (case store_columns t (tl bufs) of (t', sizes) \<Rightarrow>
       (FixedWidth d (recv_buffer (hd bufs)) # t', [] # sizes))"
| "store_columns (Strings offs cs # t) bufs =
     (case store_columns t (tl (tl bufs)) of (t', sizes) \<Rightarrow>
       (Strings offs (recv_buffer (hd (tl bufs))) # t', dec32s (recv_buffer (hd bufs)) # sizes))"

definition launch_communication ::
  "nvcomp \<Rightarrow> 'd cudf \<Rightarrow> ((rank \<times> int) list list \<Rightarrow> rank \<Rightarrow> rank list \<Rightarrow> int list res) \<Rightarrow>
     ((rank \<times> msg) list list \<Rightarrow> rank \<Rightarrow> rank list \<Rightarrow> msg list res) \<Rightarrow> bool \<Rightarrow> nat \<Rightarrow> nat \<Rightarrow>
     ('d table \<times> 'd a2a_communicator) list \<Rightarrow> 'd table list res" where
  "launch_communication nv env mpi exch group_by_batch grid st world =
     ebind (emap (\<lambda>(t, cm). append_to_all_to_all_comm_buffers env cm t []) world) (\<lambda>bufs.
     let incl = (case world of [] \<Rightarrow> True | (t, cm) # _ \<Rightarrow> \<not> explicit_copy_to_current_rank cm) in
     ebind (communicate_buffers nv env mpi exch group_by_batch grid st incl bufs) (\<lambda>bufs'.
     emap (\<lambda>((t, cm), bs). case store_columns t bs of (t', sizes) \<Rightarrow>
             calculate_string_offsets_from_sizes t' sizes)
       (zip world bufs')))"

text \<open>The three steps in the order in which the callers take them.\<close>

definition all_to_all_table ::
  "nvcomp \<Rightarrow> 'd cudf \<Rightarrow> ((rank \<times> int) list list \<Rightarrow> rank \<Rightarrow> rank list \<Rightarrow> int list res) \<Rightarrow>
     ((rank \<times> msg) list list \<Rightarrow> rank \<Rightarrow> rank list \<Rightarrow> msg list res) \<Rightarrow> bool \<Rightarrow> nat \<Rightarrow> nat \<Rightarrow>
     'd table list \<Rightarrow> 32 word list list \<Rightarrow> column_compression_options list list \<Rightarrow> bool \<Rightarrow>
     'd table list res" where
  "all_to_all_table nv env mpi exch group_by_batch grid st tables offs opts explicit_copy =
     ebind (AllToAllCommunicator mpi grid st tables offs opts explicit_copy) (\<lambda>cms.
     ebind (emap (allocate_communicated_table env) cms)
       (launch_communication nv env mpi exch group_by_batch grid st))"

end
