(* ===== verification/Table_Comm_Correct.thy ===== *)
theory Table_Comm_Correct
  imports Table_Comm
begin

text \<open>
  What an all-to-all of a table does to its rows. A \<open>job\<close> bundles the arguments of the
  collective operation: column \<open>c\<close> of the table of rank \<open>r\<close>, its number of rows, the send
  offsets of rank \<open>r\<close>, and the compression options, which all jranks share.
\<close>

record 'd job =
  jenv :: "'d cudf"
  jranks :: nat
  jgrid :: nat
  jstride :: nat
  jncols :: nat
  jcol :: "nat \<Rightarrow> rank \<Rightarrow> 'd column"
  jnrows :: "rank \<Rightarrow> nat"
  jsoffs :: "rank \<Rightarrow> 32 word list"
  jopts :: "column_compression_options list"

abbreviation gsize :: "'d job \<Rightarrow> nat" where "gsize j \<equiv> jgrid j div jstride j"
abbreviation jgroup :: "'d job \<Rightarrow> rank \<Rightarrow> comm_group" where "jgroup j \<equiv> comm_group_at (jgrid j) (jstride j)"
abbreviation soff :: "'d job \<Rightarrow> rank \<Rightarrow> int list" where "soff j r \<equiv> map sint (jsoffs j r)"

section \<open>The vectors of the constructor\<close>

definition row_roffs :: "'d job \<Rightarrow> rank \<Rightarrow> int list" where
  "row_roffs j r = recv_offsets_spec (jgrid j) (jstride j) (map (soff j) [0..<jranks j]) r"

definition char_soffs :: "'d job \<Rightarrow> nat \<Rightarrow> rank \<Rightarrow> 32 word list" where
  "char_soffs j c r = (if is_Strings (jcol j c r)
     then map (\<lambda>i. offsets (jcol j c r) ! nat (sint i)) (jsoffs j r) else [])"

definition char_roffs :: "'d job \<Rightarrow> nat \<Rightarrow> rank \<Rightarrow> int list" where
  "char_roffs j c r = (if is_Strings (jcol j c r)
     then recv_offsets_spec (jgrid j) (jstride j) (map (\<lambda>s. map sint (char_soffs j c s)) [0..<jranks j]) r else [])"

definition sent_sizes :: "'d job \<Rightarrow> nat \<Rightarrow> rank \<Rightarrow> 32 word list" where
  "sent_sizes j c r = (if is_Strings (jcol j c r)
     then row_sizes (offsets (jcol j c r)) 0 (nat (sint (last (jsoffs j r)))) else [])"

text \<open>
  The contract: well-formed tables of one schema on all jranks, send offsets within the
  table, options that fit the columns, and receive sizes that fit \<open>cudf::size_type\<close>. The
  send offsets of a table with string columns start at row zero.
\<close>

definition job_ok :: "'d job \<Rightarrow> bool" where
  "job_ok j \<longleftrightarrow>
     cudf_ok (jenv j) \<and> group_params (jranks j) (jgrid j) (jstride j) \<and> 0 < jranks j \<and>
     length (jopts j) = jncols j \<and>
     (\<forall>r < jranks j. offsets_ok (gsize j) (soff j r) \<and> sint (last (jsoffs j r)) \<le> int (jnrows j r) \<and>
        row_roffs j r ! gsize j < 2 ^ 31) \<and>
     (\<forall>c < jncols j. \<forall>r < jranks j. column_ok (jenv j) (jnrows j r) (jcol j c r) \<and>
        column_type (jcol j c r) = column_type (jcol j c 0) \<and>
        column_options_ok (jenv j) (jcol j c r) (jopts j ! c) \<and>
        (is_Strings (jcol j c r) \<longrightarrow>
           sint (hd (jsoffs j r)) = 0 \<and> row_roffs j r ! gsize j + 1 < 2 ^ 31 \<and> char_roffs j c r ! gsize j < 2 ^ 31))"

lemma job_okD:
  assumes "job_ok j"
  shows "cudf_ok (jenv j)" "group_params (jranks j) (jgrid j) (jstride j)" "0 < jranks j" "length (jopts j) = jncols j"
  using assms by (simp_all add: job_ok_def)

lemma job_rank:
  assumes "job_ok j" "r < jranks j"
  shows "offsets_ok (gsize j) (soff j r)" "sint (last (jsoffs j r)) \<le> int (jnrows j r)"
    "row_roffs j r ! gsize j < 2 ^ 31" "length (jsoffs j r) = Suc (gsize j)"
    "soff j r ! gsize j = sint (last (jsoffs j r))"
proof -
  show ok: "offsets_ok (gsize j) (soff j r)" "sint (last (jsoffs j r)) \<le> int (jnrows j r)"
    "row_roffs j r ! gsize j < 2 ^ 31"
    using assms by (simp_all add: job_ok_def)
  then show len: "length (jsoffs j r) = Suc (gsize j)" by (simp add: offsets_ok_def)
  then have "jsoffs j r \<noteq> []" by auto
  with len show "soff j r ! gsize j = sint (last (jsoffs j r))"
    using offsets_ok_last [OF ok(1)] by (simp add: last_map)
qed

lemma job_col:
  assumes "job_ok j" "c < jncols j" "r < jranks j"
  shows "column_ok (jenv j) (jnrows j r) (jcol j c r)" "column_type (jcol j c r) = column_type (jcol j c 0)"
    "column_options_ok (jenv j) (jcol j c r) (jopts j ! c)"
    "is_Strings (jcol j c r) \<Longrightarrow> sint (hd (jsoffs j r)) = 0"
    "is_Strings (jcol j c r) \<Longrightarrow> char_roffs j c r ! gsize j < 2 ^ 31"
    "is_Strings (jcol j c r) \<Longrightarrow> row_roffs j r ! gsize j + 1 < 2 ^ 31"
  using assms unfolding job_ok_def by blast+

lemma is_Strings_type: "is_Strings c \<longleftrightarrow> column_type c = None"
  by (cases c) simp_all

lemma job_kind:
  assumes "job_ok j" "c < jncols j" "r < jranks j" "s < jranks j"
  shows "is_Strings (jcol j c r) \<longleftrightarrow> is_Strings (jcol j c s)"
  using job_col(2) [OF assms(1,2,3)] job_col(2) [OF assms(1,2,4)] by (simp add: is_Strings_type)

lemma row_roffs_ok:
  assumes j: "job_ok j" and r: "r < jranks j"
  shows "offsets_ok (gsize j) (row_roffs j r)" and "row_roffs j r ! 0 = 0"
proof -
  have "\<forall>s < jranks j. offsets_ok (gsize j) (map (soff j) [0..<jranks j] ! s)"
    using job_rank(1) [OF j] by simp
  from recv_offsets_spec_ok [OF job_okD(2) [OF j] r this]
  show "offsets_ok (gsize j) (row_roffs j r)" by (simp add: row_roffs_def)
  show "row_roffs j r ! 0 = 0" by (simp add: row_roffs_def)
qed

lemma soff_bounds:
  assumes j: "job_ok j" and r: "r < jranks j" and i: "i \<le> gsize j"
  shows "0 \<le> sint (jsoffs j r ! i)" "sint (jsoffs j r ! i) \<le> sint (last (jsoffs j r))"
    "nat (sint (jsoffs j r ! i)) \<le> jnrows j r"
proof -
  note rank = job_rank [OF j r]
  show "0 \<le> sint (jsoffs j r ! i)"
    using offsets_ok_nonneg [OF rank(1) i] i rank(4) by simp
  show le: "sint (jsoffs j r ! i) \<le> sint (last (jsoffs j r))"
    using offsets_ok_mono [OF rank(1) i order_refl] i rank(4,5) by simp
  with rank(2) show "nat (sint (jsoffs j r ! i)) \<le> jnrows j r" by linarith
qed

lemma string_col:
  assumes j: "job_ok j" and c: "c < jncols j" and r: "r < jranks j" and s: "is_Strings (jcol j c r)"
  obtains offs cs where "jcol j c r = Strings offs cs" "offsets_ok (jnrows j r) (map sint offs)"
    "sint (last offs) \<le> int (length cs)" "length offs = Suc (jnrows j r)"
proof -
  from s obtain offs cs where c_eq: "jcol j c r = Strings offs cs" by (cases "jcol j c r") auto
  with job_col(1) [OF j c r] have "offsets_ok (jnrows j r) (map sint offs)" "sint (last offs) \<le> int (length cs)"
    by simp_all
  moreover then have "length offs = Suc (jnrows j r)" by (simp add: offsets_ok_def)
  ultimately show ?thesis using that c_eq by blast
qed

lemma char_soffs_ok:
  assumes j: "job_ok j" and c: "c < jncols j" and r: "r < jranks j" and s: "is_Strings (jcol j c r)"
  shows "offsets_ok (gsize j) (map sint (char_soffs j c r))"
    and "sint (last (char_soffs j c r)) \<le> int (length (chars (jcol j c r)))"
    and "length (char_soffs j c r) = Suc (gsize j)"
proof -
  obtain offs cs where eq: "jcol j c r = Strings offs cs" and offs: "offsets_ok (jnrows j r) (map sint offs)"
    and last: "sint (last offs) \<le> int (length cs)" and len: "length offs = Suc (jnrows j r)"
    by (rule string_col [OF assms])
  note rank = job_rank [OF j r]
  have so: "sint (jsoffs j r ! i) \<le> sint (jsoffs j r ! k)" if "i \<le> k" "k \<le> gsize j" for i k
    using offsets_ok_mono [OF rank(1) that] that rank(4) by simp
  have nth: "map sint (char_soffs j c r) ! i = map sint offs ! nat (sint (jsoffs j r ! i))"
    if "i \<le> gsize j" for i
    using that rank(4) soff_bounds(3) [OF j r that] by (simp add: char_soffs_def eq len)
  have "sorted (map sint (char_soffs j c r))"
    unfolding sorted_iff_nth_mono
  proof (intro allI impI)
    fix i k assume "i \<le> k" and "k < length (map sint (char_soffs j c r))"
    then have k: "k \<le> gsize j" by (simp add: char_soffs_def eq rank(4))
    with \<open>i \<le> k\<close> show "map sint (char_soffs j c r) ! i \<le> map sint (char_soffs j c r) ! k"
      using so [of i k] soff_bounds(3) [OF j r k] by (simp add: nth offsets_ok_mono [OF offs] nat_mono)
  qed
  moreover have "0 \<le> map sint (char_soffs j c r) ! 0"
    using nth [of 0] offsets_ok_nonneg [OF offs soff_bounds(3) [OF j r, of 0]] by simp
  ultimately show ok: "offsets_ok (gsize j) (map sint (char_soffs j c r))"
    by (simp add: offsets_ok_def char_soffs_def eq rank(4))
  show len': "length (char_soffs j c r) = Suc (gsize j)" by (simp add: char_soffs_def eq rank(4))
  then have "char_soffs j c r \<noteq> []" by auto
  then have "sint (last (char_soffs j c r)) = map sint (char_soffs j c r) ! gsize j"
    using offsets_ok_last [OF ok] by (simp add: last_map)
  also have "\<dots> = map sint offs ! nat (sint (jsoffs j r ! gsize j))" by (rule nth) simp
  also have "\<dots> \<le> map sint offs ! jnrows j r"
    by (rule offsets_ok_mono [OF offs soff_bounds(3) [OF j r order_refl] order_refl])
  also have "\<dots> = sint (last offs)"
    using offsets_ok_last [OF offs] len by (cases "offs = []") (auto simp: last_map)
  finally show "sint (last (char_soffs j c r)) \<le> int (length (chars (jcol j c r)))"
    using last by (simp add: eq)
qed

lemma char_roffs_ok:
  assumes j: "job_ok j" and c: "c < jncols j" and r: "r < jranks j" and s: "is_Strings (jcol j c r)"
  shows "offsets_ok (gsize j) (char_roffs j c r)" and "char_roffs j c r ! 0 = 0"
proof -
  have "\<forall>s < jranks j. offsets_ok (gsize j) (map (\<lambda>s. map sint (char_soffs j c s)) [0..<jranks j] ! s)"
    using char_soffs_ok(1) [OF j c] job_kind [OF j c r] s by simp
  from recv_offsets_spec_ok [OF job_okD(2) [OF j] r this]
  show "offsets_ok (gsize j) (char_roffs j c r)" by (simp add: char_roffs_def s)
  show "char_roffs j c r ! 0 = 0" by (simp add: char_roffs_def s)
qed

section \<open>The constructor\<close>

abbreviation jtables :: "'d job \<Rightarrow> 'd table list" where
  "jtables j \<equiv> mat (jncols j) (jranks j) (jcol j)"

lemma gather_column_ok:
  assumes mpi: "p2p_transport mpi (\<lambda>_. True) (jranks j) False" and j: "job_ok j" and c: "c < jncols j"
  shows "gather_column mpi (jgrid j) (jstride j) (map (jsoffs j) [0..<jranks j]) (map (jcol j c) [0..<jranks j]) =
     Inr (map (\<lambda>r. (char_soffs j c r, char_roffs j c r)) [0..<jranks j])"
proof (cases "is_Strings (jcol j c 0)")
  case False
  then have no: "\<not> is_Strings (jcol j c r)" if "r < jranks j" for r
    using job_kind [OF j c that job_okD(3) [OF j]] by simp
  then have "list_all (\<lambda>c. \<not> is_Strings c) (map (jcol j c) [0..<jranks j])" by (simp add: list_all_iff)
  with no show ?thesis by (simp add: gather_column_def char_soffs_def char_roffs_def)
next
  case True
  then have yes: "is_Strings (jcol j c r)" if "r < jranks j" for r
    using job_kind [OF j c that job_okD(3) [OF j]] by simp
  then have all: "list_all is_Strings (map (jcol j c) [0..<jranks j])" by (simp add: list_all_iff)
  have "\<not> list_all (\<lambda>c. \<not> is_Strings c) (map (jcol j c) [0..<jranks j])"
    using True job_okD(3) [OF j] by (auto simp: list_all_iff)
  moreover have "emap (\<lambda>(d, c). gather_offsets (Suc (gsize j)) d (offsets c))
      (zip (map (jsoffs j) [0..<jranks j]) (map (jcol j c) [0..<jranks j])) =
      Inr (map (char_soffs j c) [0..<jranks j])"
  proof -
    have "gather_offsets (Suc (gsize j)) (jsoffs j r) (offsets (jcol j c r)) = Inr (char_soffs j c r)"
      if r: "r < jranks j" for r
    proof -
      obtain offs cs where eq: "jcol j c r = Strings offs cs" and len: "length offs = Suc (jnrows j r)"
        by (rule string_col [OF j c r yes [OF r]])
      have "0 \<le> sint i \<and> nat (sint i) < length offs" if "i \<in> set (jsoffs j r)" for i
        using that soff_bounds [OF j r] job_rank(4) [OF j r] len by (auto simp: in_set_conv_nth less_Suc_eq_le)
      then show ?thesis
        using job_rank(4) [OF j r] by (simp add: gather_offsets_ok char_soffs_def eq)
    qed
    then show ?thesis by (simp add: emap_Inr_iff list_all2_conv_all_nth zip_map_map zip_same_conv_map)
  qed
  moreover have "communicate_sizes_size_type mpi (jgrid j) (jstride j) (map (char_soffs j c) [0..<jranks j]) =
      Inr (map (char_roffs j c) [0..<jranks j])"
  proof -
    have "communicate_sizes mpi (jgrid j) (jstride j) (map (\<lambda>r. map sint (char_soffs j c r)) [0..<jranks j]) =
        Inr (map (recv_offsets_spec (jgrid j) (jstride j) (map (\<lambda>r. map sint (char_soffs j c r)) [0..<jranks j])) [0..<jranks j])"
      by (rule communicate_sizes_eq [OF mpi job_okD(2) [OF j]])
        (auto simp: char_soffs_ok(3) [OF j c _ yes])
    then show ?thesis by (simp add: communicate_sizes_size_type_def char_roffs_def yes comp_def)
  qed
  ultimately show ?thesis
    using all by (simp add: gather_column_def zip_map_map zip_same_conv_map)
qed

lemma gather_string_offsets_ok:
  assumes mpi: "p2p_transport mpi (\<lambda>_. True) (jranks j) False" and j: "job_ok j"
  shows "gather_string_offsets mpi (jgrid j) (jstride j) (jtables j) (map (jsoffs j) [0..<jranks j]) =
     Inr (map (\<lambda>r. (map (\<lambda>c. char_soffs j c r) [0..<jncols j], map (\<lambda>c. char_roffs j c r) [0..<jncols j]))
            [0..<jranks j])"
proof -
  have n: "(case jtables j of [] \<Rightarrow> 0 | t # _ \<Rightarrow> length t) = jncols j"
    using job_okD(3) [OF j] by (cases "jranks j") (simp_all add: mat_def upt_conv_Cons del: upt_Suc)
  have "list_all (\<lambda>t. length t = jncols j) (jtables j)" by (simp add: list_all_iff mat_def)
  moreover have "emap (\<lambda>c. gather_column mpi (jgrid j) (jstride j) (map (jsoffs j) [0..<jranks j])
      (map (\<lambda>t. t ! c) (jtables j))) [0..<jncols j] =
      Inr (map (\<lambda>c. map (\<lambda>r. (char_soffs j c r, char_roffs j c r)) [0..<jranks j]) [0..<jncols j])"
  proof (rule emap_Inr)
    fix c assume "c \<in> set [0..<jncols j]"
    then have c: "c < jncols j" by simp
    then have "map (\<lambda>t. t ! c) (jtables j) = map (jcol j c) [0..<jranks j]" by (simp add: mat_def comp_def)
    with gather_column_ok [OF mpi j c]
    show "gather_column mpi (jgrid j) (jstride j) (map (jsoffs j) [0..<jranks j]) (map (\<lambda>t. t ! c) (jtables j)) =
      Inr (map (\<lambda>r. (char_soffs j c r, char_roffs j c r)) [0..<jranks j])" by simp
  qed
  ultimately show ?thesis by (simp add: gather_string_offsets_def n comp_def Let_def)
qed

lemma sizes_ok:
  assumes j: "job_ok j" and r: "r < jranks j"
  shows "calculate_string_sizes_from_offsets (map (\<lambda>c. jcol j c r) [0..<jncols j]) (hd (jsoffs j r)) (last (jsoffs j r)) =
     Inr (map (\<lambda>c. sent_sizes j c r) [0..<jncols j])"
proof -
  have "string_sizes (hd (jsoffs j r)) (last (jsoffs j r)) (jcol j c r) = Inr (sent_sizes j c r)"
    if c: "c < jncols j" for c
  proof (cases "is_Strings (jcol j c r)")
    case True
    obtain offs cs where eq: "jcol j c r = Strings offs cs" and len: "length offs = Suc (jnrows j r)"
      by (rule string_col [OF j c r True])
    have "jsoffs j r \<noteq> []" using job_rank(4) [OF j r] by auto
    moreover have hd: "sint (hd (jsoffs j r)) = 0" by (rule job_col(4) [OF j c r True])
    ultimately have "0 \<le> sint (last (jsoffs j r))"
      using soff_bounds(2) [OF j r, of 0] by (simp add: hd_conv_nth)
    then have "string_sizes (hd (jsoffs j r)) (last (jsoffs j r)) (Strings offs cs) =
        Inr (map (\<lambda>i. offs ! Suc i - offs ! i) [0..<nat (sint (last (jsoffs j r)))])"
      using string_sizes_ok [of "hd (jsoffs j r)" "last (jsoffs j r)" offs cs] hd len job_rank(2) [OF j r] by simp
    then show ?thesis by (simp add: sent_sizes_def eq row_sizes_def)
  next
    case False
    then show ?thesis by (cases "jcol j c r") (simp_all add: sent_sizes_def)
  qed
  then show ?thesis by (simp add: calculate_string_sizes_from_offsets_def emap_Inr_iff list_all2_conv_all_nth)
qed

definition recv_sizes0 :: "'d job \<Rightarrow> nat \<Rightarrow> rank \<Rightarrow> 32 word list" where
  "recv_sizes0 j c r = (if is_Strings (jcol j c r) then replicate (nat (last (row_roffs j r))) 0 else [])"

definition communicator_of :: "'d job \<Rightarrow> bool \<Rightarrow> rank \<Rightarrow> 'd a2a_communicator" where
  "communicator_of j explicit_copy r =
     \<lparr>input_table = map (\<lambda>c. jcol j c r) [0..<jncols j], cm_group = jgroup j r,
      explicit_copy_to_current_rank = explicit_copy,
      row_send_offsets = jsoffs j r, row_recv_offsets = row_roffs j r,
      string_send_offsets = map (\<lambda>c. char_soffs j c r) [0..<jncols j],
      string_recv_offsets = map (\<lambda>c. char_roffs j c r) [0..<jncols j],
      string_sizes_to_send = map (\<lambda>c. sent_sizes j c r) [0..<jncols j],
      string_sizes_received = map (\<lambda>c. recv_sizes0 j c r) [0..<jncols j],
      table_compression_options = jopts j\<rparr>"

lemma constructor_ok:
  assumes mpi: "p2p_transport mpi (\<lambda>_. True) (jranks j) False" and j: "job_ok j"
  shows "AllToAllCommunicator mpi (jgrid j) (jstride j) (jtables j) (map (jsoffs j) [0..<jranks j])
      (replicate (jranks j) (jopts j)) explicit_copy =
     Inr (map (communicator_of j explicit_copy) [0..<jranks j])"
proof -
  have "communicate_sizes mpi (jgrid j) (jstride j) (map (soff j) [0..<jranks j]) =
      Inr (map (row_roffs j) [0..<jranks j])"
    using communicate_sizes_eq [OF mpi job_okD(2) [OF j], of "map (soff j) [0..<jranks j]"] job_rank(4) [OF j]
    by (simp add: row_roffs_def [abs_def])
  then have "communicate_sizes_size_type mpi (jgrid j) (jstride j) (map (jsoffs j) [0..<jranks j]) =
      Inr (map (row_roffs j) [0..<jranks j])"
    by (simp add: communicate_sizes_size_type_def comp_def)
  then show ?thesis
    by (simp add: AllToAllCommunicator_def gather_string_offsets_ok [OF mpi j] emap_Inr_iff
        list_all2_conv_all_nth sizes_ok [OF j] communicator_of_def
        allocate_string_sizes_receive_buffer_def recv_sizes0_def comp_def)
qed

section \<open>The communicated table before the communication\<close>

definition put :: "'a list \<Rightarrow> int \<Rightarrow> 'a list \<Rightarrow> 'a list" where
  "put m a x = take (nat a) m @ x @ drop (nat a + length x) m"

lemma write_mem_put: "0 \<le> a \<Longrightarrow> a + int (length x) \<le> int (length m) \<Longrightarrow> write_mem m a x = Inr (put m a x)"
  by (simp add: write_mem_def put_def)

lemma length_put: "0 \<le> a \<Longrightarrow> a + int (length x) \<le> int (length m) \<Longrightarrow> length (put m a x) = length m"
  using length_write_mem [OF write_mem_put] .

lemma subrange_put:
  "0 \<le> a \<Longrightarrow> a + int (length x) \<le> int (length m) \<Longrightarrow> subrange (put m a x) a (a + int (length x)) = x"
  by (simp add: put_def subrange_def)

abbreviation own_idx :: "'d job \<Rightarrow> rank \<Rightarrow> nat" where "own_idx j r \<equiv> get_local_idx (jgroup j r)"

definition nrecv :: "'d job \<Rightarrow> rank \<Rightarrow> nat" where
  "nrecv j r = nat (row_roffs j r ! gsize j)"

definition out_sizes :: "'d job \<Rightarrow> bool \<Rightarrow> nat \<Rightarrow> rank \<Rightarrow> 32 word list" where
  "out_sizes j explicit_copy c r = (if \<not> is_Strings (jcol j c r) then []
     else if explicit_copy then put (replicate (nrecv j r) 0) (row_roffs j r ! own_idx j r)
            (subrange (sent_sizes j c r) (soff j r ! own_idx j r) (soff j r ! Suc (own_idx j r)))
     else replicate (nrecv j r) 0)"

definition out_bytes :: "'d job \<Rightarrow> bool \<Rightarrow> nat \<Rightarrow> rank \<Rightarrow> byte list" where
  "out_bytes j explicit_copy c r =
     (if is_Strings (jcol j c r)
      then let m = replicate (nat (char_roffs j c r ! gsize j)) 0 in
           if explicit_copy then put m (char_roffs j c r ! own_idx j r)
             (seg (chars (jcol j c r)) (map sint (char_soffs j c r)) 1 (own_idx j r)) else m
      else let w = size_of (jenv j) (dtype (jcol j c r)); m = replicate (nrecv j r * w) 0 in
           if explicit_copy then put m (row_roffs j r ! own_idx j r * int w)
             (seg (head (jcol j c r)) (soff j r) w (own_idx j r)) else m)"

definition out_col :: "'d job \<Rightarrow> bool \<Rightarrow> nat \<Rightarrow> rank \<Rightarrow> 'd column" where
  "out_col j explicit_copy c r =
     (if is_Strings (jcol j c r) then Strings (replicate (Suc (nrecv j r)) 0) (out_bytes j explicit_copy c r)
      else FixedWidth (dtype (jcol j c r)) (out_bytes j explicit_copy c r))"

lemma own_idx_less:
  assumes "job_ok j" shows "own_idx j r < gsize j"
  using local_idx_less [OF job_okD(2) [OF assms], of r] by (simp add: group_size_at)

lemma own_diff:
  assumes j: "job_ok j" and r: "r < jranks j"
  shows "row_roffs j r ! Suc (own_idx j r) - row_roffs j r ! own_idx j r =
     soff j r ! Suc (own_idx j r) - soff j r ! own_idx j r"
  using recv_offsets_spec_diff [OF own_idx_less [OF j], of "map (soff j) [0..<jranks j]" r r] r
  by (simp add: row_roffs_def sent_count_def own_global_rank [OF job_okD(2) [OF j]])

lemma own_char_diff:
  assumes j: "job_ok j" and r: "r < jranks j" and s: "is_Strings (jcol j c r)"
  shows "char_roffs j c r ! Suc (own_idx j r) - char_roffs j c r ! own_idx j r =
     map sint (char_soffs j c r) ! Suc (own_idx j r) - map sint (char_soffs j c r) ! own_idx j r"
  using recv_offsets_spec_diff [OF own_idx_less [OF j],
      of "map (\<lambda>s. map sint (char_soffs j c s)) [0..<jranks j]" r r] r s
  by (simp add: char_roffs_def sent_count_def own_global_rank [OF job_okD(2) [OF j]])

lemma narrow_nrecv:
  assumes j: "job_ok j" and r: "r < jranks j"
  shows "last (row_roffs j r) = int (nrecv j r)" "narrow32 (int (nrecv j r)) = int (nrecv j r)"
proof -
  have "0 \<le> row_roffs j r ! gsize j" by (rule offsets_ok_nonneg [OF row_roffs_ok(1) [OF j r] order_refl])
  with job_rank(3) [OF j r] offsets_ok_last [OF row_roffs_ok(1) [OF j r]]
  show "last (row_roffs j r) = int (nrecv j r)" "narrow32 (int (nrecv j r)) = int (nrecv j r)"
    by (simp_all add: nrecv_def narrow32_id)
qed

lemma allocate_column_ok:
  assumes j: "job_ok j" and c: "c < jncols j" and r: "r < jranks j"
  shows "allocate_column (jenv j) (row_roffs j r) (map (\<lambda>c. char_roffs j c r) [0..<jncols j]) c (jcol j c r) =
     Inr (out_col j False c r)"
proof (cases "jcol j c r")
  case (FixedWidth d bs)
  then show ?thesis
    by (simp add: allocate_column_def Let_def narrow_nrecv [OF j r] out_col_def out_bytes_def)
next
  case (Strings offs cs)
  then have s: "is_Strings (jcol j c r)" by simp
  note ro = char_roffs_ok [OF j c r s]
  have "0 \<le> char_roffs j c r ! gsize j" by (rule offsets_ok_nonneg [OF ro(1) order_refl])
  with job_col(5) [OF j c r s] have "narrow32 (last (char_roffs j c r)) = char_roffs j c r ! gsize j"
    by (simp add: offsets_ok_last [OF ro(1)] narrow32_id)
  moreover have "narrow32 (last (row_roffs j r) + 1) = int (nrecv j r) + 1"
    using job_col(6) [OF j c r s] offsets_ok_last [OF row_roffs_ok(1) [OF j r]] narrow_nrecv(1) [OF j r] by (simp add: narrow32_id)
  ultimately show ?thesis using Strings c \<open>0 \<le> char_roffs j c r ! gsize j\<close>
    by (simp add: allocate_column_def Let_def narrow_nrecv [OF j r] out_col_def out_bytes_def nat_add_distrib)
qed

text \<open>Where the own partition lies: in the sent columns and in the received ones.\<close>

lemma own_send_bounds:
  assumes j: "job_ok j" and r: "r < jranks j"
  shows "0 \<le> soff j r ! own_idx j r" "soff j r ! own_idx j r \<le> soff j r ! Suc (own_idx j r)"
    "soff j r ! Suc (own_idx j r) \<le> sint (last (jsoffs j r))" "soff j r ! Suc (own_idx j r) \<le> int (jnrows j r)"
proof -
  let ?k = "own_idx j r"
  note k = own_idx_less [OF j, of r] and rank = job_rank [OF j r]
  show "0 \<le> soff j r ! ?k" using k by (intro offsets_ok_nonneg [OF rank(1)]) simp
  show "soff j r ! ?k \<le> soff j r ! Suc ?k" using k by (intro offsets_ok_mono [OF rank(1)]) simp_all
  show "soff j r ! Suc ?k \<le> sint (last (jsoffs j r))"
    using k rank(5) offsets_ok_mono [OF rank(1), of "Suc ?k" "gsize j"] by simp
  then show "soff j r ! Suc ?k \<le> int (jnrows j r)" using rank(2) by simp
qed

lemma own_recv_bounds:
  assumes j: "job_ok j" and r: "r < jranks j"
  shows "0 \<le> row_roffs j r ! own_idx j r" "row_roffs j r ! Suc (own_idx j r) \<le> int (nrecv j r)"
proof -
  note k = own_idx_less [OF j, of r] and ro = row_roffs_ok [OF j r]
  show "0 \<le> row_roffs j r ! own_idx j r" using k by (intro offsets_ok_nonneg [OF ro(1)]) simp
  show "row_roffs j r ! Suc (own_idx j r) \<le> int (nrecv j r)"
    using k offsets_ok_mono [OF ro(1), of "Suc (own_idx j r)" "gsize j"]
      offsets_ok_nonneg [OF ro(1), of "gsize j"] by (simp add: nrecv_def)
qed

lemma own_char_bounds:
  assumes j: "job_ok j" and c: "c < jncols j" and r: "r < jranks j" and s: "is_Strings (jcol j c r)"
  shows "0 \<le> map sint (char_soffs j c r) ! own_idx j r"
    "map sint (char_soffs j c r) ! own_idx j r \<le> map sint (char_soffs j c r) ! Suc (own_idx j r)"
    "map sint (char_soffs j c r) ! Suc (own_idx j r) \<le> int (length (chars (jcol j c r)))"
    "0 \<le> char_roffs j c r ! own_idx j r"
    "char_roffs j c r ! Suc (own_idx j r) \<le> char_roffs j c r ! gsize j"
proof -
  let ?k = "own_idx j r" and ?so = "map sint (char_soffs j c r)"
  note k = own_idx_less [OF j, of r] and so = char_soffs_ok [OF j c r s] and ro = char_roffs_ok [OF j c r s]
  show "0 \<le> ?so ! ?k" using k by (intro offsets_ok_nonneg [OF so(1)]) simp
  show "?so ! ?k \<le> ?so ! Suc ?k" using k by (intro offsets_ok_mono [OF so(1)]) simp_all
  have "?so ! Suc ?k \<le> ?so ! gsize j" using k by (intro offsets_ok_mono [OF so(1)]) simp_all
  also have "?so ! gsize j = sint (last (char_soffs j c r))"
    using offsets_ok_last [OF so(1)] so(3) by (cases "char_soffs j c r = []") (auto simp: last_map)
  finally show "?so ! Suc ?k \<le> int (length (chars (jcol j c r)))" using so(2) by simp
  show "0 \<le> char_roffs j c r ! ?k" using k by (intro offsets_ok_nonneg [OF ro(1)]) simp
  show "char_roffs j c r ! Suc ?k \<le> char_roffs j c r ! gsize j"
    using k by (intro offsets_ok_mono [OF ro(1)]) simp_all
qed

lemma fixed_length:
  assumes "job_ok j" "c < jncols j" "r < jranks j" "\<not> is_Strings (jcol j c r)"
  shows "length (head (jcol j c r)) = jnrows j r * size_of (jenv j) (dtype (jcol j c r))"
  using job_col(1) [OF assms(1,2,3)] assms(4) by (cases "jcol j c r") simp_all

lemma length_sent_sizes:
  "is_Strings (jcol j c r) \<Longrightarrow> length (sent_sizes j c r) = nat (sint (last (jsoffs j r)))"
  by (simp add: sent_sizes_def)

lemma copy_column_fixed:
  assumes j: "job_ok j" and c: "c < jncols j" and r: "r < jranks j" and f: "\<not> is_Strings (jcol j c r)"
  shows "copy_column (jenv j) (communicator_of j True r) (own_idx j r) c (out_col j False c r) (recv_sizes0 j c r) =
     Inr (out_col j True c r, out_sizes j True c r)"
proof -
  let ?k = "own_idx j r" and ?d = "dtype (jcol j c r)" and ?bs = "head (jcol j c r)"
  let ?w = "int (size_of (jenv j) ?d)" and ?so = "soff j r" and ?ro = "row_roffs j r"
  let ?m0 = "replicate (nrecv j r * size_of (jenv j) ?d) (0 :: byte)"
  note k = own_idx_less [OF j, of r] and sb = own_send_bounds [OF j r] and rb = own_recv_bounds [OF j r]
  note delta = own_diff [OF j r] and len = fixed_length [OF j c r f]
  from f have eq: "jcol j c r = FixedWidth ?d ?bs" by (cases "jcol j c r") simp_all
  have at: "vec_at (jsoffs j r) ?k = Inr (jsoffs j r ! ?k)" "vec_at ?ro ?k = Inr (?ro ! ?k)"
    "vec_at ?ro (Suc ?k) = Inr (?ro ! Suc ?k)" "sint (jsoffs j r ! ?k) = ?so ! ?k"
    using k job_rank(4) [OF j r] by (simp_all add: row_roffs_def)
  have le: "?so ! ?k * ?w \<le> ?so ! Suc ?k * ?w" "?so ! Suc ?k * ?w \<le> int (jnrows j r) * ?w" "0 \<le> ?so ! ?k * ?w"
    using sb by (simp_all add: mult_right_mono)
  have len_x: "int (length (seg ?bs ?so (size_of (jenv j) ?d) ?k)) = ?so ! Suc ?k * ?w - ?so ! ?k * ?w"
    using le len unfolding seg_def by (simp add: length_subrange)
  have read: "read_mem ?bs (?so ! ?k * ?w) ((?ro ! Suc ?k - ?ro ! ?k) * ?w) = Inr (seg ?bs ?so (size_of (jenv j) ?d) ?k)"
    unfolding delta seg_def using le len by (subst read_mem_ok) (simp_all add: left_diff_distrib)
  have ro: "?ro ! ?k * ?w + (?so ! Suc ?k * ?w - ?so ! ?k * ?w) = ?ro ! Suc ?k * ?w"
    using delta by (simp flip: left_diff_distrib distrib_right)
  have "?ro ! Suc ?k * ?w \<le> int (nrecv j r) * ?w" using rb by (intro mult_right_mono) simp_all
  then have wr: "write_mem ?m0 (?ro ! ?k * ?w) (seg ?bs ?so (size_of (jenv j) ?d) ?k) =
      Inr (put ?m0 (?ro ! ?k * ?w) (seg ?bs ?so (size_of (jenv j) ?d) ?k))"
    using rb by (intro write_mem_put) (simp_all add: len_x ro)
  have out: "out_col j False c r = FixedWidth ?d ?m0" using f by (simp add: out_col_def out_bytes_def Let_def)
  have inp: "input_table (communicator_of j True r) ! c = FixedWidth ?d ?bs"
    using c eq by (simp add: communicator_of_def)
  show ?thesis
    unfolding copy_column_def out inp using at read wr f
    by (simp add: communicator_of_def out_col_def out_bytes_def out_sizes_def recv_sizes0_def Let_def
        del: column.collapse)
qed

lemma copy_column_strings:
  assumes j: "job_ok j" and c: "c < jncols j" and r: "r < jranks j" and s: "is_Strings (jcol j c r)"
  shows "copy_column (jenv j) (communicator_of j True r) (own_idx j r) c (out_col j False c r) (recv_sizes0 j c r) =
     Inr (out_col j True c r, out_sizes j True c r)"
proof -
  let ?k = "own_idx j r" and ?offs = "offsets (jcol j c r)" and ?cs = "chars (jcol j c r)"
  let ?so = "soff j r" and ?ro = "row_roffs j r" and ?ss = "sent_sizes j c r"
  let ?cso = "char_soffs j c r" and ?cro = "char_roffs j c r"
  let ?m0 = "replicate (nat (?cro ! gsize j)) (0 :: byte)" and ?z0 = "replicate (nrecv j r) (0 :: 32 word)"
  note k = own_idx_less [OF j, of r] and sb = own_send_bounds [OF j r] and rb = own_recv_bounds [OF j r]
  note cb = own_char_bounds [OF j c r s] and diff = own_diff [OF j r] and cdiff = own_char_diff [OF j r s]
  note cso = char_soffs_ok [OF j c r s] and len = length_sent_sizes [OF s]
  from s have eq: "jcol j c r = Strings ?offs ?cs" by (cases "jcol j c r") simp_all
  have at: "vec_at (jsoffs j r) ?k = Inr (jsoffs j r ! ?k)" "vec_at ?ro ?k = Inr (?ro ! ?k)"
    "vec_at ?ro (Suc ?k) = Inr (?ro ! Suc ?k)" "sint (jsoffs j r ! ?k) = ?so ! ?k"
    "vec_at ?cso ?k = Inr (?cso ! ?k)" "vec_at ?cso (Suc ?k) = Inr (?cso ! Suc ?k)"
    "vec_at ?cro ?k = Inr (?cro ! ?k)" "sint (?cso ! ?k) = map sint ?cso ! ?k"
    using k job_rank(4) [OF j r] cso(3) s by (simp_all add: row_roffs_def char_roffs_def)
  let ?x = "subrange ?ss (?so ! ?k) (?so ! Suc ?k)" and ?y = "seg ?cs (map sint ?cso) 1 ?k"
  have read1: "read_mem ?ss (?so ! ?k) (?ro ! Suc ?k - ?ro ! ?k) = Inr ?x"
    unfolding diff using sb len by simp
  have len_x: "int (length ?x) = ?ro ! Suc ?k - ?ro ! ?k"
    unfolding diff using sb len by (simp add: length_subrange)
  have write1: "write_mem ?z0 (?ro ! ?k) ?x = Inr (put ?z0 (?ro ! ?k) ?x)"
    using rb by (intro write_mem_put) (simp_all add: len_x)
  have sd: "sint (?cso ! Suc ?k - ?cso ! ?k) = map sint ?cso ! Suc ?k - map sint ?cso ! ?k"
    using offsets_sint_diff(1) [OF cso(1) k] k cso(3) by simp
  have read2: "read_mem ?cs (map sint ?cso ! ?k) (sint (?cso ! Suc ?k - ?cso ! ?k)) = Inr ?y"
    unfolding sd seg_def using cb by simp
  have len_y: "int (length ?y) = ?cro ! Suc ?k - ?cro ! ?k"
    unfolding cdiff seg_def using cb by (simp add: length_subrange)
  have write2: "write_mem ?m0 (?cro ! ?k) ?y = Inr (put ?m0 (?cro ! ?k) ?y)"
  proof (rule write_mem_put [OF cb(4)])
    have "0 \<le> ?cro ! gsize j" by (rule offsets_ok_nonneg [OF char_roffs_ok(1) [OF j c r s] order_refl])
    with cb(5) show "?cro ! ?k + int (length ?y) \<le> int (length ?m0)" unfolding len_y by simp
  qed
  have out: "out_col j False c r = Strings (replicate (Suc (nrecv j r)) 0) ?m0"
    using s by (simp add: out_col_def out_bytes_def Let_def)
  have z: "recv_sizes0 j c r = ?z0" using s by (simp add: recv_sizes0_def narrow_nrecv(1) [OF j r])
  have inp: "input_table (communicator_of j True r) ! c = Strings ?offs ?cs"
    using c eq by (simp add: communicator_of_def)
  show ?thesis
    unfolding copy_column_def out inp z using at c read1 write1 read2 write2 s
    by (simp add: communicator_of_def out_col_def out_bytes_def out_sizes_def Let_def del: column.collapse)
qed

end
