(* ===== verification/Table_Delivery.thy ===== *)
theory Table_Delivery
  imports Table_Comm_Correct
begin

text \<open>
  The all-to-all of a table, end to end: the constructor, the allocation with or without
  the explicit copy, the communication, and the rows of the communicated table.
\<close>

section \<open>Allocation\<close>

definition ready_communicator :: "'d job \<Rightarrow> bool \<Rightarrow> rank \<Rightarrow> 'd a2a_communicator" where
  "ready_communicator j explicit_copy r =
     (communicator_of j explicit_copy r)
       \<lparr>string_sizes_received := map (\<lambda>c. out_sizes j explicit_copy c r) [0..<jncols j]\<rparr>"

lemma allocate_communicated_table_ok:
  assumes j: "job_ok j" and r: "r < jranks j"
  shows "allocate_communicated_table (jenv j) (communicator_of j explicit_copy r) =
     Inr (map (\<lambda>c. out_col j explicit_copy c r) [0..<jncols j], ready_communicator j explicit_copy r)"
proof -
  let ?cm = "communicator_of j explicit_copy r"
  have alloc: "allocate_communicated_table_helper (jenv j) (input_table ?cm) (row_recv_offsets ?cm) (string_recv_offsets ?cm) =
      Inr (map (\<lambda>c. out_col j False c r) [0..<jncols j])"
    unfolding allocate_communicated_table_helper_def
    by (simp add: communicator_of_def emap_Inr_iff list_all2_conv_all_nth allocate_column_ok [OF j _ r])
  show ?thesis
  proof (cases explicit_copy)
    case True
    have "emap (\<lambda>c. copy_column (jenv j) ?cm (get_local_idx (cm_group ?cm)) c (map (\<lambda>c. out_col j False c r) [0..<jncols j] ! c)
        (string_sizes_received ?cm ! c)) [0..<length (input_table ?cm)] =
        Inr (map (\<lambda>c. (out_col j True c r, out_sizes j True c r)) [0..<jncols j])"
    proof -
      have fields: "cm_group ?cm = jgroup j r" "length (input_table ?cm) = jncols j"
        "string_sizes_received ?cm = map (\<lambda>c. recv_sizes0 j c r) [0..<jncols j]"
        by (simp_all add: communicator_of_def)
      have "copy_column (jenv j) ?cm (own_idx j r) c (out_col j False c r) (recv_sizes0 j c r) =
          Inr (out_col j True c r, out_sizes j True c r)" if "c < jncols j" for c
        using copy_column_fixed [OF j that r] copy_column_strings [OF j that r] True by (cases "is_Strings (jcol j c r)") simp_all
      then show ?thesis by (simp add: fields emap_Inr_iff list_all2_conv_all_nth)
    qed
    then show ?thesis
      using True alloc
      by (simp add: allocate_communicated_table_def copy_table_to_current_rank_def Let_def comp_def ready_communicator_def)
        (simp add: communicator_of_def)
  next
    case False
    have "map (\<lambda>c. recv_sizes0 j c r) [0..<jncols j] = map (\<lambda>c. out_sizes j False c r) [0..<jncols j]"
      by (simp add: recv_sizes0_def out_sizes_def narrow_nrecv(1) [OF j r])
    with False alloc show ?thesis
      by (simp add: allocate_communicated_table_def ready_communicator_def) (simp add: communicator_of_def)
  qed
qed

section \<open>The buffers of the communication\<close>

text \<open>
  A plan is a buffer on every rank, with the data type and compression method all jranks
  agree on.
\<close>

type_synonym 'd plan = "'d \<times> compression_method \<times> (rank \<Rightarrow> 'd a2a_buffer)"

definition plan_fixed :: "'d job \<Rightarrow> bool \<Rightarrow> nat \<Rightarrow> 'd plan" where
  "plan_fixed j explicit_copy c =
     (let d = dtype (jcol j c 0); opt = jopts j ! c in
      (d, compression_method opt,
       \<lambda>r. AllToAllCommBuffer (head (jcol j c r)) (out_bytes j explicit_copy c r) (soff j r) (row_roffs j r)
             d (compression_method opt) (cascaded_format opt)))"

definition plan_sizes :: "'d job \<Rightarrow> bool \<Rightarrow> nat \<Rightarrow> 'd plan" where
  "plan_sizes j explicit_copy c =
     (let d = offset_dtype (jenv j); opt = children_compression_options (jopts j ! c) ! 0 in
      (d, compression_method opt,
       \<lambda>r. AllToAllCommBuffer (enc32s (sent_sizes j c r)) (enc32s (out_sizes j explicit_copy c r)) (soff j r)
             (row_roffs j r) d (compression_method opt) (cascaded_format opt)))"

definition plan_chars :: "'d job \<Rightarrow> bool \<Rightarrow> nat \<Rightarrow> 'd plan" where
  "plan_chars j explicit_copy c =
     (let d = char_dtype (jenv j); opt = children_compression_options (jopts j ! c) ! 1 in
      (d, compression_method opt,
       \<lambda>r. AllToAllCommBuffer (chars (jcol j c r)) (out_bytes j explicit_copy c r) (map sint (char_soffs j c r))
             (char_roffs j c r) d (compression_method opt) (cascaded_format opt)))"

definition column_plans :: "'d job \<Rightarrow> bool \<Rightarrow> nat \<Rightarrow> 'd plan list" where
  "column_plans j explicit_copy c =
     (if is_Strings (jcol j c 0) then [plan_sizes j explicit_copy c, plan_chars j explicit_copy c]
      else [plan_fixed j explicit_copy c])"

definition job_plans :: "'d job \<Rightarrow> bool \<Rightarrow> 'd plan list" where
  "job_plans j explicit_copy = concat (map (column_plans j explicit_copy) [0..<jncols j])"

abbreviation plan_buf :: "'d plan \<Rightarrow> rank \<Rightarrow> 'd a2a_buffer" where "plan_buf p \<equiv> snd (snd p)"

lemma column_buffers_ok:
  assumes j: "job_ok j" and c: "c < jncols j" and r: "r < jranks j"
  shows "column_buffers (jenv j) (ready_communicator j explicit_copy r) c (out_col j explicit_copy c r) =
     Inr (map (\<lambda>p. plan_buf p r) (column_plans j explicit_copy c))"
proof (cases "is_Strings (jcol j c r)")
  case False
  then obtain d bs where eq: "jcol j c r = FixedWidth d bs" by (cases "jcol j c r") auto
  have d: "dtype (jcol j c 0) = d" and "\<not> is_Strings (jcol j c 0)"
    using job_col(2) [OF j c r] eq by (cases "jcol j c 0"; simp)+
  then show ?thesis
    using eq c job_okD(4) [OF j]
    by (simp add: column_buffers_def ready_communicator_def communicator_of_def column_plans_def plan_fixed_def
        out_col_def Let_def)
next
  case True
  then obtain offs cs where eq: "jcol j c r = Strings offs cs" by (cases "jcol j c r") auto
  have "is_Strings (jcol j c 0)" using job_kind [OF j c r job_okD(3) [OF j]] True by simp
  moreover obtain o0 o1 where "children_compression_options (jopts j ! c) = [o0, o1]"
    using job_col(3) [OF j c r] eq by auto
  ultimately show ?thesis
    using eq c job_okD(4) [OF j]
    by (simp add: column_buffers_def ready_communicator_def communicator_of_def column_plans_def plan_sizes_def
        plan_chars_def out_col_def Let_def)
qed

lemma append_buffers_ok:
  assumes j: "job_ok j" and r: "r < jranks j"
  shows "append_to_all_to_all_comm_buffers (jenv j) (ready_communicator j explicit_copy r)
      (map (\<lambda>c. out_col j explicit_copy c r) [0..<jncols j]) [] =
     Inr (map (\<lambda>p. plan_buf p r) (job_plans j explicit_copy))"
proof -
  have "length (input_table (ready_communicator j explicit_copy r)) = jncols j"
    by (simp add: ready_communicator_def communicator_of_def)
  moreover have "emap (\<lambda>c. column_buffers (jenv j) (ready_communicator j explicit_copy r) c
      (map (\<lambda>c. out_col j explicit_copy c r) [0..<jncols j] ! c)) [0..<jncols j] =
      Inr (map (\<lambda>c. map (\<lambda>p. plan_buf p r) (column_plans j explicit_copy c)) [0..<jncols j])"
    by (rule emap_Inr) (simp add: column_buffers_ok [OF j _ r])
  ultimately show ?thesis
    by (simp add: append_to_all_to_all_comm_buffers_def job_plans_def map_concat comp_def)
qed

text \<open>The own partition fits where it is copied, and is found there.\<close>

lemma own_fixed_fits:
  assumes j: "job_ok j" and c: "c < jncols j" and r: "r < jranks j" and f: "\<not> is_Strings (jcol j c r)"
  defines "w \<equiv> size_of (jenv j) (dtype (jcol j c r))"
  defines "x \<equiv> seg (head (jcol j c r)) (soff j r) w (own_idx j r)"
  shows "0 \<le> row_roffs j r ! own_idx j r * int w"
    and "row_roffs j r ! own_idx j r * int w + int (length x) = row_roffs j r ! Suc (own_idx j r) * int w"
    and "row_roffs j r ! Suc (own_idx j r) * int w \<le> int (nrecv j r * w)"
proof -
  let ?k = "own_idx j r" and ?so = "soff j r" and ?ro = "row_roffs j r"
  note sb = own_send_bounds [OF j r] and rb = own_recv_bounds [OF j r]
  show "0 \<le> ?ro ! ?k * int w" using rb by simp
  show "?ro ! Suc ?k * int w \<le> int (nrecv j r * w)" using rb by (simp add: mult_right_mono)
  have "?so ! ?k * int w \<le> ?so ! Suc ?k * int w" "?so ! Suc ?k * int w \<le> int (jnrows j r) * int w"
    "0 \<le> ?so ! ?k * int w"
    using sb by (simp_all add: mult_right_mono)
  then have "int (length x) = ?so ! Suc ?k * int w - ?so ! ?k * int w"
    using fixed_length [OF j c r f] unfolding x_def seg_def by (simp add: length_subrange w_def)
  then have "int (length x) = ?ro ! Suc ?k * int w - ?ro ! ?k * int w"
    using own_diff [OF j r] by (simp flip: left_diff_distrib)
  then show "?ro ! ?k * int w + int (length x) = ?ro ! Suc ?k * int w" by simp
qed

lemma own_sizes_fits:
  assumes j: "job_ok j" and c: "c < jncols j" and r: "r < jranks j" and s: "is_Strings (jcol j c r)"
  defines "x \<equiv> subrange (sent_sizes j c r) (soff j r ! own_idx j r) (soff j r ! Suc (own_idx j r))"
  shows "row_roffs j r ! own_idx j r + int (length x) = row_roffs j r ! Suc (own_idx j r)"
  using own_send_bounds [OF j r] own_diff [OF j r] length_sent_sizes [OF s]
  by (simp add: x_def length_subrange)

lemma own_chars_fits:
  assumes j: "job_ok j" and c: "c < jncols j" and r: "r < jranks j" and s: "is_Strings (jcol j c r)"
  defines "x \<equiv> seg (chars (jcol j c r)) (map sint (char_soffs j c r)) 1 (own_idx j r)"
  shows "char_roffs j c r ! own_idx j r + int (length x) = char_roffs j c r ! Suc (own_idx j r)"
    and "char_roffs j c r ! Suc (own_idx j r) \<le> int (nat (char_roffs j c r ! gsize j))"
  using own_char_bounds [OF j c r s] own_char_diff [OF j r s]
  by (simp_all add: x_def seg_def length_subrange)

lemma length_out_bytes_fixed:
  assumes j: "job_ok j" and c: "c < jncols j" and r: "r < jranks j" and f: "\<not> is_Strings (jcol j c r)"
  shows "length (out_bytes j explicit_copy c r) = nrecv j r * size_of (jenv j) (dtype (jcol j c r))"
  using own_fixed_fits [OF assms] f by (simp add: out_bytes_def Let_def length_put)

lemma length_out_bytes_chars:
  assumes j: "job_ok j" and c: "c < jncols j" and r: "r < jranks j" and s: "is_Strings (jcol j c r)"
  shows "int (length (out_bytes j explicit_copy c r)) = char_roffs j c r ! gsize j"
proof -
  have "0 \<le> char_roffs j c r ! gsize j" by (rule offsets_ok_nonneg [OF char_roffs_ok(1) [OF assms] order_refl])
  then show ?thesis
    using own_chars_fits [OF assms] own_char_bounds(4) [OF assms] s
    by (simp add: out_bytes_def Let_def length_put)
qed

lemma length_out_sizes:
  assumes j: "job_ok j" and c: "c < jncols j" and r: "r < jranks j" and s: "is_Strings (jcol j c r)"
  shows "length (out_sizes j explicit_copy c r) = nrecv j r"
  using own_sizes_fits [OF assms] own_recv_bounds [OF j r] s
  by (simp add: out_sizes_def length_put)

lemma own_fixed_found:
  assumes j: "job_ok j" and c: "c < jncols j" and r: "r < jranks j" and f: "\<not> is_Strings (jcol j c r)"
  shows "seg (out_bytes j True c r) (row_roffs j r) (size_of (jenv j) (dtype (jcol j c r))) (own_idx j r) =
    seg (head (jcol j c r)) (soff j r) (size_of (jenv j) (dtype (jcol j c r))) (own_idx j r)"
proof -
  let ?w = "size_of (jenv j) (dtype (jcol j c r))" and ?k = "own_idx j r" and ?ro = "row_roffs j r"
  let ?x = "seg (head (jcol j c r)) (soff j r) ?w ?k"
  note fits = own_fixed_fits [OF assms]
  have "seg (out_bytes j True c r) ?ro ?w ?k =
      subrange (put (replicate (nrecv j r * ?w) 0) (?ro ! ?k * int ?w) ?x) (?ro ! ?k * int ?w) (?ro ! ?k * int ?w + int (length ?x))"
    unfolding fits(2) using f by (simp add: seg_def out_bytes_def Let_def)
  also have "\<dots> = ?x"
    using fits(3) unfolding fits(2) [symmetric] by (intro subrange_put fits(1)) simp
  finally show ?thesis .
qed

lemma own_chars_found:
  assumes j: "job_ok j" and c: "c < jncols j" and r: "r < jranks j" and s: "is_Strings (jcol j c r)"
  shows "seg (out_bytes j True c r) (char_roffs j c r) 1 (own_idx j r) =
    seg (chars (jcol j c r)) (map sint (char_soffs j c r)) 1 (own_idx j r)"
proof -
  let ?k = "own_idx j r" and ?ro = "char_roffs j c r"
  let ?x = "seg (chars (jcol j c r)) (map sint (char_soffs j c r)) 1 ?k"
  note fits = own_chars_fits [OF assms]
  have "seg (out_bytes j True c r) ?ro 1 ?k =
      subrange (put (replicate (nat (?ro ! gsize j)) 0) (?ro ! ?k) ?x) (?ro ! ?k) (?ro ! ?k + int (length ?x))"
    unfolding fits(1) using s by (simp add: seg_def out_bytes_def Let_def)
  also have "\<dots> = ?x"
    using fits(2) unfolding fits(1) [symmetric]
    by (intro subrange_put own_char_bounds(4) [OF assms]) simp
  finally show ?thesis .
qed

lemma own_sizes_found:
  assumes j: "job_ok j" and c: "c < jncols j" and r: "r < jranks j" and s: "is_Strings (jcol j c r)"
  shows "seg (enc32s (out_sizes j True c r)) (row_roffs j r) 4 (own_idx j r) =
    seg (enc32s (sent_sizes j c r)) (soff j r) 4 (own_idx j r)"
proof -
  let ?k = "own_idx j r" and ?ro = "row_roffs j r" and ?so = "soff j r"
  let ?x = "subrange (sent_sizes j c r) (?so ! ?k) (?so ! Suc ?k)"
  note fits = own_sizes_fits [OF assms] and rb = own_recv_bounds [OF j r] and sb = own_send_bounds [OF j r]
  have mono: "?ro ! ?k \<le> ?ro ! Suc ?k" using own_diff [OF j r] sb(2) by simp
  have "seg (enc32s (out_sizes j True c r)) ?ro 4 ?k = enc32s (subrange (out_sizes j True c r) (?ro ! ?k) (?ro ! Suc ?k))"
    unfolding seg_def using subrange_enc32s [OF rb(1) mono] by simp
  also have "subrange (out_sizes j True c r) (?ro ! ?k) (?ro ! Suc ?k) =
      subrange (put (replicate (nrecv j r) 0) (?ro ! ?k) ?x) (?ro ! ?k) (?ro ! ?k + int (length ?x))"
    unfolding fits using s by (simp add: out_sizes_def)
  also have "\<dots> = ?x" using rb(2) unfolding fits [symmetric] by (intro subrange_put rb(1)) simp
  also have "enc32s ?x = seg (enc32s (sent_sizes j c r)) ?so 4 ?k"
    unfolding seg_def using subrange_enc32s [OF sb(1,2)] by simp
  finally show ?thesis .
qed

section \<open>Every plan is ready\<close>

abbreviation ready :: "'d job \<Rightarrow> 'd plan \<Rightarrow> bool" where
  "ready j p \<equiv> buffer_ready (jenv j) (jranks j) (jgrid j) (jstride j) (fst p) (fst (snd p)) (plan_buf p)"

definition rank_ready ::
  "'d cudf \<Rightarrow> nat \<Rightarrow> nat \<Rightarrow> nat \<Rightarrow> 'd \<Rightarrow> compression_method \<Rightarrow> (rank \<Rightarrow> 'd a2a_buffer) \<Rightarrow> rank \<Rightarrow> bool" where
  "rank_ready env N grid st d m c r \<longleftrightarrow> buf_dtype (c r) = d \<and> buf_method (c r) = m \<and>
     offsets_ok (grid div st) (send_offsets (c r)) \<and> send_offsets (c r) ! (grid div st) < 2 ^ 31 \<and>
     send_offsets (c r) ! (grid div st) * int (size_of env d) \<le> int (length (send_buffer (c r))) \<and>
     recv_offsets (c r) = recv_offsets_spec grid st (map (\<lambda>s. send_offsets (c s)) [0..<N]) r \<and>
     int (length (recv_buffer (c r))) = recv_offsets (c r) ! (grid div st) * int (size_of env d)"

lemma buffer_readyI:
  "(\<And>r. r < N \<Longrightarrow> rank_ready env N grid st d m c r) \<Longrightarrow> sendable env d m \<Longrightarrow> buffer_ready env N grid st d m c"
  unfolding buffer_ready_def rank_ready_def by blast

lemma nrecv_int: "job_ok j \<Longrightarrow> r < jranks j \<Longrightarrow> int (nrecv j r) = row_roffs j r ! gsize j"
  using offsets_ok_nonneg [OF row_roffs_ok(1) order_refl] by (simp add: nrecv_def)

lemma plan_fixed_ready:
  assumes j: "job_ok j" and c: "c < jncols j" and f: "\<not> is_Strings (jcol j c 0)"
  shows "ready j (plan_fixed j explicit_copy c)"
proof -
  let ?d = "dtype (jcol j c 0)"
  have jcol: "\<not> is_Strings (jcol j c r)" "dtype (jcol j c r) = ?d" "sendable (jenv j) ?d (compression_method (jopts j ! c))"
    if r: "r < jranks j" for r
  proof -
    show fr: "\<not> is_Strings (jcol j c r)" using job_kind [OF j c r job_okD(3) [OF j]] f by simp
    show d: "dtype (jcol j c r) = ?d"
      using job_col(2) [OF j c r] f fr by (cases "jcol j c r"; cases "jcol j c 0") simp_all
    show "sendable (jenv j) ?d (compression_method (jopts j ! c))"
      using job_col(3) [OF j c r] fr d by (cases "jcol j c r") simp_all
  qed
  show ?thesis
  proof (rule buffer_readyI)
    fix r assume r: "r < jranks j"
    have "soff j r ! gsize j * int (size_of (jenv j) ?d) \<le> int (length (head (jcol j c r)))"
      using fixed_length [OF j c r jcol(1) [OF r]] job_rank(2,5) [OF j r] jcol(2) [OF r]
      by (simp add: mult_right_mono)
    with job_rank(1,5) [OF j r] jcol(2) [OF r] sint_less32 [of "last (jsoffs j r)"] nrecv_int [OF j r]
      length_out_bytes_fixed [OF j c r jcol(1) [OF r], of explicit_copy]
    show "rank_ready (jenv j) (jranks j) (jgrid j) (jstride j) (fst (plan_fixed j explicit_copy c))
        (fst (snd (plan_fixed j explicit_copy c))) (plan_buf (plan_fixed j explicit_copy c)) r"
      by (simp add: plan_fixed_def Let_def rank_ready_def AllToAllCommBuffer_def row_roffs_def)
  qed (use jcol(3) [OF job_okD(3) [OF j]] in \<open>simp add: plan_fixed_def Let_def\<close>)
qed

lemma plan_sizes_ready:
  assumes j: "job_ok j" and c: "c < jncols j" and s0: "is_Strings (jcol j c 0)"
  shows "ready j (plan_sizes j explicit_copy c)"
proof -
  have s: "is_Strings (jcol j c r)" if r: "r < jranks j" for r
    using job_kind [OF j c r job_okD(3) [OF j]] s0 by simp
  show ?thesis
  proof (rule buffer_readyI)
    fix r assume r: "r < jranks j"
    have "0 \<le> sint (last (jsoffs j r))"
      using offsets_ok_nonneg [OF job_rank(1) [OF j r] order_refl] job_rank(5) [OF j r] by simp
    with job_rank(1,5) [OF j r] sint_less32 [of "last (jsoffs j r)"] nrecv_int [OF j r]
      length_out_sizes [OF j c r s [OF r], of explicit_copy] length_sent_sizes [OF s [OF r]] job_okD(1) [OF j]
    show "rank_ready (jenv j) (jranks j) (jgrid j) (jstride j) (fst (plan_sizes j explicit_copy c))
        (fst (snd (plan_sizes j explicit_copy c))) (plan_buf (plan_sizes j explicit_copy c)) r"
      by (simp add: plan_sizes_def Let_def rank_ready_def AllToAllCommBuffer_def row_roffs_def)
  next
    show "sendable (jenv j) (fst (plan_sizes j explicit_copy c)) (fst (snd (plan_sizes j explicit_copy c)))"
      using job_col(3) [OF j c job_okD(3) [OF j]] s0 by (cases "jcol j c 0") (auto simp: plan_sizes_def Let_def)
  qed
qed

lemma plan_chars_ready:
  assumes j: "job_ok j" and c: "c < jncols j" and s0: "is_Strings (jcol j c 0)"
  shows "ready j (plan_chars j explicit_copy c)"
proof -
  have s: "is_Strings (jcol j c r)" if r: "r < jranks j" for r
    using job_kind [OF j c r job_okD(3) [OF j]] s0 by simp
  show ?thesis
  proof (rule buffer_readyI)
    fix r assume r: "r < jranks j"
    note so = char_soffs_ok [OF j c r s [OF r]]
    have "map sint (char_soffs j c r) ! gsize j = sint (last (char_soffs j c r))"
      using offsets_ok_last [OF so(1)] so(3) by (cases "char_soffs j c r = []") (auto simp: last_map)
    with so(1,2) sint_less32 [of "last (char_soffs j c r)"] s [OF r]
      length_out_bytes_chars [OF j c r s [OF r], of explicit_copy] job_okD(1) [OF j]
    show "rank_ready (jenv j) (jranks j) (jgrid j) (jstride j) (fst (plan_chars j explicit_copy c))
        (fst (snd (plan_chars j explicit_copy c))) (plan_buf (plan_chars j explicit_copy c)) r"
      by (simp add: plan_chars_def Let_def rank_ready_def AllToAllCommBuffer_def char_roffs_def)
  next
    show "sendable (jenv j) (fst (plan_chars j explicit_copy c)) (fst (snd (plan_chars j explicit_copy c)))"
      using job_col(3) [OF j c job_okD(3) [OF j]] s0 by (cases "jcol j c 0") (auto simp: plan_chars_def Let_def)
  qed
qed

lemma job_plans_ready:
  assumes j: "job_ok j" and p: "p \<in> set (job_plans j explicit_copy)"
  shows "ready j p"
proof -
  from p obtain c where "c < jncols j" "p \<in> set (column_plans j explicit_copy c)"
    by (auto simp: job_plans_def)
  then show ?thesis
    using plan_fixed_ready [OF j] plan_sizes_ready [OF j] plan_chars_ready [OF j]
    by (auto simp: column_plans_def split: if_splits)
qed

text \<open>What arrives, own partition included.\<close>

definition gathered :: "'d cudf \<Rightarrow> nat \<Rightarrow> nat \<Rightarrow> (rank \<Rightarrow> 'd a2a_buffer) \<Rightarrow> rank \<Rightarrow> byte list" where
  "gathered env grid st f r =
     (let g = comm_group_at grid st r in
      concat (map (\<lambda>s. seg (send_buffer (f s)) (send_offsets (f s)) (size_of env (buf_dtype (f s))) (get_local_idx g))
                (members g)))"

lemma delivered_gathered:
  assumes "\<not> incl \<Longrightarrow>
    seg (recv_buffer (f r)) (recv_offsets (f r)) (size_of env (buf_dtype (f r))) (get_local_idx (comm_group_at grid st r)) =
    seg (send_buffer (f r)) (send_offsets (f r)) (size_of env (buf_dtype (f r))) (get_local_idx (comm_group_at grid st r))"
  shows "delivered env grid st incl f r = gathered env grid st f r"
  using assms by (auto simp: delivered_def gathered_def Let_def intro!: arg_cong [where f = concat])

abbreviation arrives :: "'d job \<Rightarrow> bool \<Rightarrow> 'd plan \<Rightarrow> rank \<Rightarrow> byte list" where
  "arrives j explicit_copy p r \<equiv> delivered (jenv j) (jgrid j) (jstride j) (\<not> explicit_copy) (plan_buf p) r"

lemma plan_fixed_arrives:
  assumes j: "job_ok j" and c: "c < jncols j" and r: "r < jranks j" and f: "\<not> is_Strings (jcol j c 0)"
  shows "arrives j explicit_copy (plan_fixed j explicit_copy c) r =
    concat (map (\<lambda>s. seg (head (jcol j c s)) (soff j s) (size_of (jenv j) (dtype (jcol j c 0))) (own_idx j r))
      (members (jgroup j r)))"
proof -
  have fr: "\<not> is_Strings (jcol j c r)" using job_kind [OF j c r job_okD(3) [OF j]] f by simp
  have d: "dtype (jcol j c r) = dtype (jcol j c 0)"
    using job_col(2) [OF j c r] f fr by (cases "jcol j c r"; cases "jcol j c 0") simp_all
  have "arrives j explicit_copy (plan_fixed j explicit_copy c) r =
      gathered (jenv j) (jgrid j) (jstride j) (plan_buf (plan_fixed j explicit_copy c)) r"
    by (rule delivered_gathered)
      (use own_fixed_found [OF j c r fr] d in \<open>simp add: plan_fixed_def Let_def AllToAllCommBuffer_def\<close>)
  then show ?thesis by (simp add: gathered_def plan_fixed_def Let_def AllToAllCommBuffer_def)
qed

lemma plan_sizes_arrives:
  assumes j: "job_ok j" and c: "c < jncols j" and r: "r < jranks j" and s: "is_Strings (jcol j c 0)"
  shows "arrives j explicit_copy (plan_sizes j explicit_copy c) r =
    concat (map (\<lambda>s. seg (enc32s (sent_sizes j c s)) (soff j s) 4 (own_idx j r)) (members (jgroup j r)))"
proof -
  have sr: "is_Strings (jcol j c r)" using job_kind [OF j c r job_okD(3) [OF j]] s by simp
  have "arrives j explicit_copy (plan_sizes j explicit_copy c) r =
      gathered (jenv j) (jgrid j) (jstride j) (plan_buf (plan_sizes j explicit_copy c)) r"
    by (rule delivered_gathered)
      (use own_sizes_found [OF j c r sr] job_okD(1) [OF j] in \<open>simp add: plan_sizes_def Let_def AllToAllCommBuffer_def\<close>)
  then show ?thesis using job_okD(1) [OF j] by (simp add: gathered_def plan_sizes_def Let_def AllToAllCommBuffer_def)
qed

lemma plan_chars_arrives:
  assumes j: "job_ok j" and c: "c < jncols j" and r: "r < jranks j" and s: "is_Strings (jcol j c 0)"
  shows "arrives j explicit_copy (plan_chars j explicit_copy c) r =
    concat (map (\<lambda>s. seg (chars (jcol j c s)) (map sint (char_soffs j c s)) 1 (own_idx j r)) (members (jgroup j r)))"
proof -
  have sr: "is_Strings (jcol j c r)" using job_kind [OF j c r job_okD(3) [OF j]] s by simp
  have "arrives j explicit_copy (plan_chars j explicit_copy c) r =
      gathered (jenv j) (jgrid j) (jstride j) (plan_buf (plan_chars j explicit_copy c)) r"
    by (rule delivered_gathered)
      (use own_chars_found [OF j c r sr] job_okD(1) [OF j] in \<open>simp add: plan_chars_def Let_def AllToAllCommBuffer_def\<close>)
  then show ?thesis using job_okD(1) [OF j] by (simp add: gathered_def plan_chars_def Let_def AllToAllCommBuffer_def)
qed

section \<open>Launching\<close>

text \<open>The columns after the communication.\<close>

definition received_sizes :: "'d job \<Rightarrow> nat \<Rightarrow> rank \<Rightarrow> 32 word list" where
  "received_sizes j c r = concat (map (\<lambda>s. row_sizes (offsets (jcol j c s))
     (nat (soff j s ! own_idx j r)) (nat (soff j s ! Suc (own_idx j r)))) (members (jgroup j r)))"

definition received_bytes :: "'d job \<Rightarrow> nat \<Rightarrow> rank \<Rightarrow> byte list" where
  "received_bytes j c r = concat (map (\<lambda>s.
     if is_Strings (jcol j c 0) then seg (chars (jcol j c s)) (map sint (char_soffs j c s)) 1 (own_idx j r)
     else seg (head (jcol j c s)) (soff j s) (size_of (jenv j) (dtype (jcol j c 0))) (own_idx j r))
     (members (jgroup j r)))"

definition final_col :: "'d job \<Rightarrow> nat \<Rightarrow> rank \<Rightarrow> 'd column" where
  "final_col j c r =
     (if is_Strings (jcol j c 0) then Strings (0 # partial_sum 0 (received_sizes j c r)) (received_bytes j c r)
      else FixedWidth (dtype (jcol j c 0)) (received_bytes j c r))"

lemma jmember:
  assumes j: "job_ok j" and r: "r < jranks j" and s: "s \<in> set (members (jgroup j r))"
  shows "s < jranks j" by (rule members_less [OF job_okD(2) [OF j] r s])

lemma send_bounds:
  assumes j: "job_ok j" and s: "s < jranks j" and k: "k < gsize j"
  shows "0 \<le> soff j s ! k" "soff j s ! k \<le> soff j s ! Suc k" "soff j s ! Suc k \<le> sint (last (jsoffs j s))"
    "nat (soff j s ! Suc k) \<le> jnrows j s"
proof -
  note rank = job_rank [OF j s]
  show "0 \<le> soff j s ! k" "soff j s ! k \<le> soff j s ! Suc k"
    using k by (auto intro: offsets_ok_nonneg [OF rank(1)] offsets_ok_mono [OF rank(1)])
  show "soff j s ! Suc k \<le> sint (last (jsoffs j s))"
    using k rank(5) offsets_ok_mono [OF rank(1), of "Suc k" "gsize j"] by simp
  with rank(2) show "nat (soff j s ! Suc k) \<le> jnrows j s" by simp
qed

lemma plan_sizes_received:
  assumes j: "job_ok j" and c: "c < jncols j" and r: "r < jranks j" and s: "is_Strings (jcol j c 0)"
  shows "arrives j explicit_copy (plan_sizes j explicit_copy c) r = enc32s (received_sizes j c r)"
proof -
  let ?k = "own_idx j r"
  have "seg (enc32s (sent_sizes j c s)) (soff j s) 4 ?k =
      enc32s (row_sizes (offsets (jcol j c s)) (nat (soff j s ! ?k)) (nat (soff j s ! Suc ?k)))"
    if "s \<in> set (members (jgroup j r))" for s
  proof -
    have sN: "s < jranks j" by (rule jmember [OF j r that])
    then have "is_Strings (jcol j c s)" using job_kind [OF j c sN job_okD(3) [OF j]] \<open>is_Strings (jcol j c 0)\<close> by simp
    moreover note b = send_bounds [OF j sN own_idx_less [OF j, of r]]
    ultimately show ?thesis
      using subrange_row_sizes [of "nat (soff j s ! ?k)" "nat (soff j s ! Suc ?k)" "nat (sint (last (jsoffs j s)))"
          "offsets (jcol j c s)"]
      unfolding seg_def by (simp add: subrange_enc32s [OF b(1,2), simplified] sent_sizes_def nat_mono)
  qed
  then show ?thesis
    unfolding plan_sizes_arrives [OF assms] received_sizes_def enc32s_concat map_map comp_def
    by (intro arg_cong [where f = concat] map_cong) simp_all
qed

lemma store_columns_ok:
  assumes j: "job_ok j" and r: "r < jranks j" and "\<forall>c \<in> set cs. c < jncols j"
    and fb: "\<And>p. recv_buffer (fb p) = arrives j explicit_copy p r"
  shows "store_columns (map (\<lambda>c. out_col j explicit_copy c r) cs)
      (map fb (concat (map (column_plans j explicit_copy) cs))) =
     (map (\<lambda>c. if is_Strings (jcol j c 0) then Strings (replicate (Suc (nrecv j r)) 0) (received_bytes j c r)
               else FixedWidth (dtype (jcol j c 0)) (received_bytes j c r)) cs,
      map (\<lambda>c. if is_Strings (jcol j c 0) then received_sizes j c r else []) cs)"
  using assms(3)
proof (induction cs)
  case Nil
  show ?case by simp
next
  case (Cons c cs)
  then have c: "c < jncols j" by simp
  note kind = job_kind [OF j c r job_okD(3) [OF j]]
  show ?case
  proof (cases "is_Strings (jcol j c 0)")
    case True
    then show ?thesis
      using Cons kind plan_sizes_received [OF j c r True] plan_chars_arrives [OF j c r True]
      by (simp add: column_plans_def out_col_def fb received_bytes_def)
  next
    case False
    moreover have "dtype (jcol j c r) = dtype (jcol j c 0)"
      using job_col(2) [OF j c r] False kind by (cases "jcol j c r"; cases "jcol j c 0") simp_all
    ultimately show ?thesis
      using Cons kind plan_fixed_arrives [OF j c r False]
      by (simp add: column_plans_def out_col_def fb received_bytes_def)
  qed
qed

lemma row_roffs_sum:
  assumes j: "job_ok j" and r: "r < jranks j"
  shows "row_roffs j r ! gsize j =
    sum_list (map (\<lambda>s. soff j s ! Suc (own_idx j r) - soff j s ! own_idx j r) (members (jgroup j r)))"
proof -
  let ?xs = "map (sent_count (map (soff j) [0..<jranks j]) (own_idx j r)) (members (jgroup j r))"
  have "length ?xs = gsize j" by (simp add: members_def group_size_at)
  then have "row_roffs j r ! gsize j = sum_list ?xs"
    unfolding row_roffs_def recv_offsets_spec_def by (subst partial_sum_nth) simp_all
  also have "?xs = map (\<lambda>s. soff j s ! Suc (own_idx j r) - soff j s ! own_idx j r) (members (jgroup j r))"
    using jmember [OF j r] by (simp add: sent_count_def)
  finally show ?thesis .
qed

lemma length_received_sizes:
  assumes j: "job_ok j" and r: "r < jranks j"
  shows "length (received_sizes j c r) = nrecv j r"
proof -
  let ?k = "own_idx j r"
  have "int (length (received_sizes j c r)) =
      sum_list (map (\<lambda>s. int (nat (soff j s ! Suc ?k) - nat (soff j s ! ?k))) (members (jgroup j r)))"
    unfolding received_sizes_def int_length_concat by simp
  also have "\<dots> = row_roffs j r ! gsize j"
    unfolding row_roffs_sum [OF j r]
  proof (intro arg_cong [where f = sum_list] map_cong refl)
    fix s assume "s \<in> set (members (jgroup j r))"
    from send_bounds [OF j jmember [OF j r this] own_idx_less [OF j, of r]]
    show "int (nat (soff j s ! Suc ?k) - nat (soff j s ! ?k)) = soff j s ! Suc ?k - soff j s ! ?k" by simp
  qed
  finally show ?thesis using nrecv_int [OF j r] by simp
qed

lemma scan_ok:
  assumes j: "job_ok j" and r: "r < jranks j"
  shows "calculate_string_offsets_from_sizes
      (map (\<lambda>c. if is_Strings (jcol j c 0) then Strings (replicate (Suc (nrecv j r)) 0) (received_bytes j c r)
               else FixedWidth (dtype (jcol j c 0)) (received_bytes j c r)) [0..<jncols j])
      (map (\<lambda>c. if is_Strings (jcol j c 0) then received_sizes j c r else []) [0..<jncols j]) =
     Inr (map (\<lambda>c. final_col j c r) [0..<jncols j])"
proof -
  let ?sizes = "map (\<lambda>c. if is_Strings (jcol j c 0) then received_sizes j c r else []) [0..<jncols j]"
  have "scan_sizes ?sizes c (if is_Strings (jcol j c 0) then Strings (replicate (Suc (nrecv j r)) 0) (received_bytes j c r)
        else FixedWidth (dtype (jcol j c 0)) (received_bytes j c r)) = Inr (final_col j c r)"
    if "c < jncols j" for c
  proof (cases "is_Strings (jcol j c 0)")
    case True
    with that have "?sizes ! c = received_sizes j c r" by simp
    with True that length_received_sizes [OF j r, of c] show ?thesis
      by (simp only: if_True final_col_def) (subst scan_sizes_ok; simp)
  next
    case False
    then show ?thesis by (simp add: final_col_def)
  qed
  then show ?thesis
    unfolding calculate_string_offsets_from_sizes_def length_map length_upt diff_zero
    by (intro emap_Inr) (simp only: set_upt atLeastLessThan_iff nth_map length_upt nth_upt diff_zero add_0)
qed

text \<open>The element sizes of the messages of a job: those of its columns, 4 for sizes, 1 for chars.\<close>

definition job_sizes :: "'d job \<Rightarrow> nat set" where
  "job_sizes j = {1, 4} \<union> {size_of (jenv j) (dtype (jcol j c 0)) | c. c < jncols j \<and> \<not> is_Strings (jcol j c 0)}"

lemma plan_wire_size:
  assumes j: "job_ok j" and p: "p \<in> set (job_plans j explicit_copy)"
  shows "wire_size (jenv j) (fst p) (fst (snd p)) \<in> job_sizes j"
proof -
  from p obtain c where c: "c < jncols j" "p \<in> set (column_plans j explicit_copy c)"
    by (auto simp: job_plans_def)
  then show ?thesis
    using job_okD(1) [OF j]
    by (auto simp: column_plans_def wire_size_def job_sizes_def plan_fixed_def plan_sizes_def plan_chars_def Let_def
        split: if_splits)
qed

lemma launch_communication_ok:
  assumes nv: "nvcomp_ok nv" and mpi: "p2p_transport mpi (\<lambda>_. True) (jranks j) False" and tr: "p2p_transport exch okm (jranks j) multi"
    and j: "job_ok j" and okm: "okm_sizes okm (job_sizes j)"
    and multi: "group_by_batch \<longrightarrow> multi"
  shows "launch_communication nv (jenv j) mpi exch group_by_batch (jgrid j) (jstride j)
      (map (\<lambda>r. (map (\<lambda>c. out_col j explicit_copy c r) [0..<jncols j], ready_communicator j explicit_copy r)) [0..<jranks j]) =
     Inr (mat (jncols j) (jranks j) (final_col j))"
proof -
  let ?N = "jranks j" and ?env = "jenv j" and ?ps = "job_plans j explicit_copy" and ?C = "[0..<jncols j]"
  let ?out = "\<lambda>r. map (\<lambda>c. out_col j explicit_copy c r) ?C" and ?cm = "ready_communicator j explicit_copy"
  let ?w = "map (\<lambda>r. (?out r, ?cm r)) [0..<?N]"
  let ?F = "\<lambda>b. plan_buf (?ps ! b)"
  let ?fb = "\<lambda>r p. final_buffer nv ?env ?N (jgrid j) (jstride j) (\<not> explicit_copy) (plan_buf p) r"
  note jD = job_okD [OF j]
  have nth_ps: "map (\<lambda>b. f (?ps ! b)) [0..<length ?ps] = map f ?ps" for f :: "_ \<Rightarrow> _ a2a_buffer"
    by (rule nth_equalityI) simp_all
  have bufs: "emap (\<lambda>(t, cm). append_to_all_to_all_comm_buffers ?env cm t []) ?w = Inr (mat (length ?ps) ?N ?F)"
    by (simp add: emap_Inr_iff list_all2_conv_all_nth append_buffers_ok [OF j] nth_ps [of "\<lambda>p. plan_buf p _"])
  have incl: "(case ?w of [] \<Rightarrow> True | (t, cm) # _ \<Rightarrow> \<not> explicit_copy_to_current_rank cm) = (\<not> explicit_copy)"
    using jD(3) by (cases ?N) (simp_all add: upt_conv_Cons ready_communicator_def communicator_of_def del: upt_Suc)
  have "(\<lambda>b. wire_size ?env (fst (?ps ! b)) (fst (snd (?ps ! b)))) ` {..<length ?ps} \<subseteq> job_sizes j"
    using plan_wire_size [OF j nth_mem] by (auto simp del: split_paired_All)
  with okm have "okm_sizes okm ((\<lambda>b. wire_size ?env (fst (?ps ! b)) (fst (snd (?ps ! b)))) ` {..<length ?ps})"
    unfolding okm_sizes_def by blast
  moreover have "plans_ready ?env ?N (jgrid j) (jstride j) (length ?ps) (\<lambda>b. fst (?ps ! b)) (\<lambda>b. fst (snd (?ps ! b))) ?F"
    unfolding plans_ready_def by (intro allI impI job_plans_ready [OF j nth_mem])
  ultimately have comm: "communicate_buffers nv ?env mpi exch group_by_batch (jgrid j) (jstride j) (\<not> explicit_copy)
      (mat (length ?ps) ?N ?F) = Inr (mat (length ?ps) ?N (\<lambda>b r. ?fb r (?ps ! b)))"
    by (subst communicate_buffers_ok [OF nv jD(1,2) mpi tr _ _ jD(3) multi]) simp_all
  have "(case store_columns (?out r) (map (?fb r) ?ps) of (t', sizes) \<Rightarrow> calculate_string_offsets_from_sizes t' sizes) =
      Inr (map (\<lambda>c. final_col j c r) ?C)" if r: "r < ?N" for r
    using store_columns_ok [OF j r, of ?C "?fb r" explicit_copy] scan_ok [OF j r]
    by (simp add: job_plans_def)
  then have "emap (\<lambda>((t, cm), bs). case store_columns t bs of (t', sizes) \<Rightarrow> calculate_string_offsets_from_sizes t' sizes)
      (zip ?w (mat (length ?ps) ?N (\<lambda>b r. ?fb r (?ps ! b)))) = Inr (mat (jncols j) ?N (final_col j))"
    using nth_ps [of "?fb _"] by (simp add: emap_Inr_iff list_all2_conv_all_nth)
  with bufs comm show ?thesis
    unfolding launch_communication_def Let_def incl by simp
qed

end
