(* ===== verification/Table_Rows.thy ===== *)
theory Table_Rows
  imports Table_Delivery
begin

text \<open>
  The rows of a communicated table: rank \<open>r\<close> ends up with the rows that the members of
  its group keep for it, member after member, each in the member's order.
\<close>

text \<open>The origin of every received row: a rank and a row index there.\<close>

definition row_sources :: "'d job \<Rightarrow> rank \<Rightarrow> (rank \<times> nat) list" where
  "row_sources j r = concat (map (\<lambda>s. map (Pair s)
     [nat (soff j s ! own_idx j r)..<nat (soff j s ! Suc (own_idx j r))]) (members (jgroup j r)))"

lemma map_row_sources:
  "map (\<lambda>(s, i). f s i) (row_sources j r) = concat (map (\<lambda>s. map (f s)
     [nat (soff j s ! own_idx j r)..<nat (soff j s ! Suc (own_idx j r))]) (members (jgroup j r)))"
  by (simp add: row_sources_def map_concat comp_def)

lemma nrecv_sum:
  assumes j: "job_ok j" and r: "r < jranks j"
  shows "sum_list (map (\<lambda>s. nat (soff j s ! Suc (own_idx j r)) - nat (soff j s ! own_idx j r))
     (members (jgroup j r))) = nrecv j r"
  using length_received_sizes [OF assms] by (simp add: received_sizes_def length_concat comp_def)

lemma length_row_sources: "job_ok j \<Longrightarrow> r < jranks j \<Longrightarrow> length (row_sources j r) = nrecv j r"
  by (simp add: row_sources_def length_concat comp_def nrecv_sum)

lemma sint_nth_soffs:
  "job_ok j \<Longrightarrow> s < jranks j \<Longrightarrow> k \<le> gsize j \<Longrightarrow> soff j s ! k = sint (jsoffs j s ! k)"
  using job_rank(4) [of j s] by simp

lemma length_subrange_scaled:
  assumes "a \<le> b" and "b * w \<le> length m"
  shows "length (subrange m (int a * int w) (int b * int w)) = (b - a) * w"
proof -
  have "nat (int b * int w - int a * int w) = b * w - a * w" by (simp only: nat_minus_as_int of_nat_mult)
  moreover have "nat (int a * int w) = a * w" by (simp only: nat_int flip: of_nat_mult)
  ultimately show ?thesis using assms(2) by (simp add: subrange_def diff_mult_distrib)
qed

section \<open>Fixed-width columns\<close>

lemma final_fixed:
  assumes j: "job_ok j" and c: "c < jncols j" and r: "r < jranks j" and f: "\<not> is_Strings (jcol j c 0)"
  shows "column_ok (jenv j) (nrecv j r) (final_col j c r)"
    and "column_rows (jenv j) (nrecv j r) (final_col j c r) =
      map (\<lambda>(s, i). cell (jenv j) (jcol j c s) i) (row_sources j r)"
proof -
  let ?k = "own_idx j r" and ?d = "dtype (jcol j c 0)" and ?ms = "members (jgroup j r)"
  let ?w = "size_of (jenv j) ?d"
  let ?a = "\<lambda>s. nat (soff j s ! ?k)" and ?b = "\<lambda>s. nat (soff j s ! Suc ?k)"
  let ?x = "\<lambda>s. seg (head (jcol j c s)) (soff j s) ?w ?k"
  have final: "final_col j c r = FixedWidth ?d (concat (map ?x ?ms))"
    using f by (simp add: final_col_def received_bytes_def)
  have mem: "jcol j c s = FixedWidth ?d (head (jcol j c s))" "length (?x s) = (?b s - ?a s) * ?w"
    "?x s = subrange (head (jcol j c s)) (int (?a s) * int ?w) (int (?b s) * int ?w)" "?a s \<le> ?b s"
    if "s \<in> set ?ms" for s
  proof -
    have s: "s < jranks j" by (rule jmember [OF j r that])
    note b = send_bounds [OF j s own_idx_less [OF j, of r]]
    have fs: "\<not> is_Strings (jcol j c s)" using job_kind [OF j c s job_okD(3) [OF j]] f by simp
    then show eq: "jcol j c s = FixedWidth ?d (head (jcol j c s))"
      using job_col(2) [OF j c s] f by (cases "jcol j c s"; cases "jcol j c 0") simp_all
    show x: "?x s = subrange (head (jcol j c s)) (int (?a s) * int ?w) (int (?b s) * int ?w)"
      using b by (simp add: seg_def)
    show le: "?a s \<le> ?b s" using b by simp
    have "?b s * ?w \<le> length (head (jcol j c s))"
      using fixed_length [OF j c s fs] eq b(4) by (metis column.sel(1) mult_le_mono1)
    then show "length (?x s) = (?b s - ?a s) * ?w" unfolding x by (rule length_subrange_scaled [OF le])
  qed
  have "column_rows (jenv j) (nrecv j r) (final_col j c r) =
      concat (map (\<lambda>s. column_rows (jenv j) (?b s - ?a s) (FixedWidth ?d (?x s))) ?ms)"
    unfolding final nrecv_sum [OF j r, symmetric] by (rule column_rows_fixed_concat) (use mem in blast)
  also have "\<dots> = concat (map (\<lambda>s. slice_rows (jenv j) (jcol j c s) (?a s) (?b s)) ?ms)"
  proof (intro arg_cong [where f = concat] map_cong refl)
    fix s assume "s \<in> set ?ms"
    note m = mem [OF this]
    show "column_rows (jenv j) (?b s - ?a s) (FixedWidth ?d (?x s)) = slice_rows (jenv j) (jcol j c s) (?a s) (?b s)"
      by (subst m(1), subst m(3), rule slice_fixed [OF m(4), symmetric])
  qed
  finally show "column_rows (jenv j) (nrecv j r) (final_col j c r) =
      map (\<lambda>(s, i). cell (jenv j) (jcol j c s) i) (row_sources j r)"
    by (simp add: map_row_sources slice_rows_def)
  have "length (concat (map ?x ?ms)) = sum_list (map (\<lambda>s. (?b s - ?a s) * ?w) ?ms)"
    using mem(2) by (simp add: length_concat comp_def cong: map_cong)
  also have "\<dots> = nrecv j r * ?w"
    by (simp flip: nrecv_sum [OF j r] add: sum_list_mult_const)
  finally show "column_ok (jenv j) (nrecv j r) (final_col j c r)" by (simp add: final)
qed

section \<open>String columns\<close>

lemma char_piece:
  assumes j: "job_ok j" and c: "c < jncols j" and s: "s < jranks j" and st: "is_Strings (jcol j c s)"
    and k: "k < gsize j"
  defines "a \<equiv> nat (soff j s ! k)" and "b \<equiv> nat (soff j s ! Suc k)"
    and "x \<equiv> seg (chars (jcol j c s)) (map sint (char_soffs j c s)) 1 k"
  shows "slice_rows (jenv j) (jcol j c s) a b =
      split_chars (map (\<lambda>w. nat (sint w)) (row_sizes (offsets (jcol j c s)) a b)) x"
    and "length x = sum_list (map (\<lambda>w. nat (sint w)) (row_sizes (offsets (jcol j c s)) a b))"
    and "sum_list (map sint (row_sizes (offsets (jcol j c s)) a b)) =
      map sint (char_soffs j c s) ! Suc k - map sint (char_soffs j c s) ! k"
    and "\<forall>w \<in> set (row_sizes (offsets (jcol j c s)) a b). 0 \<le> sint w"
proof -
  obtain offs cs where eq: "jcol j c s = Strings offs cs" and offs: "offsets_ok (jnrows j s) (map sint offs)"
    and last: "sint (last offs) \<le> int (length cs)" and len: "length offs = Suc (jnrows j s)"
    by (rule string_col [OF j c s st])
  note bd = send_bounds [OF j s k] and rank = job_rank [OF j s]
  have ab: "a \<le> b" "b \<le> jnrows j s" using bd by (simp_all add: a_def b_def)
  have cso: "map sint (char_soffs j c s) ! k = sint (offs ! a)" "map sint (char_soffs j c s) ! Suc k = sint (offs ! b)"
    using k rank(4) by (simp_all add: char_soffs_def eq a_def b_def)
  have x: "x = subrange cs (sint (offs ! a)) (sint (offs ! b))"
    by (simp add: x_def seg_def cso eq)
  show "slice_rows (jenv j) (jcol j c s) a b =
      split_chars (map (\<lambda>w. nat (sint w)) (row_sizes (offsets (jcol j c s)) a b)) x"
    using slice_strings [of "jenv j" "jnrows j s" offs cs a b] offs last ab
    by (simp add: eq x row_sizes_def comp_def)
  have "sint (offs ! b) \<le> sint (offs ! jnrows j s)" "sint (offs ! jnrows j s) = sint (last offs)"
    using offsets_ok_mono [OF offs ab(2) order_refl] ab(2) len by (cases "offs = []"; simp add: last_conv_nth)+
  moreover have "0 \<le> sint (offs ! a)" "sint (offs ! a) \<le> sint (offs ! b)"
    using offsets_ok_nonneg [OF offs, of a] offsets_ok_mono [OF offs ab] ab len by simp_all
  ultimately have "int (length x) = sint (offs ! b) - sint (offs ! a)"
    using last unfolding x by (subst length_subrange) simp_all
  then show "length x = sum_list (map (\<lambda>w. nat (sint w)) (row_sizes (offsets (jcol j c s)) a b))"
    using sum_row_sizes(2) [OF offs ab] by (simp add: eq)
  show "sum_list (map sint (row_sizes (offsets (jcol j c s)) a b)) =
      map sint (char_soffs j c s) ! Suc k - map sint (char_soffs j c s) ! k"
    using sum_row_sizes(1) [OF offs ab] by (simp add: eq cso)
  show "\<forall>w \<in> set (row_sizes (offsets (jcol j c s)) a b). 0 \<le> sint w"
    using row_sizes_nonneg [OF offs ab(2)] by (auto simp: eq)
qed

lemma received_sizes_props:
  assumes j: "job_ok j" and c: "c < jncols j" and r: "r < jranks j" and st: "is_Strings (jcol j c 0)"
  shows "\<forall>w \<in> set (received_sizes j c r). 0 \<le> sint w"
    and "sum_list (map sint (received_sizes j c r)) = char_roffs j c r ! gsize j"
proof -
  let ?k = "own_idx j r" and ?ms = "members (jgroup j r)"
  have str: "is_Strings (jcol j c s)" if "s < jranks j" for s
    using job_kind [OF j c that job_okD(3) [OF j]] st by simp
  note piece = char_piece [OF j c _ str own_idx_less [OF j, of r]]
  show "\<forall>w \<in> set (received_sizes j c r). 0 \<le> sint w"
    using piece(4) jmember [OF j r] by (auto simp: received_sizes_def)
  have "sum_list (map sint (received_sizes j c r)) =
      sum_list (map (\<lambda>s. map sint (char_soffs j c s) ! Suc ?k - map sint (char_soffs j c s) ! ?k) ?ms)"
    unfolding received_sizes_def map_concat map_map comp_def sum_list_concat_map
    by (intro arg_cong [where f = sum_list] map_cong refl piece(3)) (auto intro: jmember [OF j r])
  also have "\<dots> = sum_list (map (sent_count (map (\<lambda>s. map sint (char_soffs j c s)) [0..<jranks j]) ?k) ?ms)"
    by (intro arg_cong [where f = sum_list] map_cong refl) (use jmember [OF j r] in \<open>simp add: sent_count_def\<close>)
  also have "\<dots> = char_roffs j c r ! gsize j"
  proof -
    let ?xs = "map (sent_count (map (\<lambda>s. map sint (char_soffs j c s)) [0..<jranks j]) ?k) ?ms"
    have "length ?xs = gsize j" by (simp add: members_def group_size_at)
    then show ?thesis
      unfolding char_roffs_def recv_offsets_spec_def using str [OF r]
      by (simp only: if_True) (subst partial_sum_nth; simp)
  qed
  finally show "sum_list (map sint (received_sizes j c r)) = char_roffs j c r ! gsize j" .
qed

lemma final_strings:
  assumes j: "job_ok j" and c: "c < jncols j" and r: "r < jranks j" and st: "is_Strings (jcol j c 0)"
  shows "column_rows (jenv j) (nrecv j r) (final_col j c r) =
      map (\<lambda>(s, i). cell (jenv j) (jcol j c s) i) (row_sources j r)"
proof -
  let ?k = "own_idx j r" and ?ms = "members (jgroup j r)"
  let ?a = "\<lambda>s. nat (soff j s ! ?k)" and ?b = "\<lambda>s. nat (soff j s ! Suc ?k)"
  let ?x = "\<lambda>s. seg (chars (jcol j c s)) (map sint (char_soffs j c s)) 1 ?k"
  let ?szs = "\<lambda>s. map (\<lambda>w. nat (sint w)) (row_sizes (offsets (jcol j c s)) (?a s) (?b s))"
  have str: "is_Strings (jcol j c s)" if "s < jranks j" for s
    using job_kind [OF j c that job_okD(3) [OF j]] st by simp
  note piece = char_piece [OF j c _ str own_idx_less [OF j, of r]]
  have "column_rows (jenv j) (nrecv j r) (final_col j c r) =
      split_chars (map (\<lambda>w. nat (sint w)) (received_sizes j c r)) (received_bytes j c r)"
    using column_rows_strings [of "received_sizes j c r" "jenv j" "received_bytes j c r"]
      received_sizes_props [OF assms] job_col(5) [OF j c r str [OF r]] st
    by (simp add: final_col_def length_received_sizes [OF j r])
  also have "\<dots> = split_chars (concat (map ?szs ?ms)) (concat (map ?x ?ms))"
    using st by (simp add: received_sizes_def received_bytes_def map_concat comp_def)
  also have "\<dots> = concat (map (\<lambda>s. split_chars (?szs s) (?x s)) ?ms)"
    by (rule split_chars_concat) (use piece(2) jmember [OF j r] in blast)
  also have "\<dots> = concat (map (\<lambda>s. slice_rows (jenv j) (jcol j c s) (?a s) (?b s)) ?ms)"
    by (intro arg_cong [where f = concat] map_cong refl piece(1) [symmetric]) (auto intro: jmember [OF j r])
  finally show ?thesis by (simp add: map_row_sources slice_rows_def)
qed

lemma final_strings_ok:
  assumes j: "job_ok j" and c: "c < jncols j" and r: "r < jranks j" and st: "is_Strings (jcol j c 0)"
  shows "column_ok (jenv j) (nrecv j r) (final_col j c r)"
proof -
  let ?sz = "received_sizes j c r"
  note props = received_sizes_props [OF assms]
  have str: "is_Strings (jcol j c s)" if "s < jranks j" for s
    using job_kind [OF j c that job_okD(3) [OF j]] st by simp
  have offs: "map sint (0 # partial_sum 0 ?sz) = 0 # partial_sum 0 (map sint ?sz)"
    using sint_partial_sum32 [of ?sz] props job_col(5) [OF j c r str [OF r]] by simp
  have ok: "offsets_ok (nrecv j r) (map sint (0 # partial_sum 0 ?sz))"
    unfolding offs using props(1) length_received_sizes [OF j r]
    by (intro offsets_ok_partial_sum) auto
  have "sint (last (0 # partial_sum 0 ?sz)) = last (map sint (0 # partial_sum 0 ?sz))"
    by (simp add: last_map)
  also have "\<dots> = (0 # partial_sum 0 (map sint ?sz)) ! length (map sint ?sz)"
    unfolding offs by (subst last_conv_nth) simp_all
  also have "\<dots> = char_roffs j c r ! gsize j"
    using props(2) by (simp only: partial_sum_nth order_refl) simp
  also have "\<dots> \<le> int (length (received_bytes j c r))"
  proof -
    note piece = char_piece [OF j c _ str own_idx_less [OF j, of r]]
    have "length (received_bytes j c r) = sum_list (map (\<lambda>w. nat (sint w)) ?sz)"
      using st jmember [OF j r] piece(2)
      by (simp add: received_bytes_def received_sizes_def length_concat map_concat sum_list_concat_map comp_def cong: map_cong)
    then show ?thesis using sum_list_nat_sint [OF props(1)] props(2) by simp
  qed
  finally show ?thesis using ok st by (simp add: final_col_def)
qed

section \<open>The table\<close>

lemma final_col_rows:
  assumes j: "job_ok j" and c: "c < jncols j" and r: "r < jranks j"
  shows "column_ok (jenv j) (nrecv j r) (final_col j c r)"
    and "column_rows (jenv j) (nrecv j r) (final_col j c r) =
      map (\<lambda>(s, i). cell (jenv j) (jcol j c s) i) (row_sources j r)"
  using final_fixed [OF assms] final_strings [OF assms] final_strings_ok [OF assms] by blast+

lemma final_table_rows:
  assumes j: "job_ok j" and r: "r < jranks j"
  shows "table_rows (jenv j) (nrecv j r) (map (\<lambda>c. final_col j c r) [0..<jncols j]) =
     map (\<lambda>(s, i). map (\<lambda>c. cell (jenv j) (jcol j c s) i) [0..<jncols j]) (row_sources j r)"
proof (rule nth_equalityI)
  fix i assume "i < length (table_rows (jenv j) (nrecv j r) (map (\<lambda>c. final_col j c r) [0..<jncols j]))"
  then have i: "i < nrecv j r" by simp
  obtain s k where sk: "row_sources j r ! i = (s, k)" by (cases "row_sources j r ! i")
  have "cell (jenv j) (final_col j c r) i = cell (jenv j) (jcol j c s) k" if c: "c < jncols j" for c
  proof -
    have "column_rows (jenv j) (nrecv j r) (final_col j c r) ! i = cell (jenv j) (jcol j c s) k"
      unfolding final_col_rows(2) [OF j c r] using i sk by (simp add: length_row_sources [OF j r])
    then show ?thesis using i by (simp add: column_rows_def)
  qed
  then show "table_rows (jenv j) (nrecv j r) (map (\<lambda>c. final_col j c r) [0..<jncols j]) ! i =
      map (\<lambda>(s, i). map (\<lambda>c. cell (jenv j) (jcol j c s) i) [0..<jncols j]) (row_sources j r) ! i"
    using i sk by (simp add: table_rows_def length_row_sources [OF j r] comp_def)
qed (simp add: length_row_sources [OF j r])

lemma all_to_all_table_ok:
  assumes nv: "nvcomp_ok nv" and mpi: "p2p_transport mpi (\<lambda>_. True) (jranks j) False" and tr: "p2p_transport exch okm (jranks j) multi"
    and j: "job_ok j" and okm: "okm_sizes okm (job_sizes j)"
    and "group_by_batch \<longrightarrow> multi"
  shows "all_to_all_table nv (jenv j) mpi exch group_by_batch (jgrid j) (jstride j)
      (jtables j) (map (jsoffs j) [0..<jranks j]) (replicate (jranks j) (jopts j)) explicit_copy =
     Inr (mat (jncols j) (jranks j) (final_col j))"
proof -
  have "emap (allocate_communicated_table (jenv j)) (map (communicator_of j explicit_copy) [0..<jranks j]) =
      Inr (map (\<lambda>r. (map (\<lambda>c. out_col j explicit_copy c r) [0..<jncols j], ready_communicator j explicit_copy r))
             [0..<jranks j])"
    by (simp add: emap_Inr_iff list_all2_conv_all_nth allocate_communicated_table_ok [OF j])
  then show ?thesis
    using launch_communication_ok [OF assms, of explicit_copy]
    by (simp add: all_to_all_table_def constructor_ok [OF mpi j])
qed

end
