(* ===== verification/Examples.thy ===== *)
theory Examples
  imports Table_Rows
begin

text \<open>
  Concrete instances of the parameters, for the witnesses: a small set of data types, a
  codec that stores its input, and jobs on two ranks.
\<close>

definition demo_env :: "nat cudf" where
  "demo_env = \<lparr>size_of = (\<lambda>d. if d = 1 then 1 else if d = 8 then 8 else 4),
     type_dispatcher = (\<lambda>d. if d = 1 then Int8 else if d = 8 then Int64 else Int32),
     offset_dtype = 4, char_dtype = 1\<rparr>"

definition store_codec :: nvcomp where
  "store_codec = \<lparr>nv_bound = (\<lambda>fmt T n. nat n), nv_compress = (\<lambda>fmt T x. x),
     nv_output_bytes = length, nv_decompress = (\<lambda>x. x), nv_select = (\<lambda>T x. if selector_elements * sizeof T \<le> length x then Some default_format else None)\<rparr>"

lemma demo_env_ok: "cudf_ok demo_env"
  by (simp add: cudf_ok_def demo_env_def)

lemma store_codec_ok: "nvcomp_ok store_codec"
  by (simp add: nvcomp_ok_def store_codec_def)

definition cascaded_options :: column_compression_options where
  "cascaded_options = ColumnCompressionOptions CompCascaded default_format []"

text \<open>
  Two ranks in one group. The table has a column of 4-byte integers and a string column;
  rank 0 holds three rows and sends one of them to itself and two to rank 1, rank 1 holds
  one row and sends it to rank 0.
\<close>

definition demo_job :: "nat job" where
  "demo_job = \<lparr>jenv = demo_env, jranks = 2, jgrid = 2, jstride = 1, jncols = 2,
     jcol = (\<lambda>c r. if c = 0 then FixedWidth 4 (if r = 0 then [1, 0, 0, 0, 2, 0, 0, 0, 3, 0, 0, 0] else [9, 0, 0, 0])
                   else if r = 0 then Strings [0, 1, 3, 3] [65, 66, 67] else Strings [0, 2] [68, 69]),
     jnrows = (\<lambda>r. if r = 0 then 3 else 1),
     jsoffs = (\<lambda>r. if r = 0 then [0, 1, 3] else [0, 1, 1]),
     jopts = [cascaded_options, ColumnCompressionOptions CompNone default_format [cascaded_options, default_options]]\<rparr>"

lemmas demo_simps = demo_job_def demo_env_def cascaded_options_def default_options_def
  recv_offsets_spec_def sent_count_def members_def group_size_def comm_group_at_def get_global_rank_def
  get_local_idx_def upt_rec

lemma fifo_ok: "p2p_transport fifo_exchange (\<lambda>_. True) N multi"
  by (rule fifo.p2p_transport_axioms)

lemma demo_job_ok: "job_ok demo_job"
proof -
  have env: "cudf_ok (jenv demo_job)" by (simp add: demo_job_def demo_env_ok)
  have grp: "group_params (jranks demo_job) (jgrid demo_job) (jstride demo_job)"
    by (simp add: demo_job_def group_params_def)
  show ?thesis
    unfolding job_ok_def using env grp
    by (simp add: demo_simps offsets_ok_def row_roffs_def char_roffs_def char_soffs_def
        sendable_def All_less_Suc numeral_2_eq_2 numeral_3_eq_3)
qed

text \<open>One buffer of 4-byte integers on two ranks, to be sent with a given method.\<close>

definition demo_buffer :: "compression_method \<Rightarrow> nat \<Rightarrow> rank \<Rightarrow> nat a2a_buffer" where
  "demo_buffer m b r =
     (if r = 0 then AllToAllCommBuffer [1, 0, 0, 0, 2, 0, 0, 0, 3, 0, 0, 0] (replicate 8 0) [0, 1, 3] [0, 1, 2]
                      4 m default_format
      else AllToAllCommBuffer [9, 0, 0, 0] (replicate 8 0) [0, 1, 1] [0, 2, 2] 4 m default_format)"

lemma demo_buffer_ready:
  assumes "m = CompNone \<or> m = CompCascaded"
  shows "plans_ready demo_env 2 2 1 1 (\<lambda>_. 4) (\<lambda>_. m) (demo_buffer m)"
  using assms
  by (auto simp: plans_ready_def buffer_ready_def demo_buffer_def AllToAllCommBuffer_def sendable_def demo_env_def
      offsets_ok_def less_2_cases_iff recv_offsets_spec_def sent_count_def members_def group_size_def comm_group_at_def
      get_global_rank_def get_local_idx_def upt_rec numeral_2_eq_2)

lemma demo_ready_cascaded:
  "plans_ready demo_env 2 2 1 1 (\<lambda>_. 4) (\<lambda>_. CompCascaded) (demo_buffer CompCascaded)"
  by (rule demo_buffer_ready) simp

lemma demo_ready_none: "plans_ready demo_env 2 2 1 1 (\<lambda>_. 4) (\<lambda>_. CompNone) (demo_buffer CompNone)"
  by (rule demo_buffer_ready) simp

lemma demo_okm: "okm_sizes (\<lambda>_. True) S"
  by (simp add: okm_sizes_def)

lemma demo_group: "group_params 2 2 1"
  by (simp add: group_params_def)

end
