(* ===== verification/Transfer_Properties.thy ===== *)
theory Transfer_Properties
  imports Examples
begin

text \<open>
  The properties of the communication stack: groups, sizes, buffers, string columns and
  whole tables.
\<close>

section \<open>Tables\<close>

lemma row_sources_rows:
  assumes j: "job_ok j" and r: "r < jranks j"
  shows "map (\<lambda>(s, i). map (\<lambda>c. cell (jenv j) (jcol j c s) i) [0..<jncols j]) (row_sources j r) =
    concat (map (\<lambda>s. subrange (table_rows (jenv j) (jnrows j s) (jtables j ! s))
                       (soff j s ! own_idx j r) (soff j s ! Suc (own_idx j r))) (members (jgroup j r)))"
  unfolding map_row_sources
proof (intro arg_cong [where f = concat] map_cong refl)
  fix s assume "s \<in> set (members (jgroup j r))"
  then have s: "s < jranks j" by (rule jmember [OF j r])
  note b = send_bounds [OF j s own_idx_less [OF j, of r]]
  have "subrange [0..<jnrows j s] (soff j s ! own_idx j r) (soff j s ! Suc (own_idx j r)) =
      [nat (soff j s ! own_idx j r)..<nat (soff j s ! Suc (own_idx j r))]"
    using b by (simp add: subrange_def nat_diff_distrib)
  then show "map (\<lambda>i. map (\<lambda>c. cell (jenv j) (jcol j c s) i) [0..<jncols j])
      [nat (soff j s ! own_idx j r)..<nat (soff j s ! Suc (own_idx j r))] =
      subrange (table_rows (jenv j) (jnrows j s) (jtables j ! s)) (soff j s ! own_idx j r) (soff j s ! Suc (own_idx j r))"
    using s by (simp add: table_rows_def subrange_map comp_def)
qed

text \<open>
  C10. An all-to-all of a table ends without error on every rank, whatever the codec, the
  transport and its grouping mode and with or without the explicit copy of the own
  partition. The table that rank \<open>r\<close> gets is well formed, and its rows are the rows that
  the members of its group keep for it: for every member in order, the rows between the
  two send offsets that belong to the local index of \<open>r\<close>, fixed-width and string columns
  alike.
\<close>
theorem all_to_all_table_rows:
  assumes "nvcomp_ok nv" and "p2p_transport mpi (\<lambda>_. True) (jranks j) False" and "p2p_transport exch okm (jranks j) multi"
    and j: "job_ok j" and "okm_sizes okm (job_sizes j)" and r: "r < jranks j"
    and "group_by_batch \<longrightarrow> multi"
  shows "\<exists>out. all_to_all_table nv (jenv j) mpi exch group_by_batch (jgrid j) (jstride j)
      (jtables j) (map (jsoffs j) [0..<jranks j]) (replicate (jranks j) (jopts j)) explicit_copy = Inr out \<and>
    length out = jranks j \<and> table_ok (jenv j) (nrecv j r) (out ! r) \<and>
    table_rows (jenv j) (nrecv j r) (out ! r) =
      concat (map (\<lambda>s. subrange (table_rows (jenv j) (jnrows j s) (jtables j ! s))
                         (soff j s ! own_idx j r) (soff j s ! Suc (own_idx j r))) (members (jgroup j r)))"
proof (intro exI conjI)
  show "all_to_all_table nv (jenv j) mpi exch group_by_batch (jgrid j) (jstride j)
      (jtables j) (map (jsoffs j) [0..<jranks j]) (replicate (jranks j) (jopts j)) explicit_copy =
      Inr (mat (jncols j) (jranks j) (final_col j))"
    by (rule all_to_all_table_ok [OF assms(1-5) assms(7)])
  show "table_ok (jenv j) (nrecv j r) (mat (jncols j) (jranks j) (final_col j) ! r)"
    using r final_col_rows(1) [OF j _ r] by (simp add: table_ok_def list_all_iff)
qed (use r final_table_rows [OF j r] row_sources_rows [OF j r] in simp_all)

theorem all_to_all_table_rows_witness:
  "\<exists>out. all_to_all_table store_codec demo_env fifo_exchange fifo_exchange True 2 1 (jtables demo_job)
      [[0, 1, 3], [0, 1, 1]] (replicate 2 (jopts demo_job)) True = Inr out \<and>
    table_rows demo_env 2 (out ! 1) = [[[2, 0, 0, 0], [66, 67]], [[3, 0, 0, 0], []]]"
proof -
  have fields: "jenv demo_job = demo_env" "jgrid demo_job = 2" "jstride demo_job = 1" "jranks demo_job = 2"
    "map (jsoffs demo_job) [0..<2] = [[0, 1, 3], [0, 1, 1]]" "members (comm_group_at 2 1 1) = [0, 1]"
    "get_local_idx (comm_group_at 2 1 1) = 1" "nrecv demo_job 1 = 2"
    by (simp_all add: demo_simps nrecv_def row_roffs_def numeral_2_eq_2)
  have "concat (map (\<lambda>s. subrange (table_rows demo_env (jnrows demo_job s) (jtables demo_job ! s))
          (soff demo_job s ! 1) (soff demo_job s ! Suc 1)) [0, 1]) = [[[2, 0, 0, 0], [66, 67]], [[3, 0, 0, 0], []]]"
    by (simp add: demo_job_def mat_def table_rows_def demo_env_def upt_rec subrange_def numeral_2_eq_2)
  moreover have lt: "1 < jranks demo_job" by (simp add: demo_job_def)
  ultimately show ?thesis
    using all_to_all_table_rows [OF store_codec_ok fifo_ok fifo_ok demo_job_ok demo_okm lt, of True True True]
    unfolding fields by (auto simp only:)
qed

section \<open>Buffers\<close>

lemma recv_buffers_delivered:
  assumes "nvcomp_ok nv" "cudf_ok env" "group_params N grid st" "p2p_transport mpi (\<lambda>_. True) N False" "p2p_transport exch okm N multi"
    and "plans_ready env N grid st B d m F" "okm_sizes okm ((\<lambda>b. wire_size env (d b) (m b)) ` {..<B})" "0 < N" "gbb \<longrightarrow> multi"
  shows "\<exists>out. ebind (all_to_all_comm nv env mpi exch gbb grid st incl (mat B N F))
      (postprocess_all_to_all_comm nv env grid st incl) = Inr out \<and>
      (\<forall>b < B. \<forall>r < N. recv_buffer (out ! r ! b) = delivered env grid st incl (F b) r)"
  using communicate_buffers_ok [OF assms] unfolding communicate_buffers_def
  by (intro exI conjI, assumption) simp

text \<open>
  C11. The communication of any number of buffers, compressed or not, followed by the
  postprocessing, ends without error, and every receive buffer then holds the partitions
  of the members of the group for this rank, in member order. With
  \<open>include_current_rank = false\<close> the own partition keeps the bytes it had before.
\<close>
theorem all_to_all_comm_delivers:
  assumes "nvcomp_ok nv" and "cudf_ok env" and "group_params N grid st"
    and "p2p_transport mpi (\<lambda>_. True) N False" and "p2p_transport exch okm N multi"
    and ready: "plans_ready env N grid st B d m F"
    and "okm_sizes okm ((\<lambda>b. wire_size env (d b) (m b)) ` {..<B})" and "0 < N"
    and "group_by_batch \<longrightarrow> multi"
  shows "\<exists>out. ebind (all_to_all_comm nv env mpi exch group_by_batch grid st incl (mat B N F))
      (postprocess_all_to_all_comm nv env grid st incl) = Inr out \<and>
    (\<forall>b < B. \<forall>r < N. recv_buffer (out ! r ! b) =
      concat (map (\<lambda>s. if \<not> incl \<and> s = r
                       then seg (recv_buffer (F b r)) (recv_offsets (F b r)) (size_of env (d b))
                              (get_local_idx (comm_group_at grid st r))
                       else seg (send_buffer (F b s)) (send_offsets (F b s)) (size_of env (d b))
                              (get_local_idx (comm_group_at grid st r)))
                (members (comm_group_at grid st r))))"
proof -
  have "delivered env grid st incl (F b) r =
      concat (map (\<lambda>s. if \<not> incl \<and> s = r
                       then seg (recv_buffer (F b r)) (recv_offsets (F b r)) (size_of env (d b))
                              (get_local_idx (comm_group_at grid st r))
                       else seg (send_buffer (F b s)) (send_offsets (F b s)) (size_of env (d b))
                              (get_local_idx (comm_group_at grid st r)))
                (members (comm_group_at grid st r)))" if "b < B" "r < N" for b r
  proof -
    have "buf_dtype (F b s) = d b" if "s < N" for s
      using ready \<open>b < B\<close> that by (simp add: plans_ready_def buffer_ready_def)
    then show ?thesis
      unfolding delivered_def Let_def using members_less [OF assms(3) \<open>r < N\<close>] \<open>r < N\<close>
      by (intro arg_cong [where f = concat] map_cong) simp_all
  qed
  then show ?thesis
    using recv_buffers_delivered [OF assms, of incl] by auto
qed

theorem all_to_all_comm_delivers_witness:
  "\<exists>out. ebind (all_to_all_comm store_codec demo_env fifo_exchange fifo_exchange False 2 1 True
        (mat 1 2 (demo_buffer CompCascaded)))
      (postprocess_all_to_all_comm store_codec demo_env 2 1 True) = Inr out \<and>
    recv_buffer (out ! 1 ! 0) = [2, 0, 0, 0, 3, 0, 0, 0]"
proof -
  have m: "members (comm_group_at 2 1 1) = [0, 1]" "get_local_idx (comm_group_at 2 1 1) = 1"
    by (simp_all add: members_def comm_group_at_def group_size_def get_global_rank_def get_local_idx_def upt_rec)
  have out: "concat (map (\<lambda>s. if \<not> True \<and> s = 1
        then seg (recv_buffer (demo_buffer CompCascaded 0 1)) (recv_offsets (demo_buffer CompCascaded 0 1)) (size_of demo_env 4) 1
        else seg (send_buffer (demo_buffer CompCascaded 0 s)) (send_offsets (demo_buffer CompCascaded 0 s)) (size_of demo_env 4) 1)
      [0, 1]) = [2, 0, 0, 0, 3, 0, 0, 0]"
    by (simp add: demo_buffer_def AllToAllCommBuffer_def demo_env_def seg_def subrange_def)
  from all_to_all_comm_delivers [OF store_codec_ok demo_env_ok demo_group fifo_ok fifo_ok
        demo_ready_cascaded demo_okm zero_less_numeral, of False True True]
  obtain res where res: "ebind (all_to_all_comm store_codec demo_env fifo_exchange fifo_exchange False 2 1 True
        (mat 1 2 (demo_buffer CompCascaded)))
      (postprocess_all_to_all_comm store_codec demo_env 2 1 True) = Inr res"
    and all: "\<forall>b < 1. \<forall>r < 2. recv_buffer (res ! r ! b) =
      concat (map (\<lambda>s. if \<not> True \<and> s = r
                       then seg (recv_buffer (demo_buffer CompCascaded b r)) (recv_offsets (demo_buffer CompCascaded b r))
                              (size_of demo_env 4) (get_local_idx (comm_group_at 2 1 r))
                       else seg (send_buffer (demo_buffer CompCascaded b s)) (send_offsets (demo_buffer CompCascaded b s))
                              (size_of demo_env 4) (get_local_idx (comm_group_at 2 1 r)))
                (members (comm_group_at 2 1 r)))"
    by (auto simp only: simp_thms if_False)
  have "recv_buffer (res ! 1 ! 0) = [2, 0, 0, 0, 3, 0, 0, 0]"
    using all [rule_format, of 0 1] unfolding m out by (simp only: zero_less_one one_less_numeral_iff semiring_norm)
  with res show ?thesis by blast
qed

text \<open>
  C12. Compression and the grouping mode of the communicator do not change what is
  received: two runs over buffers with the same contents, one with any choice of methods,
  formats, codec, transport and grouping and one with any other, leave the same receive
  buffers on every rank.
\<close>
theorem compression_is_transparent:
  assumes "nvcomp_ok nv" and "nvcomp_ok nv'" and env: "cudf_ok env" and grp: "group_params N grid st"
    and mpi: "p2p_transport mpi (\<lambda>_. True) N False" and "p2p_transport exch okm N multi" and "p2p_transport exch' okm' N multi'"
    and "plans_ready env N grid st B d m F" and "plans_ready env N grid st B d m' F'"
    and "okm_sizes okm ((\<lambda>b. wire_size env (d b) (m b)) ` {..<B})"
    and "okm_sizes okm' ((\<lambda>b. wire_size env (d b) (m' b)) ` {..<B})" and "0 < N"
    and "group_by_batch \<longrightarrow> multi" and "group_by_batch' \<longrightarrow> multi'"
    and same: "\<forall>b < B. \<forall>r < N. send_buffer (F' b r) = send_buffer (F b r) \<and>
      send_offsets (F' b r) = send_offsets (F b r) \<and> recv_buffer (F' b r) = recv_buffer (F b r)"
  shows "\<exists>out out'.
    ebind (all_to_all_comm nv env mpi exch group_by_batch grid st incl (mat B N F))
      (postprocess_all_to_all_comm nv env grid st incl) = Inr out \<and>
    ebind (all_to_all_comm nv' env mpi exch' group_by_batch' grid st incl (mat B N F'))
      (postprocess_all_to_all_comm nv' env grid st incl) = Inr out' \<and>
    (\<forall>b < B. \<forall>r < N. recv_buffer (out ! r ! b) = recv_buffer (out' ! r ! b))"
proof -
  have "delivered env grid st incl (F' b) r = delivered env grid st incl (F b) r" if b: "b < B" and r: "r < N" for b r
  proof -
    have ready: "buffer_ready env N grid st (d b) (m b) (F b)" "buffer_ready env N grid st (d b) (m' b) (F' b)"
      using assms(8,9) b by (simp_all add: plans_ready_def)
    have "map (\<lambda>s. send_offsets (F' b s)) [0..<N] = map (\<lambda>s. send_offsets (F b s)) [0..<N]"
      using same b by simp
    moreover have "recv_offsets (F' b r) = recv_offsets_spec grid st (map (\<lambda>s. send_offsets (F' b s)) [0..<N]) r"
      "recv_offsets (F b r) = recv_offsets_spec grid st (map (\<lambda>s. send_offsets (F b s)) [0..<N]) r"
      using ready r unfolding buffer_ready_def by blast+
    ultimately have "recv_offsets (F' b r) = recv_offsets (F b r)" by (simp only:)
    moreover have "buf_dtype (F' b s) = buf_dtype (F b s)" if "s < N" for s
      using ready that by (simp add: buffer_ready_def)
    ultimately show ?thesis
      unfolding delivered_def Let_def using members_less [OF grp r] r same b
      by (intro arg_cong [where f = concat] map_cong) simp_all
  qed
  then show ?thesis
    using recv_buffers_delivered [OF assms(1) env grp mpi assms(6,8,10,12,13), of incl]
      recv_buffers_delivered [OF assms(2) env grp mpi assms(7,9,11,12,14), of incl] by auto
qed

theorem compression_is_transparent_witness:
  "\<exists>out out'.
    ebind (all_to_all_comm store_codec demo_env fifo_exchange fifo_exchange True 2 1 True (mat 1 2 (demo_buffer CompCascaded)))
      (postprocess_all_to_all_comm store_codec demo_env 2 1 True) = Inr out \<and>
    ebind (all_to_all_comm store_codec demo_env fifo_exchange fifo_exchange False 2 1 True (mat 1 2 (demo_buffer CompNone)))
      (postprocess_all_to_all_comm store_codec demo_env 2 1 True) = Inr out' \<and>
    recv_buffer (out ! 0 ! 0) = recv_buffer (out' ! 0 ! 0)"
proof -
  have "\<forall>b < 1. \<forall>r < 2. send_buffer (demo_buffer CompNone b r) = send_buffer (demo_buffer CompCascaded b r) \<and>
      send_offsets (demo_buffer CompNone b r) = send_offsets (demo_buffer CompCascaded b r) \<and>
      recv_buffer (demo_buffer CompNone b r) = recv_buffer (demo_buffer CompCascaded b r)"
    by (simp add: demo_buffer_def AllToAllCommBuffer_def)
  from compression_is_transparent [OF store_codec_ok store_codec_ok demo_env_ok demo_group fifo_ok fifo_ok fifo_ok
      demo_ready_cascaded demo_ready_none demo_okm demo_okm zero_less_numeral _ _ this,
      where group_by_batch = True and multi = True and group_by_batch' = False and multi' = True and incl = True]
  show ?thesis by auto
qed

section \<open>Sizes and groups\<close>

text \<open>
  C13. \<open>communicate_sizes\<close> succeeds on every rank and returns a vector of
  \<open>comm_group_size + 1\<close> receive offsets that starts at zero and in which the distance of
  the entries \<open>i\<close> and \<open>i + 1\<close> is the number of elements that the \<open>i\<close>-th member of the group
  keeps for this rank; the offsets do not decrease when no member sends a negative count.
\<close>
theorem communicate_sizes_correct:
  assumes mpi: "p2p_transport mpi (\<lambda>_. True) N False" and grp: "group_params N grid st" and N: "length offs = N"
    and len: "\<forall>r < N. length (offs ! r) = Suc (grid div st)" and r: "r < N"
  shows "\<exists>roffs. communicate_sizes mpi grid st offs = Inr roffs \<and> length roffs = N \<and>
     length (roffs ! r) = Suc (grid div st) \<and> roffs ! r ! 0 = 0 \<and>
     (\<forall>i < grid div st. roffs ! r ! Suc i - roffs ! r ! i =
        (let s = get_global_rank (comm_group_at grid st r) i; k = get_local_idx (comm_group_at grid st r)
         in offs ! s ! Suc k - offs ! s ! k)) \<and>
     ((\<forall>s < N. offsets_ok (grid div st) (offs ! s)) \<longrightarrow> offsets_ok (grid div st) (roffs ! r))"
proof (intro exI conjI)
  show "communicate_sizes mpi grid st offs = Inr (map (recv_offsets_spec grid st offs) [0..<N])"
    by (rule communicate_sizes_eq [OF assms(1-4)])
qed (use r recv_offsets_spec_diff [of _ grid st offs r] recv_offsets_spec_ok [OF grp r, of offs]
     in \<open>simp_all add: Let_def sent_count_def\<close>)

theorem communicate_sizes_correct_witness:
  "\<exists>roffs. communicate_sizes fifo_exchange 2 1 [[0, 1, 3], [0, 1, 1]] = Inr roffs \<and>
     roffs ! 0 ! 0 = 0 \<and> roffs ! 0 ! Suc 1 - roffs ! 0 ! 1 = 1"
proof -
  have "length [[0, 1, 3], [0, 1, 1 :: int]] = 2" "\<forall>r < 2. length ([[0, 1, 3], [0, 1, 1 :: int]] ! r) = Suc (2 div 1)"
    by (auto simp: less_2_cases_iff)
  from communicate_sizes_correct [OF fifo_ok demo_group this, of 0]
  obtain roffs where "communicate_sizes fifo_exchange 2 1 [[0, 1, 3], [0, 1, 1]] = Inr roffs" "roffs ! 0 ! 0 = 0"
    and "\<forall>i < 2 div 1. roffs ! 0 ! Suc i - roffs ! 0 ! i =
        (let s = get_global_rank (comm_group_at 2 1 0) i; k = get_local_idx (comm_group_at 2 1 0)
         in [[0, 1, 3], [0, 1, 1]] ! s ! Suc k - [[0, 1, 3], [0, 1, 1]] ! s ! k)"
    by auto
  moreover from this(3) have "roffs ! 0 ! Suc 1 - roffs ! 0 ! 1 = 1"
    by (simp add: get_global_rank_def get_local_idx_def comm_group_at_def less_2_cases_iff)
  ultimately show ?thesis by blast
qed

text \<open>
  C14. The communication groups partition the ranks: construction succeeds, a group has
  \<open>grid_size / stride\<close> distinct members below the number of ranks, among them the rank
  itself, at its own local index; \<open>s\<close> is a member of the group of \<open>r\<close> if and only if both
  lie in the same grid and have the same residue modulo the stride, and then both see the
  same group.
\<close>
theorem communication_groups_partition:
  assumes grp: "group_params N grid st" and r: "r < N"
  shows "\<exists>g. CommunicationGroup grid st r = Inr g \<and> group_size g = grid div st \<and>
    distinct (members g) \<and> length (members g) = grid div st \<and> set (members g) \<subseteq> {..<N} \<and>
    get_local_idx g < group_size g \<and> get_global_rank g (get_local_idx g) = r \<and>
    set (members g) = {s. s div grid = r div grid \<and> s mod st = r mod st} \<and>
    (\<forall>s \<in> set (members g). members (comm_group_at grid st s) = members g)"
proof (intro exI conjI)
  show "CommunicationGroup grid st r = Inr (comm_group_at grid st r)" using grp by (rule CommunicationGroup_ok)
  show "set (members (comm_group_at grid st r)) \<subseteq> {..<N}" using members_less [OF grp r] by auto
  show "set (members (comm_group_at grid st r)) = {s. s div grid = r div grid \<and> s mod st = r mod st}"
    using members_iff [OF grp] by auto
  show "distinct (members (comm_group_at grid st r))"
    using grp by (intro distinct_members) (simp add: group_params_def)
  show "\<forall>s \<in> set (members (comm_group_at grid st r)). members (comm_group_at grid st s) = members (comm_group_at grid st r)"
    using member_members [OF grp] by (auto simp: members_def)
qed (use grp in \<open>simp_all add: group_size_at local_idx_less [OF grp, unfolded group_size_at] own_global_rank\<close>)

theorem communication_groups_partition_witness:
  "\<exists>g. CommunicationGroup 4 2 5 = Inr g \<and> group_size g = 2 \<and>
    set (members g) = {s. s div 4 = 5 div 4 \<and> s mod 2 = 5 mod 2} \<and> members g = [5, 7]"
proof -
  have "group_params 8 4 2" by (simp add: group_params_def)
  moreover have "members (comm_group_at 4 2 5) = [5, 7]" "CommunicationGroup 4 2 5 = Inr (comm_group_at 4 2 5)"
    by (simp_all add: members_def comm_group_at_def group_size_def get_global_rank_def upt_rec CommunicationGroup_def)
  ultimately show ?thesis
    using communication_groups_partition [of 8 4 2 5] by simp
qed

section \<open>String columns\<close>

text \<open>A column with a fresh offset subcolumn, as the factories allocate it.\<close>

fun fresh_offsets :: "'d column \<Rightarrow> 'd column" where
  "fresh_offsets (FixedWidth d bs) = FixedWidth d bs"
| "fresh_offsets (Strings offs cs) = Strings (replicate (length offs) 0) cs"

text \<open>
  C15. Sizes and offsets are inverse to each other: computing the string sizes of all rows
  of a table whose offsets start at zero, and scanning them into fresh offset subcolumns,
  gives the table back.
\<close>
theorem string_sizes_offsets_roundtrip:
  assumes ok: "table_ok env n t" and n: "n < 2 ^ 31" and first: "\<forall>c \<in> set t. is_Strings c \<longrightarrow> hd (offsets c) = 0"
  shows "\<exists>sizes. calculate_string_sizes_from_offsets t 0 (of_nat n) = Inr sizes \<and>
     calculate_string_offsets_from_sizes (map fresh_offsets t) sizes = Inr t"
proof -
  let ?size = "\<lambda>c. case c of Strings offs cs \<Rightarrow> map (\<lambda>i. offs ! Suc i - offs ! i) [0..<n] | _ \<Rightarrow> []"
  have sn: "sint (of_nat n :: 32 word) = int n"
    using n by (simp add: signed_of_nat signed_take_bit_int_eq_self)
  have size: "string_sizes 0 (of_nat n) c = Inr (?size c)" if "c \<in> set t" for c
  proof (cases c)
    case (Strings offs cs)
    with ok that have "length offs = Suc n" by (auto simp: table_ok_def list_all_iff offsets_ok_def)
    then show ?thesis using Strings string_sizes_ok [of 0 "of_nat n" offs cs] by (simp add: sn)
  qed simp
  have "scan_sizes (map ?size t) i (map fresh_offsets t ! i) = Inr (t ! i)" if i: "i < length t" for i
  proof (cases "t ! i")
    case (Strings offs cs)
    from i have "t ! i \<in> set t" by simp
    with ok first Strings have len: "length offs = Suc n" and hd: "hd offs = 0"
      by (auto simp: table_ok_def list_all_iff offsets_ok_def)
    then have "offs \<noteq> []" by auto
    have "0 # partial_sum 0 (?size (t ! i)) = offs"
      using partial_sum_differences [OF \<open>offs \<noteq> []\<close>] len hd Strings \<open>offs \<noteq> []\<close> by (cases offs) simp_all
    then show ?thesis
      using i Strings len scan_sizes_ok [of i "map ?size t" "replicate (length offs) 0" cs]
      by (simp del: scan_sizes.simps)
  next
    case (FixedWidth d bs)
    with i show ?thesis by simp
  qed
  then have "calculate_string_offsets_from_sizes (map fresh_offsets t) (map ?size t) = Inr (map ((!) t) [0..<length t])"
    unfolding calculate_string_offsets_from_sizes_def length_map by (intro emap_Inr) simp
  moreover have "calculate_string_sizes_from_offsets t 0 (of_nat n) = Inr (map ?size t)"
    unfolding calculate_string_sizes_from_offsets_def by (rule emap_Inr) (rule size)
  ultimately show ?thesis by (simp add: map_nth)
qed

theorem string_sizes_offsets_roundtrip_witness:
  "\<exists>sizes. calculate_string_sizes_from_offsets [Strings [0, 2, 2, 5] [1, 2, 3, 4, 5] :: nat column] 0 (of_nat 3) = Inr sizes \<and>
     calculate_string_offsets_from_sizes (map fresh_offsets [Strings [0, 2, 2, 5] [1, 2, 3, 4, 5]]) sizes =
       Inr [Strings [0, 2, 2, 5] [1, 2, 3, 4, 5] :: nat column]"
proof -
  have "table_ok demo_env 3 [Strings [0, 2, 2, 5] [1, 2, 3, 4, 5] :: nat column]"
    by (simp add: table_ok_def offsets_ok_def)
  from string_sizes_offsets_roundtrip [OF this] show ?thesis by simp
qed

text \<open>
  C16. With string columns the send offsets must start at row zero. The constructor
  computes the sizes of the rows \<open>front..back\<close> into a vector that starts at \<open>front\<close>, while
  the copies and sends index it with the absolute row offsets: for a batch that starts
  after row zero, the copy of the non-empty partition of the last local index reads past
  the end of the sizes.
\<close>
theorem later_batch_string_sizes_out_of_bounds:
  assumes so: "offsets_ok (Suc k) (map sint so)" and inside: "sint (last so) < int (length offs)"
    and front: "0 < sint (hd so)" and nonempty: "sint (so ! k) < sint (so ! Suc k)"
    and sizes: "string_sizes (hd so) (last so) (input_table cm ! icol) = Inr ss"
    and cm: "input_table cm ! icol = Strings offs cs" "row_send_offsets cm = so"
      "icol < length (string_sizes_to_send cm)" "string_sizes_to_send cm ! icol = ss"
    and ro: "Suc k < length (row_recv_offsets cm)"
      "row_recv_offsets cm ! Suc k - row_recv_offsets cm ! k = sint (so ! Suc k) - sint (so ! k)"
  shows "length ss = nat (sint (last so) - sint (hd so)) \<and>
    copy_column env cm k icol (Strings offs' cs') sizes' = Inl OutOfBounds"
proof
  from so have len: "length so = Suc (Suc k)" by (simp add: offsets_ok_def)
  then have "so \<noteq> []" by auto
  with len have ends: "hd so = so ! 0" "last so = so ! Suc k" by (simp_all add: last_conv_nth hd_conv_nth)
  have le: "sint (hd so) \<le> sint (last so)"
    using offsets_ok_mono [OF so, of 0 "Suc k"] len by (simp add: ends)
  from sizes have ss: "ss = map (\<lambda>i. offs ! Suc i - offs ! i) [nat (sint (hd so))..<nat (sint (last so))]"
    using cm(1) string_sizes_ok [of "hd so" "last so" offs cs] le inside front by simp
  show l: "length ss = nat (sint (last so) - sint (hd so))"
    unfolding ss using front le by (simp add: nat_diff_distrib)
  have "read_mem ss (sint (so ! k)) (sint (so ! Suc k) - sint (so ! k)) = Inl OutOfBounds"
    using l front le unfolding ends read_mem_def by simp
  then show "copy_column env cm k icol (Strings offs' cs') sizes' = Inl OutOfBounds"
    using len cm ro by (simp add: copy_column_def)
qed

text \<open>The second batch of a table of two one-character strings on a single rank.\<close>

definition late_communicator :: "nat a2a_communicator" where
  "late_communicator = \<lparr>input_table = [Strings [0, 1, 2] [65, 66]], cm_group = comm_group_at 1 1 0,
     explicit_copy_to_current_rank = True, row_send_offsets = [1, 2], row_recv_offsets = [0, 1],
     string_send_offsets = [[1, 2]], string_recv_offsets = [[0, 1]], string_sizes_to_send = [[1]],
     string_sizes_received = [[0]], table_compression_options = []\<rparr>"

theorem later_batch_string_sizes_out_of_bounds_witness:
  "AllToAllCommunicator fifo_exchange 1 1 [[Strings [0, 1, 2] [65, 66]]] [[1, 2]] [[]] True = Inr [late_communicator] \<and>
   copy_column demo_env late_communicator 0 0 (Strings [0, 0] [0]) [0] = Inl OutOfBounds"
proof
  show "AllToAllCommunicator fifo_exchange 1 1 [[Strings [0, 1, 2] [65, 66]]] [[1, 2]] [[]] True = Inr [late_communicator]"
    by (simp add: AllToAllCommunicator_def late_communicator_def communicate_sizes_size_type_def communicate_sizes_def
        size_messages_def group_size_def get_global_rank_def comm_group_at_def fifo_exchange_def
        gather_string_offsets_def gather_column_def gather_offsets_def upt_rec members_def incoming_queues_def msgs_to_def
        calculate_string_sizes_from_offsets_def read_mem_def subrange_def allocate_string_sizes_receive_buffer_def)
  have "offsets_ok (Suc 0) (map sint [1, 2 :: 32 word])" by (simp add: offsets_ok_def)
  from later_batch_string_sizes_out_of_bounds [OF this, of "[0, 1, 2]" late_communicator 0 "[1]" "[65, 66]"]
  show "copy_column demo_env late_communicator 0 0 (Strings [0, 0] [0]) [0] = Inl OutOfBounds"
    by (simp add: late_communicator_def read_mem_def subrange_def)
qed

end
