(* ===== verification/Options.thy ===== *)
theory Options
  imports Examples
begin

text \<open>
  How all ranks come to the same compression options (\<open>src/src/compression.cpp\<close>): the root
  chooses them with nvcomp's selector and broadcasts them, field by field and column by
  column. \<open>MPI_Bcast\<close> is the locale \<open>broadcast\<close>; the two instances the code uses, for the
  method and for the format, are the parameters \<open>bm\<close> and \<open>bf\<close>.
\<close>

section \<open>Broadcast\<close>

locale broadcast =
  fixes bcast :: "'a list \<Rightarrow> 'a list res"
  assumes bcast_root: "xs \<noteq> [] \<Longrightarrow> bcast xs = Inr (replicate (length xs) (hd xs))"
begin

lemma bcast_map: "0 < N \<Longrightarrow> bcast (map f [0..<N]) = Inr (map (\<lambda>_. f 0) [0..<N])"
  by (simp add: bcast_root hd_map map_replicate_const)

lemma bcast_cons: "bcast (x # xs) = Inr (replicate (Suc (length xs)) x)"
  by (simp add: bcast_root)

end

text \<open>The reference instance: every rank gets the value of rank 0.\<close>

definition root_value :: "'a list \<Rightarrow> 'a list res" where
  "root_value xs = (case xs of [] \<Rightarrow> Inr [] | x # _ \<Rightarrow> Inr (replicate (length xs) x))"

interpretation root: broadcast root_value
  by unfold_locales (auto simp: root_value_def split: list.splits)

section \<open>The operations\<close>

text \<open>\<open>column_view::child\<close> of a string column.\<close>

fun child :: "'d cudf \<Rightarrow> nat \<Rightarrow> 'd column \<Rightarrow> 'd column" where
  "child env i (Strings offs cs) =
     (if i = 0 then FixedWidth (offset_dtype env) (enc32s offs) else FixedWidth (char_dtype env) cs)"
| "child env i (FixedWidth d bs) = FixedWidth d bs"

lemma child_fixed [simp]: "\<not> is_Strings (child env i c)"
  by (cases c) simp_all

lemma ebind_cong [fundef_cong]:
  "m = m' \<Longrightarrow> (\<And>x. m' = Inr x \<Longrightarrow> f x = g x) \<Longrightarrow> ebind m f = ebind m' g"
  by (cases m') simp_all

text \<open>
  \<open>broadcast_compression_options\<close> of one column, on all ranks: the columns and the options
  of the ranks, of which only those of rank 0 matter. A string column recurs into its two
  subcolumns.
\<close>

function broadcast_column_options ::
  "(compression_method list \<Rightarrow> compression_method list res) \<Rightarrow> (cascaded_format list \<Rightarrow> cascaded_format list res) \<Rightarrow>
     'd cudf \<Rightarrow> 'd column list \<Rightarrow> column_compression_options list \<Rightarrow> column_compression_options list res" where
  "broadcast_column_options bm bf env cols opts =
     ebind (bm (map compression_method opts)) (\<lambda>methods.
     ebind (bf (map cascaded_format opts)) (\<lambda>formats.
       if list_all (\<lambda>c. \<not> is_Strings c) cols
       then Inr (map (\<lambda>(m, f). ColumnCompressionOptions m f []) (zip methods formats))
       else if \<not> list_all is_Strings cols then Inl Unmatched
       else case opts of
         [] \<Rightarrow> Inl Unmatched
       | root # others \<Rightarrow>
           if length (children_compression_options root) \<noteq> 2 then Inl AssertFailed
           else ebind (emap (\<lambda>icol.
                  broadcast_column_options bm bf env (map (child env icol) cols)
                    ((children_compression_options root ! icol) # map (\<lambda>_. default_options) others)) [0, 1])
                (\<lambda>kids.
                  Inr (map (\<lambda>r. ColumnCompressionOptions (methods ! r) (formats ! r) (map (\<lambda>k. k ! r) kids))
                    [0..<length cols]))))"
  by pat_completeness auto

termination
  by (relation "measure (\<lambda>(bm, bf, env, cols, opts). if list_all (\<lambda>c. \<not> is_Strings c) cols then 0 else 1)")
    (auto simp: list_all_iff)

declare broadcast_column_options.simps [simp del]

text \<open>\<open>broadcast_compression_options\<close> of a table: the options of the ranks behind rank 0 are not used.\<close>

definition broadcast_compression_options ::
  "(compression_method list \<Rightarrow> compression_method list res) \<Rightarrow> (cascaded_format list \<Rightarrow> cascaded_format list res) \<Rightarrow>
     'd cudf \<Rightarrow> 'd table list \<Rightarrow> column_compression_options list \<Rightarrow> column_compression_options list list res" where
  "broadcast_compression_options bm bf env tables root_options =
     (let ncols = (case tables of [] \<Rightarrow> 0 | t # _ \<Rightarrow> length t) in
      if list_all (\<lambda>t. length t = ncols) tables
      then ebind (emap (\<lambda>icol.
             ebind (vec_at root_options icol) (\<lambda>root.
               broadcast_column_options bm bf env (map (\<lambda>t. t ! icol) tables)
                 (root # replicate (length tables - 1) default_options))) [0..<ncols]) (\<lambda>cols.
             Inr (map (\<lambda>r. map (\<lambda>c. c ! r) cols) [0..<length tables]))
      else Inl Unmatched)"

definition generate_compression_options_distributed ::
  "(compression_method list \<Rightarrow> compression_method list res) \<Rightarrow> (cascaded_format list \<Rightarrow> cascaded_format list res) \<Rightarrow>
     nvcomp \<Rightarrow> 'd cudf \<Rightarrow> 'd table list \<Rightarrow> bool \<Rightarrow> column_compression_options list list res" where
  "generate_compression_options_distributed bm bf nv env tables compression =
     (if \<not> compression then Inr (map generate_none_compression_options tables)
      else case tables of
        [] \<Rightarrow> Inr []
      | root_table # _ \<Rightarrow>
          ebind (generate_auto_select_compression_options nv env root_table)
            (broadcast_compression_options bm bf env tables))"

text \<open>
  \<open>warmup_nvcomp\<close> compresses and decompresses one buffer of 1000 \<open>int\<close>s, whose contents are
  whatever the allocation holds.
\<close>

definition warmup_nvcomp :: "nvcomp \<Rightarrow> byte list \<Rightarrow> byte list res" where
  "warmup_nvcomp nv input_data =
     (let fmt = \<lparr>num_RLEs = 1, num_deltas = 1, use_bp = 1\<rparr> in
      ebind (compression_functor nv Int32 fmt input_data [(0, 1000)]) (\<lambda>outs.
        case outs of
          [] \<Rightarrow> Inl OutOfBounds
        | (compressed, compressed_size) # _ \<Rightarrow>
            decompression_functor nv Int32 compressed [(0, int compressed_size, 0, 1000)] (replicate 4000 0)))"

section \<open>Agreement\<close>

text \<open>What the broadcast of a column returns: the method, the format and the children of a string column.\<close>

definition broadcast_result :: "bool \<Rightarrow> column_compression_options \<Rightarrow> column_compression_options" where
  "broadcast_result str opt = ColumnCompressionOptions (compression_method opt) (cascaded_format opt)
     (if str then map (\<lambda>o'. ColumnCompressionOptions (compression_method o') (cascaded_format o') [])
                    (children_compression_options opt) else [])"

lemma broadcast_fixed:
  assumes "broadcast bm" and "broadcast bf" and "length others = length cols - 1" and "cols \<noteq> []"
    and "list_all (\<lambda>c. \<not> is_Strings c) cols"
  shows "broadcast_column_options bm bf env cols (root # others) =
     Inr (replicate (length cols) (broadcast_result False root))"
proof -
  have n: "Suc (length others) = length cols" using assms(3,4) by (cases cols) auto
  show ?thesis
    using assms(5) n unfolding broadcast_column_options.simps [of bm bf env cols]
    by (simp add: broadcast.bcast_cons [OF assms(1)] broadcast.bcast_cons [OF assms(2)] broadcast_result_def
        zip_replicate flip: n)
qed

lemma broadcast_strings:
  assumes bm: "broadcast bm" and bf: "broadcast bf" and n: "length others = length cols - 1" and ne: "cols \<noteq> []"
    and str: "list_all is_Strings cols" and two: "children_compression_options root = [o0, o1]"
  shows "broadcast_column_options bm bf env cols (root # others) =
     Inr (replicate (length cols) (broadcast_result True root))"
proof -
  have n: "Suc (length others) = length cols" using n ne by (cases cols) auto
  have kid: "broadcast_column_options bm bf env (map (child env i) cols) (o' # map (\<lambda>_. default_options) others) =
      Inr (replicate (length cols) (broadcast_result False o'))" for i o'
    using broadcast_fixed [OF bm bf, of "map (\<lambda>_. default_options) others" "map (child env i) cols"] n ne
    by (simp add: list_all_iff)
  have bcasts: "bm (compression_method root # map compression_method others) = Inr (replicate (length cols) (compression_method root))"
    "bf (cascaded_format root # map cascaded_format others) = Inr (replicate (length cols) (cascaded_format root))"
    by (simp_all add: broadcast.bcast_cons [OF bm] broadcast.bcast_cons [OF bf] n del: replicate_Suc)
  have "\<not> list_all (\<lambda>c. \<not> is_Strings c) cols" using str ne by (cases cols) auto
  then have "broadcast_column_options bm bf env cols (root # others) =
      Inr (map (\<lambda>r. broadcast_result True root) [0..<length cols])"
    using str two kid unfolding broadcast_column_options.simps [of bm bf env cols]
    by (simp add: bcasts broadcast_result_def)
  then show ?thesis by (simp add: map_replicate_const)
qed

text \<open>The kind of every column is the same on all ranks.\<close>

definition same_kinds :: "'d table list \<Rightarrow> bool" where
  "same_kinds tables \<longleftrightarrow> (\<forall>t \<in> set tables. map is_Strings t = map is_Strings (hd tables))"

lemma broadcast_table_ok:
  assumes bm: "broadcast bm" and bf: "broadcast bf" and ne: "tables \<noteq> []" and kinds: "same_kinds tables"
    and len: "length root_options = length (hd tables)"
    and two: "\<forall>i < length (hd tables). is_Strings (hd tables ! i) \<longrightarrow> length (children_compression_options (root_options ! i)) = 2"
  shows "broadcast_compression_options bm bf env tables root_options =
     Inr (replicate (length tables)
       (map (\<lambda>(c, opt). broadcast_result (is_Strings c) opt) (zip (hd tables) root_options)))"
proof -
  let ?n = "length (hd tables)" and ?N = "length tables"
  let ?res = "\<lambda>i. broadcast_result (is_Strings (hd tables ! i)) (root_options ! i)"
  have n: "(case tables of [] \<Rightarrow> 0 | t # _ \<Rightarrow> length t) = ?n" using ne by (cases tables) simp_all
  have lens: "list_all (\<lambda>t. length t = ?n) tables"
    using kinds unfolding same_kinds_def list_all_iff by (metis length_map)
  have kind: "is_Strings (t ! i) = is_Strings (hd tables ! i)" if "t \<in> set tables" "i < ?n" for t i
  proof -
    from kinds that(1) have "map is_Strings t ! i = map is_Strings (hd tables) ! i" by (simp add: same_kinds_def)
    moreover have "length t = ?n" using lens that(1) by (simp add: list_all_iff)
    ultimately show ?thesis using that(2) by simp
  qed
  have col: "broadcast_column_options bm bf env (map (\<lambda>t. t ! i) tables)
      (root_options ! i # replicate (?N - 1) default_options) = Inr (replicate ?N (?res i))" if i: "i < ?n" for i
  proof (cases "is_Strings (hd tables ! i)")
    case True
    have "length (children_compression_options (root_options ! i)) = 2" using two i True by blast
    then obtain o0 o1 where "children_compression_options (root_options ! i) = [o0, o1]"
      by (auto simp: numeral_2_eq_2 length_Suc_conv)
    moreover have "\<forall>t \<in> set tables. is_Strings (t ! i)" using kind i True by blast
    ultimately show ?thesis
      using broadcast_strings [OF bm bf, of "replicate (?N - 1) default_options" "map (\<lambda>t. t ! i) tables"] ne True
      by (simp add: list_all_iff)
  next
    case False
    have "\<forall>t \<in> set tables. \<not> is_Strings (t ! i)" using kind i False by blast
    then show ?thesis
      using broadcast_fixed [OF bm bf, of "replicate (?N - 1) default_options" "map (\<lambda>t. t ! i) tables"] ne False
      by (simp add: list_all_iff)
  qed
  have "emap (\<lambda>i. ebind (vec_at root_options i) (\<lambda>root.
      broadcast_column_options bm bf env (map (\<lambda>t. t ! i) tables) (root # replicate (?N - 1) default_options))) [0..<?n] =
      Inr (map (\<lambda>i. replicate ?N (?res i)) [0..<?n])"
    by (rule emap_Inr) (use col len in simp)
  then have "broadcast_compression_options bm bf env tables root_options =
      Inr (map (\<lambda>r. map ?res [0..<?n]) [0..<?N])"
    by (simp add: broadcast_compression_options_def n lens comp_def)
  moreover have "map ?res [0..<?n] = map (\<lambda>(c, opt). broadcast_result (is_Strings c) opt) (zip (hd tables) root_options)"
    using len by (intro nth_equalityI) simp_all
  ultimately show ?thesis by (simp add: map_replicate_const)
qed

lemma auto_select_column_ok:
  assumes "auto_select_column nv env c = Inr opt"
  shows "broadcast_result (is_Strings c) opt = opt"
    and "is_Strings c \<Longrightarrow> length (children_compression_options opt) = 2"
    and "cudf_ok env \<Longrightarrow> column_options_ok env c opt"
  using assms
  by (auto simp: auto_select_column_def broadcast_result_def default_options_def sendable_def cudf_ok_def
      cascaded_selector_functor_eq split: column.splits if_splits simp: res_simps)

lemma generate_distributed_ok:
  assumes bm: "broadcast bm" and bf: "broadcast bf" and env: "cudf_ok env" and ne: "tables \<noteq> []" and kinds: "same_kinds tables"
    and sel: "generate_auto_select_compression_options nv env (hd tables) = Inr opts"
  shows "generate_compression_options_distributed bm bf nv env tables True = Inr (replicate (length tables) opts)"
    and "table_options_ok env (hd tables) opts"
proof -
  have all: "list_all2 (\<lambda>c opt. auto_select_column nv env c = Inr opt) (hd tables) opts"
    using sel by (simp add: generate_auto_select_compression_options_def emap_Inr_iff)
  then have "list_all2 (column_options_ok env) (hd tables) opts"
    by (rule list_all2_mono) (use env auto_select_column_ok(3) in blast)
  then show "table_options_ok env (hd tables) opts" by (simp add: table_options_ok_def)
  have len: "length opts = length (hd tables)" using all by (simp add: list_all2_conv_all_nth)
  have "map (\<lambda>(c, opt). broadcast_result (is_Strings c) opt) (zip (hd tables) opts) = opts"
    using all by (intro nth_equalityI) (auto simp: list_all2_conv_all_nth intro: auto_select_column_ok(1))
  moreover have "\<forall>i < length (hd tables). is_Strings (hd tables ! i) \<longrightarrow> length (children_compression_options (opts ! i)) = 2"
    using all len by (auto simp: list_all2_conv_all_nth intro: auto_select_column_ok(2))
  ultimately have "broadcast_compression_options bm bf env tables opts = Inr (replicate (length tables) opts)"
    using broadcast_table_ok [OF bm bf ne kinds len] by simp
  with sel ne show "generate_compression_options_distributed bm bf nv env tables True = Inr (replicate (length tables) opts)"
    by (cases tables) (simp_all add: generate_compression_options_distributed_def)
qed

lemma nvcomp_ok_select:
  "nvcomp_ok nv \<Longrightarrow> is_cascaded_supported T \<Longrightarrow> 102400 * sizeof T \<le> length x \<Longrightarrow> nv_select nv T x \<noteq> None"
  unfolding nvcomp_ok_def selector_elements_eq by blast

lemma auto_select_defined:
  assumes nv: "nvcomp_ok nv" and env: "cudf_ok env" and T: "\<not> is_Strings c \<longrightarrow> cascaded_type (type_dispatcher env (dtype c))"
    and n: "selectable env c"
  shows "\<exists>opt. auto_select_column nv env c = Inr opt"
proof (cases c)
  case (FixedWidth d bs)
  let ?T = "type_dispatcher env d"
  have T: "cascaded_type ?T" using T FixedWidth by simp
  have "size_of env d = sizeof ?T" using env cascaded_type_sizeof [OF T] by (simp add: cudf_ok_def)
  then have "nv_select nv (base_type ?T) bs \<noteq> None"
    using nvcomp_ok_select [OF nv cascaded_type_base [OF T]] n T FixedWidth by simp
  then show ?thesis using T FixedWidth by (auto simp: auto_select_column_def cascaded_selector_functor_eq)
next
  case (Strings offs cs)
  have "nv_select nv Int32 (enc32s offs) \<noteq> None"
    using nvcomp_ok_select [OF nv, of Int32 "enc32s offs"] n Strings by simp
  then show ?thesis using env Strings by (auto simp: auto_select_column_def cascaded_selector_functor_eq cudf_ok_def)
qed

text \<open>On large enough buffers only a type makes the selection fail.\<close>

lemma auto_select_fails:
  assumes "nvcomp_ok nv" and "cudf_ok env" and "selectable env c" and "auto_select_column nv env c = Inl e"
  shows "e = UnsupportedType"
proof (cases "\<not> is_Strings c \<longrightarrow> cascaded_type (type_dispatcher env (dtype c))")
  case True
  then show ?thesis using auto_select_defined [OF assms(1,2) True assms(3)] assms(4) by simp
next
  case False
  then show ?thesis using assms(4) by (cases c) (simp_all add: auto_select_column_def cascaded_selector_functor_eq)
qed

lemma options_ok_schema:
  assumes "schema t = schema t'" and "table_options_ok env t' opts"
  shows "table_options_ok env t opts"
proof -
  have "column_options_ok env c opt" if "column_type c = column_type c'" "column_options_ok env c' opt" for c c' opt
    using that by (cases c; cases c') auto
  with assms show ?thesis
    by (auto simp: table_options_ok_def schema_def list_all2_conv_all_nth list_eq_iff_nth_eq)
qed

lemma none_options_ok: "table_options_ok env t (generate_none_compression_options t)"
  by (auto simp: table_options_ok_def generate_none_compression_options_def list_all2_conv_all_nth sendable_def
      default_options_def split: column.splits)

lemma none_options_schema:
  assumes "schema t = schema t'"
  shows "generate_none_compression_options t = generate_none_compression_options t'"
proof -
  have len: "length t = length t'" using assms by (metis length_map schema_def)
  have "column_type (t ! i) = column_type (t' ! i)" if "i < length t" for i
    using assms len that unfolding schema_def by (metis nth_map)
  then have "is_Strings (t ! i) = is_Strings (t' ! i)" if "i < length t" for i
    using that by (cases "t ! i"; cases "t' ! i") force+
  then show ?thesis
    unfolding generate_none_compression_options_def using len
    by (intro nth_equalityI) (force split: column.splits)+
qed

lemma schema_kinds: "\<forall>t \<in> set tables. schema t = schema (hd tables) \<Longrightarrow> same_kinds tables"
proof -
  have "map is_Strings t = map (\<lambda>x. x = None) (schema t)" for t :: "'a table"
    unfolding schema_def map_map by (intro map_cong refl) (case_tac x, simp_all)
  then show "\<forall>t \<in> set tables. schema t = schema (hd tables) \<Longrightarrow> same_kinds tables"
    by (simp add: same_kinds_def)
qed

lemma options_agree:
  assumes "broadcast bm" and "broadcast bf" and nv: "nvcomp_ok nv" and env: "cudf_ok env" and ne: "tables \<noteq> []"
    and schema: "\<forall>t \<in> set tables. schema t = schema (hd tables)"
    and sup: "compression \<longrightarrow> (\<forall>c \<in> set (hd tables). selectable env c \<and>
      (\<not> is_Strings c \<longrightarrow> cascaded_type (type_dispatcher env (dtype c))))"
  shows "\<exists>opts. generate_compression_options_distributed bm bf nv env tables compression =
      Inr (replicate (length tables) opts) \<and> (\<forall>t \<in> set tables. table_options_ok env t opts)"
proof (cases compression)
  case True
  with sup env have "\<exists>opts. generate_auto_select_compression_options nv env (hd tables) = Inr opts"
    unfolding generate_auto_select_compression_options_def by (intro emap_defined ballI auto_select_defined [OF nv]) auto
  then obtain opts where sel: "generate_auto_select_compression_options nv env (hd tables) = Inr opts" by blast
  note gen = generate_distributed_ok [OF assms(1,2) env ne schema_kinds [OF schema] sel]
  have "\<forall>t \<in> set tables. table_options_ok env t opts"
    using schema gen(2) options_ok_schema by blast
  with gen(1) True show ?thesis by auto
next
  case False
  let ?opts = "generate_none_compression_options (hd tables)"
  have "map generate_none_compression_options tables = map (\<lambda>_. ?opts) tables"
    using schema by (intro map_cong refl none_options_schema) blast
  then have "map generate_none_compression_options tables = replicate (length tables) ?opts"
    by (simp add: map_replicate_const)
  moreover have "\<forall>t \<in> set tables. table_options_ok env t ?opts"
    using schema none_options_ok [of env "hd tables"] options_ok_schema by blast
  ultimately show ?thesis using False by (auto simp: generate_compression_options_distributed_def)
qed

section \<open>Properties\<close>

text \<open>
  C17. Whenever the tables of all ranks have one schema, and compression is off or, in the
  root's table, every fixed-width column has a type the cascaded compressor supports and
  every buffer the selector reads has the 102400 elements it samples, all ranks end up
  with the same compression options, and these fit the table of every rank: each column
  can be communicated with them. The tables of the other ranks may have any size.
\<close>
theorem compression_options_agree:
  assumes "broadcast bm" and "broadcast bf" and nv: "nvcomp_ok nv" and env: "cudf_ok env" and ne: "tables \<noteq> []"
    and schema: "\<forall>t \<in> set tables. schema t = schema (hd tables)"
    and sup: "compression \<longrightarrow> (\<forall>c \<in> set (hd tables). selectable env c \<and>
      (\<not> is_Strings c \<longrightarrow> cascaded_type (type_dispatcher env (dtype c))))"
  shows "\<exists>opts. generate_compression_options_distributed bm bf nv env tables compression =
      Inr (replicate (length tables) opts) \<and> (\<forall>t \<in> set tables. table_options_ok env t opts)"
  using options_agree [OF assms] .

text \<open>Compression is on; the root has 102400 rows, the other rank none.\<close>

theorem compression_options_agree_witness:
  "\<exists>opts. generate_compression_options_distributed root_value root_value store_codec demo_env
      [[FixedWidth 4 (replicate 409600 1), Strings (replicate 102401 0) []], [FixedWidth 4 [], Strings [0] []]] True =
      Inr (replicate 2 opts) \<and> table_options_ok demo_env [FixedWidth 4 [], Strings [0] []] opts"
proof -
  let ?ts = "[[FixedWidth 4 (replicate 409600 1), Strings (replicate 102401 0) []], [FixedWidth 4 [], Strings [0] []]] :: nat table list"
  have "\<forall>t \<in> set ?ts. schema t = schema (hd ?ts)" by (simp add: schema_def)
  moreover have "True \<longrightarrow> (\<forall>c \<in> set (hd ?ts). selectable demo_env c \<and>
      (\<not> is_Strings c \<longrightarrow> cascaded_type (type_dispatcher demo_env (dtype c))))"
    by (simp add: demo_env_def)
  ultimately show ?thesis
    using compression_options_agree [OF root.broadcast_axioms root.broadcast_axioms store_codec_ok demo_env_ok, of ?ts True]
    by (auto simp: numeral_2_eq_2)
qed

text \<open>
  C18. With compression on, a fixed-width column whose type is none of the eight integer
  types nor a timestamp or duration makes the root throw: no rank gets options, and the
  functors of the other side reject such a type as well. The root fails with the
  exception for the type, unless a buffer too small for the selector ends it before.
\<close>
theorem unsupported_type_rejected:
  assumes "tables \<noteq> []" and c: "c \<in> set (hd tables)" "\<not> is_Strings c" "\<not> cascaded_type (type_dispatcher env (dtype c))"
    and nv: "nvcomp_ok nv" and env: "cudf_ok env"
  shows "(\<exists>e. generate_compression_options_distributed bm bf nv env tables True = Inl e) \<and>
    ((\<forall>c' \<in> set (hd tables). selectable env c') \<longrightarrow>
      generate_compression_options_distributed bm bf nv env tables True = Inl UnsupportedType) \<and>
    compression_functor nv (type_dispatcher env (dtype c)) fmt src parts = Inl UnsupportedType \<and>
    decompression_functor nv (type_dispatcher env (dtype c)) cdata dparts out = Inl UnsupportedType"
proof -
  have own: "auto_select_column nv env c = Inl UnsupportedType"
    using c(2,3) by (cases c) (simp_all add: auto_select_column_def cascaded_selector_functor_eq)
  have gen: "generate_compression_options_distributed bm bf nv env tables True = Inl e"
    if "emap (auto_select_column nv env) (hd tables) = Inl e" for e
    using assms(1) that
    by (cases tables) (simp_all add: generate_compression_options_distributed_def generate_auto_select_compression_options_def)
  have "\<exists>e. emap (auto_select_column nv env) (hd tables) = Inl e" using emap_fails [of c "hd tables" "auto_select_column nv env", OF c(1) own] .
  then have some: "\<exists>e. generate_compression_options_distributed bm bf nv env tables True = Inl e" using gen by blast
  have "emap (auto_select_column nv env) (hd tables) = Inl UnsupportedType" if "\<forall>c' \<in> set (hd tables). selectable env c'"
    using that by (intro emap_fails_only [of c "hd tables" "auto_select_column nv env", OF c(1) own]) (blast intro: auto_select_fails [OF nv env])
  then have "(\<forall>c' \<in> set (hd tables). selectable env c') \<longrightarrow>
      generate_compression_options_distributed bm bf nv env tables True = Inl UnsupportedType"
    using gen by blast
  with some show ?thesis using c(3) by (simp add: compression_functor_eq decompression_functor_eq)
qed

text \<open>A float column is such a column.\<close>

definition float_env :: "nat cudf" where
  "float_env = \<lparr>size_of = (\<lambda>d. if d = 1 then 1 else 4), type_dispatcher = (\<lambda>d. if d = 1 then Int8 else if d = 4 then Int32 else Float32),
     offset_dtype = 4, char_dtype = 1\<rparr>"

theorem unsupported_type_rejected_witness:
  "generate_compression_options_distributed root_value root_value store_codec float_env [[FixedWidth 9 [0, 0, 0, 0]]] True =
     Inl UnsupportedType"
proof -
  let ?ts = "[[FixedWidth 9 [0, 0, 0, 0]]] :: nat table list"
  have "FixedWidth 9 [0, 0, 0, 0] \<in> set (hd ?ts)" by simp
  moreover have "\<not> cascaded_type (type_dispatcher float_env (dtype (FixedWidth 9 [0, 0, 0, 0])))" by (simp add: float_env_def)
  moreover have "cudf_ok float_env" by (simp add: float_env_def cudf_ok_def)
  moreover have "\<forall>c' \<in> set (hd ?ts). selectable float_env c'" by (simp add: float_env_def)
  ultimately show ?thesis using unsupported_type_rejected [of ?ts "FixedWidth 9 [0, 0, 0, 0]" float_env store_codec] store_codec_ok by simp
qed

lemma zeros_part: "part_valid Int32 input_data (0, 1000) \<longleftrightarrow> 4000 \<le> length input_data"
  by (simp add: part_valid_def)

text \<open>
  \<open>warmup_nvcomp\<close> never trips the assertion of the decompressor and gets its input back,
  whatever the uninitialised buffer holds.
\<close>
lemma warmup_nvcomp_roundtrip:
  assumes nv: "nvcomp_ok nv" and len: "length input_data = 4000"
  shows "warmup_nvcomp nv input_data = Inr input_data"
proof -
  let ?fmt = "\<lparr>num_RLEs = 1, num_deltas = 1, use_bp = 1\<rparr>" and ?p = "(0 :: int, 1000 :: int)"
  let ?y = "part_bytes nv ?fmt Int32 input_data ?p"
  have valid: "part_valid Int32 input_data ?p" using len by (simp add: zeros_part)
  have comp: "compression_functor nv Int32 ?fmt input_data [?p] = Inr [padded_part nv ?fmt Int32 input_data ?p]"
    using compression_functor_ok [OF nv, of Int32 "[?p]"] valid by simp
  let ?out = "padded_part nv ?fmt Int32 input_data ?p"
  have read: "read_mem (fst ?out) 0 (int (snd ?out)) = Inr ?y"
    using take_padded_part [of nv ?fmt Int32 input_data ?p]
    by (simp add: read_mem_def padded_part_def Let_def subrange_def)
  have dec: "int (nv_output_bytes nv ?y) = 4000" "nv_decompress nv ?y = input_data"
    using part_bytes_decode [OF nv, of Int32 input_data ?p ?fmt] valid len subrange_all [of input_data] by simp_all
  have "write_mem (replicate 4000 0) 0 input_data = Inr input_data"
    using len by (simp add: write_mem_def)
  then show ?thesis
    using comp read dec
    by (simp add: warmup_nvcomp_def Let_def split_def check_pass_def decompress_pass_def)
qed

lemma warmup_nvcomp_sevens:
  "warmup_nvcomp store_codec (replicate 4000 7) = Inr (replicate 4000 7)"
  by (rule warmup_nvcomp_roundtrip [OF store_codec_ok]) simp

end
