(* ===== verification/Communicator.thy ===== *)
theory Communicator
  imports Transport Table
begin

text \<open>
  \<open>src/src/communicator.cpp\<close>: the class \<open>MPILikeCommunicator\<close> (groups of operations
  between \<open>start\<close> and \<open>stop\<close>) and \<open>UCXCommunicator\<close> on top of it. UCX matches receives
  with messages by a 64-bit tag and knows no source rank, so the communicators encode the
  sender in the tag. UCX itself is not part of the repository: it is the locale
  \<open>ucx_tagged\<close>, with the documented matching of tags in order.
\<close>

section \<open>Tags\<close>

text \<open>
  \<open>get_comm_tag\<close>: both conversions of an \<open>int\<close> to \<open>uint64_t\<close> extend the sign. The plain
  UCX communicator computes \<open>tag * mpi_size + rank\<close> in \<open>int\<close> and converts the result.
\<close>

definition get_comm_tag :: "32 word \<Rightarrow> 32 word \<Rightarrow> 64 word" where
  "get_comm_tag user_tag source_rank = (0 OR push_bit 32 (scast user_tag)) OR scast source_rank"

definition ucx_tag :: "32 word \<Rightarrow> 32 word \<Rightarrow> 32 word \<Rightarrow> 64 word" where
  "ucx_tag tag mpi_size rank = scast (tag * mpi_size + rank)"

definition reserved_tag :: "32 word" where
  "reserved_tag = -1"

text \<open>The largest group of ranks the buffer communicator accepts.\<close>

definition check_mpi_size :: "nat \<Rightarrow> unit res" where
  "check_mpi_size mpi_size = guard (mpi_size \<le> 65536) TooManyRanks"

lemma scast_inj32: "(scast (x :: 32 word) :: 64 word) = scast y \<longleftrightarrow> x = y"
proof
  assume eq: "(scast x :: 64 word) = scast y"
  show "x = y"
  proof (rule bit_word_eqI)
    fix n assume "n < LENGTH(32)"
    then have n: "n < 32" by simp
    have "bit (scast x :: 64 word) n = bit (scast y :: 64 word) n" by (simp add: eq)
    moreover from n have "min n 31 = n" by simp
    ultimately show "bit x n \<longleftrightarrow> bit y n" using n by (simp add: bit_signed_iff)
  qed
qed simp

lemma bit_get_comm_tag:
  assumes "0 \<le> sint s"
  shows "n < 32 \<Longrightarrow> bit (get_comm_tag t s) n \<longleftrightarrow> bit s n"
    and "n < 32 \<Longrightarrow> bit (get_comm_tag t s) (32 + n) \<longleftrightarrow> bit t n"
proof -
  have neg: "\<not> bit s 31"
    using assms bit_last_iff [of s] by simp
  have m: "min n 31 = n" if "n < 32" using that by simp
  show "n < 32 \<Longrightarrow> bit (get_comm_tag t s) n \<longleftrightarrow> bit s n"
    using m by (auto simp: get_comm_tag_def bit_or_iff bit_push_bit_iff bit_signed_iff)
  show "n < 32 \<Longrightarrow> bit (get_comm_tag t s) (32 + n) \<longleftrightarrow> bit t n"
    using neg m by (auto simp: get_comm_tag_def bit_or_iff bit_push_bit_iff bit_signed_iff
        dest: bit_imp_le_length)
qed

lemma get_comm_tag_eq:
  assumes "0 \<le> sint s" and "0 \<le> sint s'"
  shows "get_comm_tag t s = get_comm_tag t' s' \<longleftrightarrow> t = t' \<and> s = s'"
proof
  assume eq: "get_comm_tag t s = get_comm_tag t' s'"
  have "s = s'"
  proof (rule bit_word_eqI)
    fix n assume "n < LENGTH(32)"
    then show "bit s n \<longleftrightarrow> bit s' n" using bit_get_comm_tag(1) [OF assms(1), of n t] bit_get_comm_tag(1) [OF assms(2), of n t'] eq by simp
  qed
  moreover have "t = t'"
  proof (rule bit_word_eqI)
    fix n assume "n < LENGTH(32)"
    then show "bit t n \<longleftrightarrow> bit t' n" using bit_get_comm_tag(2) [OF assms(1), of n t] bit_get_comm_tag(2) [OF assms(2), of n t'] eq by simp
  qed
  ultimately show "t = t' \<and> s = s'" by simp
qed simp

lemma ucx_tag_same: "ucx_tag t n r = ucx_tag t n r' \<longleftrightarrow> r = r'"
  by (simp add: ucx_tag_def scast_inj32)

lemma of_nat_eq32: "a < 2 ^ 31 \<Longrightarrow> b < 2 ^ 31 \<Longrightarrow> (of_nat a :: 32 word) = of_nat b \<longleftrightarrow> a = b"
  by (subst word_of_nat_eq_iff) (simp add: take_bit_nat_eq_self)

section \<open>MPI-like communicators\<close>

text \<open>
  A request is what the communicator hands to UCX: a tagged send, or a receive for a tag.
  \<open>pending_requests\<close> are the handles since the last \<open>start\<close>.
\<close>

datatype 'm request =
    SendReq (req_dest: rank) (req_tag: "64 word") (req_msg: 'm)
  | RecvReq (req_tag: "64 word")

record 'm ucx_communicator =
  ucx_rank :: rank
  ucx_size :: nat
  pending_requests :: "'m request list"

definition UCXCommunicator_send :: "'m ucx_communicator \<Rightarrow> 'm \<Rightarrow> rank \<Rightarrow> 32 word \<Rightarrow> 'm request" where
  "UCXCommunicator_send c m dest tag =
     SendReq dest (ucx_tag tag (of_nat (ucx_size c)) (of_nat (ucx_rank c))) m"

definition UCXCommunicator_recv :: "'m ucx_communicator \<Rightarrow> rank \<Rightarrow> 32 word \<Rightarrow> 'm request" where
  "UCXCommunicator_recv c source tag =
     RecvReq (ucx_tag tag (of_nat (ucx_size c)) (of_nat source))"

definition MPILike_start :: "'m ucx_communicator \<Rightarrow> 'm ucx_communicator" where
  "MPILike_start c = c\<lparr>pending_requests := []\<rparr>"

definition MPILike_send :: "'m ucx_communicator \<Rightarrow> rank \<times> 'm \<Rightarrow> 'm ucx_communicator" where
  "MPILike_send c p =
     c\<lparr>pending_requests := pending_requests c @ [UCXCommunicator_send c (snd p) (fst p) reserved_tag]\<rparr>"

definition MPILike_recv :: "'m ucx_communicator \<Rightarrow> rank \<Rightarrow> 'm ucx_communicator" where
  "MPILike_recv c source =
     c\<lparr>pending_requests := pending_requests c @ [UCXCommunicator_recv c source reserved_tag]\<rparr>"

text \<open>One group of operations on one rank: \<open>start\<close>, the sends, the receives, up to \<open>stop\<close>.\<close>

definition grouped_requests :: "nat \<Rightarrow> rank \<Rightarrow> (rank \<times> 'm) list \<Rightarrow> rank list \<Rightarrow> 'm request list" where
  "grouped_requests N r snds srcs =
     pending_requests (foldl MPILike_recv
       (foldl MPILike_send (MPILike_start \<lparr>ucx_rank = r, ucx_size = N, pending_requests = []\<rparr>) snds) srcs)"

lemma foldl_send:
  "foldl MPILike_send c snds =
     c\<lparr>pending_requests := pending_requests c @ map (\<lambda>p. UCXCommunicator_send c (snd p) (fst p) reserved_tag) snds\<rparr>"
  by (induction snds arbitrary: c) (simp_all add: MPILike_send_def UCXCommunicator_send_def)

lemma foldl_recv:
  "foldl MPILike_recv c srcs =
     c\<lparr>pending_requests := pending_requests c @ map (\<lambda>s. UCXCommunicator_recv c s reserved_tag) srcs\<rparr>"
  by (induction srcs arbitrary: c) (simp_all add: MPILike_recv_def UCXCommunicator_recv_def)

section \<open>Tag matching\<close>

type_synonym 'm tagged = "rank \<times> 64 word \<times> 'm"

definition sends_of :: "'m request list \<Rightarrow> 'm tagged list" where
  "sends_of rs = concat (map (\<lambda>q. case q of SendReq d t m \<Rightarrow> [(d, t, m)] | RecvReq t \<Rightarrow> []) rs)"

definition recv_tags_of :: "'m request list \<Rightarrow> 64 word list" where
  "recv_tags_of rs = concat (map (\<lambda>q. case q of SendReq d t m \<Rightarrow> [] | RecvReq t \<Rightarrow> [t]) rs)"

text \<open>The messages for rank \<open>r\<close> with a tag, sender by sender, and matching by tag in order.\<close>

definition tag_queue :: "'m tagged list list \<Rightarrow> rank \<Rightarrow> 64 word \<Rightarrow> 'm list" where
  "tag_queue snds r t = concat (map (\<lambda>xs. map (snd \<circ> snd) (filter (\<lambda>p. fst p = r \<and> fst (snd p) = t) xs)) snds)"

definition tag_exchange :: "'m tagged list list \<Rightarrow> rank \<Rightarrow> 64 word list \<Rightarrow> 'm list res" where
  "tag_exchange snds r tags = ebind (match_recvs (tag_queue snds r) tags) (\<lambda>(ms, q). Inr ms)"

text \<open>At most one sender uses the tag towards \<open>r\<close>: the case in which UCX promises the order.\<close>

definition single_source :: "'m tagged list list \<Rightarrow> rank \<Rightarrow> 64 word \<Rightarrow> bool" where
  "single_source snds r t \<longleftrightarrow>
     (\<forall>i < length snds. \<forall>j < length snds. \<forall>p \<in> set (snds ! i). \<forall>q \<in> set (snds ! j).
        fst p = r \<and> fst (snd p) = t \<and> fst q = r \<and> fst (snd q) = t \<longrightarrow> i = j)"

locale ucx_tagged =
  fixes ucx :: "'m tagged list list \<Rightarrow> rank \<Rightarrow> 64 word list \<Rightarrow> 'm list res"
  assumes ucx_order: "\<forall>t \<in> set tags. single_source snds r t \<Longrightarrow>
    tag_exchange snds r tags = Inr ms \<Longrightarrow> ucx snds r tags = Inr ms"

text \<open>A round of the plain UCX communicator on \<open>N\<close> ranks.\<close>

definition ucx_round ::
  "('m tagged list list \<Rightarrow> rank \<Rightarrow> 64 word list \<Rightarrow> 'm list res) \<Rightarrow> nat \<Rightarrow>
     (rank \<times> 'm) list list \<Rightarrow> rank \<Rightarrow> rank list \<Rightarrow> 'm list res" where
  "ucx_round ucx N snds r srcs =
     ucx (map (\<lambda>s. sends_of (grouped_requests N s (snds ! s) [])) [0..<length snds]) r
       (recv_tags_of (grouped_requests N r ([] :: (rank \<times> 'm) list) srcs))"

abbreviation group_tag :: "nat \<Rightarrow> rank \<Rightarrow> 64 word" where
  "group_tag N s \<equiv> ucx_tag reserved_tag (of_nat N) (of_nat s)"

lemma sends_of_group:
  "sends_of (grouped_requests N s xs []) = map (\<lambda>p. (fst p, group_tag N s, snd p)) xs"
  by (simp add: sends_of_def grouped_requests_def foldl_send MPILike_start_def UCXCommunicator_send_def comp_def)

lemma recv_tags_of_group: "recv_tags_of (grouped_requests N r [] srcs) = map (group_tag N) srcs"
  by (simp add: recv_tags_of_def grouped_requests_def foldl_recv MPILike_start_def UCXCommunicator_recv_def comp_def)

lemma group_tag_inj: "N < 2 ^ 31 \<Longrightarrow> s < N \<Longrightarrow> s' < N \<Longrightarrow> group_tag N s = group_tag N s' \<longleftrightarrow> s = s'"
  by (simp add: ucx_tag_same of_nat_eq32)

lemma tag_queue_ranks:
  assumes N: "length snds = N" and inj: "inj_on tag {..<N}" and s: "s < N"
  shows "tag_queue (map (\<lambda>i. map (\<lambda>p. (fst p, tag i, f (snd p))) (snds ! i)) [0..<N]) r (tag s) =
    map f (msgs_to (snds ! s) r)"
proof -
  have "map (snd \<circ> snd) (filter (\<lambda>p. fst p = r \<and> fst (snd p) = tag s)
      (map (\<lambda>p. (fst p, tag i, f (snd p))) (snds ! i))) = (if i = s then map f (msgs_to (snds ! s) r) else [])"
    if "i < N" for i
  proof -
    have "tag i = tag s \<longleftrightarrow> i = s" using that s inj by (auto simp: inj_on_def)
    then show ?thesis by (auto simp: msgs_to_def filter_map comp_def)
  qed
  then have "tag_queue (map (\<lambda>i. map (\<lambda>p. (fst p, tag i, f (snd p))) (snds ! i)) [0..<N]) r (tag s) =
      concat (map (\<lambda>i. if i = s then map f (msgs_to (snds ! s) r) else []) [0..<N])"
    unfolding tag_queue_def map_map comp_def [of _ "\<lambda>i. map _ _"]
    by (intro arg_cong [where f = concat] map_cong refl) simp
  also have "\<dots> = map f (msgs_to (snds ! s) r)" by (rule concat_single [OF s])
  finally show ?thesis .
qed

lemma tag_queue_group:
  assumes N: "length snds = N" "N < 2 ^ 31" and s: "s < N"
  shows "tag_queue (map (\<lambda>i. map (\<lambda>p. (fst p, group_tag N i, snd p)) (snds ! i)) [0..<N]) r (group_tag N s) =
    msgs_to (snds ! s) r"
  using tag_queue_ranks [OF N(1) _ s, of "group_tag N" "\<lambda>m. m" r] group_tag_inj [OF N(2)]
  by (simp add: inj_on_def)

lemma match_recvs_map:
  assumes "\<forall>x \<in> set xs. q' (f x) = q x" and "inj_on f (set xs)"
  shows "match_recvs q xs = Inr (ms, qr) \<Longrightarrow> \<exists>qr'. match_recvs q' (map f xs) = Inr (ms, qr')"
  using assms
proof (induction xs arbitrary: q q' ms)
  case Nil
  then show ?case by simp
next
  case (Cons x xs)
  from Cons.prems(1) obtain m rest ms' where q: "q x = m # rest" and ms: "ms = m # ms'"
    and rec: "match_recvs (q(x := rest)) xs = Inr (ms', qr)"
    by (cases "q x") (auto simp: res_simps)
  have "\<forall>y \<in> set xs. (q'(f x := rest)) (f y) = (q(x := rest)) y"
    using Cons.prems(2,3) by (auto simp: inj_on_def)
  moreover have "inj_on f (set xs)" using Cons.prems(3) by (auto simp: inj_on_def)
  ultimately obtain qr' where "match_recvs (q'(f x := rest)) (map f xs) = Inr (ms', qr')"
    using Cons.IH [OF rec] by blast
  then show ?case using q ms Cons.prems(2) by simp
qed

text \<open>
  Receives in order imply that all sources are ranks, so the queues of the sources can be
  replaced by the queues of their tags.
\<close>

lemma match_recvs_sources:
  "match_recvs q xs = Inr (ms, qr) \<Longrightarrow> \<forall>x \<in> set xs. q x \<noteq> []"
proof (induction xs arbitrary: q ms)
  case Nil
  then show ?case by simp
next
  case (Cons x xs)
  then obtain m rest ms' where q: "q x = m # rest" and rec: "match_recvs (q(x := rest)) xs = Inr (ms', qr)"
    by (cases "q x") (auto simp: res_simps)
  show ?case
  proof
    fix y assume "y \<in> set (x # xs)"
    then show "q y \<noteq> []" using Cons.IH [OF rec] q by (cases "y = x") auto
  qed
qed

lemma tag_exchange_group:
  assumes N: "length snds = N" "N < 2 ^ 31" and fifo: "fifo_exchange snds r srcs = Inr ms"
  shows "tag_exchange (map (\<lambda>i. map (\<lambda>p. (fst p, group_tag N i, snd p)) (snds ! i)) [0..<N]) r
    (map (group_tag N) srcs) = Inr ms"
proof -
  from fifo obtain qr where m: "match_recvs (incoming_queues snds r) srcs = Inr (ms, qr)"
    by (auto simp: fifo_exchange_def res_simps)
  have lt: "\<forall>s \<in> set srcs. s < N"
    using match_recvs_sources [OF m] N(1) by (auto simp: incoming_queues_def split: if_splits)
  let ?q' = "tag_queue (map (\<lambda>i. map (\<lambda>p. (fst p, group_tag N i, snd p)) (snds ! i)) [0..<N]) r"
  have "\<forall>s \<in> set srcs. ?q' (group_tag N s) = incoming_queues snds r s"
    using lt tag_queue_group [OF N] N(1) by (simp add: incoming_queues_def)
  moreover have inj: "inj_on (group_tag N) (set srcs)"
    using lt group_tag_inj [OF N(2)] by (auto simp: inj_on_def)
  ultimately have "\<exists>qr'. match_recvs ?q' (map (group_tag N) srcs) = Inr (ms, qr')"
    by (intro match_recvs_map [OF _ _ m])
  then show ?thesis by (auto simp: tag_exchange_def)
qed

lemma single_source_group:
  assumes N: "length snds = N" "N < 2 ^ 31"
  shows "single_source (map (\<lambda>i. map (\<lambda>p. (fst p, group_tag N i, snd p)) (snds ! i)) [0..<N]) r t"
  unfolding single_source_def using group_tag_inj [OF N(2)] by auto

context ucx_tagged
begin

lemma ucx_round_transport: "p2p_transport (ucx_round ucx N) okm N True"
proof
  fix snds :: "(rank \<times> 'm) list list" and r srcs ms
  assume "admissible okm N True snds" and "r < N" and fifo: "fifo_exchange snds r srcs = Inr ms"
  then have N: "length snds = N" "N < 2 ^ 31" by (auto simp: admissible_def)
  show "ucx_round ucx N snds r srcs = Inr ms"
    unfolding ucx_round_def sends_of_group recv_tags_of_group N(1)
    by (rule ucx_order) (use single_source_group [OF N] tag_exchange_group [OF N fifo] in simp_all)
qed

end

sublocale ucx_tagged \<subseteq> ucx_comm: p2p_transport "ucx_round ucx N" okm N True for N okm
  by (rule ucx_round_transport)

text \<open>Matching by tag in order is itself an instance of UCX.\<close>

interpretation tagged: ucx_tagged tag_exchange
  by unfold_locales

end
