(* ===== verification/Waiting.thy ===== *)
theory Waiting
  imports Communicator
begin

text \<open>
  Completion of requests in \<open>src/src/communicator.cpp\<close>: \<open>wait\<close> and \<open>waitall\<close> poll the
  requests and let UCX progress until all are complete. The loops end only if UCX
  completes the requests, so they are partial functions: a run that never returns has
  the value \<open>None\<close>. UCX is a parameter: \<open>progress\<close> is one call of
  \<open>ucp_worker_progress\<close> (which also runs the callbacks), \<open>status\<close> is
  \<open>ucp_request_check_status\<close>.
\<close>

section \<open>Status values\<close>

datatype ucs_status = UCS_INPROGRESS | UCS_OK | UCS_ERR int

text \<open>The checking macro: anything but success ends the program with code 1.\<close>

definition UCX_CALL :: "ucs_status \<Rightarrow> unit res" where
  "UCX_CALL st = guard (st = UCS_OK) (Exit 1)"

section \<open>Polling\<close>

text \<open>The loop: test, leave when all is finished, otherwise progress and test again.\<close>

partial_function (option) poll :: "('w \<Rightarrow> 'w) \<Rightarrow> ('w \<Rightarrow> bool res) \<Rightarrow> 'w \<Rightarrow> 'w res option" where
  "poll progress ready w =
     (case ready w of
        Inl e \<Rightarrow> Some (Inl e)
      | Inr b \<Rightarrow> if b then Some (Inr w) else poll progress ready (progress w))"

text \<open>One pass of \<open>waitall\<close> over the handles: null handles are skipped, the first pending one ends the pass.\<close>

fun check_requests :: "('w \<Rightarrow> 'r \<Rightarrow> ucs_status) \<Rightarrow> 'w \<Rightarrow> 'r option list \<Rightarrow> bool res" where
  "check_requests status w [] = Inr True"
| "check_requests status w (None # rs) = check_requests status w rs"
| "check_requests status w (Some q # rs) =
     (if status w q = UCS_INPROGRESS then Inr False
      else ebind (UCX_CALL (status w q)) (\<lambda>u. check_requests status w rs))"

text \<open>Both waits return the worker and the handles they have freed.\<close>

definition UCXCommunicator_wait ::
  "('w \<Rightarrow> 'w) \<Rightarrow> ('w \<Rightarrow> 'r \<Rightarrow> ucs_status) \<Rightarrow> 'w \<Rightarrow> 'r option \<Rightarrow> ('w \<times> 'r list) res option" where
  "UCXCommunicator_wait progress status w request =
     (case request of
        None \<Rightarrow> Some (Inr (w, []))
      | Some q \<Rightarrow>
          map_option (\<lambda>r. ebind r (\<lambda>w'. Inr (w', [q])))
            (poll progress (\<lambda>v. if status v q = UCS_INPROGRESS then Inr False
                                else ebind (UCX_CALL (status v q)) (\<lambda>u. Inr True)) w))"

definition UCXCommunicator_waitall ::
  "('w \<Rightarrow> 'w) \<Rightarrow> ('w \<Rightarrow> 'r \<Rightarrow> ucs_status) \<Rightarrow> 'w \<Rightarrow> 'r option list \<Rightarrow> ('w \<times> 'r list) res option" where
  "UCXCommunicator_waitall progress status w requests =
     map_option (\<lambda>r. ebind r (\<lambda>w'. Inr (w', map the (filter (\<lambda>q. q \<noteq> None) requests))))
       (poll progress (\<lambda>v. check_requests status v requests) w)"

text \<open>
  What the non-blocking calls hand out: a failure ends the program, a send that is complete
  at once has the null handle. \<open>issued\<close> is the status UCX returns for the operation.
\<close>

definition send_handle :: "ucs_status \<Rightarrow> 'r \<Rightarrow> 'r option res" where
  "send_handle st req =
     (case st of UCS_ERR e \<Rightarrow> Inl (Exit 1) | UCS_OK \<Rightarrow> Inr None | UCS_INPROGRESS \<Rightarrow> Inr (Some req))"

definition recv_handle :: "ucs_status \<Rightarrow> 'r \<Rightarrow> 'r option res" where
  "recv_handle st req = (case st of UCS_ERR e \<Rightarrow> Inl (Exit 1) | _ \<Rightarrow> Inr (Some req))"

fun issue_handle :: "('m request \<Rightarrow> ucs_status) \<Rightarrow> 'm request \<Rightarrow> 'm request option res" where
  "issue_handle issued (SendReq dest tag m) = send_handle (issued (SendReq dest tag m)) (SendReq dest tag m)"
| "issue_handle issued (RecvReq tag) = recv_handle (issued (RecvReq tag)) (RecvReq tag)"

text \<open>\<open>MPILikeCommunicator::stop\<close> waits for the handles collected since \<open>start\<close>.\<close>

definition MPILike_stop ::
  "('w \<Rightarrow> 'w) \<Rightarrow> ('w \<Rightarrow> 'm request \<Rightarrow> ucs_status) \<Rightarrow> ('m request \<Rightarrow> ucs_status) \<Rightarrow> 'w \<Rightarrow> 'm ucx_communicator \<Rightarrow>
     ('w \<times> 'm request list) res option" where
  "MPILike_stop progress status issued w c =
     (case emap (issue_handle issued) (pending_requests c) of
        Inl e \<Rightarrow> Some (Inl e)
      | Inr handles \<Rightarrow> UCXCommunicator_waitall progress status w handles)"

text \<open>
  The receive of a message of unknown size: wait until the probe finds it (\<open>probe\<close> gives its
  length), allocate its length, and ask for as many whole elements as it has. The result is
  the worker, the bytes allocated and the element count.
\<close>

definition UCXCommunicator_recv_probe ::
  "('w \<Rightarrow> 'w) \<Rightarrow> ('w \<Rightarrow> 64 word \<Rightarrow> nat option) \<Rightarrow> 'w \<Rightarrow> 'm ucx_communicator \<Rightarrow> nat \<Rightarrow> rank \<Rightarrow> 32 word \<Rightarrow>
     ('w \<times> nat \<times> nat) res option" where
  "UCXCommunicator_recv_probe progress probe w c element_size source tag =
     (let ucx_tag' = ucx_tag tag (of_nat (ucx_size c)) (of_nat source) in
      map_option (\<lambda>r. ebind r (\<lambda>v.
          case probe v ucx_tag' of
            None \<Rightarrow> Inl Unmatched
          | Some len \<Rightarrow> if element_size = 0 then Inl DivideByZero else Inr (v, len, len div element_size)))
        (poll progress (\<lambda>v. Inr (probe v ucx_tag' \<noteq> None)) w))"

section \<open>When polling returns\<close>

text \<open>The moment the loop leaves, if there is one.\<close>

definition leaves_at :: "('w \<Rightarrow> 'w) \<Rightarrow> ('w \<Rightarrow> bool res) \<Rightarrow> 'w \<Rightarrow> nat \<Rightarrow> 'w res \<Rightarrow> bool" where
  "leaves_at progress ready w n r \<longleftrightarrow>
     (\<forall>i < n. ready ((progress ^^ i) w) = Inr False) \<and>
     (case ready ((progress ^^ n) w) of Inl e \<Rightarrow> r = Inl e | Inr b \<Rightarrow> b \<and> r = Inr ((progress ^^ n) w))"

lemma poll_leaves: "leaves_at progress ready w n r \<Longrightarrow> poll progress ready w = Some r"
proof (induction n arbitrary: w)
  case 0
  then show ?case by (subst poll.simps) (auto simp: leaves_at_def split: sum.splits)
next
  case (Suc n)
  then have "ready w = Inr False" by (auto simp: leaves_at_def)
  moreover have "leaves_at progress ready (progress w) n r"
    unfolding leaves_at_def
  proof
    show "\<forall>i<n. ready ((progress ^^ i) (progress w)) = Inr False"
    proof (intro allI impI)
      fix i assume "i < n"
      then have "ready ((progress ^^ Suc i) w) = Inr False" using Suc.prems unfolding leaves_at_def by blast
      then show "ready ((progress ^^ i) (progress w)) = Inr False" by (simp add: funpow_swap1)
    qed
    show "case ready ((progress ^^ n) (progress w)) of Inl e \<Rightarrow> r = Inl e
      | Inr b \<Rightarrow> b \<and> r = Inr ((progress ^^ n) (progress w))"
      using Suc.prems unfolding leaves_at_def funpow_Suc_right comp_apply by blast
  qed
  ultimately show ?case using Suc.IH by (subst poll.simps) simp
qed

lemma leaves_poll: "poll progress ready w = Some r \<Longrightarrow> \<exists>n. leaves_at progress ready w n r"
proof (induction rule: poll.raw_induct [rotated, consumes 1, case_names step])
  case (step rec progress ready w r)
  show ?case
  proof (cases "ready w = Inr False")
    case False
    then show ?thesis
      using step(2) by (intro exI [of _ 0]) (auto simp: leaves_at_def split: sum.splits if_splits)
  next
    case True
    then have "rec progress ready (progress w) = Some r" using step(2) by simp
    then obtain n where n: "leaves_at progress ready (progress w) n r" using step(1) by blast
    have "leaves_at progress ready w (Suc n) r"
      unfolding leaves_at_def
    proof
      show "\<forall>i<Suc n. ready ((progress ^^ i) w) = Inr False"
      proof (intro allI impI)
        fix i assume "i < Suc n"
        then show "ready ((progress ^^ i) w) = Inr False"
          using True n by (cases i) (auto simp: leaves_at_def funpow_swap1)
      qed
      show "case ready ((progress ^^ Suc n) w) of Inl e \<Rightarrow> r = Inl e
        | Inr b \<Rightarrow> b \<and> r = Inr ((progress ^^ Suc n) w)"
        using n unfolding leaves_at_def funpow_Suc_right comp_apply by blast
    qed
    then show ?thesis by blast
  qed
qed

lemma poll_None_iff: "poll progress ready w = None \<longleftrightarrow> (\<forall>i. ready ((progress ^^ i) w) = Inr False)"
proof
  assume none: "poll progress ready w = None"
  show "\<forall>i. ready ((progress ^^ i) w) = Inr False"
  proof (rule ccontr)
    assume "\<not> (\<forall>i. ready ((progress ^^ i) w) = Inr False)"
    then obtain k where "ready ((progress ^^ k) w) \<noteq> Inr False" by blast
    then obtain n where n: "ready ((progress ^^ n) w) \<noteq> Inr False"
      and least: "\<forall>i<n. ready ((progress ^^ i) w) = Inr False"
      using exists_least_iff [of "\<lambda>k. ready ((progress ^^ k) w) \<noteq> Inr False"] by blast
    have "\<exists>r. leaves_at progress ready w n r"
    proof (cases "ready ((progress ^^ n) w)")
      case (Inl e)
      then show ?thesis using least by (auto simp: leaves_at_def)
    next
      case (Inr b)
      then show ?thesis using least n by (auto simp: leaves_at_def)
    qed
    then show False using poll_leaves none by force
  qed
next
  assume never: "\<forall>i. ready ((progress ^^ i) w) = Inr False"
  then have "\<not> leaves_at progress ready w n r" for n r by (simp add: leaves_at_def)
  then show "poll progress ready w = None"
    using leaves_poll [of progress ready w] by (cases "poll progress ready w") blast+
qed

lemma check_requests_True: "check_requests status w rs = Inr True \<longleftrightarrow> (\<forall>q. Some q \<in> set rs \<longrightarrow> status w q = UCS_OK)"
proof (induction rs)
  case (Cons r rs)
  show ?case
  proof (cases r)
    case (Some q)
    then show ?thesis using Cons.IH by (cases "status w q") (auto simp: UCX_CALL_def guard_def)
  qed (use Cons.IH in auto)
qed simp

lemma check_requests_no_error:
  "\<forall>q e. Some q \<in> set rs \<longrightarrow> status w q \<noteq> UCS_ERR e \<Longrightarrow>
     check_requests status w rs = Inr (\<forall>q. Some q \<in> set rs \<longrightarrow> status w q = UCS_OK)"
proof (induction rs)
  case (Cons r rs)
  have ih: "check_requests status w rs = Inr (\<forall>q. Some q \<in> set rs \<longrightarrow> status w q = UCS_OK)"
    using Cons.prems by (intro Cons.IH) auto
  show ?case
  proof (cases r)
    case (Some q)
    then show ?thesis using ih Cons.prems by (cases "status w q") (auto simp: UCX_CALL_def)
  qed (use ih in auto)
qed simp

text \<open>The receive returns if and only if a message for the tag arrives.\<close>

lemma recv_probe_returns:
  assumes "0 < element_size"
  shows "(\<exists>res. UCXCommunicator_recv_probe progress probe w c element_size source tag = Some res) \<longleftrightarrow>
    (\<exists>n. probe ((progress ^^ n) w) (ucx_tag tag (of_nat (ucx_size c)) (of_nat source)) \<noteq> None)"
proof -
  let ?t = "ucx_tag tag (of_nat (ucx_size c)) (of_nat source)"
  have "poll progress (\<lambda>v. Inr (probe v ?t \<noteq> None)) w \<noteq> None \<longleftrightarrow> (\<exists>n. probe ((progress ^^ n) w) ?t \<noteq> None)"
    unfolding poll_None_iff by auto
  then show ?thesis by (auto simp: UCXCommunicator_recv_probe_def Let_def)
qed

lemma recv_probe_counts:
  assumes "UCXCommunicator_recv_probe progress probe w c element_size source tag = Some (Inr (v, len, cnt))"
    and "element_size dvd len"
  shows "cnt * element_size = len"
  using assms by (auto simp: UCXCommunicator_recv_probe_def Let_def res_simps split: option.splits if_splits)

end
