(* ===== verification/Buffer_Cache.thy ===== *)
theory Buffer_Cache
  imports Waiting "HOL-Library.Multiset"
begin

text \<open>
  The pool of communication buffers of \<open>UCXBufferCommunicator\<close>: every send and receive
  takes one, \<open>wait\<close> and \<open>waitall\<close> give it back when the request has completed, and
  \<open>finalize\<close> releases the memory of as many buffers as are in the queue.
\<close>

section \<open>The queue of buffers\<close>

record buffer_pool =
  comm_buffer_size :: int
  cache_start_addr :: int
  buffer_cache :: "int list"

text \<open>\<open>setup_cache\<close>, with the address and the size of the allocation it makes.\<close>

definition setup_cache :: "int \<Rightarrow> nat \<Rightarrow> int \<Rightarrow> buffer_pool \<times> (int \<times> int)" where
  "setup_cache addr ncaches buffer_size =
     (\<lparr>comm_buffer_size = buffer_size, cache_start_addr = addr,
       buffer_cache = map (\<lambda>icache. addr + int icache * buffer_size) [0..<ncaches]\<rparr>,
      (addr, buffer_size * int ncaches))"

definition take_comm_buffer :: "buffer_pool \<Rightarrow> (int \<times> buffer_pool) res" where
  "take_comm_buffer st =
     (case buffer_cache st of
        [] \<Rightarrow> Inl NoBufferedCache
      | b # bs \<Rightarrow> Inr (b, st\<lparr>buffer_cache := bs\<rparr>))"

text \<open>A request handle: its completion flag, its buffer and who allocated the handle.\<close>

record comm_info =
  completed :: bool
  info_buffer :: int
  custom_allocated :: bool

text \<open>A send or a receive; \<open>inline\<close> says whether UCX completed the count message at once.\<close>

definition post_operation :: "buffer_pool \<Rightarrow> bool \<Rightarrow> (comm_info \<times> buffer_pool) res" where
  "post_operation st inl =
     ebind (take_comm_buffer st) (\<lambda>(b, st').
       Inr (\<lparr>completed = False, info_buffer = b, custom_allocated = inl\<rparr>, st'))"

fun post_operations :: "buffer_pool \<Rightarrow> bool list \<Rightarrow> (comm_info list \<times> buffer_pool) res" where
  "post_operations st [] = Inr ([], st)"
| "post_operations st (op # ops) =
     ebind (post_operation st op) (\<lambda>(h, st').
     ebind (post_operations st' ops) (\<lambda>(hs, st''). Inr (h # hs, st'')))"

text \<open>
  \<open>waitall\<close>: once all requests have completed their buffers go to the end of the queue;
  the second component tells which handles are freed with \<open>free\<close>.
\<close>

definition release_buffers :: "buffer_pool \<Rightarrow> comm_info option list \<Rightarrow> buffer_pool \<times> bool list" where
  "release_buffers st requests =
     (let infos = map the (filter (\<lambda>q. q \<noteq> None) requests) in
      (st\<lparr>buffer_cache := buffer_cache st @ map info_buffer infos\<rparr>, map custom_allocated infos))"

definition UCXBufferCommunicator_waitall ::
  "('w \<Rightarrow> 'w) \<Rightarrow> ('w \<Rightarrow> nat \<Rightarrow> bool) \<Rightarrow> 'w \<Rightarrow> buffer_pool \<Rightarrow> comm_info option list \<Rightarrow>
     ('w \<times> buffer_pool \<times> bool list) res option" where
  "UCXBufferCommunicator_waitall progress complete w st requests =
     map_option (\<lambda>r. ebind r (\<lambda>w'. Inr (w', release_buffers st requests)))
       (poll progress (\<lambda>v. Inr (\<forall>i < length requests. requests ! i \<noteq> None \<longrightarrow> complete v i)) w)"

definition UCXBufferCommunicator_wait ::
  "('w \<Rightarrow> 'w) \<Rightarrow> ('w \<Rightarrow> bool) \<Rightarrow> 'w \<Rightarrow> buffer_pool \<Rightarrow> comm_info option \<Rightarrow>
     ('w \<times> buffer_pool \<times> bool list) res option" where
  "UCXBufferCommunicator_wait progress complete w st request =
     (case request of
        None \<Rightarrow> Some (Inr (w, st, []))
      | Some info \<Rightarrow>
          map_option (\<lambda>r. ebind r (\<lambda>w'. Inr (w', release_buffers st [Some info])))
            (poll progress (\<lambda>v. Inr (complete v)) w))"

text \<open>What \<open>finalize\<close> hands to the memory resource: an address and a size.\<close>

definition UCXBufferCommunicator_finalize :: "buffer_pool \<Rightarrow> int \<times> int" where
  "UCXBufferCommunicator_finalize st =
     (cache_start_addr st, comm_buffer_size st * int (length (buffer_cache st)))"

text \<open>One \<open>start\<close>/\<open>stop\<close> round of operations whose requests all complete.\<close>

definition pool_round :: "buffer_pool \<Rightarrow> bool list \<Rightarrow> buffer_pool res" where
  "pool_round st ops =
     ebind (post_operations st ops) (\<lambda>(hs, st'). Inr (fst (release_buffers st' (map Some hs))))"

section \<open>Lemmas\<close>

lemma div_less_int: "0 < p \<Longrightarrow> a div p < c \<longleftrightarrow> a < c * (p :: int)"
proof -
  assume p: "0 < p"
  have a: "a = p * (a div p) + a mod p" "0 \<le> a mod p" "a mod p < p" using p by simp_all
  show ?thesis
  proof
    assume "a div p < c"
    then have "p * (a div p + 1) \<le> p * c" using p by (intro mult_left_mono) auto
    then have "p * (a div p) + p \<le> c * p" by (simp add: algebra_simps)
    then show "a < c * p" using a by linarith
  next
    assume lt: "a < c * p"
    show "a div p < c"
    proof (rule ccontr)
      assume "\<not> a div p < c"
      then have "p * c \<le> p * (a div p)" using p by (intro mult_left_mono) auto
      then show False using a lt mult.commute [of c p] by linarith
    qed
  qed
qed

lemma post_operations_ok:
  "length ops \<le> length (buffer_cache st) \<Longrightarrow>
     \<exists>hs. post_operations st ops = Inr (hs, st\<lparr>buffer_cache := drop (length ops) (buffer_cache st)\<rparr>) \<and>
       map info_buffer hs = take (length ops) (buffer_cache st) \<and> map custom_allocated hs = ops"
proof (induction ops arbitrary: st)
  case (Cons op ops)
  then obtain b bs where c: "buffer_cache st = b # bs" by (cases "buffer_cache st") auto
  let ?st = "st\<lparr>buffer_cache := bs\<rparr>"
  obtain hs where "post_operations ?st ops = Inr (hs, ?st\<lparr>buffer_cache := drop (length ops) bs\<rparr>)"
    "map info_buffer hs = take (length ops) bs" "map custom_allocated hs = ops"
    using Cons.IH [of ?st] Cons.prems c by auto
  then show ?case using c by (simp add: post_operation_def take_comm_buffer_def)
qed simp

lemma post_operations_empty:
  "length (buffer_cache st) < length ops \<Longrightarrow> post_operations st ops = Inl NoBufferedCache"
proof (induction ops arbitrary: st)
  case (Cons op ops)
  show ?case
  proof (cases "buffer_cache st")
    case Nil
    then show ?thesis by (simp add: post_operation_def take_comm_buffer_def)
  next
    case (Cons b bs)
    then show ?thesis using Cons.IH [of "st\<lparr>buffer_cache := bs\<rparr>"] Cons.prems
      by (simp add: post_operation_def take_comm_buffer_def)
  qed
qed simp

lemma filter_Some: "map the (filter (\<lambda>q. q \<noteq> None) (map Some xs)) = xs"
  by (induction xs) auto

text \<open>A round rotates the queue: nothing is lost and no buffer is in it twice.\<close>

lemma pool_round_ok:
  assumes "length ops \<le> length (buffer_cache st)"
  shows "pool_round st ops =
    Inr (st\<lparr>buffer_cache := drop (length ops) (buffer_cache st) @ take (length ops) (buffer_cache st)\<rparr>)"
  using post_operations_ok [OF assms] filter_Some by (auto simp: pool_round_def release_buffers_def Let_def)

lemma pool_rounds_ok:
  assumes "\<forall>ops \<in> set rounds. length ops \<le> length (buffer_cache st)"
  shows "\<exists>c. efold pool_round st rounds = Inr (st\<lparr>buffer_cache := c\<rparr>) \<and> mset c = mset (buffer_cache st)"
  using assms
proof (induction rounds arbitrary: st)
  case Nil
  then show ?case by (auto intro: exI [of _ "buffer_cache st"])
next
  case (Cons ops rounds)
  let ?c = "drop (length ops) (buffer_cache st) @ take (length ops) (buffer_cache st)"
  have m: "mset ?c = mset (buffer_cache st)"
    by (metis append_take_drop_id mset_append union_commute)
  then have "length ?c = length (buffer_cache st)" by (metis size_mset)
  then obtain c where "efold pool_round (st\<lparr>buffer_cache := ?c\<rparr>) rounds = Inr (st\<lparr>buffer_cache := c\<rparr>)"
    and "mset c = mset ?c"
    using Cons.IH [of "st\<lparr>buffer_cache := ?c\<rparr>"] Cons.prems by auto
  then show ?case using m Cons.prems by (simp add: pool_round_ok) blast
qed

end
