(* ===== verification/Buffer_Communicator.thy ===== *)
theory Buffer_Communicator
  imports Buffer_Cache
begin

text \<open>
  The class \<open>UCXBufferCommunicator\<close>: a message goes through a registered communication
  buffer, a count first and then batches that fit the buffer. Sending and receiving are
  callbacks that UCX runs when a batch has been transferred; their state is in the request
  handle (\<open>SendInfo\<close>, \<open>RecvInfo\<close>). The number of a batch is unbounded here; in the program
  it is an \<open>int\<close>, which is enough for \<open>2 ^ 31\<close> batches of a message.
\<close>

section \<open>The messages of a transfer\<close>

text \<open>What travels under the tag of a transfer: the number of elements, then the batches.\<close>

datatype wire = Count int | Batch "byte list"

record send_info =
  s_buffer :: "byte list"
  s_count :: int
  s_element_size :: int
  s_dest :: rank
  s_user_tag :: "32 word"
  s_ibatch :: int

datatype send_state = Sent | SendPending send_info

text \<open>
  The body of \<open>send_handler\<close> under the answers of UCX: \<open>True\<close> when a send completes at
  once and the loop goes on, otherwise (and when the list is used up) the handler leaves
  the rest to the callback of the new request. Copies of a batch that leave the user
  buffer are the failure \<open>OutOfBounds\<close>.
\<close>

fun send_handler :: "int \<Rightarrow> send_info \<Rightarrow> bool list \<Rightarrow> (wire list \<times> send_state) res" where
  "send_handler cbs info replies =
     (if s_element_size info = 0 then Inl DivideByZero else
      let nelements_per_batch = cbs div s_element_size info;
          nelements_remaining = s_count info - nelements_per_batch * s_ibatch info in
      if nelements_remaining \<le> 0 then Inr ([], Sent)
      else
        let nelements_current_batch = min nelements_remaining nelements_per_batch;
            nelements_sent = s_ibatch info * nelements_per_batch;
            info' = info\<lparr>s_ibatch := s_ibatch info + 1\<rparr> in
        ebind (read_mem (s_buffer info) (nelements_sent * s_element_size info)
                 (nelements_current_batch * s_element_size info)) (\<lambda>bs.
        case replies of
          True # rest \<Rightarrow>
            ebind (send_handler cbs info' rest) (\<lambda>(ms, st). Inr (Batch bs # ms, st))
        | _ \<Rightarrow> Inr ([Batch bs], SendPending info')))"

declare send_handler.simps [simp del]

text \<open>The run of a transfer: the handler is called again for as long as batches are pending.\<close>

fun run_send :: "int \<Rightarrow> send_info \<Rightarrow> bool list list \<Rightarrow> (wire list \<times> send_state) res" where
  "run_send cbs info [] = Inr ([], SendPending info)"
| "run_send cbs info (replies # calls) =
     ebind (send_handler cbs info replies) (\<lambda>(ms, st).
       case st of
         Sent \<Rightarrow> Inr (ms, Sent)
       | SendPending info' \<Rightarrow> ebind (run_send cbs info' calls) (\<lambda>(ms', st'). Inr (ms @ ms', st')))"

text \<open>\<open>UCXBufferCommunicator::send\<close>: the count, then the first call of the handler.\<close>

definition initial_send :: "byte list \<Rightarrow> int \<Rightarrow> int \<Rightarrow> rank \<Rightarrow> 32 word \<Rightarrow> send_info" where
  "initial_send buf cnt element_size dest tag =
     \<lparr>s_buffer = buf, s_count = cnt, s_element_size = element_size, s_dest = dest,
      s_user_tag = tag, s_ibatch = 0\<rparr>"

definition buffer_send ::
  "int \<Rightarrow> byte list \<Rightarrow> int \<Rightarrow> int \<Rightarrow> rank \<Rightarrow> 32 word \<Rightarrow> bool list list \<Rightarrow> (wire list \<times> send_state) res" where
  "buffer_send cbs buf cnt element_size dest tag calls =
     ebind (run_send cbs (initial_send buf cnt element_size dest tag) calls)
       (\<lambda>(ms, st). Inr (Count cnt # ms, st))"

section \<open>Receiving\<close>

record recv_info =
  r_buffer :: "byte list option"
  r_comm_buffer :: "byte list"
  r_count :: int
  r_element_size :: int
  r_source :: rank
  r_user_tag :: "32 word"
  r_ibatch :: int

text \<open>Received, or waiting for a batch of at most so many bytes.\<close>

datatype recv_state = Received "byte list option" | RecvPending recv_info int

definition recv_handler :: "int \<Rightarrow> recv_info \<Rightarrow> recv_state res" where
  "recv_handler cbs info =
     (if r_element_size info = 0 then Inl DivideByZero else
      let es = r_element_size info; nelements_per_batch = cbs div es in
      ebind (case r_buffer info of
               Some m \<Rightarrow> Inr (Some m)
             | None \<Rightarrow> if r_count info > 0
                       then ebind (guard (r_ibatch info = 0) AssertFailed)
                              (\<lambda>u. Inr (Some (replicate (nat (r_count info * es)) 0)))
                       else Inr None) (\<lambda>buf.
      ebind (if r_ibatch info > 0
             then let nelement_copied = nelements_per_batch * (r_ibatch info - 1);
                      nelements_copy_batch = min (r_count info - nelement_copied) nelements_per_batch in
                  ebind (read_mem (r_comm_buffer info) 0 (nelements_copy_batch * es)) (\<lambda>bs.
                  case buf of
                    None \<Rightarrow> Inl OutOfBounds
                  | Some m \<Rightarrow> ebind (write_mem m (nelement_copied * es) bs) (\<lambda>m'. Inr (Some m')))
             else Inr buf) (\<lambda>buf'.
      let nelement_recved = nelements_per_batch * r_ibatch info;
          nelements_current_batch = min (r_count info - nelement_recved) nelements_per_batch in
      if nelements_current_batch > 0
      then Inr (RecvPending (info\<lparr>r_buffer := buf', r_ibatch := r_ibatch info + 1\<rparr>)
                  (nelements_current_batch * es))
      else Inr (Received buf'))))"

text \<open>A batch arrives in the communication buffer; UCX reports a longer one as truncated.\<close>

definition batch_arrives :: "recv_info \<Rightarrow> int \<Rightarrow> byte list \<Rightarrow> recv_info res" where
  "batch_arrives info posted bs =
     (if int (length bs) > posted then Inl SizeMismatch
      else ebind (write_mem (r_comm_buffer info) 0 bs) (\<lambda>m. Inr (info\<lparr>r_comm_buffer := m\<rparr>)))"

text \<open>
  \<open>recv_helper\<close> on the stream of messages that arrive under the tag of the source: the
  count, then as many batches as the handler posts receives for.
\<close>

fun run_recv :: "int \<Rightarrow> recv_state \<Rightarrow> wire list \<Rightarrow> (byte list option \<times> wire list) res" where
  "run_recv cbs (Received buf) ws = Inr (buf, ws)"
| "run_recv cbs (RecvPending info posted) [] = Inl Unmatched"
| "run_recv cbs (RecvPending info posted) (Count n # ws) = Inl SizeMismatch"
| "run_recv cbs (RecvPending info posted) (Batch bs # ws) =
     ebind (batch_arrives info posted bs) (\<lambda>info'.
     ebind (recv_handler cbs info') (\<lambda>st. run_recv cbs st ws))"

definition recv_helper ::
  "int \<Rightarrow> byte list option \<Rightarrow> int \<Rightarrow> rank \<Rightarrow> 32 word \<Rightarrow> wire list \<Rightarrow> (byte list option \<times> wire list) res" where
  "recv_helper cbs buf element_size source tag ws =
     (case ws of
        Count n # rest \<Rightarrow>
          ebind (recv_handler cbs
                   \<lparr>r_buffer = buf, r_comm_buffer = replicate (nat cbs) 0, r_count = n,
                    r_element_size = element_size, r_source = source, r_user_tag = tag, r_ibatch = 0\<rparr>)
            (\<lambda>st. run_recv cbs st rest)
      | Batch bs # rest \<Rightarrow> Inl SizeMismatch
      | [] \<Rightarrow> Inl Unmatched)"

section \<open>The batches of a buffer\<close>

text \<open>
  A transfer in its contract: elements of positive size that fit the communication buffer.
  \<open>n_batches\<close> is the number of batches, \<open>batch k\<close> the bytes of batch \<open>k\<close>.
\<close>

definition transfer_ok :: "int \<Rightarrow> byte list \<Rightarrow> int \<Rightarrow> int \<Rightarrow> bool" where
  "transfer_ok cbs data cnt es \<longleftrightarrow> 0 < es \<and> es \<le> cbs \<and> 0 \<le> cnt \<and> int (length data) = cnt * es"

definition n_batches :: "int \<Rightarrow> int \<Rightarrow> int \<Rightarrow> nat" where
  "n_batches cbs cnt es = nat ((cnt + cbs div es - 1) div (cbs div es))"

definition batch_start :: "int \<Rightarrow> int \<Rightarrow> int \<Rightarrow> nat \<Rightarrow> int" where
  "batch_start cbs cnt es k = min cnt (cbs div es * int k) * es"

definition batch :: "int \<Rightarrow> byte list \<Rightarrow> int \<Rightarrow> int \<Rightarrow> nat \<Rightarrow> byte list" where
  "batch cbs data cnt es k = subrange data (batch_start cbs cnt es k) (batch_start cbs cnt es (Suc k))"

lemma per_batch_pos: "transfer_ok cbs data cnt es \<Longrightarrow> 0 < cbs div es"
  by (simp add: transfer_ok_def pos_imp_zdiv_pos_iff)

lemma batches_left:
  assumes "transfer_ok cbs data cnt es"
  shows "cnt - cbs div es * int k \<le> 0 \<longleftrightarrow> n_batches cbs cnt es \<le> k"
proof -
  let ?p = "cbs div es"
  note p = per_batch_pos [OF assms]
  have "n_batches cbs cnt es \<le> k \<longleftrightarrow> (cnt + ?p - 1) div ?p < int k + 1"
    by (auto simp: n_batches_def nat_le_iff)
  also have "\<dots> \<longleftrightarrow> cnt + ?p - 1 < (int k + 1) * ?p"
    by (rule div_less_int [OF p])
  also have "\<dots> \<longleftrightarrow> cnt \<le> ?p * int k"
    by (auto simp: algebra_simps)
  finally show ?thesis by auto
qed

lemma n_batches_le: "transfer_ok cbs data cnt es \<Longrightarrow> n_batches cbs cnt es \<le> nat cnt"
proof -
  assume ok: "transfer_ok cbs data cnt es"
  have "1 \<le> cbs div es" "0 \<le> cnt" using per_batch_pos [OF ok] ok by (auto simp: transfer_ok_def)
  then have "cnt \<le> cbs div es * cnt"
    using mult_right_mono [of 1 "cbs div es" cnt] by simp
  then show ?thesis
    using batches_left [OF ok, of "nat cnt"] \<open>0 \<le> cnt\<close> by simp
qed

lemma batch_start_bounds:
  assumes "transfer_ok cbs data cnt es"
  shows "0 \<le> batch_start cbs cnt es k" and "batch_start cbs cnt es k \<le> batch_start cbs cnt es (Suc k)"
    and "batch_start cbs cnt es k \<le> int (length data)"
proof -
  note p = per_batch_pos [OF assms]
  have d: "0 < es" "0 \<le> cnt" "int (length data) = cnt * es" using assms by (auto simp: transfer_ok_def)
  show "0 \<le> batch_start cbs cnt es k" using p d by (simp add: batch_start_def)
  have "cbs div es * int k \<le> cbs div es * int (Suc k)" using p by simp
  then show "batch_start cbs cnt es k \<le> batch_start cbs cnt es (Suc k)"
    unfolding batch_start_def using d by (intro mult_right_mono) auto
  show "batch_start cbs cnt es k \<le> int (length data)"
    unfolding batch_start_def d(3) using d by (intro mult_right_mono) auto
qed

lemma length_batch:
  assumes "transfer_ok cbs data cnt es"
  shows "int (length (batch cbs data cnt es k)) = batch_start cbs cnt es (Suc k) - batch_start cbs cnt es k"
  using batch_start_bounds [OF assms] by (simp add: batch_def offset_simps)

lemma batch_size:
  assumes "transfer_ok cbs data cnt es" and "k < n_batches cbs cnt es"
  shows "batch_start cbs cnt es (Suc k) - batch_start cbs cnt es k = min (cnt - cbs div es * int k) (cbs div es) * es"
    and "batch_start cbs cnt es k = cbs div es * int k * es"
proof -
  have lt: "cbs div es * int k < cnt" using batches_left [OF assms(1), of k] assms(2) by simp
  have d: "min cnt (cbs div es * int (Suc k)) = cbs div es * int k + min (cnt - cbs div es * int k) (cbs div es)"
    by (simp add: distrib_left min_def)
  have m: "min cnt (cbs div es * int k) = cbs div es * int k" using lt by simp
  then show "batch_start cbs cnt es k = cbs div es * int k * es" by (simp only: batch_start_def)
  show "batch_start cbs cnt es (Suc k) - batch_start cbs cnt es k = min (cnt - cbs div es * int k) (cbs div es) * es"
    by (simp only: batch_start_def d m) (simp add: algebra_simps)
qed

lemma batch_start_last:
  assumes "transfer_ok cbs data cnt es"
  shows "batch_start cbs cnt es (n_batches cbs cnt es) = int (length data)"
  using batches_left [OF assms, of "n_batches cbs cnt es"] assms by (simp add: batch_start_def transfer_ok_def)

section \<open>Sending\<close>

abbreviation batches :: "int \<Rightarrow> byte list \<Rightarrow> int \<Rightarrow> int \<Rightarrow> nat \<Rightarrow> nat \<Rightarrow> wire list" where
  "batches cbs data cnt es k m \<equiv> map (\<lambda>i. Batch (batch cbs data cnt es i)) [k..<m]"

abbreviation sending :: "send_info \<Rightarrow> byte list \<Rightarrow> int \<Rightarrow> int \<Rightarrow> nat \<Rightarrow> bool" where
  "sending info data cnt es k \<equiv>
     s_buffer info = data \<and> s_count info = cnt \<and> s_element_size info = es \<and> s_ibatch info = int k"

lemma send_handler_done:
  assumes "transfer_ok cbs data cnt es" and "sending info data cnt es k" and "n_batches cbs cnt es \<le> k"
  shows "send_handler cbs info replies = Inr ([], Sent)"
proof -
  have "cnt - cbs div es * int k \<le> 0" using batches_left [OF assms(1)] assms(3) by blast
  moreover have "es \<noteq> 0" using assms(1) by (simp add: transfer_ok_def)
  ultimately show ?thesis by (subst send_handler.simps) (use assms(2) in \<open>simp add: Let_def\<close>)
qed

lemma send_handler_batch:
  assumes ok: "transfer_ok cbs data cnt es" and info: "sending info data cnt es k"
    and k: "k < n_batches cbs cnt es"
  shows "send_handler cbs info replies =
    (case replies of
       True # rest \<Rightarrow> ebind (send_handler cbs (info\<lparr>s_ibatch := int (Suc k)\<rparr>) rest)
                        (\<lambda>(ms, st). Inr (Batch (batch cbs data cnt es k) # ms, st))
     | _ \<Rightarrow> Inr ([Batch (batch cbs data cnt es k)], SendPending (info\<lparr>s_ibatch := int (Suc k)\<rparr>)))"
proof -
  have left: "\<not> cnt - cbs div es * int k \<le> 0" using batches_left [OF ok, of k] k by simp
  note b = batch_start_bounds [OF ok]
  have "read_mem data (batch_start cbs cnt es k) (batch_start cbs cnt es (Suc k) - batch_start cbs cnt es k)
      = Inr (batch cbs data cnt es k)"
    using b(1) [of k] b(2) [of k] b(3) [of "Suc k"] by (simp add: batch_def)
  then have rd: "read_mem data (int k * (cbs div es) * es) (min (cnt - cbs div es * int k) (cbs div es) * es)
      = Inr (batch cbs data cnt es k)"
    by (simp only: batch_size(1) [OF ok k]) (simp only: batch_size(2) [OF ok k] ac_simps)
  have "es \<noteq> 0" using ok by (simp add: transfer_ok_def)
  then show ?thesis
    by (subst send_handler.simps) (use info left rd in \<open>simp add: Let_def add.commute split: list.split bool.split\<close>)
qed

text \<open>A call of the handler sends the next batches and stops where it leaves off.\<close>

lemma send_handler_ok:
  assumes ok: "transfer_ok cbs data cnt es" and "sending info data cnt es k" and "k < n_batches cbs cnt es"
  shows "\<exists>m st. send_handler cbs info replies = Inr (batches cbs data cnt es k m, st) \<and>
    k < m \<and> m \<le> n_batches cbs cnt es \<and>
    (case st of Sent \<Rightarrow> m = n_batches cbs cnt es | SendPending info' \<Rightarrow> sending info' data cnt es m)"
  using assms(2,3)
proof (induction replies arbitrary: info k)
  case Nil
  show ?case
    by (rule exI [of _ "Suc k"], rule exI [of _ "SendPending (info\<lparr>s_ibatch := int (Suc k)\<rparr>)"])
      (use Nil.prems send_handler_batch [OF ok Nil.prems, of "[]"] in simp)
next
  case (Cons rep rest)
  let ?info = "info\<lparr>s_ibatch := int (Suc k)\<rparr>"
  have s: "sending ?info data cnt es (Suc k)" using Cons.prems(1) by simp
  have b: "batches cbs data cnt es k m = Batch (batch cbs data cnt es k) # batches cbs data cnt es (Suc k) m"
    if "k < m" for m using that by (simp add: upt_conv_Cons)
  show ?case
  proof (cases rep)
    case False
    show ?thesis
      by (rule exI [of _ "Suc k"], rule exI [of _ "SendPending ?info"])
        (use Cons.prems False send_handler_batch [OF ok Cons.prems, of "rep # rest"] in simp)
  next
    case True
    show ?thesis
    proof (cases "Suc k < n_batches cbs cnt es")
      case more: True
      obtain m st where ih: "send_handler cbs ?info rest = Inr (batches cbs data cnt es (Suc k) m, st)"
        and m: "Suc k < m" "m \<le> n_batches cbs cnt es"
        and st: "case st of Sent \<Rightarrow> m = n_batches cbs cnt es | SendPending info' \<Rightarrow> sending info' data cnt es m"
        using Cons.IH [OF s more] by blast
      have "send_handler cbs info (rep # rest) = Inr (batches cbs data cnt es k m, st)"
        using True ih m b [of m] by (simp add: send_handler_batch [OF ok Cons.prems])
      then show ?thesis using m st Suc_lessD by blast
    next
      case False
      then have e: "n_batches cbs cnt es = Suc k" using Cons.prems(2) by simp
      have "send_handler cbs info (rep # rest) = Inr (batches cbs data cnt es k (Suc k), Sent)"
        using True send_handler_done [OF ok s, of rest] e by (simp add: send_handler_batch [OF ok Cons.prems])
      then show ?thesis using e by (intro exI [of _ "Suc k"] exI [of _ Sent]) simp
    qed
  qed
qed

text \<open>
  The whole run: with one call per batch and one more it has sent every batch once and in
  order, however UCX answers; with fewer calls it has sent a part of them.
\<close>

lemma run_send_ok:
  assumes ok: "transfer_ok cbs data cnt es" and "sending info data cnt es k" and "k \<le> n_batches cbs cnt es"
    and "n_batches cbs cnt es - k < length calls"
  shows "run_send cbs info calls = Inr (batches cbs data cnt es k (n_batches cbs cnt es), Sent)"
  using assms(2-4)
proof (induction calls arbitrary: info k)
  case Nil
  then show ?case by simp
next
  case (Cons c calls)
  show ?case
  proof (cases "k = n_batches cbs cnt es")
    case True
    then show ?thesis using send_handler_done [OF ok Cons.prems(1)] by simp
  next
    case False
    then have k: "k < n_batches cbs cnt es" using Cons.prems(2) by simp
    obtain m st where h: "send_handler cbs info c = Inr (batches cbs data cnt es k m, st)"
      and m: "k < m" "m \<le> n_batches cbs cnt es"
      and st: "case st of Sent \<Rightarrow> m = n_batches cbs cnt es | SendPending info' \<Rightarrow> sending info' data cnt es m"
      using send_handler_ok [OF ok Cons.prems(1) k] by blast
    show ?thesis
    proof (cases st)
      case Sent
      then show ?thesis using h st by simp
    next
      case (SendPending info')
      then have "run_send cbs info' calls = Inr (batches cbs data cnt es m (n_batches cbs cnt es), Sent)"
        using Cons.IH [of info' m] Cons.prems(3) m st by simp
      moreover have "batches cbs data cnt es k m @ batches cbs data cnt es m (n_batches cbs cnt es) =
          batches cbs data cnt es k (n_batches cbs cnt es)"
        using m upt_add_eq_append [of k m "n_batches cbs cnt es - m"] by simp
      ultimately show ?thesis using SendPending h by simp
    qed
  qed
qed

lemma buffer_send_ok:
  assumes "transfer_ok cbs data cnt es" and "n_batches cbs cnt es < length calls"
  shows "buffer_send cbs data cnt es dest tag calls =
    Inr (Count cnt # batches cbs data cnt es 0 (n_batches cbs cnt es), Sent)"
  using run_send_ok [OF assms(1), of "initial_send data cnt es dest tag" 0 calls] assms(2)
  by (simp add: buffer_send_def initial_send_def)

section \<open>Receiving the batches\<close>

text \<open>
  Before the handler runs for the \<open>k\<close>-th time, batch \<open>k - 1\<close> is in the communication
  buffer and the user buffer holds the batches before it.
\<close>

definition receiving :: "int \<Rightarrow> byte list \<Rightarrow> int \<Rightarrow> int \<Rightarrow> nat \<Rightarrow> byte list \<Rightarrow> recv_info \<Rightarrow> bool" where
  "receiving cbs data cnt es k m info \<longleftrightarrow>
     r_buffer info = Some m \<and> r_count info = cnt \<and> r_element_size info = es \<and> r_ibatch info = int k \<and>
     length data \<le> length m \<and> int (length (r_comm_buffer info)) = cbs \<and>
     (0 < k \<longrightarrow> take (nat (batch_start cbs cnt es (k - 1))) m = subrange data 0 (batch_start cbs cnt es (k - 1)) \<and>
                take (length (batch cbs data cnt es (k - 1))) (r_comm_buffer info) = batch cbs data cnt es (k - 1))"

lemma batch_fits:
  assumes ok: "transfer_ok cbs data cnt es"
  shows "int (length (batch cbs data cnt es k)) \<le> cbs"
proof (cases "k < n_batches cbs cnt es")
  case True
  have "min (cnt - cbs div es * int k) (cbs div es) * es \<le> cbs div es * es"
    using ok by (intro mult_right_mono) (auto simp: transfer_ok_def)
  also have "\<dots> \<le> cbs" using ok by (simp add: transfer_ok_def flip: minus_mod_eq_div_mult)
  finally show ?thesis using length_batch [OF ok] batch_size(1) [OF ok True] by simp
next
  case False
  then have "cnt \<le> cbs div es * int k" using batches_left [OF ok, of k] by simp
  moreover from this have "cnt \<le> cbs div es * int (Suc k)"
    using per_batch_pos [OF ok] by (simp add: distrib_left)
  ultimately have "length (batch cbs data cnt es k) = 0"
    using length_batch [OF ok, of k] by (simp add: batch_start_def)
  then show ?thesis using ok by (simp add: transfer_ok_def)
qed

text \<open>The copy of a finished batch extends the received prefix by that batch.\<close>

lemma copy_batch:
  assumes ok: "transfer_ok cbs data cnt es" and m: "length data \<le> length m"
    and pre: "take (nat (batch_start cbs cnt es k)) m = subrange data 0 (batch_start cbs cnt es k)"
  shows "\<exists>m'. write_mem m (batch_start cbs cnt es k) (batch cbs data cnt es k) = Inr m' \<and>
    length m' = length m \<and> drop (length data) m' = drop (length data) m \<and>
    take (nat (batch_start cbs cnt es (Suc k))) m' = subrange data 0 (batch_start cbs cnt es (Suc k))"
proof -
  let ?a = "batch_start cbs cnt es k" and ?b = "batch_start cbs cnt es (Suc k)" and ?d = "batch cbs data cnt es k"
  note b = batch_start_bounds [OF ok, of k] batch_start_bounds [OF ok, of "Suc k"]
  have l: "int (length ?d) = ?b - ?a" by (rule length_batch [OF ok])
  let ?m = "take (nat ?a) m @ ?d @ drop (nat ?a + length ?d) m"
  have w: "write_mem m ?a ?d = Inr ?m" using b l m by (simp add: write_mem_def)
  have n: "nat ?b = nat ?a + length ?d" using b l by linarith
  have la: "length (take (nat ?a) m) = nat ?a" using b m by simp
  have "take (nat ?b) ?m = take (nat ?a) m @ ?d" using la by (simp add: n)
  also have "\<dots> = subrange data 0 ?b"
    unfolding pre batch_def using b by (intro subrange_append) auto
  finally have "take (nat ?b) ?m = subrange data 0 ?b" .
  moreover have "nat ?a + length ?d \<le> length data" using b l by linarith
  then have "drop (length data) ?m = drop (length data) m" using la by simp
  ultimately show ?thesis using w length_write_mem [OF w] by blast
qed

lemma read_comm_buffer:
  assumes "take (length d) cb = d" and "int (length d) = n"
  shows "read_mem cb 0 n = Inr d"
proof -
  have "length d \<le> length cb" using assms(1) by (metis length_take min.absorb_iff2 min.commute)
  then show ?thesis using assms by (auto simp: read_mem_def subrange_def)
qed

text \<open>The handler copies the finished batch and posts the receive of the next one, if any.\<close>

lemma recv_handler_step:
  assumes ok: "transfer_ok cbs data cnt es" and r: "receiving cbs data cnt es (Suc k) m info"
    and k: "k < n_batches cbs cnt es"
    and w: "write_mem m (batch_start cbs cnt es k) (batch cbs data cnt es k) = Inr m'"
  shows "recv_handler cbs info =
    (if Suc k < n_batches cbs cnt es
     then Inr (RecvPending (info\<lparr>r_buffer := Some m', r_ibatch := int (Suc k) + 1\<rparr>)
                 (int (length (batch cbs data cnt es (Suc k)))))
     else Inr (Received (Some m')))"
proof -
  let ?p = "cbs div es"
  have es: "0 < es" using ok by (simp add: transfer_ok_def)
  have rd: "read_mem (r_comm_buffer info) 0 (min (cnt - ?p * int k) ?p * es) = Inr (batch cbs data cnt es k)"
    using r length_batch [OF ok, of k] batch_size(1) [OF ok k]
    by (intro read_comm_buffer) (auto simp: receiving_def)
  have w': "write_mem m (?p * int k * es) (batch cbs data cnt es k) = Inr m'"
    using w batch_size(2) [OF ok k] by simp
  have left: "0 < min (cnt - ?p * int (Suc k)) ?p \<longleftrightarrow> Suc k < n_batches cbs cnt es"
    using batches_left [OF ok, of "Suc k"] per_batch_pos [OF ok] by auto
  have ib: "int (Suc k) - 1 = int k" by simp
  have f: "r_buffer info = Some m" "r_count info = cnt" "r_element_size info = es" "r_ibatch info = int (Suc k)"
    using r by (auto simp: receiving_def)
  have "recv_handler cbs info =
    (if 0 < min (cnt - ?p * int (Suc k)) ?p
     then Inr (RecvPending (info\<lparr>r_buffer := Some m', r_ibatch := int (Suc k) + 1\<rparr>)
                 (min (cnt - ?p * int (Suc k)) ?p * es))
     else Inr (Received (Some m')))"
    unfolding recv_handler_def f Let_def ib rd using es w' by (simp del: of_nat_Suc)
  then show ?thesis
    unfolding left using length_batch [OF ok, of "Suc k"] batch_size(1) [OF ok, of "Suc k"] by simp
qed

lemma batch_arrives_ok:
  assumes "length d \<le> length (r_comm_buffer info)"
  shows "batch_arrives info (int (length d)) d =
    Inr (info\<lparr>r_comm_buffer := d @ drop (length d) (r_comm_buffer info)\<rparr>)"
  using assms by (simp add: batch_arrives_def write_mem_def)

lemma run_recv_ok:
  assumes ok: "transfer_ok cbs data cnt es" and "receiving cbs data cnt es (Suc k) m info"
    and "k < n_batches cbs cnt es"
  shows "ebind (recv_handler cbs info)
      (\<lambda>st. run_recv cbs st (batches cbs data cnt es (Suc k) (n_batches cbs cnt es) @ ws)) =
    Inr (Some (data @ drop (length data) m), ws)"
  using assms(2,3)
proof (induction "n_batches cbs cnt es - k" arbitrary: k m info)
  case 0
  then show ?case by simp
next
  case (Suc n)
  note r = Suc.prems(1) and k = Suc.prems(2)
  obtain m' where w: "write_mem m (batch_start cbs cnt es k) (batch cbs data cnt es k) = Inr m'"
    and m': "length m' = length m" "drop (length data) m' = drop (length data) m"
      "take (nat (batch_start cbs cnt es (Suc k))) m' = subrange data 0 (batch_start cbs cnt es (Suc k))"
    using copy_batch [OF ok, of m k] r by (auto simp: receiving_def)
  note step = recv_handler_step [OF ok r k w]
  show ?case
  proof (cases "Suc k < n_batches cbs cnt es")
    case True
    let ?d = "batch cbs data cnt es (Suc k)"
    let ?info = "info\<lparr>r_buffer := Some m', r_ibatch := int (Suc k) + 1\<rparr>"
    let ?info' = "?info\<lparr>r_comm_buffer := ?d @ drop (length ?d) (r_comm_buffer info)\<rparr>"
    have cb: "int (length (r_comm_buffer info)) = cbs" using r by (simp add: receiving_def)
    have le: "length ?d \<le> length (r_comm_buffer info)" using batch_fits [OF ok, of "Suc k"] cb by simp
    have "receiving cbs data cnt es (Suc (Suc k)) m' ?info'"
      using r m' cb le by (simp add: receiving_def)
    moreover have "n = n_batches cbs cnt es - Suc k" using Suc.hyps(2) by simp
    ultimately have "ebind (recv_handler cbs ?info')
        (\<lambda>st. run_recv cbs st (batches cbs data cnt es (Suc (Suc k)) (n_batches cbs cnt es) @ ws)) =
      Inr (Some (data @ drop (length data) m), ws)"
      using Suc.hyps(1) [of "Suc k" m' ?info'] True m'(2) by simp
    moreover have "batch_arrives ?info (int (length ?d)) ?d = Inr ?info'"
      using batch_arrives_ok [of ?d ?info] le by simp
    ultimately show ?thesis
      using True by (simp add: step upt_conv_Cons)
  next
    case False
    then have e: "n_batches cbs cnt es = Suc k" using k by simp
    have "take (length data) m' = data" using m'(3) batch_start_last [OF ok] by (simp add: e)
    then have "m' = data @ drop (length data) m" using m'(2) append_take_drop_id [of "length data" m'] by simp
    then show ?thesis by (simp add: step e)
  qed
qed

text \<open>The first call: the count has arrived, the user buffer is allocated when it is null.\<close>

definition user_buffer :: "byte list option \<Rightarrow> int \<Rightarrow> int \<Rightarrow> byte list option" where
  "user_buffer buf cnt es =
     (case buf of Some m \<Rightarrow> Some m | None \<Rightarrow> if cnt > 0 then Some (replicate (nat (cnt * es)) 0) else None)"

definition received :: "byte list option \<Rightarrow> byte list \<Rightarrow> byte list option" where
  "received buf data =
     (case buf of Some m \<Rightarrow> Some (data @ drop (length data) m) | None \<Rightarrow> if data = [] then None else Some data)"

lemma recv_helper_ok:
  assumes ok: "transfer_ok cbs data cnt es" and buf: "\<forall>m. buf = Some m \<longrightarrow> length data \<le> length m"
  shows "recv_helper cbs buf es source tag
      (Count cnt # batches cbs data cnt es 0 (n_batches cbs cnt es) @ ws) = Inr (received buf data, ws)"
proof -
  let ?p = "cbs div es"
  have d: "0 < es" "es \<le> cbs" "0 \<le> cnt" "int (length data) = cnt * es" using ok by (auto simp: transfer_ok_def)
  note p = per_batch_pos [OF ok]
  let ?info = "\<lparr>r_buffer = buf, r_comm_buffer = replicate (nat cbs) 0, r_count = cnt,
    r_element_size = es, r_source = source, r_user_tag = tag, r_ibatch = 0\<rparr> :: recv_info"
  have left: "0 < min cnt ?p \<longleftrightarrow> 0 < n_batches cbs cnt es"
    using batches_left [OF ok, of 0] p by auto
  have first: "recv_handler cbs ?info =
    (if 0 < min cnt ?p
     then Inr (RecvPending (?info\<lparr>r_buffer := user_buffer buf cnt es, r_ibatch := 1\<rparr>) (min cnt ?p * es))
     else Inr (Received (user_buffer buf cnt es)))"
    using d by (simp add: recv_handler_def Let_def user_buffer_def split: option.split)
  show ?thesis
  proof (cases "n_batches cbs cnt es")
    case 0
    then have "cnt = 0" using left p d(3) by auto
    then have "data = []" using d by simp
    then show ?thesis using 0 d \<open>cnt = 0\<close> p
      by (simp add: recv_helper_def recv_handler_def Let_def received_def split: option.split)
  next
    case (Suc n)
    then have pos: "0 < cnt" using left p by auto
    obtain m where m: "user_buffer buf cnt es = Some m" "length data \<le> length m"
      "received buf data = Some (data @ drop (length data) m)"
    proof (cases buf)
      case None
      moreover have "length data = nat (cnt * es)" using d by linarith
      moreover have "data \<noteq> []" using pos d by auto
      ultimately show ?thesis using pos that [of "replicate (nat (cnt * es)) 0"]
        by (simp add: user_buffer_def received_def)
    next
      case (Some m)
      then show ?thesis using buf that by (simp add: user_buffer_def received_def)
    qed
    let ?d = "batch cbs data cnt es 0"
    let ?i = "?info\<lparr>r_buffer := Some m, r_ibatch := 1\<rparr>"
    let ?i' = "?i\<lparr>r_comm_buffer := ?d @ drop (length ?d) (replicate (nat cbs) 0)\<rparr>"
    have le: "length ?d \<le> length (replicate (nat cbs) (0 :: byte))" using batch_fits [OF ok, of 0] d by simp
    have "batch_start cbs cnt es 0 = 0" using d by (simp add: batch_start_def)
    then have "receiving cbs data cnt es (Suc 0) m ?i'"
      using m(2) le d by (simp add: receiving_def)
    then have run: "ebind (recv_handler cbs ?i')
        (\<lambda>st. run_recv cbs st (batches cbs data cnt es (Suc 0) (n_batches cbs cnt es) @ ws)) =
      Inr (Some (data @ drop (length data) m), ws)"
      using Suc by (intro run_recv_ok [OF ok]) auto
    have post: "min cnt ?p * es = int (length ?d)"
      using length_batch [OF ok, of 0] batch_size(1) [OF ok, of 0] Suc by simp
    have arr: "batch_arrives ?i (int (length ?d)) ?d = Inr ?i'"
      using batch_arrives_ok [of ?d ?i] le by simp
    have lt: "0 < min cnt ?p" using left Suc by simp
    have list: "batches cbs data cnt es 0 (n_batches cbs cnt es) @ ws =
        Batch ?d # batches cbs data cnt es (Suc 0) (n_batches cbs cnt es) @ ws"
      using Suc by (simp add: upt_conv_Cons del: upt_Suc)
    show ?thesis
      unfolding recv_helper_def list by (simp only: list.case wire.case first lt if_True ebind.simps post m(1)
        run_recv.simps arr run m(3))
  qed
qed

section \<open>A round of the buffer communicator\<close>

text \<open>
  A round: every rank sends at most one message to a rank, a message being an element size
  and the bytes of the elements. \<open>sched s d\<close> is how UCX answers the calls of the send
  handler of rank \<open>s\<close> for rank \<open>d\<close>; one call per byte and one more is enough for every
  message. The element size of a receive is the one its sender uses.
\<close>

type_synonym sized_message = "nat \<times> byte list"

definition send_stream ::
  "int \<Rightarrow> (nat \<Rightarrow> bool list) \<Rightarrow> rank \<Rightarrow> sized_message \<Rightarrow> (wire list \<times> send_state) res" where
  "send_stream cbs sched d m =
     (let es = int (fst m); bs = snd m in
      buffer_send cbs bs (int (length bs) div es) es d reserved_tag (map sched [0..<length bs + 1]))"

definition wires_to ::
  "int \<Rightarrow> (rank \<Rightarrow> rank \<Rightarrow> nat \<Rightarrow> bool list) \<Rightarrow> rank \<Rightarrow> (rank \<times> sized_message) list \<Rightarrow>
     (rank \<times> 64 word \<times> (nat \<times> wire list)) list res" where
  "wires_to cbs sched s snds =
     emap (\<lambda>p. ebind (send_stream cbs (sched s (fst p)) (fst p) (snd p)) (\<lambda>(ms, st).
       Inr (fst p, get_comm_tag reserved_tag (of_nat s), (fst (snd p), ms)))) snds"

text \<open>The receives of a rank, each on the stream that arrives under the tag of its source.\<close>

fun buffer_recvs :: "int \<Rightarrow> (64 word \<Rightarrow> (nat \<times> wire list) list) \<Rightarrow> rank list \<Rightarrow> sized_message list res" where
  "buffer_recvs cbs q [] = Inr []"
| "buffer_recvs cbs q (s # ss) =
     (let t = get_comm_tag reserved_tag (of_nat s) in
      case q t of
        [] \<Rightarrow> Inl Unmatched
      | (es, ws) # rest \<Rightarrow>
          ebind (recv_helper cbs None (int es) s reserved_tag ws) (\<lambda>(buf, ws').
          ebind (buffer_recvs cbs (q(t := rest)) ss) (\<lambda>ms.
          Inr ((es, case buf of None \<Rightarrow> [] | Some m \<Rightarrow> m) # ms))))"

text \<open>
  Every send and every receive takes a communication buffer out of the pool of its rank, or
  throws; \<open>waitall\<close> puts the buffers back. \<open>st\<close> is the pool, which \<open>setup_cache\<close> makes with as
  many buffers on every rank; a round only rotates its queue. Which buffer an operation has
  got, and who has allocated its handle, makes no difference to the messages.
\<close>

definition operations :: "nat \<Rightarrow> bool list" where
  "operations n = replicate n False"

definition buffer_round ::
  "buffer_pool \<Rightarrow> (rank \<Rightarrow> rank \<Rightarrow> nat \<Rightarrow> bool list) \<Rightarrow> (rank \<times> sized_message) list list \<Rightarrow> rank \<Rightarrow> rank list \<Rightarrow>
     sized_message list res" where
  "buffer_round st sched snds r srcs =
     ebind (check_mpi_size (length snds)) (\<lambda>u.
     ebind (emap (\<lambda>s. pool_round st (operations (length (snds ! s)))) [0..<length snds]) (\<lambda>pools.
     ebind (pool_round st (operations (length (snds ! r) + length srcs))) (\<lambda>pool.
     ebind (emap (\<lambda>s. wires_to (comm_buffer_size st) sched s (snds ! s)) [0..<length snds]) (\<lambda>wss.
     buffer_recvs (comm_buffer_size st) (tag_queue wss r) srcs))))"

text \<open>The messages the communicator can carry: whole elements that fit the buffer.\<close>

definition buffer_message :: "int \<Rightarrow> sized_message \<Rightarrow> bool" where
  "buffer_message cbs m \<longleftrightarrow> 0 < fst m \<and> int (fst m) \<le> cbs \<and> fst m dvd length (snd m)"

definition wires_of :: "int \<Rightarrow> sized_message \<Rightarrow> nat \<times> wire list" where
  "wires_of cbs m =
     (let es = int (fst m); cnt = int (length (snd m)) div es in
      (fst m, Count cnt # batches cbs (snd m) cnt es 0 (n_batches cbs cnt es)))"

abbreviation rank_tag :: "rank \<Rightarrow> 64 word" where
  "rank_tag s \<equiv> get_comm_tag reserved_tag (of_nat s)"

lemma rank_tag_inj: "s < 2 ^ 31 \<Longrightarrow> s' < 2 ^ 31 \<Longrightarrow> rank_tag s = rank_tag s' \<longleftrightarrow> s = s'"
  by (subst get_comm_tag_eq) (auto simp: of_nat_eq32 signed_of_nat signed_take_bit_int_eq_self)

lemma buffer_message_transfer:
  "buffer_message cbs m \<Longrightarrow> transfer_ok cbs (snd m) (int (length (snd m)) div int (fst m)) (int (fst m))"
  by (auto simp: buffer_message_def transfer_ok_def simp flip: zdiv_int of_nat_mult)

lemma send_stream_ok:
  assumes "buffer_message cbs m"
  shows "send_stream cbs sched d m = Inr (snd (wires_of cbs m), Sent)"
proof -
  note ok = buffer_message_transfer [OF assms]
  have "n_batches cbs (int (length (snd m)) div int (fst m)) (int (fst m)) \<le> length (snd m)"
    using n_batches_le [OF ok] by (simp flip: zdiv_int) (rule order_trans, assumption, rule div_le_dividend)
  then show ?thesis unfolding send_stream_def wires_of_def Let_def snd_conv
    by (intro buffer_send_ok [OF ok]) simp
qed

lemma wires_to_ok:
  assumes "\<forall>p \<in> set snds. buffer_message cbs (snd p)"
  shows "wires_to cbs sched s snds = Inr (map (\<lambda>p. (fst p, rank_tag s, wires_of cbs (snd p))) snds)"
  unfolding wires_to_def using assms
  by (intro emap_Inr) (auto simp: send_stream_ok, simp add: wires_of_def Let_def)

text \<open>Receives in order over the queues of messages are receives over the queues of wire messages.\<close>

lemma buffer_recvs_ok:
  assumes "match_recvs q srcs = Inr (ms, qr)"
    and "\<forall>s \<in> set srcs. s < N \<and> (\<forall>m \<in> set (q s). buffer_message cbs m)"
    and "\<forall>s \<in> set srcs. q' (rank_tag s) = map (wires_of cbs) (q s)" and N: "N < 2 ^ 31"
  shows "buffer_recvs cbs q' srcs = Inr ms"
  using assms(1-3)
proof (induction srcs arbitrary: q q' ms)
  case Nil
  then show ?case by simp
next
  case (Cons s ss)
  from Cons.prems(1) obtain m rest ms' where q: "q s = m # rest" and ms: "ms = m # ms'"
    and rec: "match_recvs (q(s := rest)) ss = Inr (ms', qr)"
    by (cases "q s") (auto simp: res_simps)
  have tags: "rank_tag x = rank_tag s \<longleftrightarrow> x = s" if "x \<in> set ss" for x
    using Cons.prems(2) that N by (intro rank_tag_inj) auto
  have m: "buffer_message cbs m" using Cons.prems(2) q by simp
  have q': "q' (rank_tag s) = (fst m, snd (wires_of cbs m)) # map (wires_of cbs) rest"
    using Cons.prems(3) q by (simp add: wires_of_def Let_def)
  have "recv_helper cbs None (int (fst m)) s reserved_tag (snd (wires_of cbs m)) = Inr (received None (snd m), [])"
    using recv_helper_ok [OF buffer_message_transfer [OF m], of None s reserved_tag "[]"]
    by (simp add: wires_of_def Let_def)
  moreover have "buffer_recvs cbs (q'(rank_tag s := map (wires_of cbs) rest)) ss = Inr ms'"
    using Cons.prems(2,3) q tags by (intro Cons.IH [OF rec]) auto
  moreover have "(case received None (snd m) of None \<Rightarrow> [] | Some x \<Rightarrow> x) = snd m" by (simp add: received_def)
  ultimately show ?case by (simp add: ms q')
qed

text \<open>With at most one message per pair of ranks there are at most \<open>N\<close> sends and \<open>N\<close> receives.\<close>

lemma single_message_receives:
  "match_recvs q xs = Inr (ms, qr) \<Longrightarrow> \<forall>x. length (q x) \<le> 1 \<Longrightarrow> distinct xs"
proof (induction xs arbitrary: q ms)
  case (Cons x xs)
  then obtain m rest ms' where q: "q x = m # rest" and rec: "match_recvs (q(x := rest)) xs = Inr (ms', qr)"
    by (cases "q x") (auto simp: res_simps)
  have "rest = []" using Cons.prems(2) q by (metis One_nat_def length_0_conv length_Cons not_less_eq_eq le_zero_eq)
  then have "x \<notin> set xs" using match_recvs_sources [OF rec] by fastforce
  moreover have "\<forall>y. length ((q(x := rest)) y) \<le> 1" using Cons.prems(2) \<open>rest = []\<close> by simp
  ultimately show ?case using Cons.IH [OF rec] by simp
qed simp

lemma distinct_ranks_bounded: "distinct xs \<Longrightarrow> \<forall>x \<in> set xs. x < N \<Longrightarrow> length xs \<le> N"
proof -
  assume d: "distinct xs" and b: "\<forall>x \<in> set xs. x < (N :: nat)"
  have "card (set xs) \<le> card {..<N}" using b by (intro card_mono) auto
  then show "length xs \<le> N" using distinct_card [OF d] by simp
qed

lemma round_operations:
  assumes adm: "admissible okm N False snds" and m: "match_recvs (incoming_queues snds r) srcs = Inr (ms, qr)" and s: "s < N"
  shows "length (snds ! s) \<le> N" and "length srcs \<le> N"
proof -
  have l: "length snds = N" using adm by (simp add: admissible_def)
  have sends: "distinct (map fst (snds ! s)) \<and> (\<forall>p \<in> set (snds ! s). fst p < N)" if "s < N" for s
    using adm that nth_mem [of s snds] l by (auto simp: admissible_def)
  show "length (snds ! s) \<le> N"
    using distinct_ranks_bounded [of "map fst (snds ! s)" N] sends [OF s] by auto
  have one: "length (msgs_to xs r) \<le> 1" if "distinct (map fst xs)" for xs :: "(rank \<times> 'a) list"
    using that
  proof (induction xs)
    case (Cons p ps)
    then have "fst q \<noteq> fst p" if "q \<in> set ps" for q using that by auto (metis fst_conv image_eqI)
    then have "fst p = r \<Longrightarrow> msgs_to ps r = []" unfolding msgs_to_def by (metis (mono_tags, lifting) filter_False list.map_disc_iff)
    then show ?case using Cons by (cases "fst p = r") (simp_all add: msgs_to_def)
  qed (simp add: msgs_to_def)
  have "\<forall>s. length (incoming_queues snds r s) \<le> 1" using one sends l by (simp add: incoming_queues_def)
  then have "distinct srcs" by (rule single_message_receives [OF m])
  moreover have "\<forall>s \<in> set srcs. s < N"
    using match_recvs_sources [OF m] l by (auto simp: incoming_queues_def split: if_splits)
  ultimately show "length srcs \<le> N" by (rule distinct_ranks_bounded)
qed

lemma pool_round_operations:
  "n \<le> length (buffer_cache st) \<Longrightarrow> \<exists>st'. pool_round st (operations n) = Inr st'"
  using pool_round_ok [of "operations n" st] by (simp add: operations_def)

lemma buffer_round_fifo:
  assumes adm: "admissible (buffer_message (comm_buffer_size st)) N False snds" and N: "N \<le> 65536" "2 * N \<le> length (buffer_cache st)"
    and r: "r < N" and fifo: "fifo_exchange snds r srcs = Inr ms"
  shows "buffer_round st sched snds r srcs = Inr ms"
proof -
  let ?cbs = "comm_buffer_size st"
  have l: "length snds = N" "N < 2 ^ 31" using adm by (auto simp: admissible_def)
  have inj: "inj_on rank_tag {..<N}" using rank_tag_inj l(2) by (auto simp: inj_on_def)
  have msg: "\<forall>p \<in> set (snds ! s). buffer_message ?cbs (snd p)" if "s < N" for s
    using adm that nth_mem [of s snds] by (auto simp: admissible_def)
  from fifo obtain qr where m: "match_recvs (incoming_queues snds r) srcs = Inr (ms, qr)"
    by (auto simp: fifo_exchange_def res_simps)
  have lt: "\<forall>s \<in> set srcs. s < N"
    using match_recvs_sources [OF m] l(1) by (auto simp: incoming_queues_def split: if_splits)
  let ?w = "map (\<lambda>i. map (\<lambda>p. (fst p, rank_tag i, wires_of ?cbs (snd p))) (snds ! i)) [0..<N]"
  have w: "emap (\<lambda>s. wires_to ?cbs sched s (snds ! s)) [0..<N] = Inr ?w"
    using msg by (intro emap_Inr wires_to_ok) simp
  have "buffer_recvs ?cbs (tag_queue ?w r) srcs = Inr ms"
  proof (rule buffer_recvs_ok [OF m])
    show "\<forall>s \<in> set srcs. s < N \<and> (\<forall>m \<in> set (incoming_queues snds r s). buffer_message ?cbs m)"
    proof (intro ballI conjI)
      fix s bs assume s: "s \<in> set srcs" and bs: "bs \<in> set (incoming_queues snds r s)"
      have "s < N" using lt s by blast
      then obtain p where "p \<in> set (snds ! s)" "bs = snd p"
        using bs l(1) by (auto simp: incoming_queues_def msgs_to_def)
      then show "buffer_message ?cbs bs" using msg [OF \<open>s < N\<close>] by blast
    qed (use lt in blast)
    show "\<forall>s \<in> set srcs. tag_queue ?w r (rank_tag s) = map (wires_of ?cbs) (incoming_queues snds r s)"
      using lt tag_queue_ranks [OF l(1) inj, of _ "wires_of ?cbs"] l(1) by (simp add: incoming_queues_def)
  qed (rule l(2))
  moreover have "\<exists>pools. emap (\<lambda>s. pool_round st (operations (length (snds ! s)))) [0..<N] = Inr pools"
  proof (intro emap_defined ballI pool_round_operations)
    fix s assume "s \<in> set [0..<N]"
    then have "length (snds ! s) \<le> N" using round_operations(1) [OF adm m] by simp
    then show "length (snds ! s) \<le> length (buffer_cache st)" using N(2) by simp
  qed
  moreover have "\<exists>pool. pool_round st (operations (length (snds ! r) + length srcs)) = Inr pool"
    using round_operations [OF adm m r] N(2) by (intro pool_round_operations) simp
  ultimately show ?thesis using w l(1) N(1) by (auto simp: buffer_round_def check_mpi_size_def)
qed

text \<open>
  Every supported group of ranks, one for whose sends and receives there are buffers: the
  buffer communicator is a transport for one message per pair.
\<close>

definition supported_size :: "buffer_pool \<Rightarrow> nat \<Rightarrow> nat" where
  "supported_size st n = min (min n 65536) (length (buffer_cache st) div 2)"

interpretation buffered: p2p_transport "buffer_round st sched" "buffer_message (comm_buffer_size st)" "supported_size st n" False
  for st sched n
  by unfold_locales (rule buffer_round_fifo, auto simp: supported_size_def)

text \<open>
  A round on a pool that earlier rounds have rotated is the round on the first pool: all
  rounds of a program may be run from the pool of the setup.
\<close>

lemma emap_pool_round:
  "ebind (emap (\<lambda>s. pool_round st (operations (f s))) xs) (\<lambda>pools. K) =
     (if \<forall>s \<in> set xs. f s \<le> length (buffer_cache st) then K else Inl NoBufferedCache)"
proof (induction xs)
  case (Cons s xs)
  show ?case
  proof (cases "f s \<le> length (buffer_cache st)")
    case True
    then obtain st' where "pool_round st (operations (f s)) = Inr st'" using pool_round_operations by blast
    moreover have "ebind (ebind (emap (\<lambda>s. pool_round st (operations (f s))) xs) (\<lambda>ys. Inr (st' # ys))) (\<lambda>pools. K) =
        ebind (emap (\<lambda>s. pool_round st (operations (f s))) xs) (\<lambda>pools. K)"
      by (cases "emap (\<lambda>s. pool_round st (operations (f s))) xs") simp_all
    ultimately show ?thesis using Cons True by simp
  next
    case False
    then have "pool_round st (operations (f s)) = Inl NoBufferedCache"
      using post_operations_empty [of st "operations (f s)"] by (simp add: pool_round_def operations_def)
    then show ?thesis using False by simp
  qed
qed simp

lemma buffer_round_rotated:
  assumes "efold pool_round st rounds = Inr st'" and "\<forall>ops \<in> set rounds. length ops \<le> length (buffer_cache st)"
  shows "buffer_round st' sched snds r srcs = buffer_round st sched snds r srcs"
proof -
  obtain c where c: "st' = st\<lparr>buffer_cache := c\<rparr>" "mset c = mset (buffer_cache st)"
    using pool_rounds_ok [OF assms(2)] assms(1) by auto
  have l: "length (buffer_cache st') = length (buffer_cache st)" using c(1) arg_cong [OF c(2), of size] by simp
  have sz: "comm_buffer_size st' = comm_buffer_size st" using c(1) by simp
  have one: "ebind (pool_round u (operations n)) (\<lambda>pool. K) =
      (if n \<le> length (buffer_cache u) then K else Inl NoBufferedCache)" for u n and K :: "sized_message list res"
  proof -
    have "ebind (pool_round u (operations n)) (\<lambda>pool. K) = ebind (emap (\<lambda>s. pool_round u (operations n)) [0 :: nat]) (\<lambda>pools. K)"
      by (cases "pool_round u (operations n)") simp_all
    then show ?thesis unfolding emap_pool_round by simp
  qed
  show ?thesis
    unfolding buffer_round_def emap_pool_round one l sz ..
qed

text \<open>With fewer buffers than operations the round ends with the exception.\<close>

lemma buffer_round_empty:
  assumes "length snds \<le> 65536" and "\<forall>s < length snds. length (snds ! s) \<le> length (buffer_cache st)"
    and "length (buffer_cache st) < length (snds ! r) + length srcs"
  shows "buffer_round st sched snds r srcs = Inl NoBufferedCache"
proof -
  have "\<exists>pools. emap (\<lambda>s. pool_round st (operations (length (snds ! s)))) [0..<length snds] = Inr pools"
    using assms(2) by (intro emap_defined ballI pool_round_operations) simp
  then show ?thesis using assms(1,3) post_operations_empty [of st "operations (length (snds ! r) + length srcs)"]
    by (auto simp: buffer_round_def check_mpi_size_def pool_round_def operations_def)
qed

end
