(* ===== verification/NCCL_Communicator.thy ===== *)
theory NCCL_Communicator
  imports Communicator
begin

text \<open>
  The class \<open>NCCLCommunicator\<close> of \<open>src/src/communicator.cpp\<close>. Every message goes through
  an aligned staging buffer: a send copies the data into one, a receive lets NCCL fill one
  and \<open>stop\<close> copies the data out of it. NCCL and the memory resource are parameters: NCCL
  is a transport for staging buffers, \<open>alloc n\<close> is a fresh allocation of \<open>n\<close> bytes.
\<close>

section \<open>State and operations\<close>

text \<open>The size of a staging buffer: a multiple of 256 bytes that holds the message.\<close>

definition aligned_size :: "nat \<Rightarrow> nat" where
  "aligned_size n = (n + 255) div 256 * 256"

datatype nccl_op = NcclSend (op_buffer: nat) (op_peer: rank) | NcclRecv (op_buffer: nat) (op_peer: rank)

record nccl_communicator =
  comm_buffers :: "byte list list"
  comm_buffer_sizes :: "nat list"
  recv_buffers :: "byte list list"
  recv_buffer_idx :: "nat list"
  nccl_group :: "nccl_op list"

definition NCCL_start :: nccl_communicator where
  "NCCL_start = \<lparr>comm_buffers = [], comm_buffer_sizes = [], recv_buffers = [], recv_buffer_idx = [], nccl_group = []\<rparr>"

definition NCCL_send ::
  "(nat \<Rightarrow> byte list) \<Rightarrow> nccl_communicator \<Rightarrow> byte list \<Rightarrow> nat \<Rightarrow> nat \<Rightarrow> rank \<Rightarrow> nccl_communicator res" where
  "NCCL_send alloc c buf cnt element_size dest =
     ebind (read_mem buf 0 (int (cnt * element_size))) (\<lambda>bs.
     ebind (write_mem (alloc (aligned_size (cnt * element_size))) 0 bs) (\<lambda>staged.
     Inr (c\<lparr>comm_buffers := comm_buffers c @ [staged],
            comm_buffer_sizes := comm_buffer_sizes c @ [cnt * element_size],
            nccl_group := nccl_group c @ [NcclSend (length (comm_buffers c)) dest]\<rparr>)))"

definition NCCL_recv ::
  "(nat \<Rightarrow> byte list) \<Rightarrow> nccl_communicator \<Rightarrow> byte list \<Rightarrow> nat \<Rightarrow> nat \<Rightarrow> rank \<Rightarrow> nccl_communicator" where
  "NCCL_recv alloc c buf cnt element_size source =
     c\<lparr>recv_buffers := recv_buffers c @ [buf],
       recv_buffer_idx := recv_buffer_idx c @ [length (comm_buffers c)],
       comm_buffers := comm_buffers c @ [alloc (aligned_size (cnt * element_size))],
       comm_buffer_sizes := comm_buffer_sizes c @ [cnt * element_size],
       nccl_group := nccl_group c @ [NcclRecv (length (comm_buffers c)) source]\<rparr>"

text \<open>
  \<open>stop\<close>: the end of the NCCL group fills the staging buffers of the receives, whose sizes
  must match; then the copies out, and the deallocation with the aligned sizes.
\<close>

fun group_end :: "byte list list \<Rightarrow> nccl_op list \<Rightarrow> byte list list \<Rightarrow> byte list list res" where
  "group_end bufs [] ms = Inr bufs"
| "group_end bufs (NcclSend i p # ops) ms = group_end bufs ops ms"
| "group_end bufs (NcclRecv i p # ops) [] = Inl Unmatched"
| "group_end bufs (NcclRecv i p # ops) (m # ms) =
     ebind (vec_at bufs i) (\<lambda>b. if length m \<noteq> length b then Inl SizeMismatch
                               else group_end (bufs[i := m]) ops ms)"

definition NCCL_stop :: "nccl_communicator \<Rightarrow> byte list list \<Rightarrow> (byte list list \<times> nat list) res" where
  "NCCL_stop c arrived =
     ebind (group_end (comm_buffers c) (nccl_group c) arrived) (\<lambda>bufs.
     ebind (emap (\<lambda>(buf, idx).
              ebind (vec_at bufs idx) (\<lambda>staged.
              ebind (vec_at (comm_buffer_sizes c) idx) (\<lambda>n.
              ebind (read_mem staged 0 (int n)) (\<lambda>bs. write_mem buf 0 bs))))
            (zip (recv_buffers c) (recv_buffer_idx c))) (\<lambda>out.
     Inr (out, map aligned_size (comm_buffer_sizes c))))"

section \<open>A round\<close>

text \<open>
  The staged sends of a rank, and the receives of a rank for the messages NCCL brings it:
  count and element size of a receive are those of the matching send.
\<close>

definition nccl_sends :: "(nat \<Rightarrow> byte list) \<Rightarrow> (rank \<times> nat \<times> byte list) list \<Rightarrow> nccl_communicator res" where
  "nccl_sends alloc snds =
     efold (\<lambda>c p. NCCL_send alloc c (snd (snd p)) (length (snd (snd p)) div fst (snd p)) (fst (snd p)) (fst p))
       NCCL_start snds"

definition staged_messages :: "nccl_communicator \<Rightarrow> (rank \<times> nat \<times> byte list) list \<Rightarrow> (rank \<times> (nat \<times> nat \<times> byte list)) list" where
  "staged_messages c snds =
     map (\<lambda>(p, b). (fst p, (fst (snd p), length (snd (snd p)), b))) (zip snds (comm_buffers c))"

definition nccl_receive ::
  "(nat \<Rightarrow> byte list) \<Rightarrow> rank list \<Rightarrow> (nat \<times> nat \<times> byte list) list \<Rightarrow> (byte list list \<times> nat list) res" where
  "nccl_receive alloc srcs ms =
     NCCL_stop (foldl (\<lambda>c (s, (es, n, b)). NCCL_recv alloc c (replicate n 0) (n div es) es s) NCCL_start (zip srcs ms))
       (map (\<lambda>(es, n, b). b) ms)"

definition nccl_round ::
  "(nat \<Rightarrow> byte list) \<Rightarrow> ((rank \<times> (nat \<times> nat \<times> byte list)) list list \<Rightarrow> rank \<Rightarrow> rank list \<Rightarrow> (nat \<times> nat \<times> byte list) list res) \<Rightarrow>
     (rank \<times> nat \<times> byte list) list list \<Rightarrow> rank \<Rightarrow> rank list \<Rightarrow> (nat \<times> byte list) list res" where
  "nccl_round alloc nccl snds r srcs =
     ebind (emap (\<lambda>xs. ebind (nccl_sends alloc xs) (\<lambda>c. Inr (staged_messages c xs))) snds) (\<lambda>staged.
     ebind (nccl staged r srcs) (\<lambda>ms.
     ebind (nccl_receive alloc srcs ms) (\<lambda>(out, sizes).
     Inr (zip (map fst ms) out))))"

section \<open>Staging\<close>

lemma aligned_size_ge: "n \<le> aligned_size n"
proof -
  have "n + 255 = (n + 255) div 256 * 256 + (n + 255) mod 256" by simp
  moreover have "(n + 255) mod 256 < 256" by simp
  ultimately show ?thesis unfolding aligned_size_def by linarith
qed

lemma aligned_size_bounds: "aligned_size n < n + 256" "aligned_size n mod 256 = 0"
proof -
  show "aligned_size n mod 256 = 0" by (simp add: aligned_size_def)
  have "aligned_size n \<le> n + 255" by (simp add: aligned_size_def div_times_less_eq_dividend)
  then show "aligned_size n < n + 256" by simp
qed

definition stage :: "(nat \<Rightarrow> byte list) \<Rightarrow> byte list \<Rightarrow> byte list" where
  "stage alloc bs = bs @ drop (length bs) (alloc (aligned_size (length bs)))"

text \<open>The messages the communicator can carry: whole elements.\<close>

definition nccl_message :: "nat \<times> byte list \<Rightarrow> bool" where
  "nccl_message m \<longleftrightarrow> fst m dvd length (snd m)"

lemma length_stage: "(\<And>n. length (alloc n) = n) \<Longrightarrow> length (stage alloc bs) = aligned_size (length bs)"
  using aligned_size_ge [of "length bs"] by (simp add: stage_def)

lemma NCCL_send_ok:
  assumes "\<And>n. length (alloc n) = n" and "es dvd length bs"
  shows "NCCL_send alloc c bs (length bs div es) es d =
    Inr (c\<lparr>comm_buffers := comm_buffers c @ [stage alloc bs],
           comm_buffer_sizes := comm_buffer_sizes c @ [length bs],
           nccl_group := nccl_group c @ [NcclSend (length (comm_buffers c)) d]\<rparr>)"
proof -
  have n: "length bs div es * es = length bs" using assms(2) by simp
  show ?thesis
    unfolding NCCL_send_def n using aligned_size_ge [of "length bs"] assms(1)
    by (simp add: write_mem_def stage_def)
qed

lemma nccl_sends_from:
  assumes "\<And>n. length (alloc n) = n" and "\<forall>p \<in> set xs. nccl_message (snd p)"
  shows "\<exists>c'. efold (\<lambda>c p. NCCL_send alloc c (snd (snd p)) (length (snd (snd p)) div fst (snd p)) (fst (snd p)) (fst p)) c xs = Inr c' \<and>
    comm_buffers c' = comm_buffers c @ map (\<lambda>p. stage alloc (snd (snd p))) xs \<and>
    comm_buffer_sizes c' = comm_buffer_sizes c @ map (\<lambda>p. length (snd (snd p))) xs"
  using assms(2)
proof (induction xs arbitrary: c)
  case (Cons p xs)
  let ?bs = "snd (snd p)"
  let ?c = "c\<lparr>comm_buffers := comm_buffers c @ [stage alloc ?bs],
    comm_buffer_sizes := comm_buffer_sizes c @ [length ?bs],
    nccl_group := nccl_group c @ [NcclSend (length (comm_buffers c)) (fst p)]\<rparr>"
  have "NCCL_send alloc c ?bs (length ?bs div fst (snd p)) (fst (snd p)) (fst p) = Inr ?c"
    using Cons.prems by (intro NCCL_send_ok assms(1)) (simp add: nccl_message_def)
  then show ?case using Cons.IH [of ?c] Cons.prems by simp
qed simp

abbreviation staged_message :: "(nat \<Rightarrow> byte list) \<Rightarrow> nat \<times> byte list \<Rightarrow> nat \<times> nat \<times> byte list" where
  "staged_message alloc m \<equiv> (fst m, length (snd m), stage alloc (snd m))"

lemma nccl_sends_ok:
  assumes "\<And>n. length (alloc n) = n" and "\<forall>p \<in> set xs. nccl_message (snd p)"
  shows "ebind (nccl_sends alloc xs) (\<lambda>c. Inr (staged_messages c xs)) =
    Inr (map (\<lambda>p. (fst p, staged_message alloc (snd p))) xs)"
proof -
  have "map (\<lambda>(p, b). (fst p, (fst (snd p), length (snd (snd p)), b))) (zip xs (map (\<lambda>p. stage alloc (snd (snd p))) xs)) =
      map (\<lambda>p. (fst p, staged_message alloc (snd p))) xs"
    by (induction xs) auto
  then show ?thesis
    using nccl_sends_from [OF assms, where c = NCCL_start]
    by (auto simp: nccl_sends_def staged_messages_def NCCL_start_def)
qed

section \<open>Receiving\<close>

lemma group_end_recvs:
  assumes "list_all2 (\<lambda>b m. length m = length b) bufs ms" and "length srcs = length bufs"
  shows "group_end (pre @ bufs) (map (\<lambda>(i, s). NcclRecv i s) (zip [length pre..<length pre + length bufs] srcs)) ms =
    Inr (pre @ ms)"
  using assms
proof (induction bufs ms arbitrary: pre srcs rule: list_all2_induct)
  case (Cons b bufs m ms)
  then obtain s ss where srcs: "srcs = s # ss" by (cases srcs) auto
  have "[length pre..<length pre + length (b # bufs)] =
      length pre # [length (pre @ [m])..<length (pre @ [m]) + length bufs]"
    by (subst upt_conv_Cons) simp_all
  then show ?case
    using Cons.IH [of ss "pre @ [m]"] Cons.hyps(1) Cons.prems srcs by (simp del: upt_Suc)
qed simp

lemma foldl_NCCL_recv:
  assumes "length ms = length srcs"
  shows "foldl (\<lambda>c (s, (es, n, b)). NCCL_recv alloc c (replicate n 0) (n div es) es s) c (zip srcs ms) =
    c\<lparr>recv_buffers := recv_buffers c @ map (\<lambda>(es, n, b). replicate n 0) ms,
      recv_buffer_idx := recv_buffer_idx c @ [length (comm_buffers c)..<length (comm_buffers c) + length ms],
      comm_buffers := comm_buffers c @ map (\<lambda>(es, n, b). alloc (aligned_size (n div es * es))) ms,
      comm_buffer_sizes := comm_buffer_sizes c @ map (\<lambda>(es, n, b). n div es * es) ms,
      nccl_group := nccl_group c @ map (\<lambda>(i, s). NcclRecv i s) (zip [length (comm_buffers c)..<length (comm_buffers c) + length ms] srcs)\<rparr>"
  using assms
proof (induction ms srcs arbitrary: c rule: list_induct2)
  case (Cons m ms s ss)
  then show ?case by (cases m) (simp add: NCCL_recv_def upt_conv_Cons del: upt_Suc)
qed simp

lemma nccl_receive_ok:
  assumes al: "\<And>n. length (alloc n) = n" and "length ms = length srcs" and "\<forall>m \<in> set ms. nccl_message m"
  shows "nccl_receive alloc srcs (map (staged_message alloc) ms) =
    Inr (map snd ms, map (\<lambda>m. aligned_size (length (snd m))) ms)"
proof -
  let ?staged = "map (staged_message alloc) ms"
  have size: "length (snd m) div fst m * fst m = length (snd m)" if "m \<in> set ms" for m
    using assms(3) that by (simp add: nccl_message_def)
  have la: "list_all2 (\<lambda>b m. length m = length b) (map (\<lambda>m. alloc (aligned_size (length (snd m)))) ms)
      (map (\<lambda>m. stage alloc (snd m)) ms)"
    unfolding list_all2_conv_all_nth by (simp add: al length_stage [OF al])
  have "length srcs = length (map (\<lambda>m. alloc (aligned_size (length (snd m)))) ms)" using assms(2) by simp
  from group_end_recvs [OF la this, of "[]"]
  have g: "group_end (map (\<lambda>m. alloc (aligned_size (length (snd m)))) ms)
      (map (\<lambda>(i, s). NcclRecv i s) (zip [0..<length ms] srcs)) (map (\<lambda>m. stage alloc (snd m)) ms) =
      Inr (map (\<lambda>m. stage alloc (snd m)) ms)"
    by simp
  have one: "ebind (read_mem (stage alloc bs) 0 (int (length bs))) (\<lambda>d. write_mem (replicate (length bs) 0) 0 d) = Inr bs" for bs
    using length_stage [OF al, of bs] aligned_size_ge [of "length bs"]
    by (simp add: read_mem_def subrange_def stage_def write_mem_def)
  have copy: "emap (\<lambda>(buf, idx). ebind (vec_at (map (\<lambda>m. stage alloc (snd m)) ms) idx) (\<lambda>staged.
      ebind (vec_at (map (\<lambda>m. length (snd m)) ms) idx) (\<lambda>n.
      ebind (read_mem staged 0 (int n)) (\<lambda>bs. write_mem buf 0 bs))))
      (zip (map (\<lambda>m. replicate (length (snd m)) 0) ms) [0..<length ms]) = Inr (map snd ms)"
    unfolding emap_Inr_iff list_all2_conv_all_nth using one by simp
  have sizes: "map (\<lambda>m. h (length (snd m) div fst m * fst m)) ms = map (\<lambda>m. h (length (snd m))) ms" for h :: "nat \<Rightarrow> 'c"
    using size by (intro map_cong refl) simp
  have c: "foldl (\<lambda>c (s, (es, n, b)). NCCL_recv alloc c (replicate n 0) (n div es) es s) NCCL_start (zip srcs ?staged) =
    \<lparr>comm_buffers = map (\<lambda>m. alloc (aligned_size (length (snd m)))) ms,
     comm_buffer_sizes = map (\<lambda>m. length (snd m)) ms,
     recv_buffers = map (\<lambda>m. replicate (length (snd m)) 0) ms, recv_buffer_idx = [0..<length ms],
     nccl_group = map (\<lambda>(i, s). NcclRecv i s) (zip [0..<length ms] srcs)\<rparr>"
    using assms(2) sizes [of "\<lambda>n. alloc (aligned_size n)"] sizes [of "\<lambda>n. n"]
    by (subst foldl_NCCL_recv) (simp_all add: NCCL_start_def comp_def)
  have b: "map (\<lambda>(es, n, b). b) ?staged = map (\<lambda>m. stage alloc (snd m)) ms" by simp
  show ?thesis
    unfolding nccl_receive_def c b NCCL_stop_def by (simp add: g copy comp_def)
qed

section \<open>The communicator as a transport\<close>

text \<open>
  What the class asks of NCCL and of the memory resource: staged messages are matched in
  order, and an allocation has the requested size.
\<close>

locale nccl_staging = p2p_transport nccl "\<lambda>_. True" N multi
  for nccl :: "(rank \<times> (nat \<times> nat \<times> byte list)) list list \<Rightarrow> rank \<Rightarrow> rank list \<Rightarrow> (nat \<times> nat \<times> byte list) list res"
    and N :: nat and multi :: bool +
  fixes alloc :: "nat \<Rightarrow> byte list"
  assumes length_alloc: "length (alloc n) = n"
begin

lemma nccl_round_fifo:
  assumes adm: "admissible nccl_message N multi snds" and r: "r < N" and fifo: "fifo_exchange snds r srcs = Inr ms"
  shows "nccl_round alloc nccl snds r srcs = Inr ms"
proof -
  let ?staged = "map (map (\<lambda>p. (fst p, staged_message alloc (snd p)))) snds"
  have ok: "\<forall>p \<in> set xs. nccl_message (snd p)" if "xs \<in> set snds" for xs
    using adm that by (auto simp: admissible_def)
  have sends: "emap (\<lambda>xs. ebind (nccl_sends alloc xs) (\<lambda>c. Inr (staged_messages c xs))) snds = Inr ?staged"
    using ok by (intro emap_Inr nccl_sends_ok length_alloc) blast
  note f = fifo_exchange_map [OF fifo]
  have "admissible (\<lambda>_. True) N multi ?staged"
    using adm by (auto simp: admissible_def comp_def)
  then have nccl: "nccl ?staged r srcs = Inr (map (staged_message alloc) ms)"
    by (rule exch_fifo [OF _ r f(1)])
  have "\<forall>m \<in> set ms. nccl_message m" using f(3) ok by blast
  then have "nccl_receive alloc srcs (map (staged_message alloc) ms) =
      Inr (map snd ms, map (\<lambda>m. aligned_size (length (snd m))) ms)"
    by (intro nccl_receive_ok length_alloc f(2))
  then show ?thesis
    by (simp add: nccl_round_def sends nccl comp_def zip_map_map [of fst ms snd ms] zip_same_conv_map)
qed

end

sublocale nccl_staging \<subseteq> staged: p2p_transport "nccl_round alloc nccl" nccl_message N multi
  by unfold_locales (rule nccl_round_fifo)

interpretation nccl_fifo: nccl_staging fifo_exchange N multi "\<lambda>n. replicate n 0"
  for N multi
  by unfold_locales simp

end
