(* ===== verification/Communicator_Properties.thy ===== *)
theory Communicator_Properties
  imports Buffer_Communicator NCCL_Communicator
begin

text \<open>
  The properties of the communicators: tags, waiting for completion, transfers through
  communication buffers, the pool of these buffers, and the staging of NCCL.
\<close>

section \<open>Tags\<close>

text \<open>
  C19. The tag the buffer communicator gives to UCX identifies the pair of user tag and
  source rank: two tags agree only if both parts do. This covers the reserved user tag
  \<open>-1\<close>, whose conversion to 64 bits extends the sign.
\<close>
theorem comm_tags_distinguish:
  assumes "0 \<le> sint source" and "0 \<le> sint source'"
  shows "get_comm_tag user_tag source = get_comm_tag user_tag' source' \<longleftrightarrow>
    user_tag = user_tag' \<and> source = source'"
  using assms by (rule get_comm_tag_eq)

theorem comm_tags_distinguish_witness:
  "get_comm_tag reserved_tag 3 \<noteq> get_comm_tag 0 3 \<and> get_comm_tag 7 3 \<noteq> get_comm_tag 7 4"
proof -
  have "0 \<le> sint (3 :: 32 word)" and "0 \<le> sint (4 :: 32 word)" by simp_all
  then show ?thesis
    using comm_tags_distinguish [of 3 3 reserved_tag 0] comm_tags_distinguish [of 3 4 7 7]
    by (auto simp: reserved_tag_def)
qed

section \<open>Waiting\<close>

lemma eventually_all:
  assumes "finite Q" and "\<forall>q \<in> Q. \<exists>n. \<forall>m \<ge> n. P q m"
  shows "\<exists>n. \<forall>q \<in> Q. P q (n :: nat)"
proof -
  obtain f where f: "\<forall>q \<in> Q. \<forall>m \<ge> f q. P q m" using assms(2) by metis
  show ?thesis
  proof (cases "Q = {}")
    case False
    have "\<forall>q \<in> Q. P q (Max (f ` Q))" using f assms(1) by simp
    then show ?thesis by blast
  qed simp
qed

text \<open>A worker for the witnesses: request \<open>k\<close> completes with the \<open>k\<close>-th progress call.\<close>

definition demo_status :: "nat \<Rightarrow> nat \<Rightarrow> ucs_status" where
  "demo_status now k = (if k \<le> now then UCS_OK else UCS_INPROGRESS)"

lemma demo_progress: "(Suc ^^ n) 0 = n"
  by (induction n) simp_all

text \<open>If every request is complete from some moment on, \<open>waitall\<close> leaves at the first such moment.\<close>

lemma waitall_returns:
  assumes "\<forall>n q e. Some q \<in> set requests \<longrightarrow> status ((progress ^^ n) w) q \<noteq> UCS_ERR e"
    and "\<forall>q. Some q \<in> set requests \<longrightarrow> (\<exists>n. \<forall>m \<ge> n. status ((progress ^^ m) w) q = UCS_OK)"
  shows "\<exists>n. UCXCommunicator_waitall progress status w requests =
      Some (Inr ((progress ^^ n) w, map the (filter (\<lambda>q. q \<noteq> None) requests))) \<and>
    (\<forall>q. Some q \<in> set requests \<longrightarrow> status ((progress ^^ n) w) q = UCS_OK) \<and>
    (\<forall>i < n. \<exists>q. Some q \<in> set requests \<and> status ((progress ^^ i) w) q = UCS_INPROGRESS)"
proof -
  let ?done = "\<lambda>n. \<forall>q. Some q \<in> set requests \<longrightarrow> status ((progress ^^ n) w) q = UCS_OK"
  have "finite {q. Some q \<in> set requests}"
    by (rule finite_subset [of _ "the ` set requests"]) (auto intro: rev_image_eqI)
  from eventually_all [OF this, of "\<lambda>q m. status ((progress ^^ m) w) q = UCS_OK"] assms(2)
  have "\<exists>n. ?done n" by auto
  then obtain n where n: "?done n" and least: "\<forall>i < n. \<not> ?done i"
    using exists_least_iff [of ?done] by blast
  have chk: "check_requests status ((progress ^^ i) w) requests = Inr (?done i)" for i
    using assms(1) by (intro check_requests_no_error) blast
  have "leaves_at progress (\<lambda>v. check_requests status v requests) w n (Inr ((progress ^^ n) w))"
    using least n by (simp add: leaves_at_def chk)
  then have "UCXCommunicator_waitall progress status w requests =
      Some (Inr ((progress ^^ n) w, map the (filter (\<lambda>q. q \<noteq> None) requests)))"
    unfolding UCXCommunicator_waitall_def by (simp add: poll_leaves)
  moreover have "\<exists>q. Some q \<in> set requests \<and> status ((progress ^^ i) w) q = UCS_INPROGRESS" if i: "i < n" for i
  proof -
    obtain q where "Some q \<in> set requests" "status ((progress ^^ i) w) q \<noteq> UCS_OK" using least i by blast
    moreover from this assms(1) have "status ((progress ^^ i) w) q = UCS_INPROGRESS"
      by (cases "status ((progress ^^ i) w) q") auto
    ultimately show ?thesis by blast
  qed
  ultimately show ?thesis using n by blast
qed

text \<open>A request that stays in progress for ever keeps it from returning.\<close>

lemma waitall_blocks:
  assumes "\<forall>n q e. Some q \<in> set requests \<longrightarrow> status ((progress ^^ n) w) q \<noteq> UCS_ERR e"
    and "Some q \<in> set requests" and "\<forall>n. status ((progress ^^ n) w) q = UCS_INPROGRESS"
  shows "UCXCommunicator_waitall progress status w requests = None"
proof -
  have "check_requests status ((progress ^^ i) w) requests = Inr False" for i
  proof -
    have "check_requests status ((progress ^^ i) w) requests =
        Inr (\<forall>q. Some q \<in> set requests \<longrightarrow> status ((progress ^^ i) w) q = UCS_OK)"
      using assms(1) by (intro check_requests_no_error) blast
    moreover have "status ((progress ^^ i) w) q \<noteq> UCS_OK" using assms(3) by simp
    ultimately show ?thesis using assms(2) by auto
  qed
  then have "poll progress (\<lambda>v. check_requests status v requests) w = None"
    unfolding poll_None_iff by blast
  then show ?thesis by (simp add: UCXCommunicator_waitall_def)
qed

text \<open>
  C20. \<open>waitall\<close> returns exactly when UCX completes the requests. If no request fails, and
  complete ones stay complete, the call hangs if and only if some request stays in progress
  for ever (its peer does not take part in the round). Otherwise it ends after finitely many
  calls of \<open>ucp_worker_progress\<close>, at the first moment at which all requests are complete,
  and it frees every non-null handle once.
\<close>
theorem ucx_waitall_returns_iff:
  assumes ok: "\<forall>n q e. Some q \<in> set requests \<longrightarrow> status ((progress ^^ n) w) q \<noteq> UCS_ERR e"
    and stays: "\<forall>n q. Some q \<in> set requests \<and> status ((progress ^^ n) w) q = UCS_OK \<longrightarrow> status ((progress ^^ Suc n) w) q = UCS_OK"
  shows "(UCXCommunicator_waitall progress status w requests = None \<longleftrightarrow>
      (\<exists>q. Some q \<in> set requests \<and> (\<forall>n. status ((progress ^^ n) w) q = UCS_INPROGRESS))) \<and>
    (\<forall>res. UCXCommunicator_waitall progress status w requests = Some res \<longrightarrow>
      (\<exists>n. res = Inr ((progress ^^ n) w, map the (filter (\<lambda>q. q \<noteq> None) requests)) \<and>
        (\<forall>q. Some q \<in> set requests \<longrightarrow> status ((progress ^^ n) w) q = UCS_OK) \<and>
        (\<forall>i < n. \<exists>q. Some q \<in> set requests \<and> status ((progress ^^ i) w) q = UCS_INPROGRESS)))"
proof (cases "\<exists>q. Some q \<in> set requests \<and> (\<forall>n. status ((progress ^^ n) w) q = UCS_INPROGRESS)")
  case True
  then have "UCXCommunicator_waitall progress status w requests = None" using waitall_blocks [OF ok] by blast
  then show ?thesis using True by simp
next
  case False
  have "\<exists>n. \<forall>m \<ge> n. status ((progress ^^ m) w) q = UCS_OK" if q: "Some q \<in> set requests" for q
  proof -
    obtain n where "status ((progress ^^ n) w) q \<noteq> UCS_INPROGRESS" using False q by blast
    then have n: "status ((progress ^^ n) w) q = UCS_OK" using ok q by (cases "status ((progress ^^ n) w) q") auto
    have "status ((progress ^^ m) w) q = UCS_OK" if "n \<le> m" for m
      using that by (induction m rule: dec_induct) (use n stays q in blast)+
    then show ?thesis by blast
  qed
  then show ?thesis using waitall_returns [OF ok] False by auto
qed

theorem ucx_waitall_returns_iff_witness:
  "(\<exists>n. UCXCommunicator_waitall Suc demo_status 0 [Some 2, None, Some 5] = Some (Inr (n, [2, 5])) \<and> 5 \<le> n) \<and>
    UCXCommunicator_waitall (\<lambda>w. w) demo_status 0 [Some 0, Some 1] = None"
proof -
  have id: "((\<lambda>w. w) ^^ n) (0 :: nat) = 0" for n by (induction n) simp_all
  have "UCXCommunicator_waitall (\<lambda>w. w) demo_status 0 [Some 0, Some 1] = None"
    using ucx_waitall_returns_iff [of "[Some 0, Some 1]" demo_status "\<lambda>w. w" 0] by (auto simp: demo_status_def id)
  moreover have "\<exists>n. UCXCommunicator_waitall Suc demo_status 0 [Some 2, None, Some 5] = Some (Inr (n, [2, 5])) \<and> 5 \<le> n"
  proof -
    have ok: "\<forall>n q e. Some q \<in> set [Some 2, None, Some (5 :: nat)] \<longrightarrow> demo_status ((Suc ^^ n) 0) q \<noteq> UCS_ERR e"
      by (simp add: demo_status_def)
    have stays: "\<forall>n q. Some q \<in> set [Some 2, None, Some (5 :: nat)] \<and> demo_status ((Suc ^^ n) 0) q = UCS_OK \<longrightarrow>
        demo_status ((Suc ^^ Suc n) 0) q = UCS_OK"
      by (auto simp: demo_status_def demo_progress split: if_splits)
    note r = ucx_waitall_returns_iff [OF ok stays]
    have "\<not> (\<exists>q. Some q \<in> set [Some 2, None, Some (5 :: nat)] \<and> (\<forall>n. demo_status ((Suc ^^ n) 0) q = UCS_INPROGRESS))"
      by (auto simp: demo_status_def demo_progress split: if_splits)
    then obtain res where "UCXCommunicator_waitall Suc demo_status 0 [Some 2, None, Some (5 :: nat)] = Some res"
      using r [THEN conjunct1] by blast
    moreover from this obtain n where "res = Inr ((Suc ^^ n) 0, map the (filter (\<lambda>q. q \<noteq> None) [Some 2, None, Some 5]))"
        "\<forall>q. Some q \<in> set [Some 2, None, Some (5 :: nat)] \<longrightarrow> demo_status ((Suc ^^ n) 0) q = UCS_OK"
      using r [THEN conjunct2] by blast
    ultimately show ?thesis by (auto simp: demo_status_def demo_progress split: if_splits)
  qed
  ultimately show ?thesis by blast
qed

section \<open>Transfers through communication buffers\<close>

text \<open>
  C21. A transfer of the buffer communicator delivers the data. However UCX answers the
  sends (at once or later, in any pattern), the send callback completes and sends the
  count and batches that fit the communication buffer; the receive callback, fed these
  messages, fills the user buffer with exactly the data (allocating it when it is null),
  leaves its rest alone and consumes no message of the next transfer.
\<close>
theorem buffer_transfer_roundtrip:
  assumes "0 < es" and "es \<le> cbs" and "0 \<le> cnt" and "int (length data) = cnt * es"
    and "nat cnt < length calls" and "length data \<le> length m"
  shows "\<exists>ws. buffer_send cbs data cnt es dest tag calls = Inr (ws, Sent) \<and>
    (\<forall>b. Batch b \<in> set ws \<longrightarrow> int (length b) \<le> cbs) \<and>
    recv_helper cbs (Some m) es source tag (ws @ rest) = Inr (Some (data @ drop (length data) m), rest) \<and>
    recv_helper cbs None es source tag (ws @ rest) = Inr (if data = [] then None else Some data, rest)"
proof (intro exI conjI)
  have ok: "transfer_ok cbs data cnt es" using assms by (simp add: transfer_ok_def)
  let ?ws = "Count cnt # batches cbs data cnt es 0 (n_batches cbs cnt es)"
  show "buffer_send cbs data cnt es dest tag calls = Inr (?ws, Sent)"
    using n_batches_le [OF ok] assms(5) by (intro buffer_send_ok ok) simp
  show "\<forall>b. Batch b \<in> set ?ws \<longrightarrow> int (length b) \<le> cbs"
    using batch_fits [OF ok] by auto
  show "recv_helper cbs (Some m) es source tag (?ws @ rest) = Inr (Some (data @ drop (length data) m), rest)"
    using recv_helper_ok [OF ok, of "Some m" source tag rest] assms(6) by (simp add: received_def)
  show "recv_helper cbs None es source tag (?ws @ rest) = Inr (if data = [] then None else Some data, rest)"
    using recv_helper_ok [OF ok, of None source tag rest] by (simp add: received_def)
qed

theorem buffer_transfer_roundtrip_witness:
  "\<exists>ws. buffer_send 5 [1, 2, 3, 4, 5, 6] 3 2 1 reserved_tag [[True], [], [False], []] = Inr (ws, Sent) \<and>
    recv_helper 5 (Some [0, 0, 0, 0, 0, 0, 7]) 2 0 reserved_tag (ws @ []) = Inr (Some [1, 2, 3, 4, 5, 6, 7], [])"
proof -
  let ?data = "[1, 2, 3, 4, 5, 6] :: byte list" and ?m = "[0, 0, 0, 0, 0, 0, 7] :: byte list"
  have "length ?data \<le> length ?m" and "int (length ?data) = 3 * 2"
    and "nat 3 < length [[True], [], [False], []]" by simp_all
  from buffer_transfer_roundtrip [OF _ _ _ this(2,3,1), of 5 1 reserved_tag 0 "[]"]
  obtain ws where "buffer_send 5 ?data 3 2 1 reserved_tag [[True], [], [False], []] = Inr (ws, Sent)"
    and "recv_helper 5 (Some ?m) 2 0 reserved_tag (ws @ []) = Inr (Some (?data @ drop (length ?data) ?m), [])"
    by auto
  then show ?thesis by auto
qed

lemma send_handler_stuck:
  assumes "0 \<le> cbs" and "cbs < s_element_size info" and "0 < s_count info"
  shows "\<exists>k info'. send_handler cbs info replies = Inr (replicate k (Batch []), SendPending info') \<and>
    s_element_size info' = s_element_size info \<and> s_count info' = s_count info"
  using assms(2,3)
proof (induction replies arbitrary: info)
  case Nil
  have "cbs div s_element_size info = 0" using assms(1) Nil by (intro div_pos_pos_trivial) auto
  then show ?case using Nil assms(1)
    by (subst send_handler.simps) (auto simp: Let_def intro: exI [of _ "Suc 0"])
next
  case (Cons rep rest)
  let ?i = "info\<lparr>s_ibatch := s_ibatch info + 1\<rparr>"
  have z: "cbs div s_element_size info = 0" using assms(1) Cons.prems by (intro div_pos_pos_trivial) auto
  obtain k info' where "send_handler cbs ?i rest = Inr (replicate k (Batch []), SendPending info')"
    "s_element_size info' = s_element_size info" "s_count info' = s_count info"
    using Cons.IH [of ?i] Cons.prems by auto
  then show ?case using Cons.prems assms(1) z
    by (subst send_handler.simps)
      (cases rep, auto simp: Let_def intro: exI [of _ "Suc k"] exI [of _ "Suc 0"])
qed

lemma run_send_stuck:
  assumes "0 \<le> cbs"
  shows "cbs < s_element_size info \<Longrightarrow> 0 < s_count info \<Longrightarrow>
    \<exists>k info'. run_send cbs info calls = Inr (replicate k (Batch []), SendPending info')"
proof (induction calls arbitrary: info)
  case Nil
  then show ?case by (auto intro: exI [of _ 0])
next
  case (Cons c calls)
  obtain k info' where h: "send_handler cbs info c = Inr (replicate k (Batch []), SendPending info')"
    and i: "s_element_size info' = s_element_size info" "s_count info' = s_count info"
    using send_handler_stuck [OF assms Cons.prems] by blast
  obtain k' info'' where "run_send cbs info' calls = Inr (replicate k' (Batch []), SendPending info'')"
    using Cons.IH [of info'] Cons.prems i by auto
  then show ?case using h by (auto simp flip: replicate_add)
qed

text \<open>
  C22. A communication buffer smaller than one element breaks the protocol: the number of
  elements per batch is zero, so the sender sends empty batches for ever and its request
  never completes, while the receiver reports completion after the count alone, with the
  user buffer untouched.
\<close>
theorem small_comm_buffer_never_completes:
  assumes "0 \<le> cbs" and "cbs < es" and "0 < cnt"
  shows "(\<exists>k info. buffer_send cbs data cnt es dest tag calls =
      Inr (Count cnt # replicate k (Batch []), SendPending info)) \<and>
    recv_helper cbs (Some m) es source tag (Count cnt # ws) = Inr (Some m, ws)"
proof
  show "\<exists>k info. buffer_send cbs data cnt es dest tag calls =
      Inr (Count cnt # replicate k (Batch []), SendPending info)"
    using run_send_stuck [OF assms(1), of "initial_send data cnt es dest tag" calls] assms
    by (auto simp: buffer_send_def initial_send_def)
  have "cbs div es = 0" using assms by (intro div_pos_pos_trivial) auto
  then show "recv_helper cbs (Some m) es source tag (Count cnt # ws) = Inr (Some m, ws)"
    using assms by (simp add: recv_helper_def recv_handler_def Let_def)
qed

theorem small_comm_buffer_never_completes_witness:
  "recv_helper 4 (Some [0, 0, 0, 0, 0, 0, 0, 0]) 8 0 reserved_tag [Count 1] = Inr (Some [0, 0, 0, 0, 0, 0, 0, 0], [])"
proof -
  have "(0 :: int) \<le> 4" and "(4 :: int) < 8" and "(0 :: int) < 1" by simp_all
  then show ?thesis
    using small_comm_buffer_never_completes [of 4 8 1 "[]" 0 reserved_tag "[]" "[0, 0, 0, 0, 0, 0, 0, 0]" 0 "[]"] by blast
qed

section \<open>The pool of communication buffers\<close>

text \<open>
  C23. With the \<open>2 * mpi_size\<close> buffers that the setup allocates, rounds of at most
  \<open>mpi_size\<close> sends and \<open>mpi_size\<close> receives never run out of buffers: after any number of
  such rounds the pool holds the same pairwise disjoint buffers, and \<open>finalize\<close> gives back
  exactly the allocation of \<open>setup_cache\<close>. One operation more in a round throws.
\<close>
theorem buffer_pool_rounds:
  assumes "0 < buffer_size" and "\<forall>ops \<in> set rounds. length ops \<le> 2 * mpi_size"
  shows "\<exists>st. efold pool_round (fst (setup_cache addr (2 * mpi_size) buffer_size)) rounds = Inr st \<and>
    UCXBufferCommunicator_finalize st = snd (setup_cache addr (2 * mpi_size) buffer_size) \<and>
    distinct (buffer_cache st) \<and>
    (\<forall>b \<in> set (buffer_cache st). addr \<le> b \<and> b + buffer_size \<le> addr + buffer_size * (2 * int mpi_size)) \<and>
    (\<forall>ops. 2 * mpi_size < length ops \<longrightarrow> pool_round st ops = Inl NoBufferedCache)"
proof -
  let ?st = "fst (setup_cache addr (2 * mpi_size) buffer_size)"
  have c: "buffer_cache ?st = map (\<lambda>i. addr + int i * buffer_size) [0..<2 * mpi_size]"
    and f: "comm_buffer_size ?st = buffer_size" "cache_start_addr ?st = addr" by (simp_all add: setup_cache_def)
  then have "\<forall>ops \<in> set rounds. length ops \<le> length (buffer_cache ?st)" using assms(2) by simp
  from pool_rounds_ok [OF this] obtain c' where r: "efold pool_round ?st rounds = Inr (?st\<lparr>buffer_cache := c'\<rparr>)"
    and m: "mset c' = mset (buffer_cache ?st)" by blast
  have len: "length c' = 2 * mpi_size" using mset_eq_length [OF m] c by simp
  have set: "set c' = set (buffer_cache ?st)" using mset_eq_setD [OF m] .
  have "distinct (buffer_cache ?st)" unfolding c using assms(1) by (simp add: distinct_map inj_on_def)
  then have d: "distinct c'" using m mset_eq_imp_distinct_iff by blast
  have "addr \<le> b \<and> b + buffer_size \<le> addr + buffer_size * (2 * int mpi_size)" if b: "b \<in> set c'" for b
  proof -
    obtain i where i: "i < 2 * mpi_size" "b = addr + int i * buffer_size" using b set c by auto
    have "(int i + 1) * buffer_size \<le> int (2 * mpi_size) * buffer_size"
      using i(1) assms(1) by (intro mult_right_mono) auto
    then show ?thesis using i(2) assms(1) by (simp add: algebra_simps)
  qed
  moreover have "pool_round (?st\<lparr>buffer_cache := c'\<rparr>) ops = Inl NoBufferedCache" if "2 * mpi_size < length ops" for ops
    using post_operations_empty [of "?st\<lparr>buffer_cache := c'\<rparr>" ops] that len by (simp add: pool_round_def)
  ultimately show ?thesis using r d len f
    by (intro exI [of _ "?st\<lparr>buffer_cache := c'\<rparr>"])
      (simp add: UCXBufferCommunicator_finalize_def, simp add: setup_cache_def)
qed

theorem buffer_pool_rounds_witness:
  "\<exists>st. efold pool_round (fst (setup_cache 4096 (2 * 2) 512)) [[True, False, True], [False]] = Inr st \<and>
    UCXBufferCommunicator_finalize st = (4096, 2048)"
proof -
  have "(0 :: int) < 512" and "\<forall>ops \<in> set [[True, False, True], [False]]. length ops \<le> 2 * 2" by simp_all
  from buffer_pool_rounds [OF this, of 4096] show ?thesis by (auto simp: setup_cache_def)
qed

section \<open>NCCL\<close>

text \<open>
  C26. The NCCL communicator adds only padding: over any NCCL that matches staged messages
  in order, a round of whole elements delivers the messages unchanged, although every
  message travels in a staging buffer rounded up to 256 bytes.
\<close>
theorem nccl_round_delivers:
  assumes "nccl_staging nccl N multi alloc" and "admissible nccl_message N multi snds" and "r < N"
    and "fifo_exchange snds r srcs = Inr ms"
  shows "nccl_round alloc nccl snds r srcs = Inr ms"
  using assms by (rule nccl_staging.nccl_round_fifo)

theorem nccl_round_delivers_witness:
  "nccl_round (\<lambda>n. replicate n 0) fifo_exchange [[(1, (2, [1, 2, 3, 4]))], [(0, (2, [9, 8])), (1, (1, []))]] 1 [0, 1] =
    Inr [(2, [1, 2, 3, 4]), (1, [])]"
proof -
  let ?snds = "[[(1, (2, [1, 2, 3, 4]))], [(0, (2, [9, 8])), (1, (1, []))]] :: (rank \<times> nat \<times> byte list) list list"
  have "admissible nccl_message 2 False ?snds"
    by (simp add: admissible_def nccl_message_def)
  moreover have "fifo_exchange ?snds 1 [0, 1] = Inr [(2, [1, 2, 3, 4]), (1, [])]"
    by (simp add: fifo_exchange_def incoming_queues_def msgs_to_def)
  ultimately show ?thesis
    by (intro nccl_round_delivers [OF nccl_fifo.nccl_staging_axioms, of 2 False]) simp_all
qed

end
