(* ===== verification/Relational.thy ===== *)
theory Relational
  imports Column_Rows "HOL-Library.Multiset"
begin

text \<open>
  The relational operations of cuDF that the joins use (\<open>hash_partition\<close>,
  \<open>inner_join\<close>, \<open>concatenate\<close>). They are not part of the repository: the record
  \<open>cudf_ops\<close> is a parameter of the model and \<open>cudf_ops_ok\<close> states their documentation.
  Rows are lists of cells (the bytes of the values); a table as a relation is the multiset
  of its rows.
\<close>

section \<open>Tables as relations\<close>

type_synonym row = "byte list list"

definition num_rows :: "'d cudf \<Rightarrow> 'd table \<Rightarrow> nat" where
  "num_rows env t = (case t of [] \<Rightarrow> 0 | c # cs \<Rightarrow> column_size env c)"

definition rows :: "'d cudf \<Rightarrow> 'd table \<Rightarrow> row list" where
  "rows env t = table_rows env (num_rows env t) t"

text \<open>
  What fits one table of a schema: row and character counts are \<open>size_type\<close>s. Column
  \<open>c\<close> of the schema holds strings if its type is \<open>None\<close>.
\<close>

definition col_bytes :: "nat \<Rightarrow> row multiset \<Rightarrow> nat" where
  "col_bytes c M = (\<Sum>row \<in># M. length (row ! c))"

definition fits :: "'d option list \<Rightarrow> row multiset \<Rightarrow> bool" where
  "fits sch M \<longleftrightarrow> int (size M) < 2 ^ 31 \<and>
     (\<forall>c < length sch. sch ! c = None \<longrightarrow> int (size M) + 1 < 2 ^ 31 \<and> int (col_bytes c M) < 2 ^ 31)"

definition wf_table :: "'d cudf \<Rightarrow> 'd option list \<Rightarrow> 'd table \<Rightarrow> bool" where
  "wf_table env sch t \<longleftrightarrow>
     sch \<noteq> [] \<and> schema t = sch \<and> table_ok env (num_rows env t) t \<and> fits sch (mset (rows env t))"

definition key :: "nat list \<Rightarrow> row \<Rightarrow> row" where
  "key on row = map (\<lambda>c. row ! c) on"

text \<open>The inner join of two relations: all pairs of rows that agree on the key columns.\<close>

definition matches :: "nat list \<Rightarrow> nat list \<Rightarrow> row multiset \<Rightarrow> row \<Rightarrow> row multiset" where
  "matches lon ron R l = image_mset (\<lambda>r. l @ r) (filter_mset (\<lambda>r. key ron r = key lon l) R)"

definition join_rows :: "nat list \<Rightarrow> nat list \<Rightarrow> row multiset \<Rightarrow> row multiset \<Rightarrow> row multiset" where
  "join_rows lon ron L R = (\<Sum>l \<in># L. matches lon ron R l)"

section \<open>The operations of cuDF\<close>

datatype hash_id = HASH_IDENTITY | HASH_MURMUR3

record 'd cudf_ops =
  hash_partition :: "'d table \<Rightarrow> nat list \<Rightarrow> nat \<Rightarrow> hash_id \<Rightarrow> 32 word \<Rightarrow> 'd table \<times> 32 word list"
  inner_join :: "'d table \<Rightarrow> 'd table \<Rightarrow> nat list \<Rightarrow> nat list \<Rightarrow> 'd table res"
  concatenate :: "'d table list \<Rightarrow> 'd table res"

text \<open>
  The partition number of a key: a function of hash, seed, number of partitions, types
  and values, so that equal keys of the two sides of a join fall into the same partition.
\<close>

type_synonym 'd partitioner = "hash_id \<Rightarrow> 32 word \<Rightarrow> nat \<Rightarrow> 'd option list \<Rightarrow> row \<Rightarrow> nat"

definition key_types :: "'d option list \<Rightarrow> nat list \<Rightarrow> 'd option list" where
  "key_types sch on = map (\<lambda>c. sch ! c) on"

definition valid_on :: "'d option list \<Rightarrow> nat list \<Rightarrow> bool" where
  "valid_on sch on \<longleftrightarrow> on \<noteq> [] \<and> (\<forall>c \<in> set on. c < length sch)"

text \<open>
  \<open>hash_partition\<close> permutes the rows and returns the start of every partition;
  \<open>inner_join\<close> of non-empty tables returns the joined rows if they fit one table;
  \<open>concatenate\<close> of tables of one schema appends them, tables without columns give a
  table without columns, and different numbers of columns are an error.
\<close>

definition hash_partition_ok :: "'d cudf \<Rightarrow> 'd cudf_ops \<Rightarrow> 'd partitioner \<Rightarrow> bool" where
  "hash_partition_ok env ops part \<longleftrightarrow>
     (\<forall>sch t on n h seed t' offs. wf_table env sch t \<and> valid_on sch on \<and> 0 < n \<and>
        hash_partition ops t on n h seed = (t', offs) \<longrightarrow>
        wf_table env sch t' \<and> mset (rows env t') = mset (rows env t) \<and> length offs = n \<and> hd offs = 0 \<and>
        (let ends = map sint offs @ [int (num_rows env t)] in
           sorted ends \<and>
           (\<forall>p < n. \<forall>i. ends ! p \<le> int i \<and> int i < ends ! Suc p \<longrightarrow>
              part h seed n (key_types sch on) (key on (rows env t' ! i)) = p)))"

definition inner_join_ok :: "'d cudf \<Rightarrow> 'd cudf_ops \<Rightarrow> bool" where
  "inner_join_ok env ops \<longleftrightarrow>
     (\<forall>schl schr l r lon ron. wf_table env schl l \<and> wf_table env schr r \<and> valid_on schl lon \<and> valid_on schr ron \<and>
        key_types schl lon = key_types schr ron \<and> rows env l \<noteq> [] \<and> rows env r \<noteq> [] \<and>
        fits (schl @ schr) (join_rows lon ron (mset (rows env l)) (mset (rows env r))) \<longrightarrow>
        (\<exists>t. inner_join ops l r lon ron = Inr t \<and> wf_table env (schl @ schr) t \<and>
           mset (rows env t) = join_rows lon ron (mset (rows env l)) (mset (rows env r))))"

definition concatenate_ok :: "'d cudf \<Rightarrow> 'd cudf_ops \<Rightarrow> bool" where
  "concatenate_ok env ops \<longleftrightarrow>
     (\<forall>sch ts. ts \<noteq> [] \<and> (\<forall>t \<in> set ts. wf_table env sch t) \<and> fits sch (\<Sum>t \<leftarrow> ts. mset (rows env t)) \<longrightarrow>
        (\<exists>t. concatenate ops ts = Inr t \<and> wf_table env sch t \<and>
           mset (rows env t) = (\<Sum>t \<leftarrow> ts. mset (rows env t)))) \<and>
     (\<forall>ts. ts \<noteq> [] \<and> (\<forall>t \<in> set ts. t = []) \<longrightarrow> concatenate ops ts = Inr []) \<and>
     (\<forall>ts t u. t \<in> set ts \<and> u \<in> set ts \<and> length t \<noteq> length u \<longrightarrow> concatenate ops ts = Inl ExternalError)"

definition partitioner_ok :: "'d partitioner \<Rightarrow> bool" where
  "partitioner_ok part \<longleftrightarrow> (\<forall>h seed n ts k. 0 < n \<longrightarrow> part h seed n ts k < n)"

definition cudf_ops_ok :: "'d cudf \<Rightarrow> 'd cudf_ops \<Rightarrow> 'd partitioner \<Rightarrow> bool" where
  "cudf_ops_ok env ops part \<longleftrightarrow>
     partitioner_ok part \<and> hash_partition_ok env ops part \<and> inner_join_ok env ops \<and> concatenate_ok env ops"

section \<open>Facts about tables\<close>

lemma rows_Nil [simp]: "rows env [] = []"
  by (simp add: rows_def num_rows_def table_rows_def)

lemma length_rows [simp]: "length (rows env t) = num_rows env t"
  by (simp add: rows_def)

lemma num_rows_eq: "cudf_ok env \<Longrightarrow> t \<noteq> [] \<Longrightarrow> table_ok env n t \<Longrightarrow> num_rows env t = n"
  by (cases t) (auto simp: num_rows_def table_ok_def column_ok_size)

lemma nth_rows: "i < num_rows env t \<Longrightarrow> rows env t ! i = map (\<lambda>c. cell env c i) t"
  by (simp add: rows_def table_rows_def)

lemma wf_tableD:
  assumes "wf_table env sch t"
  shows "sch \<noteq> []" "schema t = sch" "table_ok env (num_rows env t) t" "fits sch (mset (rows env t))"
    "t \<noteq> []" "length t = length sch" "int (num_rows env t) < 2 ^ 31"
  using assms by (auto simp: wf_table_def schema_def fits_def)

lemma fits_mono: "fits sch M \<Longrightarrow> M' \<subseteq># M \<Longrightarrow> fits sch M'"
proof -
  assume f: "fits sch M" and s: "M' \<subseteq># M"
  have "size M' \<le> size M" by (rule size_mset_mono [OF s])
  moreover have "col_bytes c M' \<le> col_bytes c M" for c
  proof -
    obtain D where "M = M' + D" using s by (rule mset_subset_eq_exists_conv [THEN iffD1, THEN exE])
    then show ?thesis by (simp add: col_bytes_def)
  qed
  ultimately have "int (size M') \<le> int (size M)" "int (col_bytes c M') \<le> int (col_bytes c M)" for c by simp_all
  then show ?thesis
    using f unfolding fits_def by (meson add_right_mono le_less_trans)
qed

lemma fits_empty [simp]: "fits sch {#}"
  by (simp add: fits_def col_bytes_def)

section \<open>Facts about joins\<close>

lemma join_rows_empty [simp]: "join_rows lon ron {#} R = {#}" "join_rows lon ron L {#} = {#}"
  by (simp_all add: join_rows_def matches_def)

lemma join_rows_add: "join_rows lon ron (add_mset l L) R = matches lon ron R l + join_rows lon ron L R"
  by (simp add: join_rows_def)

lemma sum_single: "finite P \<Longrightarrow> x \<in> P \<Longrightarrow> (\<Sum>p \<in> P. if x = p then A else {#}) = A"
  by (simp add: sum.delta)

lemma filter_mset_sum: "finite A \<Longrightarrow> filter_mset P (\<Sum>s \<in> A. M s) = (\<Sum>s \<in> A. filter_mset P (M s))"
  by (induction rule: finite_induct) simp_all

text \<open>
  The heart of a partitioned join: if every key has one place, the join of all rows is the
  sum over the places of the joins of the rows at that place.
\<close>

lemma join_placement:
  assumes fin: "finite P" and "\<forall>l \<in># L. loc (key lon l) \<in> P"
  shows "(\<Sum>p \<in> P. join_rows lon ron (filter_mset (\<lambda>l. loc (key lon l) = p) L)
                                    (filter_mset (\<lambda>r. loc (key ron r) = p) R)) = join_rows lon ron L R"
  using assms(2)
proof (induction L)
  case empty
  then show ?case by simp
next
  case (add l L)
  let ?R = "\<lambda>p. filter_mset (\<lambda>r. loc (key ron r) = p) R"
  let ?L = "\<lambda>p. filter_mset (\<lambda>l. loc (key lon l) = p) L"
  have m: "matches lon ron (?R (loc (key lon l))) l = matches lon ron R l"
    unfolding matches_def filter_filter_mset by (rule arg_cong [where f = "image_mset _"], rule filter_mset_cong) auto
  have "join_rows lon ron (filter_mset (\<lambda>l. loc (key lon l) = p) (add_mset l L)) (?R p) =
      (if loc (key lon l) = p then matches lon ron R l else {#}) + join_rows lon ron (?L p) (?R p)" for p
    using m by (auto simp: join_rows_add)
  then show ?case
    using add fin by (simp add: sum.distrib sum_single join_rows_add)
qed

lemma join_rows_mono:
  assumes "L' \<subseteq># L" and "R' \<subseteq># R"
  shows "join_rows lon ron L' R' \<subseteq># join_rows lon ron L R"
proof -
  obtain D where L: "L = L' + D" using assms(1) by (auto simp: mset_subset_eq_exists_conv)
  have "matches lon ron R' l \<subseteq># matches lon ron R l" for l
    unfolding matches_def by (intro image_mset_subseteq_mono multiset_filter_mono assms(2))
  then have "join_rows lon ron L' R' \<subseteq># join_rows lon ron L' R"
  proof (induction L')
    case (add l L')
    then show ?case by (simp add: join_rows_add subset_mset.add_mono)
  qed simp
  moreover have "join_rows lon ron L R = join_rows lon ron L' R + join_rows lon ron D R"
    by (simp add: L join_rows_def)
  ultimately show ?thesis by (metis mset_subset_eq_add_left subset_mset.order_trans)
qed

end
