(* ===== verification/Shuffle.thy ===== *)
theory Shuffle
  imports Relational Table_Rows Options
begin

text \<open>
  \<open>src/src/shuffle_on.cpp\<close>: hash partition on every rank, then an all-to-all of the
  partitions inside the communication groups. First what an all-to-all does to tables as
  relations, in terms of the total size of the data.
\<close>

section \<open>Sizes\<close>

lemma cell_length_strings:
  assumes "offsets_ok n (map sint offs)" and "sint (last offs) \<le> int (length cs)" and "i < n"
  shows "int (length (cell env (Strings offs cs) i)) = sint (offs ! Suc i) - sint (offs ! i)"
proof -
  have len: "length offs = Suc n" using assms(1) by (simp add: offsets_ok_def)
  then have nn: "offs \<noteq> []" by auto
  note b = offsets_ok_nonneg [OF assms(1), of i] offsets_ok_mono [OF assms(1), of i "Suc i"]
    offsets_ok_mono [OF assms(1), of "Suc i" n] offsets_ok_last [OF assms(1)]
  have "sint (offs ! Suc i) \<le> int (length cs)"
    using b(3,4) assms(2,3) len nn by (simp add: last_map)
  then show ?thesis using b(1,2) assms(3) len by (simp add: offset_simps)
qed

lemma range_bytes_strings:
  assumes ok: "column_ok env n (Strings offs cs)" and "a + k \<le> n"
  shows "(\<Sum>i \<leftarrow> [a..<a + k]. int (length (cell env (Strings offs cs) i))) = sint (offs ! (a + k)) - sint (offs ! a)"
  using assms(2)
proof (induction k)
  case (Suc k)
  then have "int (length (cell env (Strings offs cs) (a + k))) = sint (offs ! Suc (a + k)) - sint (offs ! (a + k))"
    using ok by (intro cell_length_strings [where n = n]) simp_all
  then show ?case using Suc by (simp del: cell.simps)
qed simp

lemma col_bytes_rows:
  assumes "c < length t" and "t ! c = Strings offs cs" and ok: "column_ok env (num_rows env t) (t ! c)"
  shows "int (col_bytes c (mset (rows env t))) = sint (offs ! num_rows env t) - sint (offs ! 0)"
proof -
  have "mset (rows env t) = image_mset (\<lambda>i. map (\<lambda>c. cell env c i) t) (mset [0..<num_rows env t])"
    by (simp add: rows_def table_rows_def)
  then have "col_bytes c (mset (rows env t)) = (\<Sum>i \<leftarrow> [0..<num_rows env t]. length (cell env (t ! c) i))"
    using assms(1) by (simp add: col_bytes_def image_mset.compositionality comp_def sum_mset_sum_list [symmetric] del: mset_upt)
  then have "int (col_bytes c (mset (rows env t))) = (\<Sum>i \<leftarrow> [0..<0 + num_rows env t]. int (length (cell env (Strings offs cs) i)))"
    using assms(2) by (simp only: int_sum_list add_0)
  also have "\<dots> = sint (offs ! (0 + num_rows env t)) - sint (offs ! 0)"
    using ok assms(2) by (intro range_bytes_strings [where n = "num_rows env t"]) simp_all
  finally show ?thesis by simp
qed

text \<open>Sums over the members of a group are bounded by sums over all ranks.\<close>

lemma members_sum_le:
  fixes f :: "rank \<Rightarrow> int"
  assumes grp: "group_params N grid st" and r: "r < N" and "\<forall>s < N. 0 \<le> f s"
  shows "(\<Sum>s \<leftarrow> members (comm_group_at grid st r). f s) \<le> (\<Sum>s < N. f s)"
proof -
  let ?m = "members (comm_group_at grid st r)"
  have "distinct ?m" using grp by (intro distinct_members) (simp add: group_params_def)
  then have "(\<Sum>s \<leftarrow> ?m. f s) = (\<Sum>s \<in> set ?m. f s)" by (simp add: sum_list_distinct_conv_sum_set)
  also have "\<dots> \<le> (\<Sum>s < N. f s)"
    using members_less [OF grp r] assms(3) by (intro sum_mono2) auto
  finally show ?thesis .
qed

lemma size_sum_mset':
  fixes M :: "'b \<Rightarrow> 'c multiset"
  shows "finite A \<Longrightarrow> size (\<Sum>s \<in> A. M s) = (\<Sum>s \<in> A. size (M s))"
  by (induction rule: finite_induct) simp_all

lemma col_bytes_sum: "finite A \<Longrightarrow> col_bytes c (\<Sum>s \<in> A. M s) = (\<Sum>s \<in> A. col_bytes c (M s))"
  by (induction rule: finite_induct) (simp_all add: col_bytes_def)

section \<open>The all-to-all of tables within the limits\<close>

text \<open>
  The arguments of an all-to-all as a job, and what the callers guarantee: tables of one
  schema, offsets within the tables that start at row zero if there are strings, and rows
  and characters of all ranks together that fit one table.
\<close>

definition table_job ::
  "'d cudf \<Rightarrow> nat \<Rightarrow> nat \<Rightarrow> 'd option list \<Rightarrow> 'd table list \<Rightarrow> 32 word list list \<Rightarrow> column_compression_options list \<Rightarrow> 'd job" where
  "table_job env grid st sch T offs opts =
     \<lparr>jenv = env, jranks = length T, jgrid = grid, jstride = st, jncols = length sch,
      jcol = (\<lambda>c r. T ! r ! c), jnrows = (\<lambda>r. num_rows env (T ! r)), jsoffs = (\<lambda>r. offs ! r), jopts = opts\<rparr>"

definition total_rows :: "'d cudf \<Rightarrow> 'd table list \<Rightarrow> row multiset" where
  "total_rows env T = (\<Sum>s < length T. mset (rows env (T ! s)))"

definition schema_sizes :: "'d cudf \<Rightarrow> 'd option list \<Rightarrow> nat set" where
  "schema_sizes env sch = {1, 4} \<union> {size_of env d | d. Some d \<in> set sch}"

definition partitions_ok :: "'d cudf \<Rightarrow> nat \<Rightarrow> nat \<Rightarrow> 'd option list \<Rightarrow> 'd table list \<Rightarrow> 32 word list list \<Rightarrow> bool" where
  "partitions_ok env grid st sch T offs \<longleftrightarrow>
     cudf_ok env \<and> group_params (length T) grid st \<and> T \<noteq> [] \<and> length offs = length T \<and>
     (\<forall>t \<in> set T. wf_table env sch t) \<and> fits sch (total_rows env T) \<and>
     (\<forall>s < length T. offsets_ok (grid div st) (map sint (offs ! s)) \<and>
        sint (last (offs ! s)) \<le> int (num_rows env (T ! s)) \<and> (None \<in> set sch \<longrightarrow> sint (hd (offs ! s)) = 0))"

lemma recv_offsets_spec_last:
  assumes "group_params N grid st"
  shows "recv_offsets_spec grid st offs r ! (grid div st) =
    (\<Sum>s \<leftarrow> members (comm_group_at grid st r). sent_count offs (get_local_idx (comm_group_at grid st r)) s)"
proof -
  let ?xs = "map (sent_count offs (get_local_idx (comm_group_at grid st r))) (members (comm_group_at grid st r))"
  have l: "length ?xs = grid div st" by (simp add: group_size_at)
  then have "(0 # partial_sum 0 ?xs) ! (grid div st) = 0 + sum_list (take (grid div st) ?xs)"
    by (intro partial_sum_nth) simp
  then show ?thesis using l by (simp add: recv_offsets_spec_def)
qed

lemma partitions_wf:
  "partitions_ok env grid st sch T offs \<Longrightarrow> s < length T \<Longrightarrow> wf_table env sch (T ! s)"
  by (simp add: partitions_ok_def)

lemma partition_bounds:
  assumes p: "partitions_ok env grid st sch T offs" and s: "s < length T" and k: "k < grid div st"
  shows "0 \<le> sint (offs ! s ! k)" "sint (offs ! s ! k) \<le> sint (offs ! s ! Suc k)"
    "sint (offs ! s ! Suc k) \<le> int (num_rows env (T ! s))" "length (offs ! s) = Suc (grid div st)"
proof -
  have o: "offsets_ok (grid div st) (map sint (offs ! s))" "sint (last (offs ! s)) \<le> int (num_rows env (T ! s))"
    using p s by (auto simp: partitions_ok_def)
  then show l: "length (offs ! s) = Suc (grid div st)" by (simp add: offsets_ok_def)
  then have "offs ! s \<noteq> []" by auto
  then show "0 \<le> sint (offs ! s ! k)" "sint (offs ! s ! k) \<le> sint (offs ! s ! Suc k)"
    "sint (offs ! s ! Suc k) \<le> int (num_rows env (T ! s))"
    using offsets_ok_nonneg [OF o(1), of k] offsets_ok_mono [OF o(1), of k "Suc k"]
      offsets_ok_mono [OF o(1), of "Suc k" "grid div st"] offsets_ok_last [OF o(1)] o(2) k l
    by (simp_all add: last_map)
qed

lemma total_row_bounds:
  assumes p: "partitions_ok env grid st sch T offs"
  shows "(\<Sum>s < length T. int (num_rows env (T ! s))) < 2 ^ 31"
    and "c < length sch \<Longrightarrow> sch ! c = None \<Longrightarrow>
      (\<Sum>s < length T. int (col_bytes c (mset (rows env (T ! s))))) < 2 ^ 31"
    and "c < length sch \<Longrightarrow> sch ! c = None \<Longrightarrow> (\<Sum>s < length T. int (num_rows env (T ! s))) + 1 < 2 ^ 31"
proof -
  have f: "fits sch (total_rows env T)" using p by (simp add: partitions_ok_def)
  then show "(\<Sum>s < length T. int (num_rows env (T ! s))) < 2 ^ 31"
    by (simp add: fits_def total_rows_def size_sum_mset')
  show "(\<Sum>s < length T. int (col_bytes c (mset (rows env (T ! s))))) < 2 ^ 31"
    if "c < length sch" "sch ! c = None"
    using f that by (simp add: fits_def total_rows_def col_bytes_sum)
  show "(\<Sum>s < length T. int (num_rows env (T ! s))) + 1 < 2 ^ 31" if "c < length sch" "sch ! c = None"
  proof -
    have "int (size (total_rows env T)) + 1 < 2 ^ 31" using f that by (simp add: fits_def)
    then show ?thesis by (simp add: total_rows_def size_sum_mset')
  qed
qed

lemma local_idx_bound: "group_params N grid st \<Longrightarrow> get_local_idx (comm_group_at grid st r) < grid div st"
  using local_idx_less [of N grid st r] by (simp add: group_size_at)

lemma row_roffs_bound:
  assumes p: "partitions_ok env grid st sch T offs" and r: "r < length T"
  shows "row_roffs (table_job env grid st sch T offs opts) r ! (grid div st) \<le> (\<Sum>s < length T. int (num_rows env (T ! s)))"
proof -
  have grp: "group_params (length T) grid st" using p by (simp add: partitions_ok_def)
  let ?i = "get_local_idx (comm_group_at grid st r)" and ?o = "map (\<lambda>s. map sint (offs ! s)) [0..<length T]"
  note i = local_idx_bound [OF grp, of r]
  have c: "0 \<le> sent_count ?o ?i s \<and> sent_count ?o ?i s \<le> int (num_rows env (T ! s))" if s: "s < length T" for s
    using partition_bounds [OF p s i] i s by (simp add: sent_count_def)
  have "(\<Sum>s \<leftarrow> members (comm_group_at grid st r). sent_count ?o ?i s) \<le> (\<Sum>s < length T. sent_count ?o ?i s)"
    using c by (intro members_sum_le [OF grp r]) blast
  also have "\<dots> \<le> (\<Sum>s < length T. int (num_rows env (T ! s)))" using c by (intro sum_mono) simp
  finally show ?thesis
    by (simp add: row_roffs_def table_job_def recv_offsets_spec_last [OF grp] comp_def)
qed

lemma char_roffs_bound:
  assumes p: "partitions_ok env grid st sch T offs" and r: "r < length T" and c: "c < length sch" "sch ! c = None"
  shows "char_roffs (table_job env grid st sch T offs opts) c r ! (grid div st) < 2 ^ 31"
proof -
  have grp: "group_params (length T) grid st" using p by (simp add: partitions_ok_def)
  let ?j = "table_job env grid st sch T offs opts"
  let ?i = "get_local_idx (comm_group_at grid st r)"
  let ?o = "map (\<lambda>s. map sint (char_soffs ?j c s)) [0..<length T]"
  note i = local_idx_bound [OF grp, of r]
  have str: "is_Strings (T ! s ! c)" "column_ok env (num_rows env (T ! s)) (T ! s ! c)" "c < length (T ! s)" if "s < length T" for s
  proof -
    note w = wf_tableD [OF partitions_wf [OF p that]]
    show "c < length (T ! s)" using w c by simp
    moreover have "column_type (T ! s ! c) = None" using w(2) c w(6) unfolding schema_def by (metis nth_map)
    ultimately show "is_Strings (T ! s ! c)" "column_ok env (num_rows env (T ! s)) (T ! s ! c)"
      using w(3) by (auto simp: is_Strings_type table_ok_def list_all_length)
  qed
  have b: "0 \<le> sent_count ?o ?i s \<and> sent_count ?o ?i s \<le> int (col_bytes c (mset (rows env (T ! s))))"
    if s: "s < length T" for s
  proof -
    obtain so cs where eq: "T ! s ! c = Strings so cs" using str(1) [OF s] by (cases "T ! s ! c") auto
    have ok: "offsets_ok (num_rows env (T ! s)) (map sint so)" using str(2) [OF s] eq by simp
    let ?a = "nat (sint (offs ! s ! ?i))" and ?b = "nat (sint (offs ! s ! Suc ?i))"
    note pb = partition_bounds [OF p s i]
    have le: "?a \<le> ?b" "?b \<le> num_rows env (T ! s)" using pb by auto
    have len: "length so = Suc (num_rows env (T ! s))" using ok by (simp add: offsets_ok_def)
    have "sent_count ?o ?i s = sint (so ! ?b) - sint (so ! ?a)"
      using s eq i pb(4) by (simp add: sent_count_def char_soffs_def table_job_def)
    then show ?thesis
      using offsets_ok_mono [OF ok le] offsets_ok_mono [OF ok le(2) order_refl] offsets_ok_mono [OF ok, of 0 ?a]
        col_bytes_rows [OF str(3) [OF s] eq str(2) [OF s]] le len by simp
  qed
  have "char_roffs ?j c r = recv_offsets_spec grid st ?o r"
    using str(1) [OF r] by (simp add: char_roffs_def table_job_def)
  then have "char_roffs ?j c r ! (grid div st) = (\<Sum>s \<leftarrow> members (comm_group_at grid st r). sent_count ?o ?i s)"
    by (simp only: recv_offsets_spec_last [OF grp])
  also have "\<dots> \<le> (\<Sum>s < length T. sent_count ?o ?i s)"
    using b by (intro members_sum_le [OF grp r]) blast
  also have "\<dots> \<le> (\<Sum>s < length T. int (col_bytes c (mset (rows env (T ! s)))))" using b by (intro sum_mono) simp
  also have "\<dots> < 2 ^ 31" by (rule total_row_bounds(2) [OF p c])
  finally show ?thesis .
qed

lemma table_job_ok:
  assumes p: "partitions_ok env grid st sch T offs" and opts: "table_options_ok env (T ! 0) opts"
  shows "job_ok (table_job env grid st sch T offs opts)"
proof -
  have grp: "group_params (length T) grid st" and env: "cudf_ok env" and T: "T \<noteq> []"
    using p by (auto simp: partitions_ok_def)
  have T0: "0 < length T" using T by simp
  have l0: "length opts = length sch"
    using opts wf_tableD(6) [OF partitions_wf [OF p T0]] by (simp add: table_options_ok_def list_all2_lengthD)
  have col: "column_ok env (num_rows env (T ! r)) (T ! r ! c)" "column_type (T ! r ! c) = sch ! c"
    "column_options_ok env (T ! r ! c) (opts ! c)" if c: "c < length sch" and r: "r < length T" for c r
  proof -
    note w = wf_tableD [OF partitions_wf [OF p r]]
    show "column_ok env (num_rows env (T ! r)) (T ! r ! c)" using w(3,6) c by (simp add: table_ok_def list_all_length)
    show "column_type (T ! r ! c) = sch ! c" using w(2,6) c unfolding schema_def by (metis nth_map)
    have "schema (T ! r) = schema (T ! 0)" using w(2) wf_tableD(2) [OF partitions_wf [OF p T0]] by simp
    from options_ok_schema [OF this opts] show "column_options_ok env (T ! r ! c) (opts ! c)"
      using c w(6) by (simp add: table_options_ok_def list_all2_conv_all_nth)
  qed
  have hd: "sint (hd (offs ! r)) = 0" if "r < length T" "c < length sch" "sch ! c = None" for r c
    using p that by (auto simp: partitions_ok_def in_set_conv_nth)
  show ?thesis
    unfolding job_ok_def
  proof (intro conjI allI impI)
    show "row_roffs (table_job env grid st sch T offs opts) r ! gsize (table_job env grid st sch T offs opts) < 2 ^ 31"
      if "r < jranks (table_job env grid st sch T offs opts)" for r
      using le_less_trans [OF row_roffs_bound [OF p] total_row_bounds(1) [OF p]] that by (simp add: table_job_def)
    show "char_roffs (table_job env grid st sch T offs opts) c r ! gsize (table_job env grid st sch T offs opts) < 2 ^ 31"
      if "c < jncols (table_job env grid st sch T offs opts)" "r < jranks (table_job env grid st sch T offs opts)"
        "is_Strings (jcol (table_job env grid st sch T offs opts) c r)" for c r
      using char_roffs_bound [OF p] that col(2) by (simp add: table_job_def is_Strings_type)
    show "row_roffs (table_job env grid st sch T offs opts) r ! gsize (table_job env grid st sch T offs opts) + 1 < 2 ^ 31"
      if "c < jncols (table_job env grid st sch T offs opts)" "r < jranks (table_job env grid st sch T offs opts)"
        "is_Strings (jcol (table_job env grid st sch T offs opts) c r)" for c r
    proof -
      have c: "c < length sch" "sch ! c = None" and r: "r < length T" using that col(2) by (simp_all add: table_job_def is_Strings_type)
      show ?thesis using row_roffs_bound [OF p r, of opts] total_row_bounds(3) [OF p c] by (simp add: table_job_def)
    qed
  qed (use p grp env T0 l0 col hd in \<open>auto simp: table_job_def partitions_ok_def is_Strings_type\<close>)
qed

lemma table_job_tables:
  assumes "partitions_ok env grid st sch T offs"
  shows "jtables (table_job env grid st sch T offs opts) = T"
proof (rule nth_equalityI)
  fix r assume "r < length (jtables (table_job env grid st sch T offs opts))"
  then have r: "r < length T" by (simp add: table_job_def)
  then have "length (T ! r) = length sch" using wf_tableD(6) [OF partitions_wf [OF assms]] by simp
  then show "jtables (table_job env grid st sch T offs opts) ! r = T ! r"
    using r map_nth [of "T ! r"] by (simp add: table_job_def)
qed (simp add: table_job_def)

lemma mset_concat_map: "mset (concat (map f xs)) = (\<Sum>x \<leftarrow> xs. mset (f x))"
  by (induction xs) simp_all

lemma sum_list_subset_mset:
  "distinct xs \<Longrightarrow> set xs \<subseteq> A \<Longrightarrow> finite A \<Longrightarrow> \<forall>x \<in> A. f x \<subseteq># g x \<Longrightarrow> (\<Sum>x \<leftarrow> xs. f x) \<subseteq># (\<Sum>x \<in> A. g x)"
proof (induction xs arbitrary: A)
  case (Cons x xs)
  then have "(\<Sum>y \<leftarrow> xs. f y) \<subseteq># (\<Sum>y \<in> A - {x}. g y)" by (intro Cons.IH) auto
  then show ?case using Cons.prems by (simp add: sum.remove [of A x g] subset_mset.add_mono)
qed simp

text \<open>
  What an all-to-all within the limits returns: rank \<open>r\<close> has the rows of its partition of
  every member of its group, in a well-formed table of the same schema.
\<close>

lemma all_to_all_partitions:
  assumes nv: "nvcomp_ok nv" and mpi: "p2p_transport mpi (\<lambda>_. True) (length T) False"
    and tr: "p2p_transport exch okm (length T) multi" and multi: "gbb \<longrightarrow> multi"
    and okm: "okm_sizes okm (schema_sizes env sch)"
    and p: "partitions_ok env grid st sch T offs" and opts: "table_options_ok env (T ! 0) opts"
  shows "\<exists>outs. all_to_all_table nv env mpi exch gbb grid st T offs (replicate (length T) opts) ec = Inr outs \<and>
    length outs = length T \<and>
    (\<forall>r < length T. wf_table env sch (outs ! r) \<and>
       mset (rows env (outs ! r)) = (\<Sum>s \<leftarrow> members (comm_group_at grid st r).
         let i = get_local_idx (comm_group_at grid st r) in
         mset (subrange (rows env (T ! s)) (sint (offs ! s ! i)) (sint (offs ! s ! Suc i)))))"
proof -
  let ?j = "table_job env grid st sch T offs opts"
  let ?N = "length T" and ?C = "[0..<length sch]"
  note j = table_job_ok [OF p opts]
  have grp: "group_params ?N grid st" and env: "cudf_ok env" and lo: "length offs = ?N"
    using p by (auto simp: partitions_ok_def)
  have fields: "jranks ?j = ?N" "jgrid ?j = grid" "jstride ?j = st" "jncols ?j = length sch" "jenv ?j = env"
    "jopts ?j = opts" "jsoffs ?j = (\<lambda>r. offs ! r)" "jcol ?j = (\<lambda>c r. T ! r ! c)" "jnrows ?j = (\<lambda>r. num_rows env (T ! r))"
    by (simp_all add: table_job_def)
  have type: "column_type (T ! s ! c) = sch ! c" if "s < ?N" "c < length sch" for s c
    using wf_tableD(2,6) [OF partitions_wf [OF p that(1)]] that(2) unfolding schema_def by (metis nth_map)
  have T0: "0 < ?N" using p by (simp add: partitions_ok_def)
  have "job_sizes ?j \<subseteq> schema_sizes env sch"
  proof -
    have "Some (dtype (T ! 0 ! c)) \<in> set sch" if "c < length sch" "\<not> is_Strings (T ! 0 ! c)" for c
      using type [OF T0 that(1)] that by (cases "T ! 0 ! c") (auto simp: in_set_conv_nth)
    then show ?thesis by (auto simp: job_sizes_def schema_sizes_def fields)
  qed
  then have okj: "okm_sizes okm (job_sizes ?j)" using okm unfolding okm_sizes_def by blast
  have "map ((!) offs) [0..<?N] = offs" using lo map_nth [of offs] by simp
  moreover have "mat (length sch) ?N (\<lambda>c r. T ! r ! c) = T"
    using table_job_tables [OF p, of opts] unfolding fields .
  ultimately have run: "all_to_all_table nv env mpi exch gbb grid st T offs (replicate ?N opts) ec =
      Inr (mat (length sch) ?N (final_col ?j))"
    using all_to_all_table_ok [OF nv _ _ j okj multi, of mpi exch ec] mpi tr
    unfolding fields by simp
  let ?out = "\<lambda>r. map (\<lambda>c. final_col ?j c r) ?C"
  have out: "wf_table env sch (?out r) \<and> mset (rows env (?out r)) = (\<Sum>s \<leftarrow> members (comm_group_at grid st r).
      let i = get_local_idx (comm_group_at grid st r) in
      mset (subrange (rows env (T ! s)) (sint (offs ! s ! i)) (sint (offs ! s ! Suc i))))"
    if r: "r < ?N" for r
  proof -
    let ?i = "get_local_idx (comm_group_at grid st r)" and ?m = "members (comm_group_at grid st r)"
    have i: "?i < grid div st" by (rule local_idx_bound [OF grp])
    have tok: "table_ok env (nrecv ?j r) (?out r)"
      using final_col_rows(1) [OF j _ , of _ r] r by (simp add: table_ok_def list_all_iff fields)
    moreover have ne: "?out r \<noteq> []" using wf_tableD(1) [OF partitions_wf [OF p T0]] by simp
    ultimately have nr: "num_rows env (?out r) = nrecv ?j r" by (intro num_rows_eq [OF env])
    have "rows env (?out r) = map (\<lambda>(s, i). map (\<lambda>c. cell env (T ! s ! c) i) ?C) (row_sources ?j r)"
      using final_table_rows [OF j, of r] r by (simp add: rows_def nr fields)
    also have "\<dots> = concat (map (\<lambda>s. map (\<lambda>i. map (\<lambda>c. cell env (T ! s ! c) i) ?C)
        [nat (soff ?j s ! ?i)..<nat (soff ?j s ! Suc ?i)]) ?m)"
      by (simp add: map_row_sources [of "\<lambda>s i. map (\<lambda>c. cell env (T ! s ! c) i) ?C", unfolded fields] fields)
    also have "\<dots> = concat (map (\<lambda>s. subrange (rows env (T ! s)) (sint (offs ! s ! ?i)) (sint (offs ! s ! Suc ?i))) ?m)"
    proof (intro arg_cong [where f = concat] map_cong refl)
      fix s assume "s \<in> set ?m"
      then have s: "s < ?N" by (rule members_less [OF grp r])
      note b = partition_bounds [OF p s i]
      have l: "length (T ! s) = length sch" using wf_tableD(6) [OF partitions_wf [OF p s]] .
      have rw: "rows env (T ! s) = map (\<lambda>i. map (\<lambda>c. cell env (T ! s ! c) i) ?C) [0..<num_rows env (T ! s)]"
      proof -
        have "map (\<lambda>c. cell env c i) (T ! s) = map (\<lambda>c. cell env (T ! s ! c) i) ?C" for i
          by (rule nth_equalityI) (simp_all add: l)
        then show ?thesis by (simp add: rows_def table_rows_def)
      qed
      have "subrange [0..<num_rows env (T ! s)] (sint (offs ! s ! ?i)) (sint (offs ! s ! Suc ?i)) =
          [nat (sint (offs ! s ! ?i))..<nat (sint (offs ! s ! Suc ?i))]"
        using b by (simp add: subrange_def nat_diff_distrib)
      then show "map (\<lambda>i. map (\<lambda>c. cell env (T ! s ! c) i) ?C) [nat (soff ?j s ! ?i)..<nat (soff ?j s ! Suc ?i)] =
          subrange (rows env (T ! s)) (sint (offs ! s ! ?i)) (sint (offs ! s ! Suc ?i))"
        using b(4) i by (simp add: rw subrange_map fields)
    qed
    finally have ms: "mset (rows env (?out r)) = (\<Sum>s \<leftarrow> ?m. mset (subrange (rows env (T ! s)) (sint (offs ! s ! ?i)) (sint (offs ! s ! Suc ?i))))"
      by (simp add: mset_concat_map)
    have sub: "mset (subrange xs a b) \<subseteq># mset xs" for xs :: "row list" and a b
      by (simp add: subrange_def) (metis append_take_drop_id mset_append mset_subset_eq_add_left mset_subset_eq_add_right subset_mset.order_trans)
    have "mset (rows env (?out r)) \<subseteq># total_rows env T"
      unfolding ms total_rows_def using grp members_less [OF grp r] sub
      by (intro sum_list_subset_mset distinct_members) (auto simp: group_params_def)
    then have "fits sch (mset (rows env (?out r)))" using p fits_mono by (auto simp: partitions_ok_def)
    moreover have "schema (?out r) = sch"
    proof (rule nth_equalityI)
      fix c assume "c < length (schema (?out r))"
      then have c: "c < length sch" by (simp add: schema_def)
      then show "schema (?out r) ! c = sch ! c"
        using type [OF T0 c] by (cases "T ! 0 ! c") (auto simp: schema_def final_col_def fields)
    qed (simp add: schema_def)
    ultimately show ?thesis
      using tok nr ms ne by (simp add: wf_table_def Let_def)
  qed
  then show ?thesis using run by (intro exI [of _ "mat (length sch) ?N (final_col ?j)"]) simp
qed

section \<open>Partitions of a list by a function\<close>

lemma in_set_subrange:
  assumes "0 \<le> a" and "b \<le> int (length xs)" and "x \<in> set (subrange xs a b)"
  shows "\<exists>i. a \<le> int i \<and> int i < b \<and> x = xs ! i"
proof -
  obtain k where k: "k < length (subrange xs a b)" "x = subrange xs a b ! k"
    using assms(3) by (auto simp: in_set_conv_nth)
  then have lt: "int k < b - a" using assms(1,2) by (auto simp: subrange_def)
  then have "x = xs ! (nat a + k)" using k(2) nth_subrange [OF assms(1) lt assms(2)] by simp
  then show ?thesis using lt assms(1) by (intro exI [of _ "nat a + k"]) auto
qed

lemma find_interval:
  fixes e :: "nat \<Rightarrow> int"
  shows "e 0 \<le> x \<Longrightarrow> x < e n \<Longrightarrow> \<exists>p < n. e p \<le> x \<and> x < e (Suc p)"
proof (induction n)
  case (Suc n)
  then show ?case by (cases "x < e n") (auto intro: less_SucI)
qed simp

lemma filter_partition:
  assumes ends: "sorted ends" "length ends = Suc n" "ends ! 0 = 0" "ends ! n = int (length xs)"
    and f: "\<forall>p < n. \<forall>i. ends ! p \<le> int i \<and> int i < ends ! Suc p \<longrightarrow> f (xs ! i) = p" and p: "p < n"
  shows "filter (\<lambda>x. f x = p) xs = subrange xs (ends ! p) (ends ! Suc p)"
proof -
  let ?a = "ends ! p" and ?b = "ends ! Suc p" and ?l = "int (length xs)"
  have mono: "ends ! i \<le> ends ! k" if "i \<le> k" "k \<le> n" for i k
    using sorted_nth_mono [OF ends(1), of i k] that ends(2) by simp
  have b: "0 \<le> ?a" "?a \<le> ?b" "?b \<le> ?l"
    using mono [of 0 p] mono [of p "Suc p"] mono [of "Suc p" n] p ends(3,4) by auto
  have xs: "xs = subrange xs 0 ?a @ subrange xs ?a ?b @ subrange xs ?b ?l"
    using b subrange_append [of ?a ?b ?l xs] subrange_append [of 0 ?a ?l xs] by simp
  have at: "\<exists>q < n. f (xs ! i) = q \<and> ends ! q \<le> int i \<and> int i < ends ! Suc q" if "int i < ?l" for i
    using find_interval [of "\<lambda>k. ends ! k" "int i" n] that ends(3,4) f by auto
  have "f x \<noteq> p" if x: "x \<in> set (subrange xs 0 ?a)" for x
  proof -
    obtain i where i: "int i < ?a" "x = xs ! i" using in_set_subrange [OF _ _ x] b by auto
    then obtain q where q: "f x = q" "ends ! q \<le> int i" "int i < ends ! Suc q" "q < n" using at [of i] b by auto
    show ?thesis using q i(1) by auto
  qed
  moreover have "f x \<noteq> p" if x: "x \<in> set (subrange xs ?b ?l)" for x
  proof -
    obtain i where i: "?b \<le> int i" "int i < ?l" "x = xs ! i" using in_set_subrange [OF _ _ x] b by auto
    then obtain q where q: "f x = q" "int i < ends ! Suc q" "q < n" using at [of i] by auto
    show ?thesis using q i(1) by auto
  qed
  moreover have "f x = p" if x: "x \<in> set (subrange xs ?a ?b)" for x
    using in_set_subrange [OF b(1,3) x] f p by auto
  ultimately have "filter (\<lambda>x. f x = p) (subrange xs 0 ?a @ subrange xs ?a ?b @ subrange xs ?b ?l) = subrange xs ?a ?b"
    by (simp add: filter_id_conv filter_empty_conv)
  then show ?thesis using xs by simp
qed

section \<open>The shuffle\<close>

text \<open>
  \<open>shuffle_on\<close> on all ranks: the second overload, which the tests and the benchmarks
  call, groups all ranks.
\<close>

definition hashed :: "'d cudf \<Rightarrow> 'd cudf_ops \<Rightarrow> nat list \<Rightarrow> nat \<Rightarrow> hash_id \<Rightarrow> 32 word \<Rightarrow> 'd table \<Rightarrow> 'd table \<times> 32 word list" where
  "hashed env ops on n h seed t =
     (let (t', offs) = hash_partition ops t on n h seed in (t', offs @ [word_of_nat (num_rows env t')]))"

definition shuffle_on ::
  "nvcomp \<Rightarrow> 'd cudf \<Rightarrow> 'd cudf_ops \<Rightarrow> ((rank \<times> int) list list \<Rightarrow> rank \<Rightarrow> rank list \<Rightarrow> int list res) \<Rightarrow>
     ((rank \<times> msg) list list \<Rightarrow> rank \<Rightarrow> rank list \<Rightarrow> msg list res) \<Rightarrow> bool \<Rightarrow> 'd table list \<Rightarrow> nat list \<Rightarrow>
     nat \<Rightarrow> nat \<Rightarrow> column_compression_options list list \<Rightarrow> hash_id \<Rightarrow> 32 word \<Rightarrow> 'd table list res" where
  "shuffle_on nv env ops mpi exch gbb inputs on_columns grid st opts hash_function hash_seed =
     (let hs = map (\<lambda>r. hashed env ops on_columns (group_size (comm_group_at grid st r)) hash_function hash_seed (inputs ! r))
                 [0..<length inputs] in
      all_to_all_table nv env mpi exch gbb grid st (map fst hs) (map snd hs) opts True)"

definition shuffle_on_all ::
  "nvcomp \<Rightarrow> 'd cudf \<Rightarrow> 'd cudf_ops \<Rightarrow> ((rank \<times> int) list list \<Rightarrow> rank \<Rightarrow> rank list \<Rightarrow> int list res) \<Rightarrow>
     ((rank \<times> msg) list list \<Rightarrow> rank \<Rightarrow> rank list \<Rightarrow> msg list res) \<Rightarrow> bool \<Rightarrow> 'd table list \<Rightarrow> nat list \<Rightarrow>
     column_compression_options list list \<Rightarrow> hash_id \<Rightarrow> 32 word \<Rightarrow> 'd table list res" where
  "shuffle_on_all nv env ops mpi exch gbb inputs on_columns opts hash_function hash_seed =
     ebind (emap (CommunicationGroup (length inputs) 1) [0..<length inputs]) (\<lambda>gs.
     shuffle_on nv env ops mpi exch gbb inputs on_columns (length inputs) 1 opts hash_function hash_seed)"

lemma hashed_ok:
  assumes ops: "hash_partition_ok env ops part" and wf: "wf_table env sch t" and on: "valid_on sch on" and n: "0 < n"
    and h: "hashed env ops on n h seed t = (t', offs)"
  shows "wf_table env sch t'" "mset (rows env t') = mset (rows env t)" "num_rows env t' = num_rows env t"
    "length offs = Suc n" "sorted (map sint offs)" "sint (offs ! 0) = 0" "sint (offs ! n) = int (num_rows env t')"
    "\<forall>p < n. filter (\<lambda>row. part h seed n (key_types sch on) (key on row) = p) (rows env t') =
       subrange (rows env t') (sint (offs ! p)) (sint (offs ! Suc p))"
proof -
  obtain o' where hp: "hash_partition ops t on n h seed = (t', o')" and o: "offs = o' @ [word_of_nat (num_rows env t')]"
    using h by (auto simp: hashed_def Let_def split: prod.splits)
  have spec: "wf_table env sch t'" "mset (rows env t') = mset (rows env t)" "length o' = n" "hd o' = 0"
    "sorted (map sint o' @ [int (num_rows env t)])"
    "\<forall>p < n. \<forall>i. (map sint o' @ [int (num_rows env t)]) ! p \<le> int i \<and> int i < (map sint o' @ [int (num_rows env t)]) ! Suc p \<longrightarrow>
       part h seed n (key_types sch on) (key on (rows env t' ! i)) = p"
    using ops [unfolded hash_partition_ok_def] wf on n hp by (simp_all add: Let_def)
  show "wf_table env sch t'" "mset (rows env t') = mset (rows env t)" by (rule spec)+
  show nr: "num_rows env t' = num_rows env t" using mset_eq_length [OF spec(2)] by simp
  have w: "sint (word_of_nat (num_rows env t') :: 32 word) = int (num_rows env t')"
    using wf_tableD(7) [OF spec(1)] by (simp add: signed_of_nat signed_take_bit_int_eq_self)
  have m: "map sint offs = map sint o' @ [int (num_rows env t)]" using w nr by (simp add: o)
  show l: "length offs = Suc n" using spec(3) by (simp add: o)
  show s: "sorted (map sint offs)" unfolding m by (rule spec(5))
  show z: "sint (offs ! 0) = 0" using spec(3,4) n by (cases o') (simp_all add: o)
  show e: "sint (offs ! n) = int (num_rows env t')" using spec(3) w by (simp add: o nth_append)
  have sp: "\<forall>p < n. \<forall>i. map sint offs ! p \<le> int i \<and> int i < map sint offs ! Suc p \<longrightarrow>
      part h seed n (key_types sch on) (key on (rows env t' ! i)) = p"
    unfolding m by (rule spec(6))
  have "filter (\<lambda>row. part h seed n (key_types sch on) (key on row) = p) (rows env t') =
      subrange (rows env t') (map sint offs ! p) (map sint offs ! Suc p)" if "p < n" for p
    using l z e by (intro filter_partition [OF s _ _ _ sp that]) simp_all
  then show "\<forall>p < n. filter (\<lambda>row. part h seed n (key_types sch on) (key on row) = p) (rows env t') =
       subrange (rows env t') (sint (offs ! p)) (sint (offs ! Suc p))"
    using l by simp
qed

text \<open>The relation that reaches rank \<open>r\<close>: the rows of its group whose key has its number.\<close>

definition routed :: "nat \<Rightarrow> nat \<Rightarrow> (row \<Rightarrow> nat) \<Rightarrow> (rank \<Rightarrow> row multiset) \<Rightarrow> rank \<Rightarrow> row multiset" where
  "routed grid st num M r =
     (\<Sum>s \<leftarrow> members (comm_group_at grid st r).
        filter_mset (\<lambda>row. num row = get_local_idx (comm_group_at grid st r)) (M s))"

abbreviation part_of :: "'d partitioner \<Rightarrow> hash_id \<Rightarrow> 32 word \<Rightarrow> nat \<Rightarrow> 'd option list \<Rightarrow> nat list \<Rightarrow> row \<Rightarrow> nat" where
  "part_of part h seed n sch on row \<equiv> part h seed n (key_types sch on) (key on row)"

abbreviation table_rel :: "'d cudf \<Rightarrow> 'd table list \<Rightarrow> rank \<Rightarrow> row multiset" where
  "table_rel env T s \<equiv> mset (rows env (T ! s))"

text \<open>The inputs of a shuffle: tables of one schema that together fit one table.\<close>

definition shuffle_inputs_ok :: "'d cudf \<Rightarrow> 'd option list \<Rightarrow> nat list \<Rightarrow> 'd table list \<Rightarrow> bool" where
  "shuffle_inputs_ok env sch on T \<longleftrightarrow>
     cudf_ok env \<and> T \<noteq> [] \<and> valid_on sch on \<and> (\<forall>t \<in> set T. wf_table env sch t) \<and> fits sch (total_rows env T)"

lemma sum_list_cong: "(\<And>x. x \<in> set xs \<Longrightarrow> f x = g x) \<Longrightarrow> (\<Sum>x \<leftarrow> xs. f x) = (\<Sum>x \<leftarrow> xs. g x)"
  by (rule arg_cong [where f = sum_list]) simp

lemma shuffle_on_ok:
  assumes nv: "nvcomp_ok nv" and mpi: "p2p_transport mpi (\<lambda>_. True) (length T) False"
    and tr: "p2p_transport exch okm (length T) multi" and multi: "gbb \<longrightarrow> multi"
    and okm: "okm_sizes okm (schema_sizes env sch)" and ops: "hash_partition_ok env ops part"
    and grp: "group_params (length T) grid st" and T: "shuffle_inputs_ok env sch on T"
    and opts: "table_options_ok env (T ! 0) opts"
  shows "\<exists>outs. shuffle_on nv env ops mpi exch gbb T on grid st (replicate (length T) opts) h seed = Inr outs \<and>
    length outs = length T \<and>
    (\<forall>r < length T. wf_table env sch (outs ! r) \<and>
       mset (rows env (outs ! r)) = routed grid st (part_of part h seed (grid div st) sch on) (table_rel env T) r)"
proof -
  let ?N = "length T" and ?n = "grid div st"
  let ?hs = "map (\<lambda>t. hashed env ops on ?n h seed t) T"
  let ?T' = "map fst ?hs" and ?offs = "map snd ?hs"
  have n: "0 < ?n" using group_size_pos [OF grp] by (simp add: group_size_at)
  note Tok = T [unfolded shuffle_inputs_ok_def]
  have ok: "wf_table env sch (?T' ! s)" "mset (rows env (?T' ! s)) = mset (rows env (T ! s))"
    "num_rows env (?T' ! s) = num_rows env (T ! s)" "length (?offs ! s) = Suc ?n" "sorted (map sint (?offs ! s))"
    "sint (?offs ! s ! 0) = 0" "sint (?offs ! s ! ?n) = int (num_rows env (?T' ! s))"
    "\<forall>p < ?n. filter (\<lambda>row. part_of part h seed ?n sch on row = p) (rows env (?T' ! s)) =
       subrange (rows env (?T' ! s)) (sint (?offs ! s ! p)) (sint (?offs ! s ! Suc p))" if s: "s < ?N" for s
  proof -
    have wf: "wf_table env sch (T ! s)" and on: "valid_on sch on" using Tok s by auto
    have h: "hashed env ops on ?n h seed (T ! s) = (?T' ! s, ?offs ! s)" using s by simp
    from hashed_ok [OF ops wf on n h]
    show "wf_table env sch (?T' ! s)" "mset (rows env (?T' ! s)) = mset (rows env (T ! s))"
      "num_rows env (?T' ! s) = num_rows env (T ! s)" "length (?offs ! s) = Suc ?n" "sorted (map sint (?offs ! s))"
      "sint (?offs ! s ! 0) = 0" "sint (?offs ! s ! ?n) = int (num_rows env (?T' ! s))"
      "\<forall>p < ?n. filter (\<lambda>row. part_of part h seed ?n sch on row = p) (rows env (?T' ! s)) =
         subrange (rows env (?T' ! s)) (sint (?offs ! s ! p)) (sint (?offs ! s ! Suc p))" by this+
  qed
  have p: "partitions_ok env grid st sch ?T' ?offs"
    unfolding partitions_ok_def
  proof (intro conjI ballI allI impI)
    show "cudf_ok env" "?T' \<noteq> []" "group_params (length ?T') grid st" using Tok grp by auto
    show "wf_table env sch t" if "t \<in> set ?T'" for t using that ok(1) by (auto simp: in_set_conv_nth)
    have "total_rows env ?T' = total_rows env T"
      unfolding total_rows_def using ok(2) by (simp del: nth_map)
    then show "fits sch (total_rows env ?T')" using Tok by simp
    fix s assume "s < length ?T'"
    then have s: "s < ?N" by simp
    have ne: "?offs ! s \<noteq> []" using ok(4) [OF s] by auto
    have "last (?offs ! s) = ?offs ! s ! ?n" using ne ok(4) [OF s] by (simp add: last_conv_nth del: nth_map)
    then show "sint (last (?offs ! s)) \<le> int (num_rows env (?T' ! s))" using ok(7) [OF s] by (simp del: nth_map)
    have "map sint (?offs ! s) ! 0 = sint (?offs ! s ! 0)" by (rule nth_map) (simp only: ok(4) [OF s])
    then show "offsets_ok ?n (map sint (?offs ! s))"
      using ok(4-6) [OF s] by (simp add: offsets_ok_def del: nth_map)
    show "sint (hd (?offs ! s)) = 0" using ok(6) [OF s] hd_conv_nth [OF ne] by (simp del: nth_map)
  qed simp
  have T0: "0 < ?N" using Tok by simp
  have "schema (?T' ! 0) = schema (T ! 0)"
    using wf_tableD(2) [OF ok(1) [OF T0]] wf_tableD(2) [of env sch "T ! 0"] Tok T0 by (simp del: nth_map)
  from options_ok_schema [OF this opts] have o': "table_options_ok env (?T' ! 0) opts" .
  have run: "shuffle_on nv env ops mpi exch gbb T on grid st (replicate ?N opts) h seed =
      all_to_all_table nv env mpi exch gbb grid st ?T' ?offs (replicate (length ?T') opts) True"
  proof -
    have "map (\<lambda>r. hashed env ops on (group_size (comm_group_at grid st r)) h seed (T ! r)) [0..<?N] = ?hs"
      by (rule nth_equalityI) (simp_all add: group_size_at)
    then show ?thesis by (simp add: shuffle_on_def Let_def)
  qed
  have mpi': "p2p_transport mpi (\<lambda>_. True) (length ?T') False" and tr': "p2p_transport exch okm (length ?T') multi"
    using mpi tr by simp_all
  obtain outs where outs: "all_to_all_table nv env mpi exch gbb grid st ?T' ?offs (replicate (length ?T') opts) True = Inr outs"
    and len: "length outs = length ?T'"
    and res: "\<forall>r < length ?T'. wf_table env sch (outs ! r) \<and>
       mset (rows env (outs ! r)) = (\<Sum>s \<leftarrow> members (comm_group_at grid st r).
         let i = get_local_idx (comm_group_at grid st r) in
         mset (subrange (rows env (?T' ! s)) (sint (?offs ! s ! i)) (sint (?offs ! s ! Suc i))))"
    using all_to_all_partitions [OF nv mpi' tr' multi okm p o', of True] by blast
  have "mset (rows env (outs ! r)) = routed grid st (part_of part h seed ?n sch on) (table_rel env T) r" if r: "r < ?N" for r
  proof -
    let ?i = "get_local_idx (comm_group_at grid st r)"
    have "mset (subrange (rows env (?T' ! s)) (sint (?offs ! s ! ?i)) (sint (?offs ! s ! Suc ?i))) =
        filter_mset (\<lambda>row. part_of part h seed ?n sch on row = ?i) (table_rel env T s)"
      if "s \<in> set (members (comm_group_at grid st r))" for s
    proof -
      have s: "s < ?N" by (rule members_less [OF grp r that])
      have "filter (\<lambda>row. part_of part h seed ?n sch on row = ?i) (rows env (?T' ! s)) =
          subrange (rows env (?T' ! s)) (sint (?offs ! s ! ?i)) (sint (?offs ! s ! Suc ?i))"
        using ok(8) [OF s] local_idx_bound [OF grp, of r] by blast
      then show ?thesis using ok(2) [OF s] by (metis mset_filter)
    qed
    then show ?thesis using res r unfolding routed_def Let_def by (simp cong: map_cong del: nth_map)
  qed
  then show ?thesis using run outs len res by (intro exI [of _ outs]) (simp del: nth_map)
qed

end
