(* ===== verification/Distributed_Join.thy ===== *)
theory Distributed_Join
  imports Shuffle
begin

text \<open>
  \<open>src/src/distributed_join.cpp\<close>: the choice of the NVLink domain, the local join, and
  \<open>distributed_inner_join\<close> itself, as a collective function of the tables of all ranks.
  The thread that joins the batches while the main thread communicates the next ones is
  the subject of the theory \<open>Join_Threads\<close>, which shows that every interleaving has the
  result computed here.
\<close>

section \<open>The size of an NVLink domain\<close>

function ceil_sqrt_from :: "nat \<Rightarrow> nat \<Rightarrow> nat" where
  "ceil_sqrt_from n k = (if n \<le> k * k then k else ceil_sqrt_from n (Suc k))"
  by auto
termination
proof (relation "measure (\<lambda>(n, k). n - k)")
  fix n k :: nat assume "\<not> n \<le> k * k"
  moreover have "k \<le> k * k" by (cases k) simp_all
  ultimately have "k < n" by linarith
  then show "((n, Suc k), (n, k)) \<in> measure (\<lambda>(n, k). n - k)" by auto
qed simp

declare ceil_sqrt_from.simps [simp del]

text \<open>\<open>ceil(sqrt(n))\<close>, exact in \<open>double\<close> for every \<open>int\<close>.\<close>

definition ceil_sqrt :: "nat \<Rightarrow> nat" where
  "ceil_sqrt n = ceil_sqrt_from n 0"

fun nvl_search :: "nat \<Rightarrow> int \<Rightarrow> nat \<Rightarrow> nat" where
  "nvl_search mpi_size domain 0 = 1"
| "nvl_search mpi_size domain (Suc n) =
     (if mpi_size mod Suc n = 0 \<and> int (Suc n) \<le> domain then Suc n else nvl_search mpi_size domain n)"

definition get_nvl_partition_size :: "nat \<Rightarrow> int \<Rightarrow> nat" where
  "get_nvl_partition_size mpi_size nvlink_domain_size =
     (if int mpi_size \<le> nvlink_domain_size then mpi_size
      else nvl_search mpi_size nvlink_domain_size (ceil_sqrt mpi_size))"

lemma nvl_search_spec:
  "nvl_search N d n dvd N \<and> 0 < nvl_search N d n \<and> (int (nvl_search N d n) \<le> d \<or> nvl_search N d n = 1) \<and>
    (\<forall>k \<le> n. k dvd N \<and> 0 < k \<and> int k \<le> d \<longrightarrow> k \<le> nvl_search N d n)"
proof (induction n)
  case (Suc n)
  show ?case
  proof (cases "N mod Suc n = 0 \<and> int (Suc n) \<le> d")
    case True
    then show ?thesis by (auto simp: mod_eq_0_iff_dvd)
  next
    case False
    then have "k \<le> n" if "k \<le> Suc n" "k dvd N" "int k \<le> d" for k
      using that by (cases "k = Suc n") (auto simp: mod_eq_0_iff_dvd)
    then show ?thesis using Suc False by auto
  qed
qed simp

lemma ceil_sqrt_from_spec:
  "k * k < n \<or> k = 0 \<Longrightarrow> n \<le> ceil_sqrt_from n k * ceil_sqrt_from n k \<and> (\<forall>m. m < ceil_sqrt_from n k \<and> k \<le> m \<longrightarrow> m * m < n)"
proof (induction n k rule: ceil_sqrt_from.induct)
  case (1 n k)
  show ?case
  proof (cases "n \<le> k * k")
    case True
    then show ?thesis by (simp add: ceil_sqrt_from.simps [of n k])
  next
    case False
    have "n \<le> ceil_sqrt_from n (Suc k) * ceil_sqrt_from n (Suc k) \<and>
        (\<forall>m. m < ceil_sqrt_from n (Suc k) \<and> Suc k \<le> m \<longrightarrow> m * m < n)"
    proof (cases "Suc k * Suc k < n")
      case True
      then show ?thesis using 1(1) [OF False] by blast
    next
      case stop: False
      then have "ceil_sqrt_from n (Suc k) = Suc k" by (subst ceil_sqrt_from.simps) simp
      then show ?thesis using stop by simp
    qed
    moreover have "ceil_sqrt_from n k = ceil_sqrt_from n (Suc k)"
      using False by (subst ceil_sqrt_from.simps) simp
    ultimately show ?thesis using False by (metis le_neq_implies_less linorder_not_le not_less_eq_eq)
  qed
qed

lemma get_nvl_partition_size_spec:
  assumes "0 < N"
  shows "get_nvl_partition_size N d dvd N" "0 < get_nvl_partition_size N d"
  using nvl_search_spec [of N d "ceil_sqrt N"] assms by (auto simp: get_nvl_partition_size_def)

section \<open>Local joins\<close>

definition local_join_helper ::
  "'d cudf \<Rightarrow> 'd cudf_ops \<Rightarrow> 'd table \<Rightarrow> 'd table \<Rightarrow> nat list \<Rightarrow> nat list \<Rightarrow> 'd table res" where
  "local_join_helper env ops left right left_on right_on =
     (if num_rows env left \<noteq> 0 \<and> num_rows env right \<noteq> 0
      then inner_join ops left right left_on right_on
      else Inr [])"

text \<open>What the join thread computes on one rank, and the merge of the batches.\<close>

definition join_batches ::
  "'d cudf \<Rightarrow> 'd cudf_ops \<Rightarrow> nat list \<Rightarrow> nat list \<Rightarrow> ('d table \<times> 'd table) list \<Rightarrow> 'd table res" where
  "join_batches env ops left_on right_on batches =
     ebind (emap (\<lambda>(l, r). local_join_helper env ops l r left_on right_on) batches) (concatenate ops)"

section \<open>The distributed join\<close>

definition hash_partition_seed_ib :: "32 word" where
  "hash_partition_seed_ib = 87654321"

definition hash_partition_seed :: "32 word" where
  "hash_partition_seed = 12345678"

text \<open>The shuffle across NVLink domains of one table, skipped when there is one domain.\<close>

definition shuffle_ib ::
  "nvcomp \<Rightarrow> 'd cudf \<Rightarrow> 'd cudf_ops \<Rightarrow> ((rank \<times> int) list list \<Rightarrow> rank \<Rightarrow> rank list \<Rightarrow> int list res) \<Rightarrow>
     ((rank \<times> msg) list list \<Rightarrow> rank \<Rightarrow> rank list \<Rightarrow> msg list res) \<Rightarrow> bool \<Rightarrow> 'd table list \<Rightarrow> nat list \<Rightarrow>
     nat \<Rightarrow> column_compression_options list list \<Rightarrow> 'd table list res" where
  "shuffle_ib nv env ops mpi exch gbb T on nvl opts =
     (if nvl \<noteq> length T
      then ebind (emap (CommunicationGroup (length T) nvl) [0..<length T]) (\<lambda>gs.
           shuffle_on nv env ops mpi exch gbb T on (length T) nvl opts HASH_MURMUR3 hash_partition_seed_ib)
      else Inr T)"

text \<open>The hash partition inside a domain; the last offset is the row count of the input.\<close>

definition join_partition ::
  "'d cudf_ops \<Rightarrow> 'd cudf \<Rightarrow> nat list \<Rightarrow> nat \<Rightarrow> 'd table \<Rightarrow> 'd table \<times> 32 word list" where
  "join_partition ops env on parts t =
     (let (t', offs) = hash_partition ops t on parts HASH_MURMUR3 hash_partition_seed in
      (t', offs @ [word_of_nat (num_rows env t)]))"

text \<open>\<open>vector(&offset[b * n], &offset[(b + 1) * n + 1])\<close>: the offsets of batch \<open>b\<close>.\<close>

definition batch_offsets :: "nat \<Rightarrow> nat \<Rightarrow> 32 word list \<Rightarrow> 32 word list" where
  "batch_offsets n b offs = take ((b + 1) * n + 1 - b * n) (drop (b * n) offs)"

definition batch_communicators ::
  "((rank \<times> int) list list \<Rightarrow> rank \<Rightarrow> rank list \<Rightarrow> int list res) \<Rightarrow> nat \<Rightarrow> nat \<Rightarrow>
     ('d table \<times> 32 word list) list \<Rightarrow> 'd a2a_communicator list res" where
  "batch_communicators mpi nvl b hs =
     AllToAllCommunicator mpi nvl 1 (map fst hs) (map (\<lambda>h. batch_offsets nvl b (snd h)) hs)
       (map (\<lambda>h. generate_none_compression_options (fst h)) hs) True"

text \<open>
  All batches: the communicators of both sides, then the allocations, then the
  communication batch after batch.
\<close>

definition communicate_batches ::
  "nvcomp \<Rightarrow> 'd cudf \<Rightarrow> ((rank \<times> int) list list \<Rightarrow> rank \<Rightarrow> rank list \<Rightarrow> int list res) \<Rightarrow>
     ((rank \<times> msg) list list \<Rightarrow> rank \<Rightarrow> rank list \<Rightarrow> msg list res) \<Rightarrow> bool \<Rightarrow> nat \<Rightarrow> nat \<Rightarrow>
     ('d table \<times> 32 word list) list \<Rightarrow> ('d table \<times> 32 word list) list \<Rightarrow> ('d table list \<times> 'd table list) list res" where
  "communicate_batches nv env mpi exch gbb nvl odf hl hr =
     ebind (emap (\<lambda>b. ebind (batch_communicators mpi nvl b hl) (\<lambda>cl.
                      ebind (batch_communicators mpi nvl b hr) (\<lambda>cr. Inr (cl, cr)))) [0..<odf]) (\<lambda>cms.
     ebind (emap (\<lambda>(cl, cr). ebind (emap (allocate_communicated_table env) cl) (\<lambda>al.
                             ebind (emap (allocate_communicated_table env) cr) (\<lambda>ar. Inr (al, ar)))) cms) (\<lambda>allocs.
     emap (\<lambda>(al, ar). ebind (launch_communication nv env mpi exch gbb nvl 1 al) (\<lambda>l.
                      ebind (launch_communication nv env mpi exch gbb nvl 1 ar) (\<lambda>r. Inr (l, r)))) allocs))"

definition distributed_inner_join ::
  "nvcomp \<Rightarrow> 'd cudf \<Rightarrow> 'd cudf_ops \<Rightarrow> ((rank \<times> int) list list \<Rightarrow> rank \<Rightarrow> rank list \<Rightarrow> int list res) \<Rightarrow>
     ((rank \<times> msg) list list \<Rightarrow> rank \<Rightarrow> rank list \<Rightarrow> msg list res) \<Rightarrow> bool \<Rightarrow> 'd table list \<Rightarrow> 'd table list \<Rightarrow>
     nat list \<Rightarrow> nat list \<Rightarrow> column_compression_options list list \<Rightarrow> column_compression_options list list \<Rightarrow>
     nat \<Rightarrow> int \<Rightarrow> 'd table list res" where
  "distributed_inner_join nv env ops mpi exch gbb left right left_on right_on lopts ropts over_decom_factor nvlink_domain_size =
     (let N = length left; nvl = get_nvl_partition_size N nvlink_domain_size in
      ebind (shuffle_ib nv env ops mpi exch gbb left left_on nvl lopts) (\<lambda>left'.
      ebind (shuffle_ib nv env ops mpi exch gbb right right_on nvl ropts) (\<lambda>right'.
      if nvl = 1 then emap (\<lambda>r. local_join_helper env ops (left' ! r) (right' ! r) left_on right_on) [0..<N]
      else
        let parts = nvl * over_decom_factor;
            hl = map (join_partition ops env left_on parts) left';
            hr = map (join_partition ops env right_on parts) right' in
        ebind (emap (CommunicationGroup nvl 1) [0..<N]) (\<lambda>gs.
        ebind (communicate_batches nv env mpi exch gbb nvl over_decom_factor hl hr) (\<lambda>batches.
        emap (\<lambda>r. join_batches env ops left_on right_on (map (\<lambda>(ls, rs). (ls ! r, rs ! r)) batches)) [0..<N])))))"

section \<open>One phase of routing\<close>

text \<open>
  Two phases of routing compose: after the first, rank \<open>r\<close> has the rows of its residue
  class whose first number is its domain; the ranks of a domain together have all rows
  of the domain.
\<close>

lemma members_columns:
  assumes "group_params N N nvl" and "r < N"
  shows "members (comm_group_at N nvl r) = map (\<lambda>k. r mod nvl + k * nvl) [0..<N div nvl]"
    and "get_local_idx (comm_group_at N nvl r) = r div nvl"
proof -
  show "members (comm_group_at N nvl r) = map (\<lambda>k. r mod nvl + k * nvl) [0..<N div nvl]"
    using assms(2) by (simp add: members_def get_global_rank_def comm_group_at_def group_size_def)
  show "get_local_idx (comm_group_at N nvl r) = r div nvl"
    using local_idx_eq [OF assms(1), of r] assms(2) by simp
qed

lemma sum_domain:
  fixes f :: "rank \<Rightarrow> 'm::comm_monoid_add"
  shows "(\<Sum>i < nvl. \<Sum>k < q. f (i + k * nvl)) = (\<Sum>s < q * nvl. f s)"
proof -
  have "(\<Sum>i < nvl. f (i + k * nvl)) = sum f {k * nvl..<k * nvl + nvl}" for k
    using sum.shift_bounds_nat_ivl [of f 0 "k * nvl" nvl] by (simp add: atLeast0LessThan add.commute)
  then have "(\<Sum>k < q. \<Sum>i < nvl. f (i + k * nvl)) = (\<Sum>s < q * nvl. f s)"
    by (simp add: sum.nat_group)
  then show ?thesis by (subst sum.swap)
qed

lemma domain_rows:
  assumes grp: "group_params N N nvl" and r: "r < N"
  shows "(\<Sum>s \<leftarrow> members (comm_group_at nvl 1 r). routed N nvl num M s) =
    filter_mset (\<lambda>row. num row = r div nvl) (\<Sum>s < N. M s)"
proof -
  have nvl: "0 < nvl" "nvl dvd N" using grp by (auto simp: group_params_def)
  let ?d = "r div nvl" and ?q = "N div nvl"
  have N: "N = ?q * nvl" using nvl by simp
  then have "?d < ?q" using r nvl by (simp add: less_mult_imp_div_less)
  have lt: "?d * nvl + i < N" if "i < nvl" for i
  proof -
    have "?d * nvl + i < Suc ?d * nvl" using that by simp
    also have "\<dots> \<le> ?q * nvl" using \<open>?d < ?q\<close> by (intro mult_le_mono1) simp
    finally show ?thesis using N by simp
  qed
  have one: "routed N nvl num M (?d * nvl + i) =
      filter_mset (\<lambda>row. num row = ?d) (\<Sum>k < ?q. M (i + k * nvl))" if i: "i < nvl" for i
  proof -
    have "(?d * nvl + i) mod nvl = i" "(?d * nvl + i) div nvl = ?d" using i by simp_all
    then show ?thesis
      using members_columns [OF grp lt [OF i]]
      by (simp add: routed_def sum_list_upt comp_def filter_mset_sum)
  qed
  have "(\<Sum>s \<leftarrow> members (comm_group_at nvl 1 r). routed N nvl num M s) =
      (\<Sum>i < nvl. filter_mset (\<lambda>row. num row = ?d) (\<Sum>k < ?q. M (i + k * nvl)))"
    unfolding members_stride1 by (simp add: sum_list_upt comp_def one)
  also have "\<dots> = filter_mset (\<lambda>row. num row = ?d) (\<Sum>i < nvl. \<Sum>k < ?q. M (i + k * nvl))"
    by (simp add: filter_mset_sum)
  also have "(\<Sum>i < nvl. \<Sum>k < ?q. M (i + k * nvl)) = (\<Sum>s < N. M s)"
    using sum_domain [of "M" nvl ?q] N by simp
  finally show ?thesis .
qed

section \<open>The batches\<close>

lemma join_partition_hashed:
  assumes "hash_partition_ok env ops part" and "wf_table env sch t" and "valid_on sch on" and "0 < n"
  shows "join_partition ops env on n t = hashed env ops on n HASH_MURMUR3 hash_partition_seed t"
proof -
  obtain t' offs where h: "hash_partition ops t on n HASH_MURMUR3 hash_partition_seed = (t', offs)" by fastforce
  then have "hashed env ops on n HASH_MURMUR3 hash_partition_seed t = (t', offs @ [word_of_nat (num_rows env t')])"
    by (simp add: hashed_def)
  then have "num_rows env t' = num_rows env t" using hashed_ok(3) [OF assms] by blast
  then show ?thesis by (simp add: join_partition_def hashed_def h)
qed

lemma nth_batch_offsets:
  "b < odf \<Longrightarrow> length offs = Suc (n * odf) \<Longrightarrow>
    length (batch_offsets n b offs) = Suc n \<and> (\<forall>i \<le> n. batch_offsets n b offs ! i = offs ! (b * n + i))"
proof -
  assume b: "b < odf" and l: "length offs = Suc (n * odf)"
  have "(b + 1) * n \<le> odf * n" using b by (intro mult_le_mono1) simp
  then show ?thesis using l by (simp add: batch_offsets_def mult.commute)
qed

lemma batch_partitions_ok:
  assumes ops: "hash_partition_ok env ops part" and T: "shuffle_inputs_ok env sch on T"
    and grp: "group_params (length T) nvl 1" and b: "b < odf" and str: "odf = 1 \<or> None \<notin> set sch"
  defines "hs \<equiv> map (join_partition ops env on (nvl * odf)) T"
  shows "partitions_ok env nvl 1 sch (map fst hs) (map (\<lambda>h. batch_offsets nvl b (snd h)) hs)"
    and "\<And>s i. s < length T \<Longrightarrow> i < nvl \<Longrightarrow>
      mset (subrange (rows env (map fst hs ! s)) (sint (map (\<lambda>h. batch_offsets nvl b (snd h)) hs ! s ! i))
        (sint (map (\<lambda>h. batch_offsets nvl b (snd h)) hs ! s ! Suc i))) =
      filter_mset (\<lambda>row. part_of part HASH_MURMUR3 hash_partition_seed (nvl * odf) sch on row = b * nvl + i) (table_rel env T s)"
proof -
  let ?n = "nvl * odf" and ?T' = "map fst hs" and ?offs = "map (\<lambda>h. batch_offsets nvl b (snd h)) hs"
  note Tok = T [unfolded shuffle_inputs_ok_def]
  have nvl: "0 < nvl" using grp by (simp add: group_params_def)
  then have n: "0 < ?n" using b by simp
  have h: "hs ! s = (fst (hs ! s), snd (hs ! s))" for s by simp
  have ok: "wf_table env sch (?T' ! s)" "mset (rows env (?T' ! s)) = table_rel env T s"
      "length (snd (hs ! s)) = Suc ?n" "sorted (map sint (snd (hs ! s)))" "sint (snd (hs ! s) ! 0) = 0"
      "sint (snd (hs ! s) ! ?n) = int (num_rows env (?T' ! s))"
      "\<forall>p < ?n. filter (\<lambda>row. part_of part HASH_MURMUR3 hash_partition_seed ?n sch on row = p) (rows env (?T' ! s)) =
         subrange (rows env (?T' ! s)) (sint (snd (hs ! s) ! p)) (sint (snd (hs ! s) ! Suc p))"
    if s: "s < length T" for s
  proof -
    have wf: "wf_table env sch (T ! s)" and on: "valid_on sch on" using Tok s by auto
    have "hashed env ops on ?n HASH_MURMUR3 hash_partition_seed (T ! s) = (?T' ! s, snd (hs ! s))"
      using s join_partition_hashed [OF ops wf on n] by (simp add: hs_def)
    note facts = hashed_ok [OF ops wf on n this]
    show "wf_table env sch (?T' ! s)" "mset (rows env (?T' ! s)) = table_rel env T s"
      "length (snd (hs ! s)) = Suc ?n" "sorted (map sint (snd (hs ! s)))" "sint (snd (hs ! s) ! 0) = 0"
      "sint (snd (hs ! s) ! ?n) = int (num_rows env (?T' ! s))"
      "\<forall>p < ?n. filter (\<lambda>row. part_of part HASH_MURMUR3 hash_partition_seed ?n sch on row = p) (rows env (?T' ! s)) =
         subrange (rows env (?T' ! s)) (sint (snd (hs ! s) ! p)) (sint (snd (hs ! s) ! Suc p))" by (rule facts)+
  qed
  have lhs: "length hs = length T" by (simp add: hs_def)
  have off: "length (?offs ! s) = Suc nvl" "\<And>i. i \<le> nvl \<Longrightarrow> ?offs ! s ! i = snd (hs ! s) ! (b * nvl + i)"
    if s: "s < length T" for s
    using nth_batch_offsets [OF b ok(3) [OF s]] s lhs by simp_all
  have le: "b * nvl + i \<le> ?n" if "i \<le> nvl" for i
  proof -
    have "Suc b * nvl \<le> odf * nvl" using b by (intro mult_le_mono1) simp
    then show ?thesis using that by (simp add: mult.commute)
  qed
  have mono: "sint (snd (hs ! s) ! i) \<le> sint (snd (hs ! s) ! k)" if "s < length T" "i \<le> k" "k \<le> ?n" for s i k
    using sorted_nth_mono [OF ok(4) [OF that(1)], of i k] ok(3) [OF that(1)] that by simp
  show "partitions_ok env nvl 1 sch ?T' ?offs"
    unfolding partitions_ok_def
  proof (intro conjI ballI allI impI)
    show "cudf_ok env" "?T' \<noteq> []" "group_params (length ?T') nvl 1" using Tok grp by (auto simp: hs_def)
    show "wf_table env sch t" if t: "t \<in> set ?T'" for t
    proof -
      obtain s where "s < length T" "t = ?T' ! s" using t lhs by (metis in_set_conv_nth length_map)
      then show ?thesis using ok(1) by blast
    qed
    have "total_rows env ?T' = total_rows env T"
      unfolding total_rows_def using ok(2) lhs by (simp del: nth_map)
    then show "fits sch (total_rows env ?T')" using Tok by simp
    fix s assume "s < length ?T'"
    then have s: "s < length T" using lhs by simp
    have ne: "?offs ! s \<noteq> []" using off(1) [OF s] by auto
    have "last (?offs ! s) = snd (hs ! s) ! (b * nvl + nvl)"
      using ne off [OF s] by (simp add: last_conv_nth del: nth_map)
    then show "sint (last (?offs ! s)) \<le> int (num_rows env (?T' ! s))"
      using mono [OF s le [of nvl]] ok(6) [OF s] by (simp del: nth_map)
    have at: "map sint (?offs ! s) ! i = sint (snd (hs ! s) ! (b * nvl + i))" if "i \<le> nvl" for i
      using off [OF s] that by (subst nth_map) simp_all
    have "sorted (map sint (?offs ! s))"
      unfolding sorted_iff_nth_mono
    proof (intro allI impI)
      fix i k assume "i \<le> k" "k < length (map sint (?offs ! s))"
      then have "i \<le> nvl" "k \<le> nvl" using off(1) [OF s] by simp_all
      then show "map sint (?offs ! s) ! i \<le> map sint (?offs ! s) ! k"
        using mono [OF s _ le] \<open>i \<le> k\<close> by (simp only: at)
    qed
    moreover have "0 \<le> map sint (?offs ! s) ! 0"
      using mono [OF s, of 0 "b * nvl"] le [of 0] ok(5) [OF s] at [of 0] by simp
    ultimately show "offsets_ok (nvl div 1) (map sint (?offs ! s))"
      using off(1) [OF s] by (simp add: offsets_ok_def del: nth_map)
    show "sint (hd (?offs ! s)) = 0" if "None \<in> set sch"
      using str b that hd_conv_nth [OF ne] off(2) [OF s, of 0] ok(5) [OF s] by (simp del: nth_map)
  qed simp
  show "mset (subrange (rows env (?T' ! s)) (sint (?offs ! s ! i)) (sint (?offs ! s ! Suc i))) =
      filter_mset (\<lambda>row. part_of part HASH_MURMUR3 hash_partition_seed ?n sch on row = b * nvl + i) (table_rel env T s)"
    if s: "s < length T" and i: "i < nvl" for s i
  proof -
    have "b * nvl + i < ?n" using le [of "Suc i"] i by simp
    then have "filter (\<lambda>row. part_of part HASH_MURMUR3 hash_partition_seed ?n sch on row = b * nvl + i) (rows env (?T' ! s)) =
        subrange (rows env (?T' ! s)) (sint (?offs ! s ! i)) (sint (?offs ! s ! Suc i))"
      using ok(7) [OF s] off(2) [OF s, of i] off(2) [OF s, of "Suc i"] i by (simp del: nth_map)
    then show ?thesis using ok(2) [OF s] by (metis mset_filter)
  qed
qed

lemma batch_delivered:
  assumes nv: "nvcomp_ok nv" and mpi: "p2p_transport mpi (\<lambda>_. True) (length T) False"
    and tr: "p2p_transport exch okm (length T) multi" and multi: "gbb \<longrightarrow> multi"
    and okm: "okm_sizes okm (schema_sizes env sch)"
    and ops: "hash_partition_ok env ops part" and T: "shuffle_inputs_ok env sch on T"
    and grp: "group_params (length T) nvl 1" and b: "b < odf" and str: "odf = 1 \<or> None \<notin> set sch"
  defines "hs \<equiv> map (join_partition ops env on (nvl * odf)) T"
  shows "\<exists>cms als outs. batch_communicators mpi nvl b hs = Inr cms \<and>
    emap (allocate_communicated_table env) cms = Inr als \<and>
    launch_communication nv env mpi exch gbb nvl 1 als = Inr outs \<and> length outs = length T \<and>
    (\<forall>r < length T. wf_table env sch (outs ! r) \<and>
       mset (rows env (outs ! r)) = (\<Sum>s \<leftarrow> members (comm_group_at nvl 1 r).
         filter_mset (\<lambda>row. part_of part HASH_MURMUR3 hash_partition_seed (nvl * odf) sch on row = b * nvl + r mod nvl)
           (table_rel env T s)))"
proof -
  let ?T' = "map fst hs" and ?offs = "map (\<lambda>h. batch_offsets nvl b (snd h)) hs"
  note p = batch_partitions_ok(1) [OF ops T grp b str, folded hs_def]
  note slice = batch_partitions_ok(2) [OF ops T grp b str, folded hs_def]
  have lhs: "length hs = length T" by (simp add: hs_def)
  have T0: "0 < length ?T'" using T lhs by (simp add: shuffle_inputs_ok_def)
  let ?opts = "generate_none_compression_options (?T' ! 0)"
  have "map (\<lambda>h. generate_none_compression_options (fst h)) hs = replicate (length ?T') ?opts"
  proof (rule nth_equalityI)
    fix s assume "s < length (map (\<lambda>h. generate_none_compression_options (fst h)) hs)"
    then have s: "s < length ?T'" by simp
    have "schema (?T' ! s) = schema (?T' ! 0)"
      using wf_tableD(2) [OF partitions_wf [OF p s]] wf_tableD(2) [OF partitions_wf [OF p T0]] by simp
    from none_options_schema [OF this]
    show "map (\<lambda>h. generate_none_compression_options (fst h)) hs ! s = replicate (length ?T') ?opts ! s"
      using s by simp
  qed simp
  then have bc: "batch_communicators mpi nvl b hs =
      AllToAllCommunicator mpi nvl 1 ?T' ?offs (replicate (length ?T') ?opts) True"
    by (simp add: batch_communicators_def)
  have mpi': "p2p_transport mpi (\<lambda>_. True) (length ?T') False" and tr': "p2p_transport exch okm (length ?T') multi"
    using mpi tr lhs by simp_all
  obtain outs where outs: "all_to_all_table nv env mpi exch gbb nvl 1 ?T' ?offs (replicate (length ?T') ?opts) True = Inr outs"
    and len: "length outs = length ?T'"
    and res: "\<forall>r < length ?T'. wf_table env sch (outs ! r) \<and>
       mset (rows env (outs ! r)) = (\<Sum>s \<leftarrow> members (comm_group_at nvl 1 r).
         let i = get_local_idx (comm_group_at nvl 1 r) in
         mset (subrange (rows env (?T' ! s)) (sint (?offs ! s ! i)) (sint (?offs ! s ! Suc i))))"
    using all_to_all_partitions [OF nv mpi' tr' multi okm p none_options_ok, of True] by blast
  obtain cms als where "batch_communicators mpi nvl b hs = Inr cms" "emap (allocate_communicated_table env) cms = Inr als"
    "launch_communication nv env mpi exch gbb nvl 1 als = Inr outs"
    using outs unfolding all_to_all_table_def bc by (auto simp: res_simps)
  moreover have "mset (rows env (outs ! r)) = (\<Sum>s \<leftarrow> members (comm_group_at nvl 1 r).
      filter_mset (\<lambda>row. part_of part HASH_MURMUR3 hash_partition_seed (nvl * odf) sch on row = b * nvl + r mod nvl)
        (table_rel env T s))" if r: "r < length T" for r
  proof -
    have i: "get_local_idx (comm_group_at nvl 1 r) = r mod nvl" using local_idx_eq [OF grp, of r] by simp
    have "0 < nvl" using grp by (simp add: group_params_def)
    then have lt: "r mod nvl < nvl" by simp
    have "mset (rows env (outs ! r)) = (\<Sum>s \<leftarrow> members (comm_group_at nvl 1 r).
        mset (subrange (rows env (?T' ! s)) (sint (?offs ! s ! (r mod nvl))) (sint (?offs ! s ! Suc (r mod nvl)))))"
      using res [rule_format, of r] r unfolding Let_def i length_map lhs by blast
    also have "\<dots> = (\<Sum>s \<leftarrow> members (comm_group_at nvl 1 r).
      filter_mset (\<lambda>row. part_of part HASH_MURMUR3 hash_partition_seed (nvl * odf) sch on row = b * nvl + r mod nvl)
        (table_rel env T s))"
      using members_less [OF grp r] slice [OF _ lt] by (intro sum_list_cong) blast
    finally show ?thesis .
  qed
  ultimately show ?thesis using len res lhs by auto
qed

text \<open>All batches of both sides.\<close>

lemma communicate_batches_ok:
  assumes "\<forall>b < odf. \<exists>cms als outs. batch_communicators mpi nvl b hl = Inr cms \<and>
      emap (allocate_communicated_table env) cms = Inr als \<and>
      launch_communication nv env mpi exch gbb nvl 1 als = Inr outs \<and> P b outs"
    and "\<forall>b < odf. \<exists>cms als outs. batch_communicators mpi nvl b hr = Inr cms \<and>
      emap (allocate_communicated_table env) cms = Inr als \<and>
      launch_communication nv env mpi exch gbb nvl 1 als = Inr outs \<and> Q b outs"
  shows "\<exists>ls rs. communicate_batches nv env mpi exch gbb nvl odf hl hr = Inr (map (\<lambda>b. (ls b, rs b)) [0..<odf]) \<and>
    (\<forall>b < odf. P b (ls b) \<and> Q b (rs b))"
proof -
  obtain cl al ls where l: "\<forall>b < odf. batch_communicators mpi nvl b hl = Inr (cl b) \<and>
      emap (allocate_communicated_table env) (cl b) = Inr (al b) \<and>
      launch_communication nv env mpi exch gbb nvl 1 (al b) = Inr (ls b) \<and> P b (ls b)"
    using assms(1) by metis
  obtain cr ar rs where r: "\<forall>b < odf. batch_communicators mpi nvl b hr = Inr (cr b) \<and>
      emap (allocate_communicated_table env) (cr b) = Inr (ar b) \<and>
      launch_communication nv env mpi exch gbb nvl 1 (ar b) = Inr (rs b) \<and> Q b (rs b)"
    using assms(2) by metis
  have "emap (\<lambda>b. ebind (batch_communicators mpi nvl b hl) (\<lambda>cl.
        ebind (batch_communicators mpi nvl b hr) (\<lambda>cr. Inr (cl, cr)))) [0..<odf] = Inr (map (\<lambda>b. (cl b, cr b)) [0..<odf])"
    using l r by (intro emap_Inr) simp
  moreover have "emap (\<lambda>(cl, cr). ebind (emap (allocate_communicated_table env) cl) (\<lambda>al.
        ebind (emap (allocate_communicated_table env) cr) (\<lambda>ar. Inr (al, ar)))) (map (\<lambda>b. (cl b, cr b)) [0..<odf]) =
      Inr (map (\<lambda>b. (al b, ar b)) [0..<odf])"
    using l r by (intro emap_map_Inr) simp
  moreover have "emap (\<lambda>(al, ar). ebind (launch_communication nv env mpi exch gbb nvl 1 al) (\<lambda>l.
        ebind (launch_communication nv env mpi exch gbb nvl 1 ar) (\<lambda>r. Inr (l, r)))) (map (\<lambda>b. (al b, ar b)) [0..<odf]) =
      Inr (map (\<lambda>b. (ls b, rs b)) [0..<odf])"
    using l r by (intro emap_map_Inr) simp
  ultimately have "communicate_batches nv env mpi exch gbb nvl odf hl hr = Inr (map (\<lambda>b. (ls b, rs b)) [0..<odf])"
    by (simp only: communicate_batches_def ebind.simps)
  then show ?thesis using l r by blast
qed

end
