(* ===== verification/Join_Correct.thy ===== *)
theory Join_Correct
  imports Distributed_Join
begin

text \<open>
  Why the distributed join is the join: every key has one place, a rank and a batch, where
  all rows of both tables with that key end up.
\<close>

section \<open>The place of a key\<close>

definition key_domain :: "'d partitioner \<Rightarrow> nat \<Rightarrow> nat \<Rightarrow> 'd option list \<Rightarrow> row \<Rightarrow> nat" where
  "key_domain part N nvl ts k =
     (if nvl = N then 0 else part HASH_MURMUR3 hash_partition_seed_ib (N div nvl) ts k)"

definition key_slot :: "'d partitioner \<Rightarrow> nat \<Rightarrow> nat \<Rightarrow> 'd option list \<Rightarrow> row \<Rightarrow> nat" where
  "key_slot part nvl odf ts k = part HASH_MURMUR3 hash_partition_seed (nvl * odf) ts k"

definition key_place :: "'d partitioner \<Rightarrow> nat \<Rightarrow> nat \<Rightarrow> nat \<Rightarrow> 'd option list \<Rightarrow> row \<Rightarrow> rank \<times> nat" where
  "key_place part N nvl odf ts k =
     (key_domain part N nvl ts k * nvl + key_slot part nvl odf ts k mod nvl, key_slot part nvl odf ts k div nvl)"

lemma key_place_iff:
  assumes "0 < nvl"
  shows "key_place part N nvl odf ts k = (r, b) \<longleftrightarrow>
    key_domain part N nvl ts k = r div nvl \<and> key_slot part nvl odf ts k = b * nvl + r mod nvl"
proof
  assume p: "key_place part N nvl odf ts k = (r, b)"
  let ?d = "key_domain part N nvl ts k" and ?s = "key_slot part nvl odf ts k"
  have r: "r = ?d * nvl + ?s mod nvl" and b: "b = ?s div nvl" using p by (auto simp: key_place_def)
  have "r div nvl = ?d" "r mod nvl = ?s mod nvl" using assms unfolding r by simp_all
  then show "?d = r div nvl \<and> ?s = b * nvl + r mod nvl" using b by simp
next
  assume "key_domain part N nvl ts k = r div nvl \<and> key_slot part nvl odf ts k = b * nvl + r mod nvl"
  then show "key_place part N nvl odf ts k = (r, b)" using assms by (simp add: key_place_def)
qed

lemma key_domain_less:
  assumes "partitioner_ok part" and "nvl dvd N" and "0 < nvl" and "0 < N"
  shows "key_domain part N nvl ts k < N div nvl"
proof -
  have "0 < N div nvl" using assms by (simp add: div_greater_zero_iff dvd_imp_le)
  then show ?thesis using assms(1,4)
    by (cases "nvl = N") (simp_all add: key_domain_def partitioner_ok_def)
qed

lemma key_place_range:
  assumes part: "partitioner_ok part" and nvl: "nvl dvd N" "0 < nvl" "0 < N" and odf: "0 < odf"
  shows "key_place part N nvl odf ts k \<in> {..<N} \<times> {..<odf}"
proof -
  let ?d = "key_domain part N nvl ts k" and ?s = "key_slot part nvl odf ts k"
  have "?s mod nvl < nvl" using nvl by simp
  then have "?d * nvl + ?s mod nvl < Suc ?d * nvl" by simp
  also have "\<dots> \<le> N div nvl * nvl"
    using key_domain_less [OF part nvl, of ts k] by (intro mult_le_mono1) simp
  finally have "?d * nvl + ?s mod nvl < N" using nvl(1) by simp
  moreover have "?s < odf * nvl"
    using part nvl(2) odf by (simp add: partitioner_ok_def key_slot_def mult.commute)
  then have "?s div nvl < odf" by (rule less_mult_imp_div_less)
  ultimately show ?thesis by (simp add: key_place_def)
qed

section \<open>The first shuffle\<close>

lemma domain_dvd:
  "group_params N N nvl \<Longrightarrow> group_params N nvl 1"
  by (auto simp: group_params_def)

lemma total_by_domain:
  assumes grp: "group_params N N nvl" and lt: "\<forall>row \<in># (\<Sum>s < N. M s). num row < N div nvl"
  shows "(\<Sum>r < N. routed N nvl num M r) = (\<Sum>s < N. M s)"
proof -
  have nvl: "0 < nvl" "nvl dvd N" using grp by (auto simp: group_params_def)
  let ?q = "N div nvl" and ?T = "\<Sum>s < N. M s"
  have N: "N = ?q * nvl" using nvl by simp
  have "(\<Sum>r < N. routed N nvl num M r) = (\<Sum>d < ?q. \<Sum>i < nvl. routed N nvl num M (i + d * nvl))"
    using sum_domain [of "routed N nvl num M" nvl ?q] N by (subst sum.swap) simp
  also have "\<dots> = (\<Sum>d < ?q. filter_mset (\<lambda>row. num row = d) ?T)"
  proof (rule sum.cong [OF refl])
    fix d assume "d \<in> {..<?q}"
    then have "Suc d * nvl \<le> ?q * nvl" by (intro mult_le_mono1) simp
    then have "d * nvl < N" using N nvl(1) by simp
    from domain_rows [OF grp this, of num M]
    show "(\<Sum>i < nvl. routed N nvl num M (i + d * nvl)) = filter_mset (\<lambda>row. num row = d) ?T"
      unfolding members_stride1 using nvl(1) by (simp add: sum_list_upt comp_def add.commute)
  qed
  also have "\<dots> = ?T"
  proof -
    have "(\<Sum>d < q. filter_mset (\<lambda>row. num row = d) X) = X" if "\<forall>row \<in># X. num row < q" for q X
      using that
    proof (induction X)
      case (add x X)
      have "(\<Sum>d < q. filter_mset (\<lambda>row. num row = d) (add_mset x X)) =
          (\<Sum>d < q. (if num x = d then {#x#} else {#}) + filter_mset (\<lambda>row. num row = d) X)"
        by (intro sum.cong refl) simp
      then show ?case using add by (simp add: sum.distrib sum_single)
    qed simp
    then show ?thesis using lt by blast
  qed
  finally show ?thesis .
qed

text \<open>
  What a shuffle over groups of stride \<open>st\<close> returns can be shuffled again: tables of the same
  schema that together have the rows of the inputs.
\<close>

lemma shuffle_on_inputs_ok:
  assumes "nvcomp_ok nv" and "p2p_transport mpi (\<lambda>_. True) (length T) False"
    and "p2p_transport exch okm (length T) multi" and "gbb \<longrightarrow> multi"
    and "okm_sizes okm (schema_sizes env sch)" and "hash_partition_ok env ops part"
    and part: "partitioner_ok part"
    and grp: "group_params (length T) (length T) st" and T: "shuffle_inputs_ok env sch on T"
    and "table_options_ok env (T ! 0) opts"
  shows "\<exists>outs. shuffle_on nv env ops mpi exch gbb T on (length T) st (replicate (length T) opts) h seed = Inr outs \<and>
    length outs = length T \<and> shuffle_inputs_ok env sch on outs \<and> total_rows env outs = total_rows env T \<and>
    (\<forall>r < length T. table_rel env outs r =
       routed (length T) st (part_of part h seed (length T div st) sch on) (table_rel env T) r)"
proof -
  let ?N = "length T"
  let ?num = "part_of part h seed (?N div st) sch on"
  obtain outs where run: "shuffle_on nv env ops mpi exch gbb T on ?N st (replicate ?N opts) h seed = Inr outs"
    and len: "length outs = ?N"
    and res: "\<forall>r < ?N. wf_table env sch (outs ! r) \<and> table_rel env outs r = routed ?N st ?num (table_rel env T) r"
    using shuffle_on_ok [OF assms(1-6) grp T assms(10), of h seed] by blast
  have "0 < ?N div st" using group_size_pos [OF grp] by (simp add: group_size_at)
  then have "?num row < ?N div st" for row using part by (simp add: partitioner_ok_def)
  then have "(\<Sum>r < ?N. routed ?N st ?num (table_rel env T) r) = total_rows env T"
    unfolding total_rows_def by (intro total_by_domain [OF grp]) blast
  then have tot: "total_rows env outs = total_rows env T" using res len by (simp add: total_rows_def)
  moreover have "\<forall>t \<in> set outs. wf_table env sch t" using res len by (metis in_set_conv_nth)
  ultimately have "shuffle_inputs_ok env sch on outs"
    using T len by (auto simp: shuffle_inputs_ok_def)
  then show ?thesis using run len tot res by blast
qed

lemma shuffle_ib_ok:
  assumes nv: "nvcomp_ok nv" and mpi: "p2p_transport mpi (\<lambda>_. True) (length T) False"
    and tr: "p2p_transport exch okm (length T) multi" and multi: "gbb \<longrightarrow> multi"
    and okm: "okm_sizes okm (schema_sizes env sch)" and ops: "hash_partition_ok env ops part"
    and part: "partitioner_ok part"
    and grp: "group_params (length T) (length T) nvl" and T: "shuffle_inputs_ok env sch on T"
    and opts: "table_options_ok env (T ! 0) opts"
  shows "\<exists>T'. shuffle_ib nv env ops mpi exch gbb T on nvl (replicate (length T) opts) = Inr T' \<and>
    length T' = length T \<and> shuffle_inputs_ok env sch on T' \<and>
    (\<forall>r < length T. (\<Sum>s \<leftarrow> members (comm_group_at nvl 1 r). table_rel env T' s) =
       filter_mset (\<lambda>row. key_domain part (length T) nvl (key_types sch on) (key on row) = r div nvl) (total_rows env T))"
proof (cases "nvl = length T")
  case True
  have "(\<Sum>s \<leftarrow> members (comm_group_at nvl 1 r). table_rel env T s) = total_rows env T" if "r < length T" for r
    using True members_all [OF that] by (simp add: sum_list_upt total_rows_def)
  then show ?thesis using T True by (simp add: shuffle_ib_def key_domain_def)
next
  case False
  let ?N = "length T"
  let ?num = "part_of part HASH_MURMUR3 hash_partition_seed_ib (?N div nvl) sch on"
  have dom: "key_domain part ?N nvl (key_types sch on) (key on row) = ?num row" for row
    using False by (simp add: key_domain_def)
  have g: "emap (CommunicationGroup ?N nvl) [0..<?N] = Inr (map (comm_group_at ?N nvl) [0..<?N])"
    by (intro emap_Inr CommunicationGroup_ok [OF grp])
  obtain T' where run: "shuffle_on nv env ops mpi exch gbb T on ?N nvl (replicate ?N opts) HASH_MURMUR3 hash_partition_seed_ib = Inr T'"
    and len: "length T' = ?N" and ok: "shuffle_inputs_ok env sch on T'"
    and res: "\<forall>r < ?N. table_rel env T' r = routed ?N nvl ?num (table_rel env T) r"
    using shuffle_on_inputs_ok [OF nv mpi tr multi okm ops part grp T opts, of HASH_MURMUR3 hash_partition_seed_ib] by blast
  have ib: "shuffle_ib nv env ops mpi exch gbb T on nvl (replicate ?N opts) = Inr T'"
    using False g run by (simp add: shuffle_ib_def)
  have "(\<Sum>s \<leftarrow> members (comm_group_at nvl 1 r). table_rel env T' s) =
      filter_mset (\<lambda>row. ?num row = r div nvl) (total_rows env T)" if r: "r < ?N" for r
  proof -
    have "(\<Sum>s \<leftarrow> members (comm_group_at nvl 1 r). table_rel env T' s) =
        (\<Sum>s \<leftarrow> members (comm_group_at nvl 1 r). routed ?N nvl ?num (table_rel env T) s)"
      using res members_less [OF domain_dvd [OF grp] r] by (intro sum_list_cong) blast
    then show ?thesis using domain_rows [OF grp r, of ?num] by (simp add: total_rows_def)
  qed
  then show ?thesis using ib len ok dom by auto
qed

section \<open>The local joins\<close>

lemma rows_Nil_iff: "rows env t = [] \<longleftrightarrow> num_rows env t = 0"
  by (metis length_0_conv length_rows)

lemma local_join_ok:
  assumes ops: "inner_join_ok env ops" and l: "wf_table env schl l" and r: "wf_table env schr r"
    and on: "valid_on schl lon" "valid_on schr ron" "key_types schl lon = key_types schr ron"
    and fit: "fits (schl @ schr) (join_rows lon ron (mset (rows env l)) (mset (rows env r)))"
  shows "\<exists>t. local_join_helper env ops l r lon ron = Inr t \<and>
    mset (rows env t) = join_rows lon ron (mset (rows env l)) (mset (rows env r)) \<and>
    (if rows env l \<noteq> [] \<and> rows env r \<noteq> [] then wf_table env (schl @ schr) t else t = [])"
proof (cases "rows env l \<noteq> [] \<and> rows env r \<noteq> []")
  case True
  then obtain t where "inner_join ops l r lon ron = Inr t" "wf_table env (schl @ schr) t"
    "mset (rows env t) = join_rows lon ron (mset (rows env l)) (mset (rows env r))"
    using ops [unfolded inner_join_ok_def] l r on fit by blast
  then show ?thesis using True by (simp add: local_join_helper_def rows_Nil_iff)
next
  case False
  then have "join_rows lon ron (mset (rows env l)) (mset (rows env r)) = {#}" by auto
  moreover have "local_join_helper env ops l r lon ron = Inr []"
    using False by (auto simp: local_join_helper_def rows_Nil_iff)
  ultimately show ?thesis using False by auto
qed

text \<open>The merge of the batches of a rank, when all batches have rows or there is only one.\<close>

lemma join_batches_ok:
  assumes ij: "inner_join_ok env ops" and cc: "concatenate_ok env ops" and ne: "bs \<noteq> []"
    and wf: "\<forall>(l, r) \<in> set bs. wf_table env schl l \<and> wf_table env schr r"
    and on: "valid_on schl lon" "valid_on schr ron" "key_types schl lon = key_types schr ron"
    and full: "length bs = 1 \<or> (\<forall>(l, r) \<in> set bs. rows env l \<noteq> [] \<and> rows env r \<noteq> [])"
    and fit: "fits (schl @ schr) (\<Sum>(l, r) \<leftarrow> bs. join_rows lon ron (mset (rows env l)) (mset (rows env r)))"
  shows "\<exists>t. join_batches env ops lon ron bs = Inr t \<and>
    mset (rows env t) = (\<Sum>(l, r) \<leftarrow> bs. join_rows lon ron (mset (rows env l)) (mset (rows env r))) \<and>
    ((\<forall>(l, r) \<in> set bs. rows env l \<noteq> [] \<and> rows env r \<noteq> []) \<longrightarrow> wf_table env (schl @ schr) t)"
proof -
  let ?J = "\<lambda>(l, r). join_rows lon ron (mset (rows env l)) (mset (rows env r))"
  have part_sub: "?J b \<subseteq># (\<Sum>b \<leftarrow> bs. ?J b)" if "b \<in> set bs" for b
    using that
  proof (induction bs)
    case (Cons a bs)
    then show ?case by (auto intro: subset_mset.order_trans)
  qed simp
  have "\<exists>t. local_join_helper env ops (fst b) (snd b) lon ron = Inr t \<and> mset (rows env t) = ?J b \<and>
      (if rows env (fst b) \<noteq> [] \<and> rows env (snd b) \<noteq> [] then wf_table env (schl @ schr) t else t = [])"
    if b: "b \<in> set bs" for b
  proof -
    have "fits (schl @ schr) (?J b)" using fits_mono [OF fit part_sub [OF b]] .
    moreover obtain l r where e: "b = (l, r)" by (cases b)
    moreover have "wf_table env schl l" "wf_table env schr r" using wf b unfolding e by blast+
    ultimately show ?thesis
      unfolding e fst_conv snd_conv prod.case by (intro local_join_ok [OF ij _ _ on])
  qed
  then obtain f where f: "\<forall>b \<in> set bs. local_join_helper env ops (fst b) (snd b) lon ron = Inr (f b) \<and>
      mset (rows env (f b)) = ?J b \<and>
      (if rows env (fst b) \<noteq> [] \<and> rows env (snd b) \<noteq> [] then wf_table env (schl @ schr) (f b) else f b = [])"
    by metis
  have loc: "emap (\<lambda>(l, r). local_join_helper env ops l r lon ron) bs = Inr (map f bs)"
    using f by (intro emap_Inr) auto
  have sum: "(\<Sum>t \<leftarrow> map f bs. mset (rows env t)) = (\<Sum>b \<leftarrow> bs. ?J b)"
    using f by (auto simp: comp_def intro: sum_list_cong)
  have mne: "map f bs \<noteq> []" using ne by simp
  show ?thesis
  proof (cases "\<forall>b \<in> set bs. wf_table env (schl @ schr) (f b)")
    case True
    then have all_wf: "\<forall>t \<in> set (map f bs). wf_table env (schl @ schr) t" by simp
    have fit': "fits (schl @ schr) (\<Sum>t \<leftarrow> map f bs. mset (rows env t))" unfolding sum by (rule fit)
    obtain t where "concatenate ops (map f bs) = Inr t" "mset (rows env t) = (\<Sum>t \<leftarrow> map f bs. mset (rows env t))"
      "wf_table env (schl @ schr) t"
      using cc [unfolded concatenate_ok_def, THEN conjunct1] mne all_wf fit' by blast
    then show ?thesis using loc sum by (simp add: join_batches_def)
  next
    case False
    then obtain b where b: "b \<in> set bs" "\<not> wf_table env (schl @ schr) (f b)" by blast
    note fb' = f [THEN bspec, OF b(1)]
    have nb: "\<not> (rows env (fst b) \<noteq> [] \<and> rows env (snd b) \<noteq> [])" using fb' b(2) by argo
    then have "length bs = 1" using full b(1) by (cases b) auto
    then have bs: "bs = [b]" using b(1) by (cases bs) auto
    have fb: "f b = []" using fb' nb by argo
    have "concatenate ops [[]] = Inr []" using cc by (simp add: concatenate_ok_def)
    moreover have "?J b = {#}"
    proof -
      have "?J b = mset (rows env (f b))" using fb' by argo
      then show ?thesis unfolding fb by simp
    qed
    moreover have "\<not> (\<forall>(l, r) \<in> set bs. rows env l \<noteq> [] \<and> rows env r \<noteq> [])" using nb by (cases b) (simp add: bs)
    ultimately show ?thesis using loc fb unfolding join_batches_def bs by simp
  qed
qed

section \<open>The distributed join\<close>

text \<open>
  The contract of a distributed join. With more than one batch, columns of strings are
  excluded (their later batches read out of bounds) and every rank must get rows of both
  tables in every batch (empty results do not concatenate with the others).
\<close>

definition populated ::
  "'d partitioner \<Rightarrow> nat \<Rightarrow> nat \<Rightarrow> nat \<Rightarrow> 'd option list \<Rightarrow> nat list \<Rightarrow> nat list \<Rightarrow> row multiset \<Rightarrow> row multiset \<Rightarrow> bool" where
  "populated part N nvl odf ts lon ron L R \<longleftrightarrow>
     (\<forall>r < N. \<forall>b < odf.
        (\<exists>row \<in># L. key_place part N nvl odf ts (key lon row) = (r, b)) \<and>
        (\<exists>row \<in># R. key_place part N nvl odf ts (key ron row) = (r, b)))"

definition join_inputs_ok ::
  "'d cudf \<Rightarrow> 'd partitioner \<Rightarrow> 'd option list \<Rightarrow> 'd option list \<Rightarrow> nat list \<Rightarrow> nat list \<Rightarrow> 'd table list \<Rightarrow> 'd table list \<Rightarrow>
     nat \<Rightarrow> nat \<Rightarrow> bool" where
  "join_inputs_ok env part schl schr lon ron left right nvl odf \<longleftrightarrow>
     shuffle_inputs_ok env schl lon left \<and> shuffle_inputs_ok env schr ron right \<and> length right = length left \<and>
     length left < 2 ^ 31 \<and> key_types schl lon = key_types schr ron \<and> 0 < odf \<and>
     fits (schl @ schr) (join_rows lon ron (total_rows env left) (total_rows env right)) \<and>
     (odf = 1 \<or> None \<notin> set schl \<and> None \<notin> set schr \<and>
        populated part (length left) nvl odf (key_types schl lon) lon ron (total_rows env left) (total_rows env right))"

lemma filter_mset_ne: "\<exists>x \<in># M. P x \<Longrightarrow> filter_mset P M \<noteq> {#}"
  by (metis empty_not_add_mset filter_mset_add_mset multi_member_split)

lemma rows_ne: "mset (rows env t) = filter_mset P M \<Longrightarrow> \<exists>x \<in># M. P x \<Longrightarrow> rows env t \<noteq> []"
  using filter_mset_ne [of M P] by auto

lemma sum_subset_mset:
  fixes f :: "'b \<Rightarrow> 'c multiset"
  assumes "finite B" and "A \<subseteq> B"
  shows "(\<Sum>x \<in> A. f x) \<subseteq># (\<Sum>x \<in> B. f x)"
  using sum.subset_diff [OF assms(2,1), of f] by simp

lemma batch_place_rows:
  assumes "0 < nvl"
    and dom: "(\<Sum>s \<leftarrow> ms. M s) = filter_mset (\<lambda>row. key_domain part N nvl ts (key on row) = r div nvl) X"
  shows "(\<Sum>s \<leftarrow> ms. filter_mset (\<lambda>row. key_slot part nvl odf ts (key on row) = b * nvl + r mod nvl) (M s)) =
    filter_mset (\<lambda>row. key_place part N nvl odf ts (key on row) = (r, b)) X"
proof -
  have "(\<Sum>s \<leftarrow> ms. filter_mset P (M s)) = filter_mset P (\<Sum>s \<leftarrow> ms. M s)" for P
    by (induction ms) simp_all
  then show ?thesis
    unfolding dom key_place_iff [OF assms(1)] filter_filter_mset
    by simp
qed

text \<open>The tables of one batch on one rank, in terms of the places.\<close>

lemma one_domain_join:
  assumes ops: "cudf_ops_ok env ops part" and inp: "join_inputs_ok env part schl schr lon ron left right 1 odf"
    and l: "length left' = length left" "shuffle_inputs_ok env schl lon left'"
      "\<forall>r < length left. table_rel env left' r =
        filter_mset (\<lambda>row. key_domain part (length left) 1 (key_types schl lon) (key lon row) = r) (total_rows env left)"
    and r: "length right' = length left" "shuffle_inputs_ok env schr ron right'"
      "\<forall>r < length left. table_rel env right' r =
        filter_mset (\<lambda>row. key_domain part (length left) 1 (key_types schl lon) (key ron row) = r) (total_rows env right)"
  shows "\<exists>outs. emap (\<lambda>r. local_join_helper env ops (left' ! r) (right' ! r) lon ron) [0..<length left] = Inr outs \<and>
    length outs = length left \<and>
    (\<Sum>r < length left. table_rel env outs r) = join_rows lon ron (total_rows env left) (total_rows env right) \<and>
    (populated part (length left) 1 odf (key_types schl lon) lon ron (total_rows env left) (total_rows env right) \<longrightarrow>
      (\<forall>r < length left. wf_table env (schl @ schr) (outs ! r)))"
proof -
  let ?pop = "populated part (length left) 1 odf (key_types schl lon) lon ron (total_rows env left) (total_rows env right)"
  let ?N = "length left" and ?d = "key_domain part (length left) 1 (key_types schl lon)"
  let ?L = "total_rows env left" and ?R = "total_rows env right"
  note inp' = inp [unfolded join_inputs_ok_def]
  have pieces: "inner_join_ok env ops" "partitioner_ok part" using ops by (simp_all add: cudf_ops_ok_def)
  have N: "0 < ?N" using inp' by (simp add: shuffle_inputs_ok_def)
  let ?J = "\<lambda>p. join_rows lon ron (filter_mset (\<lambda>row. ?d (key lon row) = p) ?L) (filter_mset (\<lambda>row. ?d (key ron row) = p) ?R)"
  have "?d k \<in> {..<?N}" for k
    using key_domain_less [OF pieces(2) _ _ N, of 1 "key_types schl lon" k] by simp
  then have total: "(\<Sum>p < ?N. ?J p) = join_rows lon ron ?L ?R" by (intro join_placement) auto
  have "\<exists>t. local_join_helper env ops (left' ! p) (right' ! p) lon ron = Inr t \<and> mset (rows env t) = ?J p \<and>
      (?pop \<longrightarrow> wf_table env (schl @ schr) t)" if p: "p < ?N" for p
  proof -
    have "?J p \<subseteq># (\<Sum>p < ?N. ?J p)" using sum_subset_mset [of "{..<?N}" "{p}" ?J] p by simp
    then have fit: "fits (schl @ schr) (?J p)" using inp' fits_mono unfolding total by blast
    have wf: "wf_table env schl (left' ! p)" "wf_table env schr (right' ! p)"
      using l(1,2) r(1,2) p by (auto simp: shuffle_inputs_ok_def)
    have on: "valid_on schl lon" "valid_on schr ron" "key_types schl lon = key_types schr ron"
      using inp' by (auto simp: shuffle_inputs_ok_def)
    have rel: "table_rel env left' p = filter_mset (\<lambda>row. ?d (key lon row) = p) ?L"
      "table_rel env right' p = filter_mset (\<lambda>row. ?d (key ron row) = p) ?R" using l(3) r(3) p by blast+
    have "rows env (left' ! p) \<noteq> [] \<and> rows env (right' ! p) \<noteq> []" if ?pop
    proof -
      have "0 < odf" using inp' by simp
      then have "(\<exists>row \<in># ?L. ?d (key lon row) = p) \<and> (\<exists>row \<in># ?R. ?d (key ron row) = p)"
        using \<open>?pop\<close> p unfolding populated_def key_place_iff [OF zero_less_one] div_by_1 by blast
      then show ?thesis using rows_ne [OF rel(1)] rows_ne [OF rel(2)] by blast
    qed
    with local_join_ok [OF pieces(1) wf on, unfolded rel, OF fit] show ?thesis by metis
  qed
  then obtain f where f: "\<forall>p < ?N. local_join_helper env ops (left' ! p) (right' ! p) lon ron = Inr (f p) \<and> mset (rows env (f p)) = ?J p \<and>
      (?pop \<longrightarrow> wf_table env (schl @ schr) (f p))"
    by metis
  have "emap (\<lambda>r. local_join_helper env ops (left' ! r) (right' ! r) lon ron) [0..<?N] = Inr (map f [0..<?N])"
    using f by (intro emap_Inr) simp
  moreover have "(\<Sum>r < ?N. table_rel env (map f [0..<?N]) r) = join_rows lon ron ?L ?R"
    unfolding total [symmetric] using f by (intro sum.cong refl) simp
  moreover have "?pop \<longrightarrow> (\<forall>r < ?N. wf_table env (schl @ schr) (map f [0..<?N] ! r))" using f by simp
  ultimately show ?thesis by (intro exI [of _ "map f [0..<?N]"]) simp
qed

lemma batches_join:
  assumes ops: "cudf_ops_ok env ops part" and inp: "join_inputs_ok env part schl schr lon ron left right nvl odf"
    and nvl: "0 < nvl" "nvl dvd length left"
    and ls: "\<forall>b < odf. \<forall>r < length left. wf_table env schl (ls b ! r) \<and> table_rel env (ls b) r =
      filter_mset (\<lambda>row. key_place part (length left) nvl odf (key_types schl lon) (key lon row) = (r, b)) (total_rows env left)"
    and rs: "\<forall>b < odf. \<forall>r < length left. wf_table env schr (rs b ! r) \<and> table_rel env (rs b) r =
      filter_mset (\<lambda>row. key_place part (length left) nvl odf (key_types schl lon) (key ron row) = (r, b)) (total_rows env right)"
  shows "\<exists>outs. emap (\<lambda>r. join_batches env ops lon ron (map (\<lambda>(l, r'). (l ! r, r' ! r)) (map (\<lambda>b. (ls b, rs b)) [0..<odf])))
      [0..<length left] = Inr outs \<and> length outs = length left \<and>
    (\<Sum>r < length left. table_rel env outs r) = join_rows lon ron (total_rows env left) (total_rows env right) \<and>
    (populated part (length left) nvl odf (key_types schl lon) lon ron (total_rows env left) (total_rows env right) \<longrightarrow>
      (\<forall>r < length left. wf_table env (schl @ schr) (outs ! r)))"
proof -
  let ?pop = "populated part (length left) nvl odf (key_types schl lon) lon ron (total_rows env left) (total_rows env right)"
  let ?N = "length left" and ?pl = "key_place part (length left) nvl odf (key_types schl lon)"
  let ?L = "total_rows env left" and ?R = "total_rows env right"
  note inp' = inp [unfolded join_inputs_ok_def]
  have pieces: "inner_join_ok env ops" "concatenate_ok env ops" "partitioner_ok part"
    using ops by (simp_all add: cudf_ops_ok_def)
  have N: "0 < ?N" and odf: "0 < odf" using inp' by (simp_all add: shuffle_inputs_ok_def)
  let ?J = "\<lambda>p. join_rows lon ron (filter_mset (\<lambda>row. ?pl (key lon row) = p) ?L) (filter_mset (\<lambda>row. ?pl (key ron row) = p) ?R)"
  have total: "(\<Sum>p \<in> {..<?N} \<times> {..<odf}. ?J p) = join_rows lon ron ?L ?R"
    using key_place_range [OF pieces(3) nvl(2,1) N odf] by (intro join_placement) auto
  have on: "valid_on schl lon" "valid_on schr ron" "key_types schl lon = key_types schr ron"
    using inp' by (auto simp: shuffle_inputs_ok_def)
  have each: "\<exists>t. join_batches env ops lon ron (map (\<lambda>b. (ls b ! r, rs b ! r)) [0..<odf]) = Inr t \<and>
      mset (rows env t) = (\<Sum>b < odf. ?J (r, b)) \<and> (?pop \<longrightarrow> wf_table env (schl @ schr) t)" if r: "r < ?N" for r
  proof -
    let ?bs = "map (\<lambda>b. (ls b ! r, rs b ! r)) [0..<odf]"
    have rel: "table_rel env (ls b) r = filter_mset (\<lambda>row. ?pl (key lon row) = (r, b)) ?L"
      "table_rel env (rs b) r = filter_mset (\<lambda>row. ?pl (key ron row) = (r, b)) ?R" if "b < odf" for b
      using ls rs r that by blast+
    have sum: "(\<Sum>(l, r) \<leftarrow> ?bs. join_rows lon ron (mset (rows env l)) (mset (rows env r))) = (\<Sum>b < odf. ?J (r, b))"
    proof -
      have "(\<Sum>(l, r) \<leftarrow> ?bs. join_rows lon ron (mset (rows env l)) (mset (rows env r))) =
          (\<Sum>b \<leftarrow> [0..<odf]. join_rows lon ron (table_rel env (ls b) r) (table_rel env (rs b) r))"
        by (simp add: comp_def)
      also have "\<dots> = (\<Sum>b \<leftarrow> [0..<odf]. ?J (r, b))" by (rule sum_list_cong) (simp add: rel)
      finally show ?thesis by (simp only: sum_list_upt)
    qed
    have "(\<Sum>b < odf. ?J (r, b)) = (\<Sum>p \<in> {r} \<times> {..<odf}. ?J p)"
      by (rule sum.reindex_bij_witness [of _ snd "Pair r"]) auto
    also have "\<dots> \<subseteq># (\<Sum>p \<in> {..<?N} \<times> {..<odf}. ?J p)" using r by (intro sum_subset_mset) auto
    finally have sub: "(\<Sum>b < odf. ?J (r, b)) \<subseteq># join_rows lon ron ?L ?R" unfolding total .
    have fit: "fits (schl @ schr) (\<Sum>(l, r) \<leftarrow> ?bs. join_rows lon ron (mset (rows env l)) (mset (rows env r)))"
      unfolding sum using inp' fits_mono [OF _ sub] by blast
    have wf: "\<forall>(l, r) \<in> set ?bs. wf_table env schl l \<and> wf_table env schr r" using ls rs r by auto
    have pop: "\<forall>(l, r) \<in> set ?bs. rows env l \<noteq> [] \<and> rows env r \<noteq> []" if ?pop
    proof -
      have "rows env (ls b ! r) \<noteq> [] \<and> rows env (rs b ! r) \<noteq> []" if b: "b < odf" for b
      proof -
        have "(\<exists>row \<in># ?L. ?pl (key lon row) = (r, b)) \<and> (\<exists>row \<in># ?R. ?pl (key ron row) = (r, b))"
          using \<open>?pop\<close> r b unfolding populated_def by blast
        then show ?thesis using rows_ne [OF rel(1) [OF b]] rows_ne [OF rel(2) [OF b]] by blast
      qed
      then show ?thesis by auto
    qed
    have full: "length ?bs = 1 \<or> (\<forall>(l, r) \<in> set ?bs. rows env l \<noteq> [] \<and> rows env r \<noteq> [])"
      using inp' pop by auto
    have ne: "?bs \<noteq> []" using odf by simp
    from join_batches_ok [OF pieces(1,2) ne wf on full fit] show ?thesis unfolding sum using pop by blast
  qed
  have "\<exists>f. \<forall>r < ?N. join_batches env ops lon ron (map (\<lambda>b. (ls b ! r, rs b ! r)) [0..<odf]) = Inr (f r) \<and>
      mset (rows env (f r)) = (\<Sum>b < odf. ?J (r, b)) \<and> (?pop \<longrightarrow> wf_table env (schl @ schr) (f r))"
    by (rule choose_results) (rule each)
  then obtain f where f: "\<forall>r < ?N. join_batches env ops lon ron (map (\<lambda>b. (ls b ! r, rs b ! r)) [0..<odf]) = Inr (f r) \<and>
      mset (rows env (f r)) = (\<Sum>b < odf. ?J (r, b)) \<and> (?pop \<longrightarrow> wf_table env (schl @ schr) (f r))" ..
  have "emap (\<lambda>r. join_batches env ops lon ron (map (\<lambda>(l, r'). (l ! r, r' ! r)) (map (\<lambda>b. (ls b, rs b)) [0..<odf]))) [0..<?N] =
      Inr (map f [0..<?N])"
    using f by (intro emap_Inr) (simp add: comp_def)
  moreover have "(\<Sum>r < ?N. table_rel env (map f [0..<?N]) r) = (\<Sum>r < ?N. \<Sum>b < odf. ?J (r, b))"
    using f by (intro sum.cong refl) simp
  then have "(\<Sum>r < ?N. table_rel env (map f [0..<?N]) r) = join_rows lon ron ?L ?R"
    unfolding total [symmetric] by (simp add: sum.cartesian_product)
  moreover have "?pop \<longrightarrow> (\<forall>r < ?N. wf_table env (schl @ schr) (map f [0..<?N] ! r))" using f by simp
  ultimately show ?thesis by (intro exI [of _ "map f [0..<?N]"]) simp
qed

text \<open>The batches of one side, once the ranks of a domain hold the rows of the domain.\<close>

lemma side_batches:
  assumes nv: "nvcomp_ok nv" and mpi: "p2p_transport mpi (\<lambda>_. True) N False"
    and tr: "p2p_transport exch okm N multi" and multi: "gbb \<longrightarrow> multi"
    and okm: "okm_sizes okm (schema_sizes env sch)" and hp: "hash_partition_ok env ops part"
    and T1: "length T1 = N" "shuffle_inputs_ok env sch on T1"
    and grp: "group_params N nvl 1" and str: "odf = 1 \<or> None \<notin> set sch" and nvl: "0 < nvl"
    and ts: "key_types sch on = ts"
    and dom: "\<forall>r < N. (\<Sum>s \<leftarrow> members (comm_group_at nvl 1 r). table_rel env T1 s) =
      filter_mset (\<lambda>row. key_domain part N nvl ts (key on row) = r div nvl) X"
  shows "\<forall>b < odf. \<exists>cms als outs. batch_communicators mpi nvl b (map (join_partition ops env on (nvl * odf)) T1) = Inr cms \<and>
    emap (allocate_communicated_table env) cms = Inr als \<and>
    launch_communication nv env mpi exch gbb nvl 1 als = Inr outs \<and>
    (\<forall>r < N. wf_table env sch (outs ! r) \<and>
       table_rel env outs r = filter_mset (\<lambda>row. key_place part N nvl odf ts (key on row) = (r, b)) X)"
proof (intro allI impI)
  fix b assume b: "b < odf"
  have place: "(\<Sum>s \<leftarrow> members (comm_group_at nvl 1 r).
      filter_mset (\<lambda>row. part_of part HASH_MURMUR3 hash_partition_seed (nvl * odf) sch on row = b * nvl + r mod nvl) (table_rel env T1 s)) =
      filter_mset (\<lambda>row. key_place part N nvl odf ts (key on row) = (r, b)) X" if "r < N" for r
    using batch_place_rows [OF nvl dom [rule_format, OF that], of odf b] by (simp only: key_slot_def ts)
  obtain cms als outs where o: "batch_communicators mpi nvl b (map (join_partition ops env on (nvl * odf)) T1) = Inr cms"
      "emap (allocate_communicated_table env) cms = Inr als"
      "launch_communication nv env mpi exch gbb nvl 1 als = Inr outs"
    and r: "\<forall>r < N. wf_table env sch (outs ! r) \<and> table_rel env outs r = (\<Sum>s \<leftarrow> members (comm_group_at nvl 1 r).
      filter_mset (\<lambda>row. part_of part HASH_MURMUR3 hash_partition_seed (nvl * odf) sch on row = b * nvl + r mod nvl) (table_rel env T1 s))"
    using batch_delivered [OF nv mpi [folded T1(1)] tr [folded T1(1)] multi okm hp T1(2) grp [folded T1(1)] b str]
    unfolding T1(1) by blast
  have "\<forall>r < N. wf_table env sch (outs ! r) \<and>
      table_rel env outs r = filter_mset (\<lambda>row. key_place part N nvl odf ts (key on row) = (r, b)) X"
    using r place by simp
  then show "\<exists>cms als outs. batch_communicators mpi nvl b (map (join_partition ops env on (nvl * odf)) T1) = Inr cms \<and>
    emap (allocate_communicated_table env) cms = Inr als \<and>
    launch_communication nv env mpi exch gbb nvl 1 als = Inr outs \<and>
    (\<forall>r < N. wf_table env sch (outs ! r) \<and>
       table_rel env outs r = filter_mset (\<lambda>row. key_place part N nvl odf ts (key on row) = (r, b)) X)"
    using o by blast
qed

text \<open>
  The whole function. If every rank gets rows of both tables in every batch, the result of
  every rank has the columns of both tables.
\<close>

lemma distributed_inner_join_typed:
  assumes nv: "nvcomp_ok nv" and mpi: "p2p_transport mpi (\<lambda>_. True) (length left) False"
    and tr: "p2p_transport exch okm (length left) multi" and multi: "gbb \<longrightarrow> multi"
    and okm: "okm_sizes okm (schema_sizes env schl)" "okm_sizes okm (schema_sizes env schr)"
    and ops: "cudf_ops_ok env ops part"
    and inp: "join_inputs_ok env part schl schr lon ron left right (get_nvl_partition_size (length left) domain) odf"
    and lopts: "table_options_ok env (left ! 0) lopts" and ropts: "table_options_ok env (right ! 0) ropts"
  shows "\<exists>outs. distributed_inner_join nv env ops mpi exch gbb left right lon ron
      (replicate (length left) lopts) (replicate (length left) ropts) odf domain = Inr outs \<and>
    length outs = length left \<and>
    (\<Sum>r < length left. table_rel env outs r) = join_rows lon ron (total_rows env left) (total_rows env right) \<and>
    (populated part (length left) (get_nvl_partition_size (length left) domain) odf (key_types schl lon) lon ron
        (total_rows env left) (total_rows env right) \<longrightarrow>
      (\<forall>r < length left. wf_table env (schl @ schr) (outs ! r)))"
proof -
  let ?N = "length left" and ?nvl = "get_nvl_partition_size (length left) domain"
  note inp' = inp [unfolded join_inputs_ok_def]
  have hp: "hash_partition_ok env ops part" and part: "partitioner_ok part" using ops by (simp_all add: cudf_ops_ok_def)
  have N: "0 < ?N" "?N < 2 ^ 31" and lr: "length right = ?N" using inp' by (auto simp: shuffle_inputs_ok_def)
  note nvl = get_nvl_partition_size_spec [OF N(1), of domain]
  have grp: "group_params ?N ?N ?nvl" using nvl N by (simp add: group_params_def)
  let ?ts = "key_types schl lon"
  have ts: "key_types schr ron = ?ts" using inp' by simp
  obtain L1 where L1: "shuffle_ib nv env ops mpi exch gbb left lon ?nvl (replicate ?N lopts) = Inr L1" "length L1 = ?N"
      "shuffle_inputs_ok env schl lon L1"
      "\<forall>r < ?N. (\<Sum>s \<leftarrow> members (comm_group_at ?nvl 1 r). table_rel env L1 s) =
         filter_mset (\<lambda>row. key_domain part ?N ?nvl ?ts (key lon row) = r div ?nvl) (total_rows env left)"
    using shuffle_ib_ok [OF nv mpi tr multi okm(1) hp part grp _ lopts] inp' by blast
  obtain R1 where R1: "shuffle_ib nv env ops mpi exch gbb right ron ?nvl (replicate ?N ropts) = Inr R1" "length R1 = ?N"
      "shuffle_inputs_ok env schr ron R1"
      "\<forall>r < ?N. (\<Sum>s \<leftarrow> members (comm_group_at ?nvl 1 r). table_rel env R1 s) =
         filter_mset (\<lambda>row. key_domain part ?N ?nvl ?ts (key ron row) = r div ?nvl) (total_rows env right)"
    using shuffle_ib_ok [of nv mpi right exch okm multi gbb env schr ops part ?nvl ron ropts, unfolded lr]
      nv mpi tr multi okm(2) hp part grp ropts inp' unfolding ts by blast
  show ?thesis
  proof (cases "?nvl = 1")
    case True
    have m: "members (comm_group_at 1 1 r) = [r]" for r by (simp add: members_stride1 [unfolded One_nat_def])
    have "\<exists>outs. emap (\<lambda>r. local_join_helper env ops (L1 ! r) (R1 ! r) lon ron) [0..<?N] = Inr outs \<and>
        length outs = ?N \<and> (\<Sum>r < ?N. table_rel env outs r) = join_rows lon ron (total_rows env left) (total_rows env right) \<and>
        (populated part ?N ?nvl odf ?ts lon ron (total_rows env left) (total_rows env right) \<longrightarrow>
          (\<forall>r < ?N. wf_table env (schl @ schr) (outs ! r)))"
      using inp L1(2-4) R1(2-4) unfolding True m
      by (intro one_domain_join [OF ops, of schl schr lon ron left right odf L1 R1]) simp_all
    then show ?thesis unfolding distributed_inner_join_def Let_def L1(1) R1(1) ebind.simps if_P [OF True] by blast
  next
    case False
    let ?hl = "map (join_partition ops env lon (?nvl * odf)) L1" and ?hr = "map (join_partition ops env ron (?nvl * odf)) R1"
    have grp1: "group_params ?N ?nvl 1" by (rule domain_dvd [OF grp])
    have str: "odf = 1 \<or> None \<notin> set schl" "odf = 1 \<or> None \<notin> set schr" using inp' by blast+
    note left = side_batches [OF nv mpi tr multi okm(1) hp L1(2,3) grp1 str(1) nvl(2) refl L1(4)]
    note right = side_batches [OF nv mpi tr multi okm(2) hp R1(2,3) grp1 str(2) nvl(2) ts R1(4)]
    have g: "emap (CommunicationGroup ?nvl 1) [0..<?N] = Inr (map (comm_group_at ?nvl 1) [0..<?N])"
      by (intro emap_Inr CommunicationGroup_ok [OF grp1])
    obtain ls rs where cb: "communicate_batches nv env mpi exch gbb ?nvl odf ?hl ?hr = Inr (map (\<lambda>b. (ls b, rs b)) [0..<odf])"
      and ls: "\<forall>b < odf. \<forall>r < ?N. wf_table env schl (ls b ! r) \<and> table_rel env (ls b) r =
          filter_mset (\<lambda>row. key_place part ?N ?nvl odf ?ts (key lon row) = (r, b)) (total_rows env left)"
      and rs: "\<forall>b < odf. \<forall>r < ?N. wf_table env schr (rs b ! r) \<and> table_rel env (rs b) r =
          filter_mset (\<lambda>row. key_place part ?N ?nvl odf ?ts (key ron row) = (r, b)) (total_rows env right)"
      using communicate_batches_ok [OF left right] by blast
    have "\<exists>outs. emap (\<lambda>r. join_batches env ops lon ron (map (\<lambda>(l, r'). (l ! r, r' ! r)) (map (\<lambda>b. (ls b, rs b)) [0..<odf]))) [0..<?N] = Inr outs \<and>
        length outs = ?N \<and> (\<Sum>r < ?N. table_rel env outs r) = join_rows lon ron (total_rows env left) (total_rows env right) \<and>
        (populated part ?N ?nvl odf ?ts lon ron (total_rows env left) (total_rows env right) \<longrightarrow>
          (\<forall>r < ?N. wf_table env (schl @ schr) (outs ! r)))"
      by (rule batches_join [OF ops inp nvl(2,1) ls rs])
    then show ?thesis
      unfolding distributed_inner_join_def Let_def L1(1) R1(1) ebind.simps if_not_P [OF False] g cb by blast
  qed
qed

lemma distributed_inner_join_ok:
  assumes "nvcomp_ok nv" and "p2p_transport mpi (\<lambda>_. True) (length left) False"
    and "p2p_transport exch okm (length left) multi" and "gbb \<longrightarrow> multi"
    and "okm_sizes okm (schema_sizes env schl)" and "okm_sizes okm (schema_sizes env schr)"
    and "cudf_ops_ok env ops part"
    and "join_inputs_ok env part schl schr lon ron left right (get_nvl_partition_size (length left) domain) odf"
    and "table_options_ok env (left ! 0) lopts" and "table_options_ok env (right ! 0) ropts"
  shows "\<exists>outs. distributed_inner_join nv env ops mpi exch gbb left right lon ron
      (replicate (length left) lopts) (replicate (length left) ropts) odf domain = Inr outs \<and>
    length outs = length left \<and>
    (\<Sum>r < length left. table_rel env outs r) = join_rows lon ron (total_rows env left) (total_rows env right)"
  using distributed_inner_join_typed [OF assms] by blast

end
