(* ===== verification/Join_Threads.thy ===== *)
theory Join_Threads
  imports Distributed_Join
begin

text \<open>
  The two threads of \<open>distributed_inner_join\<close> on one rank: the main thread communicates
  the batches and sets a flag after each (distributed_join.cpp 301-329), the join thread
  (\<open>inner_join_func\<close>) waits for the flag of each batch in turn and joins it. Every
  interleaving of their steps has the result \<open>join_batches\<close>.

  \<open>batches\<close> are the tables that the launches of this rank deliver; before its launch a
  table holds whatever its allocation holds.
\<close>

section \<open>States and steps\<close>

datatype main_pc = LaunchLeft nat | LaunchRight nat | SetFlag nat | AwaitJoin | Merged
datatype join_pc = BusyWait nat | LocalJoin nat | JoinDone

record 'd join_state =
  main_at :: main_pc
  join_at :: join_pc
  communicated_left :: "'d table list"
  communicated_right :: "'d table list"
  flags :: "bool list"
  batch_join_results :: "'d table option list"
  merged :: "'d table res option"
  terminated :: "failure option"

text \<open>The heads of the two loops over the batches.\<close>

definition main_loop :: "nat \<Rightarrow> nat \<Rightarrow> main_pc" where
  "main_loop n b = (if b < n then LaunchLeft b else AwaitJoin)"

definition join_loop :: "nat \<Rightarrow> nat \<Rightarrow> join_pc" where
  "join_loop n i = (if i < n then BusyWait i else JoinDone)"

definition start_threads :: "'d table list \<Rightarrow> 'd table list \<Rightarrow> 'd join_state" where
  "start_threads alloc_left alloc_right =
     \<lparr>main_at = main_loop (length alloc_left) 0, join_at = join_loop (length alloc_left) 0,
      communicated_left = alloc_left, communicated_right = alloc_right,
      flags = replicate (length alloc_left) False, batch_join_results = replicate (length alloc_left) None,
      merged = None, terminated = None\<rparr>"

text \<open>
  A step of a thread; \<open>None\<close> if the thread is blocked or has ended. An exception in the
  join thread terminates the program.
\<close>

definition main_step :: "'d cudf_ops \<Rightarrow> ('d table \<times> 'd table) list \<Rightarrow> 'd join_state \<Rightarrow> 'd join_state option" where
  "main_step ops batches s =
     (if terminated s \<noteq> None then None
      else case main_at s of
        LaunchLeft b \<Rightarrow>
          Some (s\<lparr>communicated_left := (communicated_left s)[b := fst (batches ! b)], main_at := LaunchRight b\<rparr>)
      | LaunchRight b \<Rightarrow>
          Some (s\<lparr>communicated_right := (communicated_right s)[b := snd (batches ! b)], main_at := SetFlag b\<rparr>)
      | SetFlag b \<Rightarrow>
          Some (s\<lparr>flags := (flags s)[b := True], main_at := main_loop (length (flags s)) (Suc b)\<rparr>)
      | AwaitJoin \<Rightarrow>
          if join_at s = JoinDone
          then Some (s\<lparr>merged := Some (concatenate ops (map the (batch_join_results s))), main_at := Merged\<rparr>)
          else None
      | Merged \<Rightarrow> None)"

definition join_step :: "'d cudf \<Rightarrow> 'd cudf_ops \<Rightarrow> nat list \<Rightarrow> nat list \<Rightarrow> 'd join_state \<Rightarrow> 'd join_state option" where
  "join_step env ops left_on right_on s =
     (if terminated s \<noteq> None then None
      else case join_at s of
        BusyWait i \<Rightarrow> Some (if flags s ! i then s\<lparr>join_at := LocalJoin i\<rparr> else s)
      | LocalJoin i \<Rightarrow>
          Some (case local_join_helper env ops (communicated_left s ! i) (communicated_right s ! i) left_on right_on of
                  Inl e \<Rightarrow> s\<lparr>terminated := Some e\<rparr>
                | Inr t \<Rightarrow> s\<lparr>batch_join_results := (batch_join_results s)[i := Some t],
                           join_at := join_loop (length (flags s)) (Suc i)\<rparr>)
      | JoinDone \<Rightarrow> None)"

text \<open>Interleavings: each step is one of either thread.\<close>

inductive thread_step ::
  "'d cudf \<Rightarrow> 'd cudf_ops \<Rightarrow> nat list \<Rightarrow> nat list \<Rightarrow> ('d table \<times> 'd table) list \<Rightarrow> 'd join_state \<Rightarrow> 'd join_state \<Rightarrow> bool"
  for env ops lon ron batches where
  Main: "main_step ops batches s = Some s' \<Longrightarrow> thread_step env ops lon ron batches s s'"
| Join: "join_step env ops lon ron s = Some s' \<Longrightarrow> thread_step env ops lon ron batches s s'"

inductive_cases thread_stepE: "thread_step env ops lon ron batches s s'"
inductive_simps thread_step_iff: "thread_step env ops lon ron batches s s'"

text \<open>Runs: a scheduler picks the thread of every step; a blocked thread does nothing.\<close>

datatype thread = MainThread | JoinThread

definition thread_fun ::
  "'d cudf \<Rightarrow> 'd cudf_ops \<Rightarrow> nat list \<Rightarrow> nat list \<Rightarrow> ('d table \<times> 'd table) list \<Rightarrow> thread \<Rightarrow> 'd join_state \<Rightarrow> 'd join_state option" where
  "thread_fun env ops lon ron batches t s = (case t of MainThread \<Rightarrow> main_step ops batches s | JoinThread \<Rightarrow> join_step env ops lon ron s)"

primrec run_threads ::
  "'d cudf \<Rightarrow> 'd cudf_ops \<Rightarrow> nat list \<Rightarrow> nat list \<Rightarrow> ('d table \<times> 'd table) list \<Rightarrow> (nat \<Rightarrow> thread) \<Rightarrow> 'd join_state \<Rightarrow> nat \<Rightarrow> 'd join_state" where
  "run_threads env ops lon ron batches sched s 0 = s"
| "run_threads env ops lon ron batches sched s (Suc k) =
     (let u = run_threads env ops lon ron batches sched s k in
      case thread_fun env ops lon ron batches (sched k) u of None \<Rightarrow> u | Some u' \<Rightarrow> u')"

definition fair :: "(nat \<Rightarrow> thread) \<Rightarrow> bool" where
  "fair sched \<longleftrightarrow> (\<forall>t k. \<exists>k' \<ge> k. sched k' = t)"

text \<open>The outcome of the two threads, once there is one.\<close>

definition outcome :: "'d join_state \<Rightarrow> 'd table res option" where
  "outcome s = (case terminated s of Some e \<Rightarrow> Some (Inl e) | None \<Rightarrow> merged s)"

section \<open>The invariant\<close>

fun flagged :: "nat \<Rightarrow> main_pc \<Rightarrow> nat" where
  "flagged n (LaunchLeft b) = b"
| "flagged n (LaunchRight b) = b"
| "flagged n (SetFlag b) = b"
| "flagged n AwaitJoin = n"
| "flagged n Merged = n"

fun left_ready :: "nat \<Rightarrow> main_pc \<Rightarrow> nat" where
  "left_ready n (LaunchRight b) = Suc b"
| "left_ready n (SetFlag b) = Suc b"
| "left_ready n pc = flagged n pc"

fun right_ready :: "nat \<Rightarrow> main_pc \<Rightarrow> nat" where
  "right_ready n (SetFlag b) = Suc b"
| "right_ready n pc = flagged n pc"

fun joined :: "nat \<Rightarrow> join_pc \<Rightarrow> nat" where
  "joined n (BusyWait i) = i"
| "joined n (LocalJoin i) = i"
| "joined n JoinDone = n"

definition main_inv :: "('d table \<times> 'd table) list \<Rightarrow> 'd join_state \<Rightarrow> bool" where
  "main_inv batches s \<longleftrightarrow>
     (let n = length batches in
      length (communicated_left s) = n \<and> length (communicated_right s) = n \<and>
      flags s = map (\<lambda>b. b < flagged n (main_at s)) [0..<n] \<and>
      (\<forall>b < n. b < left_ready n (main_at s) \<longrightarrow> communicated_left s ! b = fst (batches ! b)) \<and>
      (\<forall>b < n. b < right_ready n (main_at s) \<longrightarrow> communicated_right s ! b = snd (batches ! b)) \<and>
      (\<forall>b. main_at s \<in> {LaunchLeft b, LaunchRight b, SetFlag b} \<longrightarrow> b < n))"

definition join_inv :: "'d cudf \<Rightarrow> 'd cudf_ops \<Rightarrow> nat list \<Rightarrow> nat list \<Rightarrow> ('d table \<times> 'd table) list \<Rightarrow> 'd join_state \<Rightarrow> bool" where
  "join_inv env ops lon ron batches s \<longleftrightarrow>
     (let n = length batches; lj = (\<lambda>(l, r). local_join_helper env ops l r lon ron) in
      length (batch_join_results s) = n \<and>
      (\<forall>i < joined n (join_at s). \<exists>t. batch_join_results s ! i = Some t \<and> lj (batches ! i) = Inr t) \<and>
      (\<forall>i. join_at s \<in> {BusyWait i, LocalJoin i} \<longrightarrow> i < n) \<and>
      (\<forall>i. join_at s = LocalJoin i \<longrightarrow> i < flagged n (main_at s)) \<and>
      (\<forall>e. terminated s = Some e \<longrightarrow> (\<exists>i < n. lj (batches ! i) = Inl e \<and> joined n (join_at s) = i)) \<and>
      (main_at s = Merged \<longrightarrow> join_at s = JoinDone \<and> terminated s = None \<and>
         merged s = Some (concatenate ops (map the (batch_join_results s)))) \<and>
      (main_at s \<noteq> Merged \<longrightarrow> merged s = None))"

lemmas inv_defs = main_inv_def join_inv_def Let_def

lemma start_inv:
  assumes "length alloc_left = length batches" and "length alloc_right = length batches"
  shows "main_inv batches (start_threads alloc_left alloc_right)"
    "join_inv env ops lon ron batches (start_threads alloc_left alloc_right)"
  using assms
  by (auto simp: inv_defs start_threads_def main_loop_def join_loop_def intro!: nth_equalityI)

lemma main_step_inv:
  assumes m: "main_inv batches s" and j: "join_inv env ops lon ron batches s" and s: "main_step ops batches s = Some s'"
  shows "main_inv batches s'" "join_inv env ops lon ron batches s'"
proof -
  have "main_inv batches s' \<and> join_inv env ops lon ron batches s'"
  proof (cases "main_at s")
    case (LaunchLeft b)
    then show ?thesis using m j s by (auto simp: inv_defs main_step_def nth_list_update less_Suc_eq split: if_splits)
  next
    case (LaunchRight b)
    then show ?thesis using m j s by (auto simp: inv_defs main_step_def nth_list_update less_Suc_eq split: if_splits)
  next
    case (SetFlag b)
    have "flagged n (main_loop n (Suc b)) = Suc b" if "b < n" for n
      using that by (simp add: main_loop_def)
    moreover have "left_ready n (main_loop n (Suc b)) = Suc b" "right_ready n (main_loop n (Suc b)) = Suc b" if "b < n" for n
      using that by (simp_all add: main_loop_def)
    moreover have "main_loop n (Suc b) \<noteq> Merged" "main_loop n (Suc b) \<noteq> LaunchRight c" "main_loop n (Suc b) \<noteq> SetFlag c"
      "main_loop n (Suc b) = LaunchLeft c \<longleftrightarrow> c = Suc b \<and> Suc b < n" for c n
      by (auto simp: main_loop_def)
    moreover have b: "b < length batches" using m SetFlag by (simp add: inv_defs)
    moreover have "(map (\<lambda>c. c < b) [0..<length batches])[b := True] = map (\<lambda>c. c < Suc b) [0..<length batches]"
      using b by (intro nth_equalityI) (auto simp: nth_list_update less_Suc_eq)
    ultimately show ?thesis
      using m j s SetFlag by (auto simp: inv_defs main_step_def less_Suc_eq split: if_splits)
  next
    case AwaitJoin
    then show ?thesis using m j s by (auto simp: inv_defs main_step_def split: if_splits)
  next
    case Merged
    then show ?thesis using s by (simp add: main_step_def split: if_splits)
  qed
  then show "main_inv batches s'" "join_inv env ops lon ron batches s'" by blast+
qed

lemma join_step_inv:
  assumes m: "main_inv batches s" and j: "join_inv env ops lon ron batches s" and s: "join_step env ops lon ron s = Some s'"
  shows "main_inv batches s'" "join_inv env ops lon ron batches s'"
proof -
  let ?n = "length batches" and ?lj = "\<lambda>(l, r). local_join_helper env ops l r lon ron"
  have alive: "terminated s = None" using s by (simp add: join_step_def split: if_splits)
  have fl: "length (flags s) = ?n" using m by (simp add: inv_defs)
  have "main_inv batches s' \<and> join_inv env ops lon ron batches s'"
  proof (cases "join_at s")
    case (BusyWait i)
    then show ?thesis using m j s by (auto simp: inv_defs join_step_def split: if_splits)
  next
    case (LocalJoin i)
    have i: "i < ?n" "i < flagged ?n (main_at s)" using j LocalJoin by (auto simp: inv_defs)
    have rdy: "flagged ?n pc \<le> left_ready ?n pc" "flagged ?n pc \<le> right_ready ?n pc" for pc by (cases pc; simp)+
    have tabs: "communicated_left s ! i = fst (batches ! i)" "communicated_right s ! i = snd (batches ! i)"
      using m i rdy [of "main_at s"] by (auto simp: inv_defs)
    have lj: "?lj (batches ! i) = local_join_helper env ops (communicated_left s ! i) (communicated_right s ! i) lon ron"
      unfolding tabs by (simp add: case_prod_unfold)
    show ?thesis
    proof (cases "?lj (batches ! i)")
      case (Inl e)
      then have "s' = s\<lparr>terminated := Some e\<rparr>" using s LocalJoin alive unfolding lj by (simp add: join_step_def)
      moreover have "main_at s \<noteq> Merged" using j LocalJoin by (auto simp: inv_defs)
      ultimately show ?thesis using m j LocalJoin Inl i by (auto simp: inv_defs)
    next
      case (Inr t)
      then have s': "s' = s\<lparr>batch_join_results := (batch_join_results s)[i := Some t], join_at := join_loop ?n (Suc i)\<rparr>"
        using s LocalJoin alive fl unfolding lj by (simp add: join_step_def)
      have jl: "joined ?n (join_loop ?n (Suc i)) = Suc i" "join_loop ?n (Suc i) \<noteq> LocalJoin c"
        "join_loop ?n (Suc i) = BusyWait c \<longleftrightarrow> c = Suc i \<and> Suc i < ?n" for c
        using i by (auto simp: join_loop_def)
      have "main_at s \<noteq> Merged" using j LocalJoin by (auto simp: inv_defs)
      then show ?thesis using m j LocalJoin Inr i alive unfolding s'
        by (auto simp: inv_defs jl nth_list_update less_Suc_eq)
    qed
  next
    case JoinDone
    then show ?thesis using s by (simp add: join_step_def split: if_splits)
  qed
  then show "main_inv batches s'" "join_inv env ops lon ron batches s'" by blast+
qed

lemma thread_step_inv:
  assumes "main_inv batches s" and "join_inv env ops lon ron batches s" and "thread_step env ops lon ron batches s s'"
  shows "main_inv batches s' \<and> join_inv env ops lon ron batches s'"
  using assms(3)
proof (rule thread_stepE)
  assume "main_step ops batches s = Some s'"
  from main_step_inv [OF assms(1,2) this] show ?thesis ..
next
  assume "join_step env ops lon ron s = Some s'"
  from join_step_inv [OF assms(1,2) this] show ?thesis ..
qed

text \<open>All states the two threads can reach, whatever the interleaving.\<close>

abbreviation interleavings ::
  "'d cudf \<Rightarrow> 'd cudf_ops \<Rightarrow> nat list \<Rightarrow> nat list \<Rightarrow> ('d table \<times> 'd table) list \<Rightarrow> 'd join_state \<Rightarrow> 'd join_state \<Rightarrow> bool" where
  "interleavings env ops lon ron batches \<equiv> (thread_step env ops lon ron batches)\<^sup>*\<^sup>*"

lemma reachable_inv:
  assumes "interleavings env ops lon ron batches s s'" and "main_inv batches s" and "join_inv env ops lon ron batches s"
  shows "main_inv batches s' \<and> join_inv env ops lon ron batches s'"
  using assms
proof (induction rule: rtranclp_induct)
  case (step u v)
  then show ?case using thread_step_inv by blast
qed simp

section \<open>The outcome\<close>

lemma emap_first_error:
  "i < length xs \<Longrightarrow> \<forall>k < i. \<exists>t. f (xs ! k) = Inr t \<Longrightarrow> f (xs ! i) = Inl e \<Longrightarrow> emap f xs = Inl e"
proof (induction xs arbitrary: i)
  case (Cons x xs)
  show ?case
  proof (cases i)
    case 0
    then show ?thesis using Cons.prems by simp
  next
    case (Suc k)
    have "\<forall>l < k. \<exists>t. f (xs ! l) = Inr t" using Cons.prems(2) Suc by auto
    then have "emap f xs = Inl e" using Cons.prems Suc by (intro Cons.IH [of k]) simp_all
    moreover obtain t where "f x = Inr t" using Cons.prems(2) Suc by (metis nth_Cons_0 zero_less_Suc)
    ultimately show ?thesis by simp
  qed
qed simp

lemma outcome_join_batches:
  assumes j: "join_inv env ops lon ron batches s" and o: "outcome s = Some res"
  shows "res = join_batches env ops lon ron batches"
proof -
  let ?n = "length batches" and ?lj = "\<lambda>(l, r). local_join_helper env ops l r lon ron"
  have ok: "\<forall>i < joined ?n (join_at s). \<exists>t. batch_join_results s ! i = Some t \<and> ?lj (batches ! i) = Inr t"
    using j unfolding join_inv_def Let_def by blast
  show ?thesis
  proof (cases "terminated s")
    case (Some e)
    then obtain i where i: "i < ?n" "?lj (batches ! i) = Inl e" "joined ?n (join_at s) = i"
      using j unfolding join_inv_def Let_def by blast
    then have "emap ?lj batches = Inl e" using ok by (intro emap_first_error [of i]) blast+
    then show ?thesis using o Some by (simp add: outcome_def join_batches_def)
  next
    case None
    then have m: "merged s = Some res" using o by (simp add: outcome_def)
    then have "main_at s = Merged" using j by (auto simp: join_inv_def Let_def)
    then have "join_at s = JoinDone" and res: "res = concatenate ops (map the (batch_join_results s))"
      using j m by (auto simp: join_inv_def Let_def)
    then have each: "batch_join_results s ! i = Some (the (batch_join_results s ! i)) \<and> ?lj (batches ! i) = Inr (the (batch_join_results s ! i))"
      if "i < ?n" for i using ok that by fastforce
    have len: "length (batch_join_results s) = ?n" using j by (simp add: join_inv_def Let_def)
    have "emap ?lj batches = Inr (map the (batch_join_results s))"
      unfolding emap_Inr_iff using each len by (simp add: list_all2_conv_all_nth)
    then show ?thesis by (simp add: join_batches_def res)
  qed
qed

section \<open>Termination under fair scheduling\<close>

fun main_left :: "nat \<Rightarrow> main_pc \<Rightarrow> nat" where
  "main_left n (LaunchLeft b) = 3 * (n - b) + 1"
| "main_left n (LaunchRight b) = 3 * (n - b)"
| "main_left n (SetFlag b) = 3 * (n - b) - 1"
| "main_left n AwaitJoin = 1"
| "main_left n Merged = 0"

fun join_left :: "nat \<Rightarrow> join_pc \<Rightarrow> nat" where
  "join_left n (BusyWait i) = 2 * (n - i) + 1"
| "join_left n (LocalJoin i) = 2 * (n - i)"
| "join_left n JoinDone = 0"

definition work_left :: "nat \<Rightarrow> 'd join_state \<Rightarrow> nat" where
  "work_left n s = main_left n (main_at s) + join_left n (join_at s) + (if terminated s = None then 1 else 0)"

lemma main_step_work:
  assumes "main_inv batches s" and "main_step ops batches s = Some s'"
  shows "work_left (length batches) s' < work_left (length batches) s"
proof (cases "main_at s")
  case (SetFlag b)
  then have "b < length batches" "length (flags s) = length batches" using assms(1) by (simp_all add: inv_defs)
  then show ?thesis using assms(2) SetFlag by (auto simp: main_step_def work_left_def main_loop_def split: if_splits)
qed (use assms in \<open>auto simp: inv_defs main_step_def work_left_def split: if_splits\<close>)

lemma join_step_work:
  assumes "main_inv batches s" and j: "join_inv env ops lon ron batches s" and "join_step env ops lon ron s = Some s'"
  shows "s' = s \<or> work_left (length batches) s' < work_left (length batches) s"
proof (cases "join_at s")
  case (BusyWait i)
  then show ?thesis using assms by (auto simp: join_step_def work_left_def split: if_splits)
next
  case (LocalJoin i)
  have "i < length batches" "length (flags s) = length batches" using assms(1) j LocalJoin by (auto simp: inv_defs)
  then show ?thesis using assms(3) LocalJoin
    by (auto simp: join_step_def work_left_def join_loop_def split: if_splits sum.splits)
next
  case JoinDone
  then show ?thesis using assms by (simp add: join_step_def split: if_splits)
qed

text \<open>Without an outcome one of the threads can take a step that makes progress.\<close>

lemma some_thread_progresses:
  assumes m: "main_inv batches s" and j: "join_inv env ops lon ron batches s" and o: "outcome s = None"
  shows "\<exists>t s'. thread_fun env ops lon ron batches t s = Some s' \<and> s' \<noteq> s"
proof -
  have alive: "terminated s = None" and "merged s = None" using o by (auto simp: outcome_def split: option.splits)
  then have nm: "main_at s \<noteq> Merged" using j by (auto simp: inv_defs)
  show ?thesis
  proof (cases "main_step ops batches s")
    case (Some s')
    then have "s' \<noteq> s" using main_step_work [OF m] by fastforce
    then show ?thesis using Some by (intro exI [of _ MainThread]) (simp add: thread_fun_def)
  next
    case None
    then have aw: "main_at s = AwaitJoin" "join_at s \<noteq> JoinDone"
      using alive nm by (cases "main_at s"; auto simp: main_step_def split: if_splits)+
    then have "\<exists>s'. join_step env ops lon ron s = Some s' \<and> s' \<noteq> s"
    proof (cases "join_at s")
      case (BusyWait i)
      then have "i < length batches" using j by (auto simp: inv_defs)
      then have "flags s ! i" using m aw by (simp add: inv_defs)
      then show ?thesis using alive BusyWait by (auto simp: join_step_def dest: arg_cong [where f = join_at])
    next
      case (LocalJoin i)
      have "i < length batches" "length (flags s) = length batches" using m j LocalJoin by (auto simp: inv_defs)
      then have "s\<lparr>terminated := Some e\<rparr> \<noteq> s" "s\<lparr>batch_join_results := x, join_at := join_loop (length (flags s)) (Suc i)\<rparr> \<noteq> s" for e x
        using alive LocalJoin by (auto simp: join_loop_def dest: arg_cong [where f = terminated] arg_cong [where f = join_at] split: if_splits)
      then show ?thesis using alive LocalJoin by (auto simp: join_step_def split: sum.splits)
    qed auto
    then show ?thesis by (auto simp: thread_fun_def intro: exI [of _ JoinThread])
  qed
qed

lemma thread_fun_step: "thread_fun env ops lon ron batches t s = Some s' \<Longrightarrow> thread_step env ops lon ron batches s s'"
  by (cases t) (auto simp: thread_fun_def thread_step_iff)

lemma thread_fun_work:
  assumes "main_inv batches s" and "join_inv env ops lon ron batches s" and "thread_fun env ops lon ron batches t s = Some s'"
  shows "s' = s \<or> work_left (length batches) s' < work_left (length batches) s"
  using assms main_step_work join_step_work by (cases t) (fastforce simp: thread_fun_def)+

lemma run_threads_reachable:
  "interleavings env ops lon ron batches s (run_threads env ops lon ron batches sched s k)"
proof (induction k)
  case (Suc k)
  then show ?case
    by (auto simp: Let_def split: option.splits dest: thread_fun_step intro: rtranclp.rtrancl_into_rtrancl)
qed simp

lemma run_threads_ends:
  fixes batches :: "('d table \<times> 'd table) list"
  assumes m: "main_inv batches s" and j: "join_inv env ops lon ron batches s" and fair: "fair sched"
  shows "\<exists>k. outcome (run_threads env ops lon ron batches sched s k) \<noteq> None"
proof -
  let ?u = "run_threads env ops lon ron batches sched s" and ?w = "work_left (length batches)"
  have inv: "main_inv batches (?u k)" "join_inv env ops lon ron batches (?u k)" for k
    using reachable_inv [OF run_threads_reachable m j] by blast+
  have step: "?u (Suc k) = ?u k \<or> ?w (?u (Suc k)) < ?w (?u k)" for k
    using thread_fun_work [OF inv] by (auto simp: Let_def split: option.splits)
  have dec: "\<exists>k' > k. ?w (?u k') < ?w (?u k)" if none: "outcome (?u k) = None" for k :: nat
  proof (rule ccontr)
    assume stuck: "\<not> ?thesis"
    have same: "?u (k + d) = ?u k" for d
    proof (induction d)
      case (Suc d)
      then show ?case using step [of "k + d"] stuck by (metis add_Suc_right less_add_Suc1)
    qed simp
    obtain t s' where t: "thread_fun env ops lon ron batches t (?u k) = Some s'" "s' \<noteq> ?u k"
      using some_thread_progresses [OF inv none] by blast
    obtain k' where k': "k' \<ge> k" "sched k' = t" using fair by (auto simp: fair_def)
    have "?u k' = ?u k" using same [of "k' - k"] k'(1) by simp
    then have "?u (Suc k') = s'" using t(1) k'(2) by simp
    moreover have "?u (Suc k') = ?u k" using same [of "Suc k' - k"] k'(1) by simp
    ultimately show False using t(2) by simp
  qed
  have "\<exists>k'. outcome (?u k') \<noteq> None" for k :: nat
  proof (induction "?w (?u k)" arbitrary: k rule: less_induct)
    case less
    then show ?case using dec [of k] by blast
  qed
  then show ?thesis .
qed

text \<open>Whatever the scheduler does, as long as it is fair, the two threads compute \<open>join_batches\<close>.\<close>

lemma threads_compute_join_batches:
  assumes "length alloc_left = length batches" and "length alloc_right = length batches" and "fair sched"
  shows "\<exists>k. outcome (run_threads env ops lon ron batches sched (start_threads alloc_left alloc_right) k) =
    Some (join_batches env ops lon ron batches)"
proof -
  note inv = start_inv [OF assms(1,2)]
  let ?u = "run_threads env ops lon ron batches sched (start_threads alloc_left alloc_right)"
  obtain k where "outcome (?u k) \<noteq> None" using run_threads_ends [OF inv assms(3)] by blast
  then obtain res where res: "outcome (?u k) = Some res" by blast
  have "join_inv env ops lon ron batches (?u k)" using reachable_inv [OF run_threads_reachable inv] by blast
  from outcome_join_batches [OF this res] res show ?thesis by blast
qed

section \<open>The threads in the distributed join\<close>

text \<open>
  What all ranks have communicated when the last flag is set, batch by batch, if the domains
  have more than one rank; and the batches of one rank.
\<close>

definition communicated_batches ::
  "nvcomp \<Rightarrow> 'd cudf \<Rightarrow> 'd cudf_ops \<Rightarrow> ((rank \<times> int) list list \<Rightarrow> rank \<Rightarrow> rank list \<Rightarrow> int list res) \<Rightarrow>
     ((rank \<times> msg) list list \<Rightarrow> rank \<Rightarrow> rank list \<Rightarrow> msg list res) \<Rightarrow> bool \<Rightarrow> 'd table list \<Rightarrow> 'd table list \<Rightarrow>
     nat list \<Rightarrow> nat list \<Rightarrow> column_compression_options list list \<Rightarrow> column_compression_options list list \<Rightarrow>
     nat \<Rightarrow> int \<Rightarrow> ('d table list \<times> 'd table list) list res" where
  "communicated_batches nv env ops mpi exch gbb left right left_on right_on lopts ropts over_decom_factor nvlink_domain_size =
     (let N = length left; nvl = get_nvl_partition_size N nvlink_domain_size; parts = nvl * over_decom_factor in
      ebind (shuffle_ib nv env ops mpi exch gbb left left_on nvl lopts) (\<lambda>left'.
      ebind (shuffle_ib nv env ops mpi exch gbb right right_on nvl ropts) (\<lambda>right'.
      ebind (emap (CommunicationGroup nvl 1) [0..<N]) (\<lambda>gs.
      communicate_batches nv env mpi exch gbb nvl over_decom_factor
        (map (join_partition ops env left_on parts) left') (map (join_partition ops env right_on parts) right')))))"

definition rank_batches :: "rank \<Rightarrow> ('d table list \<times> 'd table list) list \<Rightarrow> ('d table \<times> 'd table) list" where
  "rank_batches r batches = map (\<lambda>(ls, rs). (ls ! r, rs ! r)) batches"

lemma distributed_inner_join_batches:
  assumes "get_nvl_partition_size (length left) domain \<noteq> 1"
  shows "distributed_inner_join nv env ops mpi exch gbb left right lon ron lopts ropts odf domain =
    ebind (communicated_batches nv env ops mpi exch gbb left right lon ron lopts ropts odf domain) (\<lambda>batches.
      emap (\<lambda>r. join_batches env ops lon ron (rank_batches r batches)) [0..<length left])"
  using assms by (simp add: distributed_inner_join_def communicated_batches_def rank_batches_def Let_def ebind_assoc)

lemma communicated_batches_length:
  "communicated_batches nv env ops mpi exch gbb left right lon ron lopts ropts odf domain = Inr batches \<Longrightarrow> length batches = odf"
  unfolding communicated_batches_def communicate_batches_def
  by (auto simp: res_simps Let_def emap_Inr_iff dest!: list_all2_lengthD)

lemma threads_compute_join:
  assumes nvl: "get_nvl_partition_size (length left) domain \<noteq> 1"
    and join: "distributed_inner_join nv env ops mpi exch gbb left right lon ron lopts ropts odf domain = Inr outs"
  shows "\<exists>batches. communicated_batches nv env ops mpi exch gbb left right lon ron lopts ropts odf domain = Inr batches \<and>
    (\<forall>r sched alloc_left alloc_right. r < length left \<and> fair sched \<and>
        length alloc_left = length batches \<and> length alloc_right = length batches \<longrightarrow>
      (\<exists>k. outcome (run_threads env ops lon ron (rank_batches r batches) sched (start_threads alloc_left alloc_right) k) =
        Some (Inr (outs ! r))))"
proof -
  obtain batches where b: "communicated_batches nv env ops mpi exch gbb left right lon ron lopts ropts odf domain = Inr batches"
      "emap (\<lambda>r. join_batches env ops lon ron (rank_batches r batches)) [0..<length left] = Inr outs"
    using join unfolding distributed_inner_join_batches [OF nvl] by (auto simp: res_simps)
  have "join_batches env ops lon ron (rank_batches r batches) = Inr (outs ! r)" if "r < length left" for r
    using b(2) that by (auto simp: emap_Inr_iff list_all2_conv_all_nth)
  then show ?thesis using b(1) threads_compute_join_batches by (metis length_map rank_batches_def)
qed

end
