(* ===== verification/Reference_Ops.thy ===== *)
theory Reference_Ops
  imports Relational
begin

text \<open>
  A reference implementation of the cuDF operations, by way of the rows of a table. It
  shows that the contract \<open>cudf_ops_ok\<close> can be met, and the witnesses run the joins on it.
\<close>

section \<open>Tables from rows\<close>

fun build_column :: "'d option \<Rightarrow> byte list list \<Rightarrow> 'd column" where
  "build_column (Some d) cells = FixedWidth d (concat cells)"
| "build_column None cells =
     Strings (0 # partial_sum 0 (map (\<lambda>x. word_of_nat (length x)) cells)) (concat cells)"

definition build_table :: "'d option list \<Rightarrow> row list \<Rightarrow> 'd table" where
  "build_table sch rs = map (\<lambda>c. build_column (sch ! c) (map (\<lambda>row. row ! c) rs)) [0..<length sch]"

definition rows_ok :: "'d cudf \<Rightarrow> 'd option list \<Rightarrow> row list \<Rightarrow> bool" where
  "rows_ok env sch rs \<longleftrightarrow>
     (\<forall>row \<in> set rs. length row = length sch \<and>
        (\<forall>c < length sch. \<forall>d. sch ! c = Some d \<longrightarrow> length (row ! c) = size_of env d))"

lemma build_fixed:
  assumes "\<forall>x \<in> set cells. length x = size_of env d"
  shows "column_ok env (length cells) (FixedWidth d (concat cells))"
    and "column_rows env (length cells) (FixedWidth d (concat cells)) = cells"
proof -
  show "column_ok env (length cells) (FixedWidth d (concat cells))"
    using assms by (induction cells) simp_all
  have one: "column_rows env 1 (FixedWidth d x) = [x]" if "length x = size_of env d" for x
    using that by (simp add: column_rows_def subrange_def)
  have "column_rows env (sum_list (map (\<lambda>_. 1) cells)) (FixedWidth d (concat (map (\<lambda>x. x) cells))) =
      concat (map (\<lambda>x. column_rows env 1 (FixedWidth d x)) cells)"
    using assms by (intro column_rows_fixed_concat) simp
  also have "\<dots> = concat (map (\<lambda>x. [x]) cells)"
    using assms one by (intro arg_cong [where f = concat] map_cong refl) blast
  finally show "column_rows env (length cells) (FixedWidth d (concat cells)) = cells"
    by (simp add: sum_list_triv)
qed

lemma split_concat: "split_chars (map length cells) (concat cells) = cells"
  by (induction cells) simp_all

lemma build_strings:
  assumes b: "int (\<Sum>x \<leftarrow> cells. length x) < 2 ^ 31"
  shows "column_ok env (length cells) (build_column None cells)"
    and "column_rows env (length cells) (build_column None cells) = cells"
proof -
  let ?sz = "map (\<lambda>x. word_of_nat (length x) :: 32 word) cells"
  have each: "length x \<le> (\<Sum>x \<leftarrow> cells. length x)" if "x \<in> set cells" for x
    using that by (induction cells) auto
  have s: "sint (word_of_nat (length x) :: 32 word) = int (length x)" if "x \<in> set cells" for x
    using each [OF that] b by (simp add: signed_of_nat signed_take_bit_int_eq_self)
  have nn: "\<forall>w \<in> set ?sz. 0 \<le> sint w" using s by auto
  have tot: "sum_list (map sint ?sz) = int (\<Sum>x \<leftarrow> cells. length x)"
    using s by (simp add: int_sum_list comp_def cong: map_cong)
  have lens: "map (\<lambda>w. nat (sint w)) ?sz = map length cells" using s by simp
  have "column_rows env (length ?sz) (Strings (0 # partial_sum 0 ?sz) (concat cells)) = split_chars (map (\<lambda>w. nat (sint w)) ?sz) (concat cells)"
    using nn b tot by (intro column_rows_strings) simp_all
  then show "column_rows env (length cells) (build_column None cells) = cells"
    unfolding lens split_concat by simp
  let ?offs = "0 # partial_sum 0 ?sz :: 32 word list"
  have bound: "sum_list (map sint ?sz) < 2 ^ 31" unfolding tot by (rule b)
  have off: "map sint ?offs = 0 # partial_sum 0 (map sint ?sz)"
    using sint_partial_sum32 [OF nn bound] by simp
  have ok: "offsets_ok (length cells) (map sint ?offs)"
    unfolding off using nn by (intro offsets_ok_partial_sum) auto
  have "sint (last ?offs) = last (map sint ?offs)" by (rule last_map [symmetric]) simp
  also have "\<dots> = map sint ?offs ! length cells" by (rule offsets_ok_last [OF ok])
  also have "\<dots> = (0 # partial_sum 0 (map sint ?sz)) ! length cells" unfolding off ..
  also have "\<dots> = int (length (concat cells))"
    using tot by (subst partial_sum_nth) (simp_all add: length_concat)
  finally have "sint (last ?offs) \<le> int (length (concat cells))" by simp
  then show "column_ok env (length cells) (build_column None cells)" using ok by simp
qed

text \<open>A table built from rows has these rows.\<close>

lemma build_table_ok:
  assumes env: "cudf_ok env" and sch: "sch \<noteq> []" and ok: "rows_ok env sch rs" and fit: "fits sch (mset rs)"
  shows "wf_table env sch (build_table sch rs)" and "rows env (build_table sch rs) = rs"
proof -
  let ?cells = "\<lambda>c. map (\<lambda>row. row ! c) rs" and ?n = "length rs"
  have col: "column_ok env ?n (build_column (sch ! c) (?cells c)) \<and>
      column_rows env ?n (build_column (sch ! c) (?cells c)) = ?cells c" if c: "c < length sch" for c
  proof (cases "sch ! c")
    case None
    have "int (\<Sum>x \<leftarrow> ?cells c. length x) < 2 ^ 31"
      using fit c None by (simp add: fits_def col_bytes_def comp_def sum_mset_sum_list [symmetric])
    from build_strings [OF this, of env] show ?thesis by (simp add: None)
  next
    case (Some d)
    have "\<forall>x \<in> set (?cells c). length x = size_of env d" using ok c Some by (simp add: rows_ok_def)
    from build_fixed [OF this] show ?thesis by (simp add: Some)
  qed
  have type: "column_type (build_column s xs) = s" for s :: "'a option" and xs by (cases s) simp_all
  have tok: "table_ok env ?n (build_table sch rs)"
    using col by (simp add: table_ok_def build_table_def list_all_iff)
  have ne: "build_table sch rs \<noteq> []" using sch by (simp add: build_table_def)
  have nr: "num_rows env (build_table sch rs) = ?n" by (rule num_rows_eq [OF env ne tok])
  show rows: "rows env (build_table sch rs) = rs"
  proof (rule nth_equalityI)
    fix i assume "i < length (rows env (build_table sch rs))"
    then have i: "i < ?n" by (simp add: nr)
    have len: "length (rs ! i) = length sch" using ok i by (simp add: rows_ok_def)
    have "cell env (build_column (sch ! c) (?cells c)) i = rs ! i ! c" if "c < length sch" for c
    proof -
      have "column_rows env ?n (build_column (sch ! c) (?cells c)) ! i = ?cells c ! i" using col [OF that] by simp
      then show ?thesis using i by (simp add: column_rows_def)
    qed
    then have "map (\<lambda>c. cell env c i) (build_table sch rs) = map (\<lambda>c. rs ! i ! c) [0..<length sch]"
      by (simp add: build_table_def)
    also have "\<dots> = rs ! i" using len map_nth [of "rs ! i"] by simp
    finally show "rows env (build_table sch rs) ! i = rs ! i" using i by (simp add: nth_rows nr)
  qed (simp add: nr)
  have "schema (build_table sch rs) = sch"
    using map_nth [of sch] by (simp add: schema_def build_table_def comp_def type)
  then show "wf_table env sch (build_table sch rs)"
    using sch tok nr rows fit by (simp add: wf_table_def)
qed

lemma wf_rows_ok:
  assumes wf: "wf_table env sch t"
  shows "rows_ok env sch (rows env t)"
  unfolding rows_ok_def
proof (intro ballI conjI allI impI)
  note w = wf_tableD [OF wf]
  fix row assume "row \<in> set (rows env t)"
  then obtain i where i: "i < num_rows env t" "row = map (\<lambda>c. cell env c i) t" by (auto simp: in_set_conv_nth nth_rows)
  then show "length row = length sch" using w(6) by simp
  fix c d assume c: "c < length sch" "sch ! c = Some d"
  have t: "c < length t" using w(6) c(1) by simp
  have "schema t ! c = Some d" using w(2) c(2) by simp
  then have "column_type (t ! c) = Some d" using t by (simp add: schema_def)
  then obtain bs where eq: "t ! c = FixedWidth d bs" by (cases "t ! c") auto
  have "column_ok env (num_rows env t) (t ! c)" using w(3) t by (simp add: table_ok_def list_all_length)
  then have l: "length bs = num_rows env t * size_of env d" using eq by simp
  have "Suc i * size_of env d \<le> num_rows env t * size_of env d" using i(1) by (intro mult_le_mono1) simp
  then have "int (Suc i) * int (size_of env d) \<le> int (length bs)" unfolding l by (metis of_nat_le_iff of_nat_mult)
  then have "length (cell env (t ! c) i) = size_of env d"
    unfolding eq cell.simps by (subst length_subrange) (simp_all add: distrib_right)
  then show "length (row ! c) = size_of env d" using i(2) t by simp
qed

section \<open>The operations\<close>

definition ref_part :: "'d partitioner" where
  "ref_part h seed n ts k = (unat seed + sum_list (map unat (concat k))) mod n"

definition bucketed :: "nat \<Rightarrow> ('a \<Rightarrow> nat) \<Rightarrow> 'a list \<Rightarrow> 'a list" where
  "bucketed n f xs = concat (map (\<lambda>p. filter (\<lambda>x. f x = p) xs) [0..<n])"

definition bucket_start :: "nat \<Rightarrow> ('a \<Rightarrow> nat) \<Rightarrow> 'a list \<Rightarrow> nat" where
  "bucket_start p f xs = length (bucketed p f xs)"

definition ref_hash_partition ::
  "'d cudf \<Rightarrow> 'd table \<Rightarrow> nat list \<Rightarrow> nat \<Rightarrow> hash_id \<Rightarrow> 32 word \<Rightarrow> 'd table \<times> 32 word list" where
  "ref_hash_partition env t on n h seed =
     (let f = (\<lambda>row. ref_part h seed n (key_types (schema t) on) (key on row)) in
      (build_table (schema t) (bucketed n f (rows env t)),
       map (\<lambda>p. word_of_nat (bucket_start p f (rows env t))) [0..<n]))"

definition ref_inner_join :: "'d cudf \<Rightarrow> 'd table \<Rightarrow> 'd table \<Rightarrow> nat list \<Rightarrow> nat list \<Rightarrow> 'd table res" where
  "ref_inner_join env l r lon ron =
     (let rs = concat (map (\<lambda>x. map (\<lambda>y. x @ y) (filter (\<lambda>y. key ron y = key lon x) (rows env r))) (rows env l)) in
      if fits (schema l @ schema r) (mset rs) then Inr (build_table (schema l @ schema r) rs) else Inl ExternalError)"

definition ref_concatenate :: "'d cudf \<Rightarrow> 'd table list \<Rightarrow> 'd table res" where
  "ref_concatenate env ts =
     (if \<exists>t \<in> set ts. schema t \<noteq> schema (hd ts) then Inl ExternalError
      else if ts = [] \<or> hd ts = [] then Inr []
      else if fits (schema (hd ts)) (mset (concat (map (rows env) ts)))
           then Inr (build_table (schema (hd ts)) (concat (map (rows env) ts))) else Inl ExternalError)"

definition ref_ops :: "'d cudf \<Rightarrow> 'd cudf_ops" where
  "ref_ops env = \<lparr>hash_partition = ref_hash_partition env, inner_join = ref_inner_join env, concatenate = ref_concatenate env\<rparr>"

section \<open>They meet the contract\<close>

lemma bucketed_Suc: "bucketed (Suc n) f xs = bucketed n f xs @ filter (\<lambda>x. f x = n) xs"
  by (simp add: bucketed_def)

lemma mset_bucketed: "mset (bucketed n f xs) = filter_mset (\<lambda>x. f x < n) (mset xs)"
proof (induction n)
  case 0
  then show ?case by (simp add: bucketed_def)
next
  case (Suc n)
  have "filter_mset (\<lambda>x. f x < n) M + filter_mset (\<lambda>x. f x = n) M = filter_mset (\<lambda>x. f x < Suc n) M" for M
    by (induction M) auto
  then show ?case using Suc by (simp add: bucketed_Suc)
qed

lemma bucketed_take: "p \<le> n \<Longrightarrow> \<exists>rest. bucketed n f xs = bucketed p f xs @ rest"
  by (induction n) (auto simp: bucketed_Suc le_Suc_eq)

lemma bucket_start_mono: "p \<le> n \<Longrightarrow> bucket_start p f xs \<le> bucket_start n f xs"
  using bucketed_take [of p n f xs] by (auto simp: bucket_start_def)

lemma bucketed_nth:
  assumes "p < n" and "bucket_start p f xs \<le> i" and "i < bucket_start (Suc p) f xs"
  shows "f (bucketed n f xs ! i) = p"
proof -
  obtain rest where b: "bucketed n f xs = bucketed (Suc p) f xs @ rest" using bucketed_take [of "Suc p" n f xs] assms(1) by auto
  have i: "i < length (bucketed (Suc p) f xs)" using assms(3) by (simp add: bucket_start_def)
  then have "bucketed n f xs ! i = bucketed (Suc p) f xs ! i" by (simp add: b nth_append)
  also have "\<dots> = filter (\<lambda>x. f x = p) xs ! (i - length (bucketed p f xs))"
    using assms(2) by (simp add: bucketed_Suc nth_append bucket_start_def)
  finally have e: "bucketed n f xs ! i = filter (\<lambda>x. f x = p) xs ! (i - length (bucketed p f xs))" .
  have "i - length (bucketed p f xs) < length (filter (\<lambda>x. f x = p) xs)"
    using i assms(2) by (simp add: bucketed_Suc bucket_start_def)
  from nth_mem [OF this] show ?thesis unfolding e by simp
qed

lemma rows_ok_mset: "rows_ok env sch xs \<Longrightarrow> mset ys = mset xs \<Longrightarrow> rows_ok env sch ys"
  unfolding rows_ok_def by (metis mset_eq_setD)

lemma ref_hash_partition_ok:
  assumes env: "cudf_ok env"
  shows "hash_partition_ok env (ref_ops env) ref_part"
  unfolding hash_partition_ok_def
proof (intro allI impI, elim conjE)
  fix sch t on n h seed t' offs
  assume wf: "wf_table env sch t" and on: "valid_on sch on" and n: "0 < n"
    and run: "hash_partition (ref_ops env) t on n h seed = (t', offs)"
  note w = wf_tableD [OF wf]
  let ?f = "\<lambda>row. ref_part h seed n (key_types sch on) (key on row)"
  let ?rs = "bucketed n ?f (rows env t)"
  have t': "t' = build_table sch ?rs" and offs: "offs = map (\<lambda>p. word_of_nat (bucket_start p ?f (rows env t))) [0..<n]"
    using run w(2) by (auto simp: ref_ops_def ref_hash_partition_def Let_def)
  have "filter_mset (\<lambda>x. ?f x < n) (mset (rows env t)) = mset (rows env t)"
    using n by (simp add: ref_part_def)
  then have m: "mset ?rs = mset (rows env t)" unfolding mset_bucketed .
  have rok: "rows_ok env sch ?rs" by (rule rows_ok_mset [OF wf_rows_ok [OF wf] m])
  have fit: "fits sch (mset ?rs)" unfolding m by (rule w(4))
  note b = build_table_ok [OF env w(1) rok fit, folded t']
  have len: "length ?rs = num_rows env t" using mset_eq_length [OF m] by simp
  have bound: "int (bucket_start p ?f (rows env t)) < 2 ^ 31" if "p \<le> n" for p
    using bucket_start_mono [OF that, of ?f "rows env t"] len w(7) by (simp add: bucket_start_def)
  have s: "sint (word_of_nat (bucket_start p ?f (rows env t)) :: 32 word) = int (bucket_start p ?f (rows env t))" if "p \<le> n" for p
    using bound [OF that] by (simp add: signed_of_nat signed_take_bit_int_eq_self)
  let ?ends = "map sint offs @ [int (num_rows env t)]"
  have e: "?ends = map (\<lambda>p. int (bucket_start p ?f (rows env t))) [0..<Suc n]"
    using s len by (simp add: offs bucket_start_def)
  have "sorted ?ends" unfolding e by (auto simp: sorted_iff_nth_mono bucket_start_mono simp del: upt_Suc)
  moreover have "?f (rows env t' ! i) = p" if "p < n" "?ends ! p \<le> int i" "int i < ?ends ! Suc p" for p i
    using that unfolding e b(2) by (intro bucketed_nth) (auto simp del: upt_Suc)
  moreover have "hd offs = 0" using n by (simp add: offs bucket_start_def bucketed_def hd_map)
  ultimately show "wf_table env sch t' \<and> mset (rows env t') = mset (rows env t) \<and> length offs = n \<and> hd offs = 0 \<and>
      (let ends = ?ends in sorted ends \<and> (\<forall>p < n. \<forall>i. ends ! p \<le> int i \<and> int i < ends ! Suc p \<longrightarrow>
         ref_part h seed n (key_types sch on) (key on (rows env t' ! i)) = p))"
    using b m by (simp add: offs Let_def)
qed

lemma ref_inner_join_ok:
  assumes env: "cudf_ok env"
  shows "inner_join_ok env (ref_ops env)"
  unfolding inner_join_ok_def
proof (intro allI impI, elim conjE)
  fix schl schr l r lon ron
  assume wl: "wf_table env schl l" and wr: "wf_table env schr r"
    and fit: "fits (schl @ schr) (join_rows lon ron (mset (rows env l)) (mset (rows env r)))"
  let ?g = "\<lambda>x. map (\<lambda>y. x @ y) (filter (\<lambda>y. key ron y = key lon x) (rows env r))"
  let ?rs = "concat (map ?g (rows env l))"
  note dl = wf_tableD [OF wl] and dr = wf_tableD [OF wr]
  have m: "mset ?rs = join_rows lon ron (mset (rows env l)) (mset (rows env r))"
    by (induction "rows env l") (simp_all add: join_rows_def matches_def mset_concat comp_def sum_mset_sum_list [symmetric] mset_filter)
  have rok: "rows_ok env (schl @ schr) ?rs"
    using wf_rows_ok [OF wl] wf_rows_ok [OF wr] by (fastforce simp: rows_ok_def nth_append)
  have fit': "fits (schl @ schr) (mset ?rs)" unfolding m by (rule fit)
  have "schl @ schr \<noteq> []" using dl(1) by simp
  note b = build_table_ok [OF env this rok fit']
  have "inner_join (ref_ops env) l r lon ron = Inr (build_table (schl @ schr) ?rs)"
    using fit' dl(2) dr(2) by (simp add: ref_ops_def ref_inner_join_def Let_def)
  then show "\<exists>t. inner_join (ref_ops env) l r lon ron = Inr t \<and> wf_table env (schl @ schr) t \<and>
      mset (rows env t) = join_rows lon ron (mset (rows env l)) (mset (rows env r))"
    using b m by auto
qed

lemma ref_concatenate_ok:
  assumes env: "cudf_ok env"
  shows "concatenate_ok env (ref_ops env)"
  unfolding concatenate_ok_def
proof (intro conjI allI impI, elim conjE)
  fix sch and ts :: "'a table list"
  assume ts: "ts \<noteq> []" and wf: "\<forall>t \<in> set ts. wf_table env sch t" and fit: "fits sch (\<Sum>t \<leftarrow> ts. mset (rows env t))"
  let ?rs = "concat (map (rows env) ts)"
  have sch: "schema t = sch" "sch \<noteq> []" "t \<noteq> []" if "t \<in> set ts" for t
    using wf_tableD [of env sch t] wf that by blast+
  have hd: "hd ts \<in> set ts" using ts by simp
  have m: "mset ?rs = (\<Sum>t \<leftarrow> ts. mset (rows env t))" by (induction ts) simp_all
  have rok: "rows_ok env sch ?rs" using wf wf_rows_ok [of env sch] by (fastforce simp: rows_ok_def)
  have fit': "fits sch (mset ?rs)" unfolding m by (rule fit)
  note b = build_table_ok [OF env sch(2) [OF hd] rok fit']
  have "concatenate (ref_ops env) ts = Inr (build_table sch ?rs)"
    using sch(1) sch(3) [OF hd] hd fit' ts by (simp add: ref_ops_def ref_concatenate_def)
  then show "\<exists>t. concatenate (ref_ops env) ts = Inr t \<and> wf_table env sch t \<and> mset (rows env t) = (\<Sum>t \<leftarrow> ts. mset (rows env t))"
    using b m by auto
next
  fix ts :: "'a table list"
  assume ts: "ts \<noteq> [] \<and> (\<forall>t \<in> set ts. t = [])"
  then have all: "\<forall>t \<in> set ts. t = []" ..
  have "hd ts \<in> set ts" by (rule hd_in_set [OF conjunct1 [OF ts]])
  then have hd: "hd ts = []" by (rule bspec [OF all])
  have "\<not> (\<exists>t \<in> set ts. schema t \<noteq> schema (hd ts))" 
  proof
    assume "\<exists>t \<in> set ts. schema t \<noteq> schema (hd ts)"
    then obtain t where t: "t \<in> set ts" "schema t \<noteq> schema (hd ts)" ..
    from bspec [OF all t(1)] t(2) show False by (simp add: hd)
  qed
  then show "concatenate (ref_ops env) ts = Inr []"
    unfolding ref_ops_def cudf_ops.select_convs ref_concatenate_def using hd by (simp only: if_False simp_thms if_True)
next
  fix ts and t u :: "'a table"
  assume a: "t \<in> set ts \<and> u \<in> set ts \<and> length t \<noteq> length u"
  then have "schema t \<noteq> schema u" by (metis length_map schema_def)
  then have "schema t \<noteq> schema (hd ts) \<or> schema u \<noteq> schema (hd ts)" by auto
  then have "\<exists>t \<in> set ts. schema t \<noteq> schema (hd ts)" using a by blast
  then show "concatenate (ref_ops env) ts = Inl ExternalError" by (simp add: ref_ops_def ref_concatenate_def)
qed

lemma ref_part_ok: "partitioner_ok ref_part"
  by (simp add: partitioner_ok_def ref_part_def)

lemma ref_ops_ok: "cudf_ok env \<Longrightarrow> cudf_ops_ok env (ref_ops env) ref_part"
  by (simp add: cudf_ops_ok_def ref_part_ok ref_hash_partition_ok ref_inner_join_ok ref_concatenate_ok)

end
