(* ===== verification/Join_Properties.thy ===== *)
theory Join_Properties
  imports Join_Correct Join_Threads Reference_Ops Examples Buffer_Communicator
begin

text \<open>
  The properties of the shuffle and of the distributed join. The witnesses run them on four
  ranks in two domains with the reference operations.
\<close>

section \<open>Four ranks\<close>

definition demo_left :: "nat table list" where
  "demo_left = [[FixedWidth 4 [1, 0, 0, 0, 2, 0, 0, 0], FixedWidth 1 [10, 11]], [FixedWidth 4 [3, 0, 0, 0], FixedWidth 1 [12]],
     [FixedWidth 4 [], FixedWidth 1 []], [FixedWidth 4 [1, 0, 0, 0], FixedWidth 1 [13]]]"

definition demo_right :: "nat table list" where
  "demo_right = [[FixedWidth 4 [], Strings [0] []], [FixedWidth 4 [1, 0, 0, 0], Strings [0, 2] [65, 66]],
     [FixedWidth 4 [3, 0, 0, 0, 9, 0, 0, 0], Strings [0, 0, 1] [67]], [FixedWidth 4 [], Strings [0] []]]"

lemmas table_simps = rows_def num_rows_def table_rows_def demo_env_def subrange_def upt_rec schema_def table_ok_def offsets_ok_def

lemma demo_left_rows:
  "map (rows demo_env) demo_left = [[[[1, 0, 0, 0], [10]], [[2, 0, 0, 0], [11]]], [[[3, 0, 0, 0], [12]]], [], [[[1, 0, 0, 0], [13]]]]"
  by (simp add: demo_left_def table_simps)

lemma demo_right_rows:
  "map (rows demo_env) demo_right = [[], [[[1, 0, 0, 0], [65, 66]]], [[[3, 0, 0, 0], []], [[9, 0, 0, 0], [67]]], []]"
  by (simp add: demo_right_def table_simps)

lemma total_rows_concat: "total_rows env T = mset (concat (map (rows env) T))"
proof -
  have "total_rows env T = (\<Sum>s \<leftarrow> [0..<length T]. mset (rows env (T ! s)))"
    unfolding total_rows_def by (simp add: sum_list_upt)
  also have "\<dots> = (\<Sum>t \<leftarrow> map ((!) T) [0..<length T]. mset (rows env t))" by (simp add: comp_def)
  also have "\<dots> = (\<Sum>t \<leftarrow> T. mset (rows env t))" unfolding map_nth ..
  finally show ?thesis by (simp add: mset_concat_map)
qed

lemma demo_left_ok: "shuffle_inputs_ok demo_env [Some 4, Some 1] [0] demo_left"
proof -
  have "\<forall>t \<in> set demo_left. wf_table demo_env [Some 4, Some 1] t"
    by (auto simp: demo_left_def wf_table_def table_simps fits_def less_Suc_eq)
  then show ?thesis
    unfolding shuffle_inputs_ok_def total_rows_concat demo_left_rows
    by (auto simp: demo_env_ok valid_on_def demo_left_def fits_def less_Suc_eq)
qed

lemma demo_right_ok: "shuffle_inputs_ok demo_env [Some 4, None] [0] demo_right"
proof -
  have "\<forall>t \<in> set demo_right. wf_table demo_env [Some 4, None] t"
    by (auto simp: demo_right_def wf_table_def table_simps fits_def less_Suc_eq col_bytes_def)
  then show ?thesis
    unfolding shuffle_inputs_ok_def total_rows_concat demo_right_rows
    by (auto simp: demo_env_ok valid_on_def demo_right_def fits_def less_Suc_eq col_bytes_def)
qed

lemma demo_join:
  "join_rows [0] [0] (total_rows demo_env demo_left) (total_rows demo_env demo_right) =
    {#[[1, 0, 0, 0], [10], [1, 0, 0, 0], [65, 66]], [[1, 0, 0, 0], [13], [1, 0, 0, 0], [65, 66]],
      [[3, 0, 0, 0], [12], [3, 0, 0, 0], []]#}"
  unfolding total_rows_concat demo_left_rows demo_right_rows
  by (simp add: join_rows_def matches_def key_def)

lemma demo_lengths: "length demo_left = 4" "length demo_right = 4"
  by (simp_all add: demo_left_def demo_right_def)

lemmas demo_join_sums = demo_join [unfolded total_rows_def demo_lengths]

lemma demo_inputs: "join_inputs_ok demo_env ref_part [Some 4, Some 1] [Some 4, None] [0] [0] demo_left demo_right nvl 1"
proof -
  show ?thesis
    unfolding join_inputs_ok_def demo_join
    using demo_lengths demo_left_ok demo_right_ok by (auto simp: key_types_def fits_def col_bytes_def less_Suc_eq)
qed

lemma demo_options:
  "table_options_ok demo_env (demo_left ! 0) [default_options, cascaded_options]"
  "table_options_ok demo_env (demo_right ! 0) [default_options, ColumnCompressionOptions CompNone default_format [cascaded_options, default_options]]"
  by (auto simp: table_options_ok_def demo_left_def demo_right_def default_options_def cascaded_options_def sendable_def demo_env_def)

text \<open>
  Two ranks in one domain with two batches: tables of fixed width, of which every rank has
  rows in every batch.
\<close>

definition batch_left :: "nat table list" where
  "batch_left = [[FixedWidth 4 [0, 0, 0, 0, 1, 0, 0, 0], FixedWidth 1 [10, 11]],
                 [FixedWidth 4 [2, 0, 0, 0, 3, 0, 0, 0], FixedWidth 1 [12, 13]]]"

definition batch_right :: "nat table list" where
  "batch_right = [[FixedWidth 4 [3, 0, 0, 0, 2, 0, 0, 0], FixedWidth 1 [20, 21]],
                  [FixedWidth 4 [1, 0, 0, 0, 0, 0, 0, 0, 0, 0, 0, 0], FixedWidth 1 [22, 23, 24]]]"

definition batch_joined :: "row multiset" where
  "batch_joined = {#[[0, 0, 0, 0], [10], [0, 0, 0, 0], [23]], [[0, 0, 0, 0], [10], [0, 0, 0, 0], [24]],
     [[1, 0, 0, 0], [11], [1, 0, 0, 0], [22]], [[2, 0, 0, 0], [12], [2, 0, 0, 0], [21]], [[3, 0, 0, 0], [13], [3, 0, 0, 0], [20]]#}"

lemma batch_rows:
  "map (rows demo_env) batch_left = [[[[0, 0, 0, 0], [10]], [[1, 0, 0, 0], [11]]], [[[2, 0, 0, 0], [12]], [[3, 0, 0, 0], [13]]]]"
  "map (rows demo_env) batch_right =
    [[[[3, 0, 0, 0], [20]], [[2, 0, 0, 0], [21]]], [[[1, 0, 0, 0], [22]], [[0, 0, 0, 0], [23]], [[0, 0, 0, 0], [24]]]]"
  by (simp_all add: batch_left_def batch_right_def table_simps)

lemma batch_total:
  "total_rows demo_env batch_left = {#[[0, 0, 0, 0], [10]], [[1, 0, 0, 0], [11]], [[2, 0, 0, 0], [12]], [[3, 0, 0, 0], [13]]#}"
  "total_rows demo_env batch_right =
    {#[[3, 0, 0, 0], [20]], [[2, 0, 0, 0], [21]], [[1, 0, 0, 0], [22]], [[0, 0, 0, 0], [23]], [[0, 0, 0, 0], [24]]#}"
  by (simp_all add: total_rows_concat batch_rows)

lemma batch_lengths: "length batch_left = 2" "length batch_right = 2"
  by (simp_all add: batch_left_def batch_right_def)

lemma batch_join: "join_rows [0] [0] (total_rows demo_env batch_left) (total_rows demo_env batch_right) = batch_joined"
  unfolding batch_total by (simp add: join_rows_def matches_def key_def batch_joined_def)

lemmas batch_join_sums = batch_join [unfolded total_rows_def batch_lengths]

lemma batch_shuffle: "shuffle_inputs_ok demo_env [Some 4, Some 1] [0] batch_left" "shuffle_inputs_ok demo_env [Some 4, Some 1] [0] batch_right"
proof -
  have "\<forall>t \<in> set batch_left. wf_table demo_env [Some 4, Some 1] t" "\<forall>t \<in> set batch_right. wf_table demo_env [Some 4, Some 1] t"
    by (auto simp: batch_left_def batch_right_def wf_table_def table_simps fits_def less_Suc_eq)
  then show "shuffle_inputs_ok demo_env [Some 4, Some 1] [0] batch_left" "shuffle_inputs_ok demo_env [Some 4, Some 1] [0] batch_right"
    unfolding shuffle_inputs_ok_def batch_total
    by (auto simp: demo_env_ok valid_on_def batch_left_def batch_right_def fits_def less_Suc_eq)
qed

lemma batch_domain: "get_nvl_partition_size 2 2 = 2"
  by code_simp

lemma batch_inputs: "join_inputs_ok demo_env ref_part [Some 4, Some 1] [Some 4, Some 1] [0] [0] batch_left batch_right 2 2"
proof -
  have place: "key_place ref_part 2 2 2 ts [[k, 0, 0, 0]] = ((12345678 + unat k) mod 4 mod 2, (12345678 + unat k) mod 4 div 2)" for ts k
    by (simp add: key_place_def key_domain_def key_slot_def ref_part_def hash_partition_seed_def)
  have "populated ref_part 2 2 2 ts [0] [0] (total_rows demo_env batch_left) (total_rows demo_env batch_right)" for ts
    unfolding populated_def batch_total
    by (auto simp: less_2_cases_iff key_def place)
  then show ?thesis
    unfolding join_inputs_ok_def batch_join batch_lengths using batch_shuffle
    by (auto simp: key_types_def fits_def batch_joined_def less_Suc_eq)
qed

lemma batch_inputs':
  "join_inputs_ok demo_env ref_part [Some 4, Some 1] [Some 4, Some 1] [0] [0] batch_left batch_right
    (get_nvl_partition_size (length batch_left) 2) 2"
  unfolding batch_lengths batch_domain by (rule batch_inputs)

lemma batch_options:
  "table_options_ok demo_env (batch_left ! 0) [default_options, cascaded_options]"
  "table_options_ok demo_env (batch_right ! 0) [cascaded_options, default_options]"
  by (auto simp: table_options_ok_def batch_left_def batch_right_def default_options_def cascaded_options_def sendable_def demo_env_def)

section \<open>The distributed join\<close>

text \<open>
  C1. The distributed join is the join, for every input within its limits. On any number of
  ranks, for any NVLink domain size, transport, grouping mode and compression options, and
  with any cuDF that meets its contract: \<open>distributed_inner_join\<close> ends without error on every
  rank, and the rows of the results of all ranks together are the inner join of all rows of
  the left with all rows of the right table, each pair exactly once and with all columns of
  both tables. The limits: with one batch the tables may have columns of any kind and ranks
  may have no rows; an over-decomposition factor above 1 needs tables without string columns
  of which every rank gets rows of both in every batch (C7 and C16 show the failures beyond).
\<close>
theorem distributed_inner_join_correct:
  assumes "nvcomp_ok nv" and "p2p_transport mpi (\<lambda>_. True) (length left) False"
    and "p2p_transport exch okm (length left) multi" and "group_by_batch \<longrightarrow> multi"
    and "okm_sizes okm (schema_sizes env schl)" and "okm_sizes okm (schema_sizes env schr)"
    and "cudf_ops_ok env ops part"
    and "join_inputs_ok env part schl schr left_on right_on left right
      (get_nvl_partition_size (length left) nvlink_domain_size) over_decom_factor"
    and "table_options_ok env (left ! 0) lopts" and "table_options_ok env (right ! 0) ropts"
  shows "\<exists>outs. distributed_inner_join nv env ops mpi exch group_by_batch left right left_on right_on
      (replicate (length left) lopts) (replicate (length left) ropts) over_decom_factor nvlink_domain_size = Inr outs \<and>
    length outs = length left \<and>
    (\<Sum>r < length left. mset (rows env (outs ! r))) =
      join_rows left_on right_on (\<Sum>r < length left. mset (rows env (left ! r))) (\<Sum>r < length right. mset (rows env (right ! r)))"
  using distributed_inner_join_ok [OF assms] unfolding total_rows_def .

text \<open>A string column in one batch on four ranks, and two batches on two ranks.\<close>

theorem distributed_inner_join_correct_witness:
  "(\<exists>outs. distributed_inner_join store_codec demo_env (ref_ops demo_env) fifo_exchange fifo_exchange True demo_left demo_right [0] [0]
      (replicate 4 [default_options, cascaded_options])
      (replicate 4 [default_options, ColumnCompressionOptions CompNone default_format [cascaded_options, default_options]]) 1 2 = Inr outs \<and>
    (\<Sum>r < 4. mset (rows demo_env (outs ! r))) =
      {#[[1, 0, 0, 0], [10], [1, 0, 0, 0], [65, 66]], [[1, 0, 0, 0], [13], [1, 0, 0, 0], [65, 66]],
        [[3, 0, 0, 0], [12], [3, 0, 0, 0], []]#}) \<and>
   (\<exists>outs. distributed_inner_join store_codec demo_env (ref_ops demo_env) fifo_exchange fifo_exchange True batch_left batch_right [0] [0]
      (replicate 2 [default_options, cascaded_options]) (replicate 2 [cascaded_options, default_options]) 2 2 = Inr outs \<and>
    (\<Sum>r < 2. mset (rows demo_env (outs ! r))) = batch_joined)"
proof
  show "\<exists>outs. distributed_inner_join store_codec demo_env (ref_ops demo_env) fifo_exchange fifo_exchange True demo_left demo_right [0] [0]
      (replicate 4 [default_options, cascaded_options])
      (replicate 4 [default_options, ColumnCompressionOptions CompNone default_format [cascaded_options, default_options]]) 1 2 = Inr outs \<and>
    (\<Sum>r < 4. mset (rows demo_env (outs ! r))) =
      {#[[1, 0, 0, 0], [10], [1, 0, 0, 0], [65, 66]], [[1, 0, 0, 0], [13], [1, 0, 0, 0], [65, 66]],
        [[3, 0, 0, 0], [12], [3, 0, 0, 0], []]#}"
    using distributed_inner_join_correct [OF store_codec_ok fifo_ok fifo_ok impI demo_okm demo_okm ref_ops_ok [OF demo_env_ok]
        demo_inputs demo_options, of True True 2, OF TrueI, unfolded demo_lengths demo_join_sums]
    by blast
  show "\<exists>outs. distributed_inner_join store_codec demo_env (ref_ops demo_env) fifo_exchange fifo_exchange True batch_left batch_right [0] [0]
      (replicate 2 [default_options, cascaded_options]) (replicate 2 [cascaded_options, default_options]) 2 2 = Inr outs \<and>
    (\<Sum>r < 2. mset (rows demo_env (outs ! r))) = batch_joined"
    using distributed_inner_join_correct [OF store_codec_ok fifo_ok fifo_ok impI demo_okm demo_okm ref_ops_ok [OF demo_env_ok]
        batch_inputs' batch_options, of True True, OF TrueI, unfolded batch_lengths batch_join_sums]
    by blast
qed

text \<open>
  C4. \<open>shuffle_on\<close> over all ranks loses and duplicates nothing and brings equal keys
  together: rank \<open>r\<close> ends up with exactly the rows, of all ranks, whose key the hash
  function sends to \<open>r\<close>.
\<close>
theorem shuffle_on_all_correct:
  assumes "nvcomp_ok nv" and "p2p_transport mpi (\<lambda>_. True) (length T) False"
    and "p2p_transport exch okm (length T) multi" and "group_by_batch \<longrightarrow> multi"
    and "okm_sizes okm (schema_sizes env sch)" and "cudf_ops_ok env ops part"
    and T: "shuffle_inputs_ok env sch on T" and N: "length T < 2 ^ 31" and "table_options_ok env (T ! 0) opts"
  shows "\<exists>outs. shuffle_on_all nv env ops mpi exch group_by_batch T on (replicate (length T) opts) h seed = Inr outs \<and>
    (\<forall>r < length T. wf_table env sch (outs ! r) \<and>
       mset (rows env (outs ! r)) =
         filter_mset (\<lambda>row. part h seed (length T) (key_types sch on) (key on row) = r) (\<Sum>s < length T. mset (rows env (T ! s)))) \<and>
    (\<Sum>r < length T. mset (rows env (outs ! r))) = (\<Sum>s < length T. mset (rows env (T ! s)))"
proof -
  let ?N = "length T" and ?num = "part_of part h seed (length T) sch on"
  have pos: "0 < ?N" using T by (simp add: shuffle_inputs_ok_def)
  then have grp: "group_params ?N ?N 1" using N by (simp add: group_params_def)
  have hp: "hash_partition_ok env ops part" "partitioner_ok part" using assms(6) by (simp_all add: cudf_ops_ok_def)
  obtain outs where o: "shuffle_on nv env ops mpi exch group_by_batch T on ?N 1 (replicate ?N opts) h seed = Inr outs"
      "\<forall>r < ?N. wf_table env sch (outs ! r) \<and> mset (rows env (outs ! r)) = routed ?N 1 ?num (table_rel env T) r"
    using shuffle_on_ok [OF assms(1-5) hp(1) grp T assms(9), of h seed] by auto
  have "emap (CommunicationGroup ?N 1) [0..<?N] = Inr (map (comm_group_at ?N 1) [0..<?N])"
    by (intro emap_Inr CommunicationGroup_ok [OF grp])
  then have run: "shuffle_on_all nv env ops mpi exch group_by_batch T on (replicate ?N opts) h seed = Inr outs"
    using o(1) by (simp add: shuffle_on_all_def)
  have "routed ?N 1 ?num M r = filter_mset (\<lambda>row. ?num row = r) (\<Sum>s < ?N. M s)" if "r < ?N" for r and M :: "rank \<Rightarrow> row multiset"
    using members_all [OF that] that
    by (simp add: routed_def sum_list_upt filter_mset_sum get_local_idx_def comm_group_at_def)
  moreover have "(\<Sum>r < ?N. routed ?N 1 ?num (table_rel env T) r) = (\<Sum>s < ?N. table_rel env T s)"
    using hp(2) pos by (intro total_by_domain [OF grp]) (simp add: partitioner_ok_def)
  ultimately show ?thesis using run o(2) by (intro exI [of _ outs]) simp
qed

theorem shuffle_on_all_correct_witness:
  "\<exists>outs. shuffle_on_all store_codec demo_env (ref_ops demo_env) fifo_exchange fifo_exchange False demo_left [0]
      (replicate 4 [default_options, cascaded_options]) HASH_IDENTITY 0 = Inr outs \<and>
    mset (rows demo_env (outs ! 1)) = {#[[1, 0, 0, 0], [10]], [[1, 0, 0, 0], [13]]#}"
proof -
  have l: "length demo_left < 2 ^ 31" by (simp add: demo_lengths)
  have t: "(\<Sum>s < 4. mset (rows demo_env (demo_left ! s))) =
      mset [[[1, 0, 0, 0], [10]], [[2, 0, 0, 0], [11]], [[3, 0, 0, 0], [12]], [[1, 0, 0, 0], [13]]]"
    using total_rows_concat [of demo_env demo_left] unfolding total_rows_def demo_lengths demo_left_rows by simp
  have f: "filter_mset (\<lambda>row. ref_part HASH_IDENTITY 0 4 (key_types [Some 4, Some 1] [0]) (key [0] row) = 1)
      (\<Sum>s < 4. mset (rows demo_env (demo_left ! s))) = {#[[1, 0, 0, 0], [10]], [[1, 0, 0, 0], [13]]#}"
    unfolding t by (simp add: ref_part_def key_def)
  have lt: "1 < (4 :: nat)" by simp
  show ?thesis
    using shuffle_on_all_correct [OF store_codec_ok fifo_ok fifo_ok impI demo_okm ref_ops_ok [OF demo_env_ok] demo_left_ok l
        demo_options(1), of False True HASH_IDENTITY 0, OF TrueI, unfolded demo_lengths] lt f by metis
qed

text \<open>
  C5. A shuffle takes tables of a type to tables of this type: over communication groups of
  any stride, every rank gets a well-formed table with the columns, the types and the
  compression options of the inputs, so that a second shuffle, over other groups, on other
  columns and with another hash function, ends without error as well; the rows of all ranks
  together stay the same.
\<close>
theorem shuffle_on_preserves_type:
  assumes "nvcomp_ok nv" and "p2p_transport mpi (\<lambda>_. True) (length T) False"
    and "p2p_transport exch okm (length T) multi" and "group_by_batch \<longrightarrow> multi"
    and "okm_sizes okm (schema_sizes env sch)" and "cudf_ops_ok env ops part"
    and grp: "group_params (length T) (length T) st" "group_params (length T) (length T) st'"
    and T: "shuffle_inputs_ok env sch on T" and on': "valid_on sch on'" and opts: "table_options_ok env (T ! 0) opts"
  shows "\<exists>T1 T2. shuffle_on nv env ops mpi exch group_by_batch T on (length T) st (replicate (length T) opts) h seed = Inr T1 \<and>
    shuffle_on nv env ops mpi exch group_by_batch T1 on' (length T) st' (replicate (length T) opts) h' seed' = Inr T2 \<and>
    length T1 = length T \<and> length T2 = length T \<and>
    (\<forall>t \<in> set T1 \<union> set T2. schema t = sch \<and> table_ok env (num_rows env t) t \<and> table_options_ok env t opts) \<and>
    (\<Sum>r < length T. mset (rows env (T2 ! r))) = (\<Sum>r < length T. mset (rows env (T ! r)))"
proof -
  have hp: "hash_partition_ok env ops part" "partitioner_ok part" using assms(6) by (simp_all add: cudf_ops_ok_def)
  obtain T1 where 1: "shuffle_on nv env ops mpi exch group_by_batch T on (length T) st (replicate (length T) opts) h seed = Inr T1"
      "length T1 = length T" "shuffle_inputs_ok env sch on T1" "total_rows env T1 = total_rows env T"
    using shuffle_on_inputs_ok [OF assms(1-5) hp grp(1) T opts, of h seed] by blast
  have sch: "schema t = sch \<and> table_ok env (num_rows env t) t \<and> table_options_ok env t opts"
    if "t \<in> set U" "shuffle_inputs_ok env sch on U" for t U
  proof -
    have "T ! 0 \<in> set T" "wf_table env sch t" using T that by (auto simp: shuffle_inputs_ok_def)
    moreover from this have "wf_table env sch (T ! 0)" using T by (simp add: shuffle_inputs_ok_def)
    ultimately show ?thesis using options_ok_schema [OF _ opts, of t] by (simp add: wf_table_def)
  qed
  have "T1 ! 0 \<in> set T1" using 1(3) by (simp add: shuffle_inputs_ok_def)
  then have opts': "table_options_ok env (T1 ! 0) opts" using sch [OF _ 1(3)] by blast
  have T1: "shuffle_inputs_ok env sch on' T1" using 1(3) on' by (simp add: shuffle_inputs_ok_def)
  obtain T2 where 2: "shuffle_on nv env ops mpi exch group_by_batch T1 on' (length T) st' (replicate (length T) opts) h' seed' = Inr T2"
      "length T2 = length T" "shuffle_inputs_ok env sch on' T2" "total_rows env T2 = total_rows env T1"
    using shuffle_on_inputs_ok [of nv mpi T1 exch okm multi group_by_batch env sch ops part st' on' opts h' seed',
        unfolded 1(2), OF assms(1-5) hp grp(2) T1 opts'] by blast
  have "shuffle_inputs_ok env sch on T2" using 2(3) T by (simp add: shuffle_inputs_ok_def)
  then have "\<forall>t \<in> set T1 \<union> set T2. schema t = sch \<and> table_ok env (num_rows env t) t \<and> table_options_ok env t opts"
    using sch 1(3) by blast
  moreover have "(\<Sum>r < length T. mset (rows env (T2 ! r))) = (\<Sum>r < length T. mset (rows env (T ! r)))"
    using 2(2,4) 1(2,4) by (simp add: total_rows_def)
  ultimately show ?thesis using 1(1,2) 2(1,2) by blast
qed

theorem shuffle_on_preserves_type_witness:
  "\<exists>T1 T2. shuffle_on store_codec demo_env (ref_ops demo_env) fifo_exchange fifo_exchange False demo_left [0] 4 2
      (replicate 4 [default_options, cascaded_options]) HASH_MURMUR3 7 = Inr T1 \<and>
    shuffle_on store_codec demo_env (ref_ops demo_env) fifo_exchange fifo_exchange False T1 [1] 4 1
      (replicate 4 [default_options, cascaded_options]) HASH_IDENTITY 0 = Inr T2 \<and>
    (\<forall>t \<in> set T1 \<union> set T2. schema t = [Some 4, Some 1])"
proof -
  have grp: "group_params 4 4 2" "group_params 4 4 1" by (simp_all add: group_params_def)
  have on: "valid_on [Some 4, Some (1 :: nat)] [1]" by (simp add: valid_on_def)
  show ?thesis
    using shuffle_on_preserves_type [OF store_codec_ok fifo_ok fifo_ok impI demo_okm ref_ops_ok [OF demo_env_ok]
        _ _ demo_left_ok _ demo_options(1), of False True 2 1 "[1]" HASH_MURMUR3 7 HASH_IDENTITY 0, OF TrueI,
        unfolded demo_lengths, OF grp on] by blast
qed

section \<open>The NVLink domain\<close>

text \<open>
  The search starts at the square root, so the result is not always the largest divisor
  of the number of ranks within the domain, as the comment of the function has it: for 16
  ranks and domains of 8 it is 4, although 8 divides 16.
\<close>
lemma nvl_partition_size_not_largest:
  "get_nvl_partition_size 16 8 = 4 \<and> 8 dvd (16 :: nat) \<and> get_nvl_partition_size 16 8 < 8"
  by code_simp

text \<open>
  C6. The size of the NVLink domains divides the number of ranks, is positive and not larger
  than the given domain (unless it is one), so that all communication groups of the join
  can be formed; among the divisors up to the square root it is the largest. It need not be
  the largest of all, as the comment of the function has it.
\<close>
theorem nvl_partition_size_valid:
  assumes "0 < mpi_size"
  shows "get_nvl_partition_size mpi_size domain dvd mpi_size \<and> 0 < get_nvl_partition_size mpi_size domain \<and>
    (int (get_nvl_partition_size mpi_size domain) \<le> domain \<or> get_nvl_partition_size mpi_size domain = 1) \<and>
    (\<forall>k. k dvd mpi_size \<and> int k \<le> domain \<and> k * k \<le> mpi_size \<longrightarrow> k \<le> get_nvl_partition_size mpi_size domain) \<and>
    get_nvl_partition_size 16 8 = 4 \<and> 8 dvd (16 :: nat)"
proof (cases "int mpi_size \<le> domain")
  case True
  then show ?thesis using assms dvd_imp_le nvl_partition_size_not_largest by (auto simp: get_nvl_partition_size_def)
next
  case False
  have up: "k \<le> ceil_sqrt mpi_size" if "k * k \<le> mpi_size" for k
  proof (rule ccontr)
    assume "\<not> k \<le> ceil_sqrt mpi_size"
    then have "Suc (ceil_sqrt mpi_size) * Suc (ceil_sqrt mpi_size) \<le> k * k" by (intro mult_le_mono) simp_all
    moreover have "mpi_size \<le> ceil_sqrt mpi_size * ceil_sqrt mpi_size"
      using ceil_sqrt_from_spec [of 0 mpi_size] by (simp add: ceil_sqrt_def)
    ultimately show False using that by simp
  qed
  have "0 < k" if "k dvd mpi_size" for k using that assms by (intro Nat.gr0I) auto
  then show ?thesis
    using False up nvl_search_spec [of mpi_size domain "ceil_sqrt mpi_size"] nvl_partition_size_not_largest
    by (auto simp: get_nvl_partition_size_def)
qed

theorem nvl_partition_size_valid_witness:
  "get_nvl_partition_size 12 5 dvd 12 \<and> 3 \<le> get_nvl_partition_size 12 5"
  using nvl_partition_size_valid [of 12 5] by simp

section \<open>Empty batches\<close>

text \<open>
  C7. A rank that gets rows of both tables in one batch and no rows of one of them in
  another batch fails: the join of the empty batch is a table without columns, which cuDF
  does not concatenate with the others.
\<close>
theorem mixed_batches_fail:
  assumes ops: "cudf_ops_ok env ops part"
    and wf: "\<forall>(l, r) \<in> set parts. wf_table env schl l \<and> wf_table env schr r \<and>
      fits (schl @ schr) (join_rows left_on right_on (mset (rows env l)) (mset (rows env r)))"
    and on: "valid_on schl left_on" "valid_on schr right_on" "key_types schl left_on = key_types schr right_on"
    and full: "(l1, r1) \<in> set parts" "rows env l1 \<noteq> []" "rows env r1 \<noteq> []"
    and none: "(l2, r2) \<in> set parts" "rows env l2 = [] \<or> rows env r2 = []"
  shows "join_batches env ops left_on right_on parts = Inl ExternalError"
proof -
  have pieces: "inner_join_ok env ops" "concatenate_ok env ops" using ops by (simp_all add: cudf_ops_ok_def)
  have "\<exists>t. local_join_helper env ops (fst b) (snd b) left_on right_on = Inr t \<and>
      (if rows env (fst b) \<noteq> [] \<and> rows env (snd b) \<noteq> [] then wf_table env (schl @ schr) t else t = [])"
    if b: "b \<in> set parts" for b
  proof -
    obtain l r where e: "b = (l, r)" by (cases b)
    have "wf_table env schl l" "wf_table env schr r"
      "fits (schl @ schr) (join_rows left_on right_on (mset (rows env l)) (mset (rows env r)))"
      using wf b unfolding e by blast+
    from local_join_ok [OF pieces(1) this(1,2) on this(3)] show ?thesis unfolding e fst_conv snd_conv by blast
  qed
  then obtain f where f: "\<forall>b \<in> set parts. local_join_helper env ops (fst b) (snd b) left_on right_on = Inr (f b) \<and>
      (if rows env (fst b) \<noteq> [] \<and> rows env (snd b) \<noteq> [] then wf_table env (schl @ schr) (f b) else f b = [])"
    by metis
  have loc: "emap (\<lambda>(l, r). local_join_helper env ops l r left_on right_on) parts = Inr (map f parts)"
    using f by (intro emap_Inr) auto
  have "wf_table env (schl @ schr) (f (l1, r1))" using f [THEN bspec, OF full(1)] full(2,3) by simp
  then have "f (l1, r1) \<noteq> []" by (rule wf_tableD(5))
  moreover have "f (l2, r2) = []" using f [THEN bspec, OF none(1)] none(2) by auto
  ultimately have ne: "length (f (l1, r1)) \<noteq> length (f (l2, r2))" by simp
  have "f (l1, r1) \<in> set (map f parts)" "f (l2, r2) \<in> set (map f parts)" using full(1) none(1) by force+
  with ne have "concatenate ops (map f parts) = Inl ExternalError"
    using pieces(2) [unfolded concatenate_ok_def, THEN conjunct2, THEN conjunct2] by blast
  then show ?thesis using loc by (simp add: join_batches_def)
qed

theorem mixed_batches_fail_witness:
  "join_batches demo_env (ref_ops demo_env) [0] [0]
    [([FixedWidth 4 [1, 0, 0, 0]], [FixedWidth 4 [1, 0, 0, 0]]), ([FixedWidth 4 [2, 0, 0, 0]], [FixedWidth 4 []])] = Inl ExternalError"
proof -
  let ?a = "[FixedWidth 4 [1, 0, 0, 0]] :: nat table" and ?b = "[FixedWidth 4 [2, 0, 0, 0]] :: nat table" and ?e = "[FixedWidth 4 []] :: nat table"
  have r: "rows demo_env ?a = [[[1, 0, 0, 0]]]" "rows demo_env ?b = [[[2, 0, 0, 0]]]" "rows demo_env ?e = []"
    by (simp_all add: table_simps)
  have w: "wf_table demo_env [Some 4] ?a" "wf_table demo_env [Some 4] ?b" "wf_table demo_env [Some 4] ?e"
    unfolding wf_table_def r by (simp_all add: table_simps fits_def)
  have wf: "\<forall>(l, r) \<in> set [(?a, ?a), (?b, ?e)]. wf_table demo_env [Some 4] l \<and> wf_table demo_env [Some 4] r \<and>
      fits ([Some 4] @ [Some 4]) (join_rows [0] [0] (mset (rows demo_env l)) (mset (rows demo_env r)))"
    using w by (simp add: r join_rows_def matches_def key_def fits_def less_Suc_eq)
  have on: "valid_on [Some (4 :: nat)] [0]" by (simp add: valid_on_def)
  show ?thesis
    by (rule mixed_batches_fail [OF ref_ops_ok [OF demo_env_ok] wf on on refl, of ?a ?a ?b ?e]) (simp_all add: r)
qed

section \<open>The two threads\<close>

text \<open>
  C8. The program with its two threads computes the distributed join, within the limits of C1:
  with one batch, or with more batches of tables without string columns of which every rank
  gets rows of both in every batch. When the domains have more than one rank, every rank
  starts a join thread; under every fair scheduling of the main and the join thread of every
  rank, and whatever the tables held before their communication, both threads come to an end
  on every rank, and the tables that the ranks return are together the inner join of the
  whole tables.
\<close>
theorem threaded_join_correct:
  assumes "nvcomp_ok nv" and "p2p_transport mpi (\<lambda>_. True) (length left) False"
    and "p2p_transport exch okm (length left) multi" and "group_by_batch \<longrightarrow> multi"
    and "okm_sizes okm (schema_sizes env schl)" and "okm_sizes okm (schema_sizes env schr)"
    and "cudf_ops_ok env ops part"
    and "join_inputs_ok env part schl schr left_on right_on left right
      (get_nvl_partition_size (length left) nvlink_domain_size) over_decom_factor"
    and "table_options_ok env (left ! 0) lopts" and "table_options_ok env (right ! 0) ropts"
    and nvl: "get_nvl_partition_size (length left) nvlink_domain_size \<noteq> 1"
    and thr: "\<forall>r < length left. fair (sched r) \<and> length (alloc_left r) = over_decom_factor \<and> length (alloc_right r) = over_decom_factor"
  shows "\<exists>batches outs. communicated_batches nv env ops mpi exch group_by_batch left right left_on right_on
      (replicate (length left) lopts) (replicate (length left) ropts) over_decom_factor nvlink_domain_size = Inr batches \<and>
    (\<forall>r < length left. \<exists>k. outcome (run_threads env ops left_on right_on (rank_batches r batches) (sched r)
        (start_threads (alloc_left r) (alloc_right r)) k) = Some (Inr (outs ! r))) \<and>
    (\<Sum>r < length left. mset (rows env (outs ! r))) =
      join_rows left_on right_on (\<Sum>r < length left. mset (rows env (left ! r))) (\<Sum>r < length right. mset (rows env (right ! r)))"
proof -
  obtain outs where o: "distributed_inner_join nv env ops mpi exch group_by_batch left right left_on right_on
      (replicate (length left) lopts) (replicate (length left) ropts) over_decom_factor nvlink_domain_size = Inr outs"
    and sum: "(\<Sum>r < length left. table_rel env outs r) = join_rows left_on right_on (total_rows env left) (total_rows env right)"
    using distributed_inner_join_ok [OF assms(1-10)] by blast
  obtain batches where b: "communicated_batches nv env ops mpi exch group_by_batch left right left_on right_on
      (replicate (length left) lopts) (replicate (length left) ropts) over_decom_factor nvlink_domain_size = Inr batches"
    and run: "\<forall>r sched al ar. r < length left \<and> fair sched \<and> length al = length batches \<and> length ar = length batches \<longrightarrow>
      (\<exists>k. outcome (run_threads env ops left_on right_on (rank_batches r batches) sched (start_threads al ar) k) = Some (Inr (outs ! r)))"
    using threads_compute_join [OF nvl o] by blast
  have "\<forall>r < length left. \<exists>k. outcome (run_threads env ops left_on right_on (rank_batches r batches) (sched r)
      (start_threads (alloc_left r) (alloc_right r)) k) = Some (Inr (outs ! r))"
    using run thr communicated_batches_length [OF b] by simp
  then show ?thesis using b sum [unfolded total_rows_def] by (intro exI [of _ batches] exI [of _ outs] conjI)
qed

lemma in_turn_fair_threads: "fair (\<lambda>k. if even k then MainThread else JoinThread)"
proof -
  have "\<exists>k' \<ge> k. (if even k' then MainThread else JoinThread) = t" for t and k :: nat
  proof (cases t)
    case MainThread
    then show ?thesis by (intro exI [of _ "2 * k"]) simp
  next
    case JoinThread
    then show ?thesis by (intro exI [of _ "Suc (2 * k)"]) simp
  qed
  then show ?thesis by (simp add: fair_def)
qed

theorem threaded_join_correct_witness:
  "\<exists>batches outs. communicated_batches store_codec demo_env (ref_ops demo_env) fifo_exchange fifo_exchange True batch_left batch_right [0] [0]
      (replicate 2 [default_options, cascaded_options]) (replicate 2 [cascaded_options, default_options]) 2 2 = Inr batches \<and>
    (\<exists>k. outcome (run_threads demo_env (ref_ops demo_env) [0] [0] (rank_batches 1 batches) (\<lambda>k. if even k then MainThread else JoinThread)
        (start_threads [[], []] [[], []]) k) = Some (Inr (outs ! 1))) \<and>
    (\<Sum>r < 2. mset (rows demo_env (outs ! r))) = batch_joined"
proof -
  have nvl: "get_nvl_partition_size (length batch_left) 2 \<noteq> 1" unfolding batch_lengths batch_domain by simp
  have thr: "\<forall>r < length batch_left. fair (\<lambda>k. if even k then MainThread else JoinThread) \<and>
      length [[], [] :: nat table] = 2 \<and> length [[], [] :: nat table] = 2"
    using in_turn_fair_threads by simp
  have lt: "1 < (2 :: nat)" by simp
  show ?thesis
    using threaded_join_correct [OF store_codec_ok fifo_ok fifo_ok impI demo_okm demo_okm ref_ops_ok [OF demo_env_ok]
        batch_inputs' batch_options nvl, of True True "\<lambda>r k. if even k then MainThread else JoinThread" "\<lambda>r. [[], []]" "\<lambda>r. [[], []]",
        OF TrueI thr, unfolded batch_lengths batch_join_sums] lt by blast
qed

text \<open>
  C9. The flags do their job: in every interleaving, when the join thread is about to join
  batch \<open>i\<close>, both tables of the batch hold what was communicated, and the main thread never
  merges before every batch has its result.
\<close>
theorem join_thread_reads_communicated:
  assumes "length alloc_left = length parts" and "length alloc_right = length parts"
    and "interleavings env ops left_on right_on parts (start_threads alloc_left alloc_right) s"
  shows "(\<forall>i. join_at s = LocalJoin i \<longrightarrow> i < length parts \<and> flags s ! i \<and>
      communicated_left s ! i = fst (parts ! i) \<and> communicated_right s ! i = snd (parts ! i)) \<and>
    (main_at s = Merged \<longrightarrow> (\<forall>i < length parts. batch_join_results s ! i \<noteq> None))"
proof -
  let ?n = "length parts"
  have m: "main_inv parts s" and j: "join_inv env ops left_on right_on parts s"
    using reachable_inv [OF assms(3) start_inv [OF assms(1,2)]] by blast+
  have rdy: "flagged ?n pc \<le> left_ready ?n pc" "flagged ?n pc \<le> right_ready ?n pc" for pc by (cases pc; simp)+
  have "i < ?n \<and> flags s ! i \<and> communicated_left s ! i = fst (parts ! i) \<and> communicated_right s ! i = snd (parts ! i)"
    if "join_at s = LocalJoin i" for i
  proof -
    have "i < ?n" "i < flagged ?n (main_at s)" using j that by (auto simp: inv_defs)
    then show ?thesis using m rdy [of "main_at s"] by (auto simp: inv_defs)
  qed
  moreover have "batch_join_results s ! i \<noteq> None" if "main_at s = Merged" "i < ?n" for i
    using j that by (fastforce simp: inv_defs)
  ultimately show ?thesis by blast
qed

theorem join_thread_reads_communicated_witness:
  "flags (run_threads demo_env (ref_ops demo_env) [0] [0] (zip demo_left demo_right) (\<lambda>k. if k < 4 then MainThread else JoinThread)
    (start_threads (replicate 4 []) (replicate 4 [])) 5) ! 0"
proof -
  let ?s = "run_threads demo_env (ref_ops demo_env) [0] [0] (zip demo_left demo_right) (\<lambda>k. if k < 4 then MainThread else JoinThread)
    (start_threads (replicate 4 []) (replicate 4 [])) 5"
  have "join_at ?s = LocalJoin 0"
    by (simp add: numeral_eq_Suc start_threads_def thread_fun_def main_step_def join_step_def main_loop_def join_loop_def Let_def)
  then show ?thesis
    using join_thread_reads_communicated [OF _ _ run_threads_reachable, of "replicate 4 []" "zip demo_left demo_right" "replicate 4 []"]
    by (simp add: demo_lengths)
qed

end
