(* ===== verification/Runtime.thy ===== *)
theory Runtime
  imports Buffer_Cache NCCL_Communicator
begin

text \<open>
  The resources of UCX, NCCL, CUDA, RMM and \<open>malloc\<close> that the program creates and releases
  when it starts, in its rounds of communication and when it ends
  (\<open>communicator.cpp\<close>, \<open>registered_memory_resource.hpp\<close>). An operation is modelled by the
  calls it makes, in order; what the libraries return (pointers, handles, addresses) is an
  argument. \<open>api_step\<close> states the documented protocol of these calls: what may be called
  when, and what is alive afterwards.
\<close>

section \<open>Calls and what they keep alive\<close>

type_synonym ptr = int
type_synonym mem_handle = nat

datatype stream = CopyStream | CommStream

datatype api_call =
    UcpInit nat bool
  | UcpWorkerCreate
  | UcpWorkerGetAddress
  | UcpEpCreate rank "byte list"
  | UcpEpCloseFlush rank
  | MpiBarrier
  | UcpWorkerReleaseAddress
  | UcpWorkerDestroy
  | UcpCleanup
  | UcpMemMap ptr int mem_handle
  | UcpMemUnmap mem_handle
  | CudaMalloc ptr int
  | CudaFree ptr
  | DeviceAllocate ptr int
  | DeviceDeallocate ptr int
  | PoolCreate int
  | PoolDestroy
  | NcclCommInit nat rank
  | NcclCommDestroy
  | StreamCreate stream
  | StreamDestroy stream
  | HostMalloc ptr
  | HostFree ptr
  | UcpRequestStart ptr
  | UcpRequestFree ptr

record alive =
  has_context :: bool
  has_worker :: bool
  has_address :: bool
  endpoints :: "rank list"
  mappings :: "(mem_handle \<times> ptr) list"
  cuda_blocks :: "ptr list"
  has_pool :: bool
  pool_blocks :: "(ptr \<times> int) list"
  has_nccl :: bool
  streams :: "stream list"
  host_blocks :: "ptr list"
  open_requests :: "ptr list"

definition nothing :: alive where
  "nothing = \<lparr>has_context = False, has_worker = False, has_address = False, endpoints = [], mappings = [],
     cuda_blocks = [], has_pool = False, pool_blocks = [], has_nccl = False, streams = [], host_blocks = [], open_requests = []\<rparr>"

text \<open>
  The protocol: the context outlives the worker and all memory mappings, the worker
  outlives its address, its endpoints and its requests; memory is unmapped before it is
  freed, blocks of the pool go back before the pool is destroyed, nothing is released twice.
  \<open>malloc\<close> returns memory that is not in use; a request is open from \<open>ucp_tag_send_nb\<close> or
  \<open>ucp_tag_recv_nb\<close>, unless the send completed at once, until \<open>ucp_request_free\<close>.
\<close>

fun api_step :: "api_call \<Rightarrow> alive \<Rightarrow> alive option" where
  "api_step (UcpInit n req) s = (if has_context s then None else Some (s\<lparr>has_context := True\<rparr>))"
| "api_step UcpWorkerCreate s = (if has_context s \<and> \<not> has_worker s then Some (s\<lparr>has_worker := True\<rparr>) else None)"
| "api_step UcpWorkerGetAddress s = (if has_worker s \<and> \<not> has_address s then Some (s\<lparr>has_address := True\<rparr>) else None)"
| "api_step (UcpEpCreate r a) s =
     (if has_worker s \<and> r \<notin> set (endpoints s) then Some (s\<lparr>endpoints := endpoints s @ [r]\<rparr>) else None)"
| "api_step (UcpEpCloseFlush r) s =
     (if r \<in> set (endpoints s) then Some (s\<lparr>endpoints := remove1 r (endpoints s)\<rparr>) else None)"
| "api_step MpiBarrier s = Some s"
| "api_step UcpWorkerReleaseAddress s = (if has_worker s \<and> has_address s then Some (s\<lparr>has_address := False\<rparr>) else None)"
| "api_step UcpWorkerDestroy s =
     (if has_worker s \<and> \<not> has_address s \<and> endpoints s = [] \<and> open_requests s = [] then Some (s\<lparr>has_worker := False\<rparr>) else None)"
| "api_step UcpCleanup s =
     (if has_context s \<and> \<not> has_worker s \<and> mappings s = [] then Some (s\<lparr>has_context := False\<rparr>) else None)"
| "api_step (UcpMemMap p n h) s =
     (if has_context s \<and> h \<notin> fst ` set (mappings s) then Some (s\<lparr>mappings := mappings s @ [(h, p)]\<rparr>) else None)"
| "api_step (UcpMemUnmap h) s =
     (if has_context s \<and> h \<in> fst ` set (mappings s)
      then Some (s\<lparr>mappings := filter (\<lambda>m. fst m \<noteq> h) (mappings s)\<rparr>) else None)"
| "api_step (CudaMalloc p n) s =
     (if 0 \<le> n \<and> p \<notin> set (cuda_blocks s) then Some (s\<lparr>cuda_blocks := cuda_blocks s @ [p]\<rparr>) else None)"
| "api_step (CudaFree p) s =
     (if p \<in> set (cuda_blocks s) \<and> p \<notin> snd ` set (mappings s)
      then Some (s\<lparr>cuda_blocks := remove1 p (cuda_blocks s)\<rparr>) else None)"
| "api_step (DeviceAllocate p n) s =
     (if has_pool s \<and> 0 \<le> n \<and> p \<notin> fst ` set (pool_blocks s) then Some (s\<lparr>pool_blocks := pool_blocks s @ [(p, n)]\<rparr>) else None)"
| "api_step (DeviceDeallocate p n) s =
     (if has_pool s \<and> (p, n) \<in> set (pool_blocks s) \<and> p \<notin> snd ` set (mappings s)
      then Some (s\<lparr>pool_blocks := remove1 (p, n) (pool_blocks s)\<rparr>) else None)"
| "api_step (PoolCreate n) s = (if has_pool s \<or> n < 0 then None else Some (s\<lparr>has_pool := True\<rparr>))"
| "api_step PoolDestroy s = (if has_pool s \<and> pool_blocks s = [] then Some (s\<lparr>has_pool := False\<rparr>) else None)"
| "api_step (NcclCommInit n r) s = (if has_nccl s then None else Some (s\<lparr>has_nccl := True\<rparr>))"
| "api_step NcclCommDestroy s = (if has_nccl s then Some (s\<lparr>has_nccl := False\<rparr>) else None)"
| "api_step (StreamCreate c) s = (if c \<in> set (streams s) then None else Some (s\<lparr>streams := streams s @ [c]\<rparr>))"
| "api_step (StreamDestroy c) s = (if c \<in> set (streams s) then Some (s\<lparr>streams := remove1 c (streams s)\<rparr>) else None)"
| "api_step (HostMalloc p) s = (if p \<in> set (host_blocks s) then None else Some (s\<lparr>host_blocks := host_blocks s @ [p]\<rparr>))"
| "api_step (HostFree p) s = (if p \<in> set (host_blocks s) then Some (s\<lparr>host_blocks := remove1 p (host_blocks s)\<rparr>) else None)"
| "api_step (UcpRequestStart q) s =
     (if has_worker s \<and> q \<notin> set (open_requests s) then Some (s\<lparr>open_requests := open_requests s @ [q]\<rparr>) else None)"
| "api_step (UcpRequestFree q) s =
     (if q \<in> set (open_requests s) then Some (s\<lparr>open_requests := remove1 q (open_requests s)\<rparr>) else None)"

fun api_run :: "api_call list \<Rightarrow> alive \<Rightarrow> alive option" where
  "api_run [] s = Some s"
| "api_run (c # cs) s = Option.bind (api_step c s) (api_run cs)"

lemma api_run_append: "api_run (cs @ ds) s = Option.bind (api_run cs s) (api_run ds)"
  by (induction cs arbitrary: s) (auto split: Option.bind_splits)

section \<open>Start and end of the communicators\<close>

text \<open>The flag of \<open>UcpInit\<close> tells whether space is reserved in the request handles.\<close>

definition UCXCommunicator_initialize_ucx :: "nat \<Rightarrow> api_call list" where
  "UCXCommunicator_initialize_ucx mpi_size = [UcpInit mpi_size False, UcpWorkerCreate, UcpWorkerGetAddress]"

definition UCXBufferCommunicator_initialize_ucx :: "nat \<Rightarrow> api_call list" where
  "UCXBufferCommunicator_initialize_ucx mpi_size = [UcpInit mpi_size True, UcpWorkerCreate, UcpWorkerGetAddress]"

text \<open>
  \<open>MPI_Allgather\<close> concatenates equally long contributions of the ranks; every rank cuts the
  address book into pieces of the length of its own address. The book is \<open>malloc\<close>ed, at the
  address \<open>book\<close>, and freed at the end.
\<close>

locale allgather =
  fixes allg :: "'a list list \<Rightarrow> 'a list res"
  assumes allgather_concat: "\<forall>x \<in> set xs. length x = n \<Longrightarrow> allg xs = Inr (concat xs)"

interpretation address_book: allgather "\<lambda>xs. Inr (concat xs)"
  by unfold_locales simp

definition create_endpoints :: "ptr \<Rightarrow> (byte list list \<Rightarrow> byte list res) \<Rightarrow> byte list list \<Rightarrow> rank \<Rightarrow> api_call list res" where
  "create_endpoints book allg addrs r =
     (let len = int (length (addrs ! r)) in
      ebind (allg addrs) (\<lambda>address_book.
      ebind (emap (\<lambda>irank. ebind (read_mem address_book (int irank * len) len) (\<lambda>a. Inr (UcpEpCreate irank a)))
        [0..<length addrs]) (\<lambda>eps.
      Inr (HostMalloc book # eps @ [HostFree book]))))"

text \<open>\<open>initialize\<close> calls the virtual method \<open>initialize_ucx\<close>, here its first argument.\<close>

definition UCXCommunicator_initialize ::
  "(nat \<Rightarrow> api_call list) \<Rightarrow> ptr \<Rightarrow> (byte list list \<Rightarrow> byte list res) \<Rightarrow> byte list list \<Rightarrow> rank \<Rightarrow> api_call list res" where
  "UCXCommunicator_initialize initialize_ucx book allg addrs r =
     ebind (create_endpoints book allg addrs r) (\<lambda>eps. Inr (initialize_ucx (length addrs) @ eps))"

definition UCXBufferCommunicator_initialize :: "ptr \<Rightarrow> (byte list list \<Rightarrow> byte list res) \<Rightarrow> byte list list \<Rightarrow> rank \<Rightarrow> api_call list res" where
  "UCXBufferCommunicator_initialize book allg addrs r =
     ebind (UCXCommunicator_initialize UCXBufferCommunicator_initialize_ucx book allg addrs r) (\<lambda>cs.
     ebind (check_mpi_size (length addrs)) (\<lambda>u. Inr (cs @ [StreamCreate CopyStream])))"

definition UCXCommunicator_finalize :: "nat \<Rightarrow> api_call list" where
  "UCXCommunicator_finalize mpi_size =
     map UcpEpCloseFlush [0..<mpi_size] @ [MpiBarrier, UcpWorkerReleaseAddress, UcpWorkerDestroy, UcpCleanup]"

definition register_buffer :: "ptr \<Rightarrow> int \<Rightarrow> mem_handle \<Rightarrow> api_call list" where
  "register_buffer buf sz memory_handle = [UcpMemMap buf sz memory_handle]"

definition deregister_buffer :: "mem_handle \<Rightarrow> api_call list" where
  "deregister_buffer memory_handle = [UcpMemUnmap memory_handle]"

text \<open>The cache of the buffer communicator: \<open>allocate\<close> takes a \<open>size_t\<close>, a negative size is a failure.\<close>

definition setup_cache_calls :: "ptr \<Rightarrow> mem_handle \<Rightarrow> nat \<Rightarrow> int \<Rightarrow> (api_call list \<times> buffer_pool) res" where
  "setup_cache_calls addr h ncaches buffer_size =
     (let (st, (p, n)) = setup_cache addr ncaches buffer_size in
      if n < 0 then Inl ExternalError else Inr (DeviceAllocate p n # register_buffer p n h, st))"

definition UCXBufferCommunicator_finalize_calls :: "mem_handle \<Rightarrow> nat \<Rightarrow> buffer_pool \<Rightarrow> api_call list" where
  "UCXBufferCommunicator_finalize_calls h mpi_size st =
     (let (p, n) = UCXBufferCommunicator_finalize st in
      deregister_buffer h @ [DeviceDeallocate p n] @ UCXCommunicator_finalize mpi_size)"

definition NCCLCommunicator_initialize :: "nat \<Rightarrow> rank \<Rightarrow> api_call list" where
  "NCCLCommunicator_initialize mpi_size r = [NcclCommInit mpi_size r, StreamCreate CommStream]"

definition NCCLCommunicator_finalize :: "api_call list" where
  "NCCLCommunicator_finalize = [StreamDestroy CommStream, NcclCommDestroy]"

section \<open>Rounds of communication\<close>

text \<open>
  A send or a receive of so many bytes into a given buffer, with what the libraries return
  for it, as far as the communicator asks for it: the staging block of NCCL, the request of
  UCX (a send may complete at once and have none), the handle the buffer communicator
  allocates in that case, and its buffer for the count; of a receive also the cell for the
  pointer to the user buffer. The requests of the later batches of a transfer are the subject
  of the theory \<open>Request_Handles\<close>.
\<close>

datatype comm_op =
    SendOp nat ptr "ptr option" ptr ptr
  | RecvOp nat ptr ptr ptr ptr

fun op_block :: "comm_op \<Rightarrow> ptr \<times> int" where
  "op_block (SendOp n b q h c) = (b, int (aligned_size n))"
| "op_block (RecvOp n b q c p) = (b, int (aligned_size n))"

fun op_requests :: "comm_op \<Rightarrow> ptr list" where
  "op_requests (SendOp n b None h c) = []"
| "op_requests (SendOp n b (Some q) h c) = [q]"
| "op_requests (RecvOp n b q c p) = [q]"

fun op_inline :: "comm_op \<Rightarrow> bool" where
  "op_inline (SendOp n b q h c) \<longleftrightarrow> q = None"
| "op_inline (RecvOp n b q c p) \<longleftrightarrow> False"

text \<open>The calls of an operation of the buffer communicator, and of \<open>waitall\<close> for its handle.\<close>

fun buffer_op_calls :: "comm_op \<Rightarrow> api_call list" where
  "buffer_op_calls (SendOp n b None h c) = [HostMalloc c, HostMalloc h]"
| "buffer_op_calls (SendOp n b (Some q) h c) = [HostMalloc c, UcpRequestStart q]"
| "buffer_op_calls (RecvOp n b q c p) = [HostMalloc c, UcpRequestStart q, HostMalloc p]"

fun buffer_free_calls :: "comm_op \<Rightarrow> api_call list" where
  "buffer_free_calls (SendOp n b None h c) = [HostFree h]"
| "buffer_free_calls (SendOp n b (Some q) h c) = [UcpRequestFree q]"
| "buffer_free_calls (RecvOp n b q c p) = [UcpRequestFree q]"

text \<open>What no call ever frees: the count of every operation and the pointer cell of a receive.\<close>

fun op_never_freed :: "comm_op \<Rightarrow> ptr list" where
  "op_never_freed (SendOp n b q h c) = [c]"
| "op_never_freed (RecvOp n b q c p) = [c, p]"

definition ucx_round_calls :: "comm_op list \<Rightarrow> api_call list" where
  "ucx_round_calls ops =
     map UcpRequestStart (concat (map op_requests ops)) @ map UcpRequestFree (concat (map op_requests ops))"

definition buffer_round_calls :: "comm_op list \<Rightarrow> api_call list" where
  "buffer_round_calls ops = concat (map buffer_op_calls ops) @ concat (map buffer_free_calls ops)"

text \<open>Blocks of the memory pool; NCCL allocates one for every operation and frees all in \<open>stop\<close>.\<close>

definition allocate_calls :: "(ptr \<times> int) list \<Rightarrow> api_call list" where
  "allocate_calls = map (\<lambda>(p, n). DeviceAllocate p n)"

definition deallocate_calls :: "(ptr \<times> int) list \<Rightarrow> api_call list" where
  "deallocate_calls = map (\<lambda>(p, n). DeviceDeallocate p n)"

definition nccl_round_calls :: "comm_op list \<Rightarrow> api_call list" where
  "nccl_round_calls ops = allocate_calls (map op_block ops) @ deallocate_calls (map op_block ops)"

text \<open>
  What \<open>malloc\<close>, UCX and the memory resource return in the rounds of a program: in a round
  different blocks, requests and handles, and no memory again that was never freed.
\<close>

fun op_handles :: "comm_op \<Rightarrow> ptr list" where
  "op_handles (SendOp n b None h c) = [h]"
| "op_handles (SendOp n b (Some q) h c) = []"
| "op_handles (RecvOp n b q c p) = []"

definition never_freed :: "comm_op list list \<Rightarrow> ptr list" where
  "never_freed rounds = concat (map op_never_freed (concat rounds))"

definition fresh_round :: "ptr list \<Rightarrow> comm_op list \<Rightarrow> bool" where
  "fresh_round leaked ops \<longleftrightarrow>
     distinct (map (fst \<circ> op_block) ops) \<and> distinct (concat (map op_requests ops)) \<and>
     distinct (leaked @ concat (map op_handles ops))"

definition rounds_ok :: "nat \<Rightarrow> comm_op list list \<Rightarrow> bool" where
  "rounds_ok mpi_size rounds \<longleftrightarrow>
     (\<forall>ops \<in> set rounds. length ops \<le> 2 * mpi_size \<and> fresh_round (never_freed rounds) ops) \<and> distinct (never_freed rounds)"

lemma allocate_calls_run:
  assumes "has_pool s" and "distinct (map fst (pool_blocks s @ bs))" and "\<forall>(p, n) \<in> set bs. 0 \<le> n"
  shows "api_run (allocate_calls bs) s = Some (s\<lparr>pool_blocks := pool_blocks s @ bs\<rparr>)"
  using assms
proof (induction bs arbitrary: s)
  case (Cons b bs)
  obtain p n where b: "b = (p, n)" by (cases b)
  let ?s = "s\<lparr>pool_blocks := pool_blocks s @ [b]\<rparr>"
  have "api_run (allocate_calls bs) ?s = Some (?s\<lparr>pool_blocks := pool_blocks ?s @ bs\<rparr>)"
    using Cons.prems by (intro Cons.IH) auto
  then show ?case using Cons.prems b by (simp add: allocate_calls_def)
qed (simp add: allocate_calls_def)

lemma deallocate_calls_run:
  assumes "has_pool s" and "mappings s = []" and "pool_blocks s = pre @ bs @ post" and "distinct (map fst (pre @ bs))"
  shows "api_run (deallocate_calls bs) s = Some (s\<lparr>pool_blocks := pre @ post\<rparr>)"
  using assms
proof (induction bs arbitrary: s)
  case (Cons b bs)
  obtain p n where b: "b = (p, n)" by (cases b)
  let ?s = "s\<lparr>pool_blocks := pre @ bs @ post\<rparr>"
  have "api_run (deallocate_calls bs) ?s = Some (?s\<lparr>pool_blocks := pre @ post\<rparr>)"
    using Cons.prems by (intro Cons.IH) simp_all
  moreover have "b \<notin> set pre" using Cons.prems(4) by force
  ultimately show ?case using Cons.prems b by (simp add: deallocate_calls_def remove1_append)
qed (simp add: deallocate_calls_def)

lemma nccl_round_run:
  assumes "has_pool s" and "mappings s = []" and "pool_blocks s = []" and "fresh_round leaked ops"
  shows "api_run (nccl_round_calls ops) s = Some s"
proof -
  have d: "distinct (map fst (map op_block ops))" using assms(4) by (simp add: fresh_round_def)
  have n: "\<forall>(p, n) \<in> set (map op_block ops). 0 \<le> n"
  proof -
    have "0 \<le> snd (op_block op)" for op by (cases op) simp_all
    then show ?thesis by (auto simp: case_prod_unfold)
  qed
  have "api_run (allocate_calls (map op_block ops)) s = Some (s\<lparr>pool_blocks := map op_block ops\<rparr>)"
    using allocate_calls_run [of s "map op_block ops"] assms d n by simp
  moreover have "api_run (deallocate_calls (map op_block ops)) (s\<lparr>pool_blocks := map op_block ops\<rparr>) = Some s"
    using deallocate_calls_run [of "s\<lparr>pool_blocks := map op_block ops\<rparr>" "[]" "map op_block ops" "[]"] assms d by simp
  ultimately show ?thesis by (simp add: nccl_round_calls_def api_run_append)
qed

lemma request_starts_run:
  "has_worker s \<Longrightarrow> distinct (open_requests s @ qs) \<Longrightarrow>
     api_run (map UcpRequestStart qs) s = Some (s\<lparr>open_requests := open_requests s @ qs\<rparr>)"
  by (induction qs arbitrary: s) simp_all

lemma request_frees_run:
  "open_requests s = qs \<Longrightarrow> api_run (map UcpRequestFree qs) s = Some (s\<lparr>open_requests := []\<rparr>)"
  by (induction qs arbitrary: s) simp_all

lemma ucx_round_run:
  assumes "has_worker s" and "open_requests s = []" and "fresh_round leaked ops"
  shows "api_run (ucx_round_calls ops) s = Some s"
  using assms request_starts_run [of s "concat (map op_requests ops)"]
    request_frees_run [of "s\<lparr>open_requests := concat (map op_requests ops)\<rparr>" "concat (map op_requests ops)"]
  by (simp add: ucx_round_calls_def api_run_append fresh_round_def)

text \<open>The memory of an operation of the buffer communicator, in the order it is allocated.\<close>

definition op_memory :: "comm_op \<Rightarrow> ptr list" where
  "op_memory op = op_never_freed op @ op_handles op"

lemma op_memory_simps [simp]:
  "op_memory (SendOp n b None h c) = [c, h]"
  "op_memory (SendOp n b (Some q) h c) = [c]"
  "op_memory (RecvOp n b q c p) = [c, p]"
  by (simp_all add: op_memory_def)

lemma buffer_ops_run:
  assumes "has_worker s" and "distinct (open_requests s @ concat (map op_requests ops))"
    and "distinct (host_blocks s @ concat (map op_memory ops))"
  shows "api_run (concat (map buffer_op_calls ops)) s =
    Some (s\<lparr>host_blocks := host_blocks s @ concat (map op_memory ops), open_requests := open_requests s @ concat (map op_requests ops)\<rparr>)"
  using assms
proof (induction ops arbitrary: s)
  case (Cons op ops)
  let ?s = "s\<lparr>host_blocks := host_blocks s @ op_memory op, open_requests := open_requests s @ op_requests op\<rparr>"
  have "api_run (buffer_op_calls op) s = Some ?s"
    using Cons.prems by (cases op rule: buffer_op_calls.cases) auto
  moreover have "api_run (concat (map buffer_op_calls ops)) ?s =
      Some (?s\<lparr>host_blocks := host_blocks ?s @ concat (map op_memory ops), open_requests := open_requests ?s @ concat (map op_requests ops)\<rparr>)"
    using Cons.prems by (intro Cons.IH) simp_all
  ultimately show ?case by (simp add: api_run_append)
qed simp

lemma buffer_frees_run:
  assumes "distinct (pre @ concat (map op_memory ops))"
  shows "api_run (concat (map buffer_free_calls ops))
      (s\<lparr>host_blocks := pre @ concat (map op_memory ops), open_requests := concat (map op_requests ops)\<rparr>) =
    Some (s\<lparr>host_blocks := pre @ concat (map op_never_freed ops), open_requests := []\<rparr>)"
  using assms
proof (induction ops arbitrary: pre)
  case (Cons op ops)
  let ?s = "s\<lparr>host_blocks := (pre @ op_never_freed op) @ concat (map op_memory ops), open_requests := concat (map op_requests ops)\<rparr>"
  have "api_run (buffer_free_calls op)
      (s\<lparr>host_blocks := pre @ concat (map op_memory (op # ops)), open_requests := concat (map op_requests (op # ops))\<rparr>) = Some ?s"
    using Cons.prems by (cases op rule: buffer_op_calls.cases) (simp_all add: remove1_append)
  moreover have "api_run (concat (map buffer_free_calls ops)) ?s =
      Some (s\<lparr>host_blocks := (pre @ op_never_freed op) @ concat (map op_never_freed ops), open_requests := []\<rparr>)"
  proof (rule Cons.IH)
    show "distinct ((pre @ op_never_freed op) @ concat (map op_memory ops))"
      using Cons.prems by (cases op rule: buffer_op_calls.cases) simp_all
  qed
  ultimately show ?case by (simp add: api_run_append)
qed simp

lemma mset_memory: "mset (concat (map op_memory ops)) = mset (concat (map op_never_freed ops)) + mset (concat (map op_handles ops))"
  by (induction ops) (simp_all add: op_memory_def)

lemma buffer_round_run:
  assumes "has_worker s" and "open_requests s = []" and d: "distinct (concat (map op_requests ops))"
    and m: "distinct (host_blocks s @ concat (map op_never_freed ops) @ concat (map op_handles ops))"
  shows "api_run (buffer_round_calls ops) s = Some (s\<lparr>host_blocks := host_blocks s @ concat (map op_never_freed ops)\<rparr>)"
proof -
  have "mset (host_blocks s @ concat (map op_memory ops)) = mset (host_blocks s @ concat (map op_never_freed ops) @ concat (map op_handles ops))"
    by (simp add: mset_memory del: mset_concat)
  then have m: "distinct (host_blocks s @ concat (map op_memory ops))" using m mset_eq_imp_distinct_iff by blast
  let ?s = "s\<lparr>host_blocks := host_blocks s @ concat (map op_memory ops), open_requests := concat (map op_requests ops)\<rparr>"
  have "api_run (concat (map buffer_op_calls ops)) s = Some ?s"
    using buffer_ops_run [OF assms(1) _ m] assms(2) d by simp
  moreover have "api_run (concat (map buffer_free_calls ops)) ?s = Some (s\<lparr>host_blocks := host_blocks s @ concat (map op_never_freed ops), open_requests := []\<rparr>)"
    by (rule buffer_frees_run [OF m])
  moreover have "s\<lparr>host_blocks := hb, open_requests := []\<rparr> = s\<lparr>host_blocks := hb\<rparr>" for hb
    using assms(2) by (cases s) simp
  ultimately show ?thesis by (simp add: buffer_round_calls_def api_run_append)
qed

lemma buffer_rounds_run:
  assumes "has_worker s" and "open_requests s = []" and "\<forall>ops \<in> set rounds. fresh_round (host_blocks s @ never_freed rounds) ops"
    and "distinct (host_blocks s @ never_freed rounds)"
  shows "api_run (concat (map buffer_round_calls rounds)) s = Some (s\<lparr>host_blocks := host_blocks s @ never_freed rounds\<rparr>)"
  using assms
proof (induction rounds arbitrary: s)
  case Nil
  then show ?case by (simp add: never_freed_def)
next
  case (Cons ops rounds)
  have nf: "never_freed (ops # rounds) = concat (map op_never_freed ops) @ never_freed rounds" by (simp add: never_freed_def)
  let ?s = "s\<lparr>host_blocks := host_blocks s @ concat (map op_never_freed ops)\<rparr>"
  have f: "distinct (concat (map op_requests ops))" "distinct ((host_blocks s @ never_freed (ops # rounds)) @ concat (map op_handles ops))"
    using Cons.prems(3) by (auto simp: fresh_round_def)
  have "distinct (host_blocks s @ concat (map op_never_freed ops) @ concat (map op_handles ops))"
    using f(2) unfolding nf by auto
  from buffer_round_run [OF Cons.prems(1,2) f(1) this] have "api_run (buffer_round_calls ops) s = Some ?s" .
  moreover have "api_run (concat (map buffer_round_calls rounds)) ?s = Some (?s\<lparr>host_blocks := host_blocks ?s @ never_freed rounds\<rparr>)"
    using Cons.prems unfolding nf by (intro Cons.IH) simp_all
  ultimately show ?case by (simp add: api_run_append nf)
qed

section \<open>Endpoints\<close>

text \<open>Every endpoint is made from the address of its rank.\<close>

lemma concat_equal:
  assumes "\<forall>x \<in> set xs. length x = n"
  shows "length (concat xs) = length xs * n"
    and "i < length xs \<Longrightarrow> subrange (concat xs) (int i * int n) (int i * int n + int n) = xs ! i"
proof -
  show "length (concat xs) = length xs * n" using assms by (induction xs) simp_all
  show "subrange (concat xs) (int i * int n) (int i * int n + int n) = xs ! i" if "i < length xs"
    using assms that
  proof (induction xs arbitrary: i)
    case (Cons x xs)
    have nat: "nat (int i * int n) = i * n" for i by (simp flip: of_nat_mult)
    show ?case
    proof (cases i)
      case 0
      then show ?thesis using Cons.prems by (simp add: subrange_def)
    next
      case (Suc k)
      then have "subrange (concat xs) (int k * int n) (int k * int n + int n) = xs ! k" using Cons by simp
      moreover have "nat (int i * int n) = n + k * n" using nat [of i] Suc by simp
      ultimately show ?thesis using Suc Cons.prems nat [of k] by (simp add: subrange_def)
    qed
  qed simp
qed

lemma create_endpoints_ok:
  assumes "allgather allg" and "\<forall>a \<in> set addrs. length a = n" and "r < length addrs"
  shows "create_endpoints book allg addrs r =
    Inr (HostMalloc book # map (\<lambda>i. UcpEpCreate i (addrs ! i)) [0..<length addrs] @ [HostFree book])"
proof -
  have l: "length (addrs ! r) = n" using assms(2,3) by simp
  have rd: "read_mem (concat addrs) (int i * int n) (int n) = Inr (addrs ! i)" if "i < length addrs" for i
  proof -
    have "Suc i * n \<le> length addrs * n" using that by (intro mult_le_mono1) simp
    then have "int i * int n + int n \<le> int (length addrs * n)" by (metis add.commute mult_Suc of_nat_add of_nat_le_iff of_nat_mult)
    then show ?thesis using concat_equal(1) [OF assms(2)] concat_equal(2) [OF assms(2) that] by (simp add: read_mem_def)
  qed
  have "emap (\<lambda>irank. ebind (read_mem (concat addrs) (int irank * int n) (int n)) (\<lambda>a. Inr (UcpEpCreate irank a))) [0..<length addrs] =
      Inr (map (\<lambda>i. UcpEpCreate i (addrs ! i)) [0..<length addrs])"
    using rd by (intro emap_Inr) simp
  then show ?thesis
    unfolding create_endpoints_def Let_def l allgather.allgather_concat [OF assms(1,2)] ebind.simps by simp
qed

end
