(* ===== verification/Registered_Memory.thy ===== *)
theory Registered_Memory
  imports Runtime
begin

text \<open>
  \<open>registered_memory_resource\<close>: device memory that is registered with UCX when it is
  allocated. Entries of \<open>registered_handles\<close> are overwritten, never erased.
\<close>

section \<open>The resource\<close>

record registered_memory_resource =
  registered_handles :: "ptr \<rightharpoonup> mem_handle"

definition new_registered_memory_resource :: registered_memory_resource where
  "new_registered_memory_resource = \<lparr>registered_handles = (\<lambda>p. None)\<rparr>"

text \<open>\<open>p\<close> is the pointer of \<open>cudaMalloc\<close> and \<open>h\<close> the handle of \<open>ucp_mem_map\<close>.\<close>

definition do_allocate ::
  "registered_memory_resource \<Rightarrow> int \<Rightarrow> ptr \<Rightarrow> mem_handle \<Rightarrow> api_call list \<times> registered_memory_resource" where
  "do_allocate mr bytes p h =
     (CudaMalloc p bytes # register_buffer p bytes h, mr\<lparr>registered_handles := (registered_handles mr)(p \<mapsto> h)\<rparr>)"

definition do_deallocate ::
  "registered_memory_resource \<Rightarrow> ptr \<Rightarrow> (api_call list \<times> registered_memory_resource) res" where
  "do_deallocate mr p =
     (case registered_handles mr p of
        None \<Rightarrow> Inl OutOfBounds
      | Some h \<Rightarrow> Inr (deregister_buffer h @ [CudaFree p], mr))"

text \<open>
  What the resource answers about itself. The comparison is a \<open>dynamic_cast\<close>: any other
  resource of this class is equal. \<open>do_get_mem_info\<close> passes on free and total memory, or the
  error of \<open>cudaMemGetInfo\<close>.
\<close>

datatype device_memory_resource = RegisteredResource registered_memory_resource | OtherResource

fun do_is_equal :: "registered_memory_resource \<Rightarrow> device_memory_resource \<Rightarrow> bool" where
  "do_is_equal mr (RegisteredResource other) = True"
| "do_is_equal mr OtherResource = False"

definition supports_streams :: "registered_memory_resource \<Rightarrow> bool" where
  "supports_streams mr = False"

definition supports_get_mem_info :: "registered_memory_resource \<Rightarrow> bool" where
  "supports_get_mem_info mr = True"

definition do_get_mem_info :: "registered_memory_resource \<Rightarrow> (nat \<times> nat) res \<Rightarrow> (nat \<times> nat) res" where
  "do_get_mem_info mr cuda_mem_get_info =
     ebind cuda_mem_get_info (\<lambda>(free_size, total_size). Inr (free_size, total_size))"

text \<open>Sequences of requests, and the calls they lead to.\<close>

datatype mr_request = Allocate int ptr mem_handle | Deallocate ptr

fun mr_request_calls ::
  "registered_memory_resource \<Rightarrow> mr_request \<Rightarrow> (api_call list \<times> registered_memory_resource) res" where
  "mr_request_calls mr (Allocate n p h) = Inr (do_allocate mr n p h)"
| "mr_request_calls mr (Deallocate p) = do_deallocate mr p"

fun mr_requests ::
  "registered_memory_resource \<Rightarrow> mr_request list \<Rightarrow> (api_call list \<times> registered_memory_resource) res" where
  "mr_requests mr [] = Inr ([], mr)"
| "mr_requests mr (q # qs) =
     ebind (mr_request_calls mr q) (\<lambda>(cs, mr').
     ebind (mr_requests mr' qs) (\<lambda>(ds, mr''). Inr (cs @ ds, mr'')))"

text \<open>
  The blocks in use, with their handles, if the requests are legal: CUDA and UCX return
  what is not in use, and only blocks in use are deallocated.
\<close>

fun in_use :: "mr_request list \<Rightarrow> (ptr \<times> mem_handle) list \<Rightarrow> (ptr \<times> mem_handle) list option" where
  "in_use [] live = Some live"
| "in_use (Allocate n p h # qs) live =
     (if 0 \<le> n \<and> p \<notin> fst ` set live \<and> h \<notin> snd ` set live then in_use qs (live @ [(p, h)]) else None)"
| "in_use (Deallocate p # qs) live =
     (if p \<in> fst ` set live then in_use qs (filter (\<lambda>b. fst b \<noteq> p) live) else None)"

section \<open>Every block is registered while it lives\<close>

definition mr_inv :: "registered_memory_resource \<Rightarrow> (ptr \<times> mem_handle) list \<Rightarrow> alive \<Rightarrow> bool" where
  "mr_inv mr live s \<longleftrightarrow>
     distinct (map fst live) \<and> distinct (map snd live) \<and> (\<forall>(p, h) \<in> set live. registered_handles mr p = Some h) \<and>
     has_context s \<and> mappings s = map (\<lambda>(p, h). (h, p)) live \<and> cuda_blocks s = map fst live"

definition with_blocks :: "alive \<Rightarrow> (ptr \<times> mem_handle) list \<Rightarrow> alive" where
  "with_blocks s live = s\<lparr>mappings := map (\<lambda>(p, h). (h, p)) live, cuda_blocks := map fst live\<rparr>"

lemma with_blocks_inv: "mr_inv mr live s \<Longrightarrow> with_blocks s live = s"
  by (simp add: mr_inv_def with_blocks_def)

lemma with_blocks_twice [simp]: "with_blocks (with_blocks s l) l' = with_blocks s l'"
  by (simp add: with_blocks_def)

lemma keys_swap: "fst ` set (map (\<lambda>(p, h). (h, p)) xs) = snd ` set xs" "snd ` set (map (\<lambda>(p, h). (h, p)) xs) = fst ` set xs"
  by (induction xs) auto

lemma filter_swap:
  assumes "distinct (map fst xs)" and "distinct (map snd xs)" and "(p, h) \<in> set xs"
  shows "filter (\<lambda>m. fst m \<noteq> h) (map (\<lambda>(p, h). (h, p)) xs) = map (\<lambda>(p, h). (h, p)) (filter (\<lambda>b. fst b \<noteq> p) xs)"
    and "remove1 p (map fst xs) = map fst (filter (\<lambda>b. fst b \<noteq> p) xs)"
proof -
  have "snd b \<noteq> h \<longleftrightarrow> fst b \<noteq> p" if "b \<in> set xs" for b
    using assms(1,2) [THEN distinct_map [THEN iffD1]] inj_onD [of snd "set xs" b "(p, h)"] inj_onD [of fst "set xs" b "(p, h)"] assms(3) that
    by fastforce
  then have "filter (\<lambda>b. snd b \<noteq> h) xs = filter (\<lambda>b. fst b \<noteq> p) xs" by (rule filter_cong [OF refl])
  then show "filter (\<lambda>m. fst m \<noteq> h) (map (\<lambda>(p, h). (h, p)) xs) = map (\<lambda>(p, h). (h, p)) (filter (\<lambda>b. fst b \<noteq> p) xs)"
    by (simp add: filter_map comp_def case_prod_unfold)
  show "remove1 p (map fst xs) = map fst (filter (\<lambda>b. fst b \<noteq> p) xs)"
    using assms(1) by (simp add: distinct_remove1_removeAll removeAll_filter_not_eq filter_map comp_def eq_commute [of p])
qed

lemma mr_requests_ok:
  assumes "in_use qs live = Some live'" and "mr_inv mr live s"
  shows "\<exists>calls mr'. mr_requests mr qs = Inr (calls, mr') \<and>
    api_run calls s = Some (with_blocks s live') \<and> mr_inv mr' live' (with_blocks s live')"
  using assms
proof (induction qs arbitrary: mr live s)
  case Nil
  then show ?case by (simp add: with_blocks_inv)
next
  case (Cons q qs)
  note inv = Cons.prems(2) [unfolded mr_inv_def]
  show ?case
  proof (cases q)
    case (Allocate n p h)
    let ?live = "live @ [(p, h)]" and ?mr = "mr\<lparr>registered_handles := (registered_handles mr)(p \<mapsto> h)\<rparr>"
    have f: "0 \<le> n" "p \<notin> fst ` set live" "h \<notin> snd ` set live" and u: "in_use qs ?live = Some live'"
      using Cons.prems(1) Allocate by (auto split: if_splits)
    have "mr_inv ?mr ?live (with_blocks s ?live)"
    proof -
      have "((registered_handles mr)(p \<mapsto> h)) q = Some k" if "(q, k) \<in> set ?live" for q k
        using that inv f(2) by (cases "q = p") force+
      then show ?thesis using inv f unfolding mr_inv_def with_blocks_def by auto
    qed
    from Cons.IH [OF u this] obtain calls mr' where r: "mr_requests ?mr qs = Inr (calls, mr')"
      and a: "api_run calls (with_blocks s ?live) = Some (with_blocks s live')" and i: "mr_inv mr' live' (with_blocks s live')"
      by auto
    have "api_run (CudaMalloc p n # register_buffer p n h) s = Some (with_blocks s ?live)"
      using inv f keys_swap [of live] by (simp add: register_buffer_def with_blocks_def)
    then have "api_run ((CudaMalloc p n # register_buffer p n h) @ calls) s = Some (with_blocks s live')"
      unfolding api_run_append using a by simp
    then show ?thesis using Allocate r i by (simp add: do_allocate_def)
  next
    case (Deallocate p)
    let ?live = "filter (\<lambda>b. fst b \<noteq> p) live"
    have "p \<in> fst ` set live" and u: "in_use qs ?live = Some live'" using Cons.prems(1) Deallocate by (auto split: if_splits)
    then obtain h where h: "(p, h) \<in> set live" by auto
    then have reg: "registered_handles mr p = Some h" using inv by auto
    note fs = filter_swap [OF _ _ h]
    have "mr_inv mr ?live (with_blocks s ?live)"
      using inv by (auto simp: mr_inv_def with_blocks_def distinct_map_filter)
    from Cons.IH [OF u this] obtain calls mr' where r: "mr_requests mr qs = Inr (calls, mr')"
      and a: "api_run calls (with_blocks s ?live) = Some (with_blocks s live')" and i: "mr_inv mr' live' (with_blocks s live')"
      by auto
    have "api_run (deregister_buffer h @ [CudaFree p]) s = Some (with_blocks s ?live)"
    proof -
      have k: "h \<in> fst ` set (mappings s)" "p \<in> set (cuda_blocks s)" using inv h by force+
      have "p \<notin> snd ` set (map (\<lambda>(p, h). (h, p)) ?live)" unfolding keys_swap by auto
      then show ?thesis
        using inv k fs by (simp add: deregister_buffer_def with_blocks_def)
    qed
    then have "api_run ((deregister_buffer h @ [CudaFree p]) @ calls) s = Some (with_blocks s live')"
      unfolding api_run_append [of "deregister_buffer h @ [CudaFree p]"] using a by simp
    then show ?thesis using Deallocate reg r i by (simp add: do_deallocate_def)
  qed
qed

text \<open>A pointer that the resource has not allocated itself has no handle.\<close>

lemma mr_requests_unknown:
  assumes "mr_requests mr qs = Inr (calls, mr')" and "registered_handles mr p = None"
    and "\<forall>n h. Allocate n p h \<notin> set qs"
  shows "registered_handles mr' p = None"
  using assms
proof (induction qs arbitrary: mr calls)
  case (Cons q qs)
  from Cons.prems(1) obtain cs ds mr1 where q: "mr_request_calls mr q = Inr (cs, mr1)" and rest: "mr_requests mr1 qs = Inr (ds, mr')"
    by (auto simp: res_simps)
  have "registered_handles mr1 p = None"
  proof (cases q)
    case (Allocate n p' h)
    then have "p' \<noteq> p" using Cons.prems(3) by auto
    then show ?thesis using q Allocate Cons.prems(2) by (auto simp: do_allocate_def)
  next
    case (Deallocate p')
    then show ?thesis using q Cons.prems(2) by (auto simp: do_deallocate_def split: option.splits)
  qed
  then show ?case using Cons.IH [OF rest] Cons.prems(3) by simp
qed simp

end
