(* ===== verification/Setup.thy ===== *)
theory Setup
  imports Registered_Memory "HOL-Library.Signed_Division"
begin

text \<open>
  \<open>src/src/setup.cpp\<close>: the choice of the device, the memory pool and the communicator, and
  their release. What the machine provides is the record \<open>platform\<close>.
\<close>

section \<open>The platform\<close>

text \<open>
  The ranks and their worker addresses, where \<open>malloc\<close> puts the address book, the free device
  memory, the block and the handle the buffer cache gets, and the blocks (size, pointer, handle) that the memory pool
  requests from a registered memory resource until it is deleted.
\<close>

record platform =
  plat_rank :: rank
  plat_addresses :: "byte list list"
  plat_allgather :: "byte list list \<Rightarrow> byte list res"
  plat_book :: ptr
  plat_free_memory :: nat
  plat_cache :: "ptr \<times> mem_handle"
  plat_blocks :: "(int \<times> ptr \<times> mem_handle) list"

abbreviation plat_size :: "platform \<Rightarrow> nat" where
  "plat_size pl \<equiv> length (plat_addresses pl)"

definition set_cuda_device :: "nat \<Rightarrow> nat \<Rightarrow> nat res" where
  "set_cuda_device r device_count = (if device_count = 0 then Inl DivideByZero else Inr (r mod device_count))"

definition pool_size :: "nat \<Rightarrow> nat" where
  "pool_size free_memory = free_memory div 284 * 256"

section \<open>Setup\<close>

datatype communicator = NCCL | UCX | UCXBuffer buffer_pool mem_handle

definition initialize_ucx_communicator :: "platform \<Rightarrow> bool \<Rightarrow> nat \<Rightarrow> int \<Rightarrow> (api_call list \<times> communicator) res" where
  "initialize_ucx_communicator pl use_buffer_communicator num_comm_buffers comm_buffer_size' =
     (if use_buffer_communicator
      then ebind (UCXBufferCommunicator_initialize (plat_book pl) (plat_allgather pl) (plat_addresses pl) (plat_rank pl)) (\<lambda>cs.
           ebind (setup_cache_calls (fst (plat_cache pl)) (snd (plat_cache pl)) num_comm_buffers comm_buffer_size') (\<lambda>(ds, st).
             Inr (cs @ ds, UCXBuffer st (snd (plat_cache pl)))))
      else ebind (UCXCommunicator_initialize UCXCommunicator_initialize_ucx (plat_book pl) (plat_allgather pl) (plat_addresses pl) (plat_rank pl)) (\<lambda>cs. Inr (cs, UCX)))"

text \<open>The pool on top of a registered memory resource, and on top of the default resource.\<close>

definition create_registered_pool ::
  "platform \<Rightarrow> registered_memory_resource \<Rightarrow> (api_call list \<times> registered_memory_resource) res" where
  "create_registered_pool pl mr =
     ebind (mr_requests mr (map (\<lambda>(n, p, h). Allocate n p h) (plat_blocks pl))) (\<lambda>(cs, mr').
       Inr (PoolCreate (int (pool_size (plat_free_memory pl))) # cs, mr'))"

definition delete_pool :: "platform \<Rightarrow> registered_memory_resource option \<Rightarrow> api_call list res" where
  "delete_pool pl registered_mr =
     (case registered_mr of
        None \<Rightarrow> Inr [PoolDestroy]
      | Some mr \<Rightarrow>
          ebind (mr_requests mr (map (\<lambda>(n, p, h). Deallocate p) (plat_blocks pl))) (\<lambda>(cs, mr').
            Inr (PoolDestroy # cs)))"

definition setup_memory_pool_and_communicator ::
  "platform \<Rightarrow> string \<Rightarrow> string \<Rightarrow> int \<Rightarrow> (api_call list \<times> communicator \<times> registered_memory_resource option) res" where
  "setup_memory_pool_and_communicator pl communicator_name registration_method communicator_buffer_size =
     (let pool = [PoolCreate (int (pool_size (plat_free_memory pl)))] in
      if communicator_name = ''NCCL''
      then Inr (NCCLCommunicator_initialize (plat_size pl) (plat_rank pl) @ pool, NCCL, None)
      else if communicator_name = ''UCX'' then
        if registration_method = ''buffer'' then
          let num_comm_buffers = 2 * plat_size pl in
          if num_comm_buffers = 0 then Inl DivideByZero
          else ebind (initialize_ucx_communicator pl True num_comm_buffers
                 (communicator_buffer_size sdiv int num_comm_buffers - 100000)) (\<lambda>(cs, c). Inr (pool @ cs, c, None))
        else if registration_method = ''preregistered'' then
          ebind (initialize_ucx_communicator pl False 0 0) (\<lambda>(cs, c).
          ebind (create_registered_pool pl new_registered_memory_resource) (\<lambda>(ds, mr). Inr (cs @ ds, c, Some mr)))
        else if registration_method = ''none'' then
          ebind (initialize_ucx_communicator pl False 0 0) (\<lambda>(cs, c). Inr (cs @ pool, c, None))
        else Inl UnknownRegistrationMethod
      else Inl UnknownCommunicatorName)"

section \<open>Release\<close>

fun finalize :: "nat \<Rightarrow> communicator \<Rightarrow> api_call list" where
  "finalize n NCCL = NCCLCommunicator_finalize"
| "finalize n UCX = UCXCommunicator_finalize n"
| "finalize n (UCXBuffer st h) = UCXBufferCommunicator_finalize_calls h n st"

definition destroy_memory_pool_and_communicator ::
  "platform \<Rightarrow> communicator \<Rightarrow> registered_memory_resource option \<Rightarrow> string \<Rightarrow> string \<Rightarrow> api_call list res" where
  "destroy_memory_pool_and_communicator pl c registered_mr communicator_name registration_method =
     (if communicator_name = ''UCX'' \<and> registration_method = ''buffer''
      then ebind (delete_pool pl registered_mr) (\<lambda>ds. Inr (finalize (plat_size pl) c @ ds))
      else ebind (delete_pool pl registered_mr) (\<lambda>ds. Inr (ds @ finalize (plat_size pl) c)))"

text \<open>
  What happens in between: rounds of communication, with the calls that the operations and
  the end of every round make.
\<close>

fun round_calls :: "communicator \<Rightarrow> comm_op list \<Rightarrow> api_call list" where
  "round_calls NCCL ops = nccl_round_calls ops"
| "round_calls UCX ops = ucx_round_calls ops"
| "round_calls (UCXBuffer st h) ops = buffer_round_calls ops"

fun use_communicator :: "communicator \<Rightarrow> comm_op list list \<Rightarrow> (api_call list \<times> communicator) res" where
  "use_communicator (UCXBuffer st h) rounds =
     ebind (efold pool_round st (map (map op_inline) rounds)) (\<lambda>st'.
       Inr (concat (map (round_calls (UCXBuffer st h)) rounds), UCXBuffer st' h))"
| "use_communicator c rounds = Inr (concat (map (round_calls c) rounds), c)"

section \<open>The calls of the parts\<close>

definition platform_ok :: "platform \<Rightarrow> bool" where
  "platform_ok pl \<longleftrightarrow>
     allgather (plat_allgather pl) \<and> plat_rank pl < plat_size pl \<and>
     (\<exists>n. \<forall>a \<in> set (plat_addresses pl). length a = n) \<and>
     (\<forall>(n, p, h) \<in> set (plat_blocks pl). 0 \<le> n) \<and>
     distinct (map (\<lambda>(n, p, h). p) (plat_blocks pl)) \<and> distinct (map (\<lambda>(n, p, h). h) (plat_blocks pl))"

definition supported :: "string \<Rightarrow> string \<Rightarrow> nat \<Rightarrow> int \<Rightarrow> bool" where
  "supported communicator_name registration_method mpi_size communicator_buffer_size \<longleftrightarrow>
     communicator_name = ''NCCL'' \<or>
     communicator_name = ''UCX'' \<and>
       (registration_method = ''none'' \<or> registration_method = ''preregistered'' \<or>
        registration_method = ''buffer'' \<and> mpi_size \<le> 65536 \<and> 2 * int mpi_size * 100000 < communicator_buffer_size)"

definition ucx_alive :: "nat \<Rightarrow> alive \<Rightarrow> alive" where
  "ucx_alive n s = s\<lparr>has_context := True, has_worker := True, has_address := True, endpoints := [0..<n]\<rparr>"

lemma run_create: "has_worker s \<Longrightarrow> endpoints s = [] \<Longrightarrow>
  api_run (map (\<lambda>i. UcpEpCreate i (f i)) [0..<n]) s = Some (s\<lparr>endpoints := [0..<n]\<rparr>)"
  by (induction n) (simp_all add: api_run_append)

lemma run_close: "distinct (xs @ ys) \<Longrightarrow> endpoints s = xs @ ys \<Longrightarrow>
  api_run (map UcpEpCloseFlush xs) s = Some (s\<lparr>endpoints := ys\<rparr>)"
proof (induction xs arbitrary: s)
  case (Cons x xs)
  have "api_run (map UcpEpCloseFlush xs) (s\<lparr>endpoints := xs @ ys\<rparr>) = Some (s\<lparr>endpoints := ys\<rparr>)"
    using Cons.IH [of "s\<lparr>endpoints := xs @ ys\<rparr>"] Cons.prems(1) by simp
  then show ?case using Cons.prems(2) by simp
qed simp

lemma run_ucx_initialize:
  assumes "platform_ok pl" and init: "init = UCXCommunicator_initialize_ucx \<or> init = UCXBufferCommunicator_initialize_ucx"
  shows "\<exists>cs. UCXCommunicator_initialize init (plat_book pl) (plat_allgather pl) (plat_addresses pl) (plat_rank pl) = Inr cs \<and>
    (\<forall>s. \<not> has_context s \<and> \<not> has_worker s \<and> \<not> has_address s \<and> endpoints s = [] \<and> host_blocks s = [] \<longrightarrow>
       api_run cs s = Some (ucx_alive (plat_size pl) s))"
proof -
  obtain n where "\<forall>a \<in> set (plat_addresses pl). length a = n" "allgather (plat_allgather pl)" "plat_rank pl < plat_size pl"
    using assms unfolding platform_ok_def by blast
  then have "create_endpoints (plat_book pl) (plat_allgather pl) (plat_addresses pl) (plat_rank pl) =
      Inr (HostMalloc (plat_book pl) # map (\<lambda>i. UcpEpCreate i (plat_addresses pl ! i)) [0..<plat_size pl] @ [HostFree (plat_book pl)])"
    by (intro create_endpoints_ok)
  moreover have "api_run (init n @ HostMalloc b # map (\<lambda>i. UcpEpCreate i (f i)) [0..<m] @ [HostFree b]) s = Some (ucx_alive m s)"
    if "\<not> has_context s \<and> \<not> has_worker s \<and> \<not> has_address s \<and> endpoints s = [] \<and> host_blocks s = []" for n m f s b
    using that init
    by (auto simp: UCXCommunicator_initialize_ucx_def UCXBufferCommunicator_initialize_ucx_def run_create ucx_alive_def api_run_append)
  ultimately show ?thesis by (simp add: UCXCommunicator_initialize_def)
qed

lemma run_ucx_finalize:
  assumes "has_context s" "has_worker s" "has_address s" "endpoints s = [0..<n]" "mappings s = []" "open_requests s = []"
  shows "api_run (UCXCommunicator_finalize n) s =
    Some (s\<lparr>has_context := False, has_worker := False, has_address := False, endpoints := []\<rparr>)"
  using assms run_close [of "[0..<n]" "[]" s] by (simp add: UCXCommunicator_finalize_def api_run_append)

lemma in_use_allocate:
  assumes "\<forall>(n, p, h) \<in> set bs. 0 \<le> n" and "distinct (map fst live @ map (\<lambda>(n, p, h). p) bs)"
    and "distinct (map snd live @ map (\<lambda>(n, p, h). h) bs)"
  shows "in_use (map (\<lambda>(n, p, h). Allocate n p h) bs) live = Some (live @ map snd bs)"
  using assms
proof (induction bs arbitrary: live)
  case (Cons b bs)
  obtain n p h where b: "b = (n, p, h)" by (cases b)
  have "in_use (map (\<lambda>(n, p, h). Allocate n p h) bs) (live @ [(p, h)]) = Some ((live @ [(p, h)]) @ map snd bs)"
    using Cons.prems b by (intro Cons.IH) auto
  then show ?case using Cons.prems b by auto
qed simp

lemma in_use_deallocate:
  assumes "distinct (map (\<lambda>(n, p, h). p) bs)"
  shows "in_use (map (\<lambda>(n, p, h). Deallocate p) bs) (map snd bs) = Some []"
  using assms
proof (induction bs)
  case (Cons b bs)
  obtain n p h where b: "b = (n, p, h)" by (cases b)
  have "filter (\<lambda>x. fst x \<noteq> p) (map snd bs) = map snd bs"
    using Cons.prems b by (auto simp: filter_id_conv case_prod_unfold image_iff)
  then show ?case using Cons b by simp
qed simp

section \<open>From setup to release\<close>

text \<open>One kind of communicator at a time.\<close>

definition lifecycle :: "platform \<Rightarrow> string \<Rightarrow> string \<Rightarrow> int \<Rightarrow> comm_op list list \<Rightarrow> api_call list res" where
  "lifecycle pl name method bufsize rounds =
     ebind (setup_memory_pool_and_communicator pl name method bufsize) (\<lambda>(cs, c, mr).
     ebind (use_communicator c rounds) (\<lambda>(us, c').
     ebind (destroy_memory_pool_and_communicator pl c' mr name method) (\<lambda>ds. Inr (cs @ us @ ds))))"

lemma rounds_neutral: "\<forall>ops \<in> set rounds. api_run (f ops) s = Some s \<Longrightarrow> api_run (concat (map f rounds)) s = Some s"
  by (induction rounds) (simp_all add: api_run_append)

lemma use_nccl:
  "rounds_ok n rounds \<Longrightarrow> has_pool s \<Longrightarrow> mappings s = [] \<Longrightarrow> pool_blocks s = [] \<Longrightarrow>
     api_run (concat (map (round_calls NCCL) rounds)) s = Some s"
  by (intro rounds_neutral) (auto simp: rounds_ok_def nccl_round_run)

lemma use_ucx:
  "rounds_ok n rounds \<Longrightarrow> has_worker s \<Longrightarrow> open_requests s = [] \<Longrightarrow> api_run (concat (map (round_calls UCX) rounds)) s = Some s"
  by (intro rounds_neutral) (auto simp: rounds_ok_def ucx_round_run)

lemma use_buffer:
  assumes "rounds_ok n rounds" and "has_worker s" and "open_requests s = []" and "host_blocks s = []"
  shows "api_run (concat (map (round_calls (UCXBuffer st h)) rounds)) s = Some (s\<lparr>host_blocks := never_freed rounds\<rparr>)"
proof -
  have "round_calls (UCXBuffer st h) = buffer_round_calls" by (rule ext) simp
  then show ?thesis using buffer_rounds_run [of s rounds] assms by (simp add: rounds_ok_def)
qed

lemma run_Cons: "api_step c s = Some t \<Longrightarrow> api_run (c # cs) s = api_run cs t"
  by simp

lemma run_app: "api_run xs s = Some t \<Longrightarrow> api_run (xs @ ys) s = api_run ys t"
  by (simp add: api_run_append)

lemma lifecycle_nccl:
  assumes "rounds_ok n rounds"
  shows "\<exists>cs. lifecycle pl ''NCCL'' method bufsize rounds = Inr cs \<and> api_run cs nothing = Some nothing"
proof -
  let ?s = "nothing\<lparr>has_nccl := True, streams := [CommStream], has_pool := True\<rparr>"
  have u: "api_run (concat (map (round_calls NCCL) rounds)) ?s = Some ?s"
    by (rule use_nccl [OF assms]) (simp_all add: nothing_def)
  have l: "lifecycle pl ''NCCL'' method bufsize rounds =
      Inr ([NcclCommInit (plat_size pl) (plat_rank pl), StreamCreate CommStream, PoolCreate (int (pool_size (plat_free_memory pl)))] @
        concat (map (round_calls NCCL) rounds) @ [PoolDestroy, StreamDestroy CommStream, NcclCommDestroy])"
    by (simp add: lifecycle_def setup_memory_pool_and_communicator_def destroy_memory_pool_and_communicator_def delete_pool_def
        NCCLCommunicator_initialize_def NCCLCommunicator_finalize_def)
  have p: "api_run [NcclCommInit (plat_size pl) (plat_rank pl), StreamCreate CommStream, PoolCreate (int (pool_size (plat_free_memory pl)))] nothing = Some ?s"
    "api_run [PoolDestroy, StreamDestroy CommStream, NcclCommDestroy] ?s = Some nothing" by (simp_all add: nothing_def)
  have "api_run ([NcclCommInit (plat_size pl) (plat_rank pl), StreamCreate CommStream, PoolCreate (int (pool_size (plat_free_memory pl)))] @
      concat (map (round_calls NCCL) rounds) @ [PoolDestroy, StreamDestroy CommStream, NcclCommDestroy]) nothing = Some nothing"
    unfolding run_app [OF p(1)] run_app [OF u] by (rule p(2))
  then show ?thesis unfolding l by blast
qed

lemma lifecycle_none:
  assumes "platform_ok pl" and rounds: "rounds_ok n rounds"
  shows "\<exists>cs. lifecycle pl ''UCX'' ''none'' bufsize rounds = Inr cs \<and> api_run cs nothing = Some nothing"
proof -
  obtain cs where i: "UCXCommunicator_initialize UCXCommunicator_initialize_ucx (plat_book pl) (plat_allgather pl) (plat_addresses pl) (plat_rank pl) = Inr cs"
    and r: "api_run cs nothing = Some (ucx_alive (plat_size pl) nothing)"
    using run_ucx_initialize [OF assms(1) disjI1 [OF refl]] by (auto simp: nothing_def)
  let ?p = "int (pool_size (plat_free_memory pl))"
  let ?U = "concat (map (round_calls UCX) rounds)" and ?a = "ucx_alive (plat_size pl) nothing" and ?F = "UCXCommunicator_finalize (plat_size pl)"
  have l: "lifecycle pl ''UCX'' ''none'' bufsize rounds = Inr ((cs @ [PoolCreate ?p]) @ ?U @ [PoolDestroy] @ ?F)"
    by (simp add: lifecycle_def setup_memory_pool_and_communicator_def destroy_memory_pool_and_communicator_def delete_pool_def
        initialize_ucx_communicator_def i)
  have u: "api_run ?U (?a\<lparr>has_pool := True\<rparr>) = Some (?a\<lparr>has_pool := True\<rparr>)"
    by (rule use_ucx [OF rounds]) (simp_all add: ucx_alive_def nothing_def)
  have f: "api_run ?F ?a = Some nothing"
    by (subst run_ucx_finalize) (simp_all add: ucx_alive_def nothing_def)
  have p: "api_run [PoolCreate ?p] ?a = Some (?a\<lparr>has_pool := True\<rparr>)" "api_run [PoolDestroy] (?a\<lparr>has_pool := True\<rparr>) = Some ?a"
    by (simp_all add: ucx_alive_def nothing_def)
  have "api_run ((cs @ [PoolCreate ?p]) @ ?U @ [PoolDestroy] @ ?F) nothing = Some nothing"
    unfolding api_run_append r Option.bind.bind_lunit p u f ..
  then show ?thesis unfolding l by blast
qed

lemma lifecycle_preregistered:
  assumes pl: "platform_ok pl" and rounds: "rounds_ok n rounds"
  shows "\<exists>cs. lifecycle pl ''UCX'' ''preregistered'' bufsize rounds = Inr cs \<and> api_run cs nothing = Some nothing"
proof -
  obtain cs where i: "UCXCommunicator_initialize UCXCommunicator_initialize_ucx (plat_book pl) (plat_allgather pl) (plat_addresses pl) (plat_rank pl) = Inr cs"
    and r: "api_run cs nothing = Some (ucx_alive (plat_size pl) nothing)"
    using run_ucx_initialize [OF pl disjI1 [OF refl]] by (auto simp: nothing_def)
  let ?p = "int (pool_size (plat_free_memory pl))" and ?bs = "plat_blocks pl"
  let ?s = "(ucx_alive (plat_size pl) nothing)\<lparr>has_pool := True\<rparr>"
  have b: "\<forall>(n, p, h) \<in> set ?bs. 0 \<le> n" "distinct (map (\<lambda>(n, p, h). p) ?bs)" "distinct (map (\<lambda>(n, p, h). h) ?bs)"
    using pl unfolding platform_ok_def by blast+
  have u1: "in_use (map (\<lambda>(n, p, h). Allocate n p h) ?bs) [] = Some (map snd ?bs)"
    using in_use_allocate [of ?bs "[]"] b by simp
  have i0: "mr_inv new_registered_memory_resource [] ?s" by (simp add: mr_inv_def ucx_alive_def nothing_def)
  obtain as mr where a: "mr_requests new_registered_memory_resource (map (\<lambda>(n, p, h). Allocate n p h) ?bs) = Inr (as, mr)"
    and ra: "api_run as ?s = Some (with_blocks ?s (map snd ?bs))" and i1: "mr_inv mr (map snd ?bs) (with_blocks ?s (map snd ?bs))"
    using mr_requests_ok [OF u1 i0] by blast
  let ?t = "(with_blocks ?s (map snd ?bs))\<lparr>has_pool := False\<rparr>" and ?U = "concat (map (round_calls UCX) rounds)"
  have i2: "mr_inv mr (map snd ?bs) ?t" using i1 by (simp add: mr_inv_def)
  obtain ds mr' where d: "mr_requests mr (map (\<lambda>(n, p, h). Deallocate p) ?bs) = Inr (ds, mr')"
    and rd: "api_run ds ?t = Some (with_blocks ?t [])"
    using mr_requests_ok [OF in_use_deallocate [OF b(2)] i2] by blast
  have l: "lifecycle pl ''UCX'' ''preregistered'' bufsize rounds =
      Inr ((cs @ PoolCreate ?p # as) @ ?U @ (PoolDestroy # ds) @ UCXCommunicator_finalize (plat_size pl))"
    by (simp add: lifecycle_def setup_memory_pool_and_communicator_def destroy_memory_pool_and_communicator_def delete_pool_def
        create_registered_pool_def initialize_ucx_communicator_def i a d)
  have pc: "api_step (PoolCreate ?p) (ucx_alive (plat_size pl) nothing) = Some ?s" by (simp add: ucx_alive_def nothing_def)
  have pd: "api_step PoolDestroy (with_blocks ?s (map snd ?bs)) = Some ?t"
    by (simp add: with_blocks_def ucx_alive_def nothing_def)
  have u: "api_run ?U (with_blocks ?s (map snd ?bs)) = Some (with_blocks ?s (map snd ?bs))"
    by (rule use_ucx [OF rounds]) (simp_all add: with_blocks_def ucx_alive_def nothing_def)
  have "api_run (UCXCommunicator_finalize (plat_size pl)) (with_blocks ?t []) = Some nothing"
    by (subst run_ucx_finalize) (simp_all add: ucx_alive_def nothing_def with_blocks_def)
  then have "api_run ((cs @ PoolCreate ?p # as) @ ?U @ (PoolDestroy # ds) @ UCXCommunicator_finalize (plat_size pl)) nothing = Some nothing"
    unfolding api_run_append [of "cs @ PoolCreate ?p # as"] api_run_append [of cs] api_run_append [of ?U] api_run_append [of "PoolDestroy # ds"]
      r Option.bind.bind_lunit api_run.simps pc ra u pd rd .
  then show ?thesis unfolding l by blast
qed

lemma sdiv_nonneg: "0 \<le> a \<Longrightarrow> 0 < b \<Longrightarrow> a sdiv b = a div (b :: int)"
  by (cases "a = 0") (simp_all add: signed_divide_int_def)

lemma lifecycle_buffer:
  assumes pl: "platform_ok pl" and n: "plat_size pl \<le> 65536" "2 * int (plat_size pl) * 100000 < bufsize"
    and rounds: "rounds_ok (plat_size pl) rounds"
  shows "\<exists>cs. lifecycle pl ''UCX'' ''buffer'' bufsize rounds = Inr cs \<and>
    api_run cs nothing = Some (nothing\<lparr>streams := [CopyStream], host_blocks := never_freed rounds\<rparr>)"
proof -
  let ?N = "plat_size pl" and ?p = "int (pool_size (plat_free_memory pl))"
  let ?cbs = "bufsize sdiv int (2 * ?N) - 100000" and ?q = "fst (plat_cache pl)" and ?h = "snd (plat_cache pl)"
  have N: "0 < ?N" using pl by (auto simp: platform_ok_def)
  have "0 \<le> 2 * int ?N * 100000" by simp
  then have pos: "0 \<le> bufsize" using n(2) by linarith
  have "100000 * int (2 * ?N) \<le> bufsize" using n(2) by (simp add: mult.commute)
  then have "100000 \<le> bufsize div int (2 * ?N)" using zdiv_mono1 [of "100000 * int (2 * ?N)" bufsize "int (2 * ?N)"] N by simp
  then have cbs: "0 \<le> ?cbs" using sdiv_nonneg [OF pos, of "int (2 * ?N)"] N by simp
  obtain cs where i: "UCXCommunicator_initialize UCXBufferCommunicator_initialize_ucx (plat_book pl) (plat_allgather pl) (plat_addresses pl) (plat_rank pl) = Inr cs"
    and r: "api_run cs (nothing\<lparr>has_pool := True\<rparr>) = Some (ucx_alive ?N (nothing\<lparr>has_pool := True\<rparr>))"
    using run_ucx_initialize [OF pl disjI2 [OF refl]] by (auto simp: nothing_def)
  let ?st = "fst (setup_cache ?q (2 * ?N) ?cbs)" and ?len = "?cbs * int (2 * ?N)"
  have c: "setup_cache_calls ?q ?h (2 * ?N) ?cbs = Inr ([DeviceAllocate ?q ?len, UcpMemMap ?q ?len ?h], ?st)"
    using cbs by (simp add: setup_cache_calls_def setup_cache_def register_buffer_def not_less)
  have len: "length (buffer_cache ?st) = 2 * ?N" by (simp add: setup_cache_def)
  obtain q where q: "efold pool_round ?st (map (map op_inline) rounds) = Inr (?st\<lparr>buffer_cache := q\<rparr>)" "mset q = mset (buffer_cache ?st)"
    using pool_rounds_ok [of "map (map op_inline) rounds" ?st] rounds len by (auto simp: rounds_ok_def)
  have "length q = 2 * ?N" using mset_eq_length [OF q(2)] len by simp
  then have f: "UCXBufferCommunicator_finalize_calls ?h ?N (?st\<lparr>buffer_cache := q\<rparr>) =
      [UcpMemUnmap ?h, DeviceDeallocate ?q ?len] @ UCXCommunicator_finalize ?N"
    by (simp add: UCXBufferCommunicator_finalize_calls_def UCXBufferCommunicator_finalize_def setup_cache_def deregister_buffer_def)
  let ?U = "concat (map (round_calls (UCXBuffer ?st ?h)) rounds)"
  have l: "lifecycle pl ''UCX'' ''buffer'' bufsize rounds =
      Inr ((PoolCreate ?p # (cs @ [StreamCreate CopyStream]) @ [DeviceAllocate ?q ?len, UcpMemMap ?q ?len ?h]) @ ?U @
        ([UcpMemUnmap ?h, DeviceDeallocate ?q ?len] @ UCXCommunicator_finalize ?N) @ [PoolDestroy])"
    using N n(1) by (simp add: lifecycle_def setup_memory_pool_and_communicator_def destroy_memory_pool_and_communicator_def
        delete_pool_def initialize_ucx_communicator_def UCXBufferCommunicator_initialize_def i check_mpi_size_def Let_def c q(1) f
        del: of_nat_mult)
  let ?u = "(ucx_alive ?N (nothing\<lparr>has_pool := True\<rparr>))\<lparr>streams := [CopyStream]\<rparr>"
  let ?w = "?u\<lparr>pool_blocks := [(?q, ?len)], mappings := [(?h, ?q)]\<rparr>" and ?v = "?u\<lparr>host_blocks := never_freed rounds\<rparr>"
  let ?M = "[DeviceAllocate ?q ?len, UcpMemMap ?q ?len ?h]" and ?R = "[UcpMemUnmap ?h, DeviceDeallocate ?q ?len]"
  let ?F = "UCXCommunicator_finalize ?N" and ?p1 = "nothing\<lparr>has_pool := True\<rparr>"
  let ?e = "nothing\<lparr>streams := [CopyStream], host_blocks := never_freed rounds\<rparr>"
  have p1: "api_step (PoolCreate ?p) nothing = Some ?p1" by (simp add: nothing_def)
  have p2: "api_step (StreamCreate CopyStream) (ucx_alive ?N ?p1) = Some ?u" by (simp add: ucx_alive_def nothing_def)
  have p3: "api_run ?M ?u = Some ?w" using cbs by (simp add: ucx_alive_def nothing_def)
  have p4: "api_run ?U ?w = Some (?w\<lparr>host_blocks := never_freed rounds\<rparr>)"
    by (rule use_buffer [OF rounds]) (simp_all add: ucx_alive_def nothing_def)
  have p5: "api_run ?R (?w\<lparr>host_blocks := never_freed rounds\<rparr>) = Some ?v" by (simp add: ucx_alive_def nothing_def)
  have p6: "api_run ?F ?v = Some (?e\<lparr>has_pool := True\<rparr>)"
    by (subst run_ucx_finalize) (simp_all add: ucx_alive_def nothing_def)
  have p7: "api_run [PoolDestroy] (?e\<lparr>has_pool := True\<rparr>) = Some ?e" by (simp add: nothing_def)
  have "api_run (PoolCreate ?p # cs @ StreamCreate CopyStream # ?M @ ?U @ ?R @ ?F @ [PoolDestroy]) nothing =
      api_run (cs @ StreamCreate CopyStream # ?M @ ?U @ ?R @ ?F @ [PoolDestroy]) ?p1" by (rule run_Cons [OF p1])
  also have "\<dots> = api_run (StreamCreate CopyStream # ?M @ ?U @ ?R @ ?F @ [PoolDestroy]) (ucx_alive ?N ?p1)" by (rule run_app [OF r])
  also have "\<dots> = api_run (?M @ ?U @ ?R @ ?F @ [PoolDestroy]) ?u" by (rule run_Cons [OF p2])
  also have "\<dots> = api_run (?U @ ?R @ ?F @ [PoolDestroy]) ?w" by (rule run_app [OF p3])
  also have "\<dots> = api_run (?R @ ?F @ [PoolDestroy]) (?w\<lparr>host_blocks := never_freed rounds\<rparr>)" by (rule run_app [OF p4])
  also have "\<dots> = api_run (?F @ [PoolDestroy]) ?v" by (rule run_app [OF p5])
  also have "\<dots> = api_run [PoolDestroy] (?e\<lparr>has_pool := True\<rparr>)" by (rule run_app [OF p6])
  also note p7
  finally show ?thesis unfolding l by simp
qed

section \<open>The communication buffers\<close>

lemma setup_buffers:
  assumes pl: "platform_ok pl" and ranks: "plat_size pl \<le> 65536"
    and size: "2 * int (plat_size pl) * 100000 < communicator_buffer_size"
  shows "\<exists>calls st h. setup_memory_pool_and_communicator pl ''UCX'' ''buffer'' communicator_buffer_size =
      Inr (calls, UCXBuffer st h, None) \<and>
    length (buffer_cache st) = 2 * plat_size pl \<and>
    comm_buffer_size st * int (length (buffer_cache st)) \<le> communicator_buffer_size \<and>
    (\<forall>n. n \<le> comm_buffer_size st \<longleftrightarrow> 2 * int (plat_size pl) * (100000 + n) \<le> communicator_buffer_size)"
proof -
  let ?N = "plat_size pl" and ?q = "fst (plat_cache pl)" and ?h = "snd (plat_cache pl)"
  let ?d = "communicator_buffer_size div int (2 * ?N)"
  have N: "0 < int (2 * ?N)" using pl by (auto simp: platform_ok_def)
  have "0 \<le> 2 * int ?N * 100000" by simp
  then have pos: "0 \<le> communicator_buffer_size" using size by linarith
  have sd: "communicator_buffer_size sdiv int (2 * ?N) = ?d" by (rule sdiv_nonneg [OF pos N])
  have iff: "m \<le> ?d \<longleftrightarrow> m * int (2 * ?N) \<le> communicator_buffer_size" for m
    using N by (metis int_div_less_self linorder_not_le mult.commute div_less_int)
  have "100000 \<le> ?d" unfolding iff using size by simp
  let ?st = "fst (setup_cache ?q (2 * ?N) (?d - 100000))"
  have c: "setup_cache_calls ?q ?h (2 * ?N) (?d - 100000) =
      Inr ([DeviceAllocate ?q ((?d - 100000) * int (2 * ?N)), UcpMemMap ?q ((?d - 100000) * int (2 * ?N)) ?h], ?st)"
    using \<open>100000 \<le> ?d\<close> by (simp add: setup_cache_calls_def setup_cache_def register_buffer_def not_less)
  obtain cs where i: "UCXCommunicator_initialize UCXBufferCommunicator_initialize_ucx (plat_book pl) (plat_allgather pl) (plat_addresses pl) (plat_rank pl) = Inr cs"
    using run_ucx_initialize [OF pl disjI2 [OF refl]] by blast
  have "\<exists>calls. setup_memory_pool_and_communicator pl ''UCX'' ''buffer'' communicator_buffer_size = Inr (calls, UCXBuffer ?st ?h, None)"
    using N ranks c by (simp add: setup_memory_pool_and_communicator_def initialize_ucx_communicator_def
        UCXBufferCommunicator_initialize_def i check_mpi_size_def Let_def sd del: of_nat_mult)
  moreover have "(?d - 100000) * int (2 * ?N) \<le> communicator_buffer_size"
  proof -
    have "?d * int (2 * ?N) \<le> communicator_buffer_size" using iff [of ?d] by simp
    moreover have "0 \<le> 100000 * int (2 * ?N)" by simp
    ultimately show ?thesis unfolding left_diff_distrib by linarith
  qed
  moreover have "n \<le> ?d - 100000 \<longleftrightarrow> 2 * int ?N * (100000 + n) \<le> communicator_buffer_size" for n
    using iff [of "n + 100000"] by (simp add: algebra_simps)
  ultimately show ?thesis by (auto simp: setup_cache_def)
qed

end
