(* ===== verification/Join_Communicators.thy ===== *)
theory Join_Communicators
  imports Join_Properties Setup NCCL_Communicator
begin

text \<open>
  The distributed join over the communicators of the program: \<open>setup_memory_pool_and_communicator\<close>
  makes one of three, each of which says how all-to-alls have to group their messages and
  has its own way to carry them.
\<close>

text \<open>The virtual function \<open>group_by_batch\<close> of the three classes.\<close>

fun group_by_batch :: "communicator \<Rightarrow> bool" where
  "group_by_batch UCX = True"
| "group_by_batch (UCXBuffer st h) = False"
| "group_by_batch NCCL = False"

text \<open>
  A round between \<open>start\<close> and \<open>stop\<close>: \<open>ucx\<close> and \<open>nccl\<close> are the libraries, \<open>alloc\<close> the memory that
  NCCL messages are staged in, and \<open>sched\<close> the completions of the buffer communicator, which
  takes the communication buffers of a round out of its pool.
\<close>

fun round_over ::
  "((rank \<times> 64 word \<times> msg) list list \<Rightarrow> rank \<Rightarrow> 64 word list \<Rightarrow> msg list res) \<Rightarrow>
     ((rank \<times> (nat \<times> nat \<times> byte list)) list list \<Rightarrow> rank \<Rightarrow> rank list \<Rightarrow> (nat \<times> nat \<times> byte list) list res) \<Rightarrow>
     (nat \<Rightarrow> byte list) \<Rightarrow> (rank \<Rightarrow> rank \<Rightarrow> nat \<Rightarrow> bool list) \<Rightarrow> nat \<Rightarrow> communicator \<Rightarrow>
     (rank \<times> msg) list list \<Rightarrow> rank \<Rightarrow> rank list \<Rightarrow> msg list res" where
  "round_over ucx nccl alloc sched N UCX = ucx_round ucx N"
| "round_over ucx nccl alloc sched N (UCXBuffer st h) = buffer_round st sched"
| "round_over ucx nccl alloc sched N NCCL = nccl_round alloc nccl"

text \<open>
  What each class asks of the data: the buffer communicator takes at most 65536 ranks, its
  pool must have a buffer for a send to and a receive from every rank, as many as the setup
  allocates, and a buffer has to hold an element of every size in use.
\<close>

fun communicator_fits :: "communicator \<Rightarrow> nat \<Rightarrow> nat set \<Rightarrow> bool" where
  "communicator_fits UCX N szs = True"
| "communicator_fits (UCXBuffer st h) N szs =
     (N \<le> 65536 \<and> 2 * N \<le> length (buffer_cache st) \<and> (\<forall>sz \<in> szs. 0 < sz \<and> int sz \<le> comm_buffer_size st))"
| "communicator_fits NCCL N szs = True"

text \<open>Every communicator that fits is a transport for whole elements, and groups batches only if it can.\<close>

lemma communicator_transport:
  assumes "ucx_tagged ucx" and "nccl_staging nccl N False alloc" and "communicator_fits c N szs"
  shows "\<exists>okm multi. p2p_transport (round_over ucx nccl alloc sched N c) okm N multi \<and>
    (group_by_batch c \<longrightarrow> multi) \<and> okm_sizes okm szs"
proof (cases c)
  case NCCL
  have "okm_sizes nccl_message szs" by (simp add: okm_sizes_def nccl_message_def)
  moreover have "p2p_transport (nccl_round alloc nccl) nccl_message N False"
    by (rule p2p_transport.intro) (rule nccl_staging.nccl_round_fifo [OF assms(2)])
  ultimately show ?thesis using NCCL by (intro exI [of _ nccl_message] exI [of _ False]) simp
next
  case UCX
  have "okm_sizes (\<lambda>_. True) szs" by (simp add: okm_sizes_def)
  then show ?thesis using ucx_tagged.ucx_round_transport [OF assms(1)] UCX by force
next
  case (UCXBuffer st h)
  have "N \<le> length (buffer_cache st) div 2" using assms(3) UCXBuffer by (simp add: less_eq_div_iff_mult_less_eq mult.commute)
  then have n: "supported_size st N = N" using assms(3) UCXBuffer by (simp add: supported_size_def)
  have "okm_sizes (buffer_message (comm_buffer_size st)) szs"
    using assms(3) UCXBuffer by (auto simp: okm_sizes_def buffer_message_def)
  then show ?thesis
    using buffered.p2p_transport_axioms [of st sched N, unfolded n] UCXBuffer
    by (intro exI [of _ "buffer_message (comm_buffer_size st)"] exI [of _ False]) simp
qed

text \<open>The communicator that the setup makes with registered communication buffers fits.\<close>

lemma setup_buffers_fit:
  assumes pl: "platform_ok pl" and ranks: "plat_size pl \<le> 65536"
    and size: "2 * int (plat_size pl) * 100000 < communicator_buffer_size"
    and szs: "\<forall>sz \<in> szs. 0 < sz \<and> 2 * int (plat_size pl) * (100000 + int sz) \<le> communicator_buffer_size"
  shows "\<exists>calls c. setup_memory_pool_and_communicator pl ''UCX'' ''buffer'' communicator_buffer_size = Inr (calls, c, None) \<and>
    communicator_fits c (plat_size pl) szs"
proof -
  obtain calls st h where s: "setup_memory_pool_and_communicator pl ''UCX'' ''buffer'' communicator_buffer_size =
      Inr (calls, UCXBuffer st h, None)" "length (buffer_cache st) = 2 * plat_size pl"
    "\<forall>n. n \<le> comm_buffer_size st \<longleftrightarrow> 2 * int (plat_size pl) * (100000 + n) \<le> communicator_buffer_size"
    using setup_buffers [OF pl ranks size] by blast
  then have "communicator_fits (UCXBuffer st h) (plat_size pl) szs" using ranks szs by simp
  then show ?thesis using s(1) by blast
qed

text \<open>
  C2. The same over each of the program's communicators: with plain UCX, which matches tags, with
  the communicator that sends every message in batches through registered buffers, and with
  NCCL, which stages every message, the results of all ranks together are the join, under
  the conditions of C1 on the tables and the over-decomposition. The buffer communicator
  asks for at most 65536 ranks, for a pool of two communication buffers per rank, and for
  buffers that hold an element of every column type and the four bytes of a string size.
\<close>
theorem distributed_inner_join_any_communicator:
  assumes "nvcomp_ok nv" and "p2p_transport mpi (\<lambda>_. True) (length left) False"
    and "ucx_tagged ucx" and "nccl_staging nccl (length left) False alloc"
    and "communicator_fits c (length left) (schema_sizes env schl \<union> schema_sizes env schr)"
    and "cudf_ops_ok env ops part"
    and "join_inputs_ok env part schl schr left_on right_on left right
      (get_nvl_partition_size (length left) nvlink_domain_size) over_decom_factor"
    and "table_options_ok env (left ! 0) lopts" and "table_options_ok env (right ! 0) ropts"
  shows "\<exists>outs. distributed_inner_join nv env ops mpi (round_over ucx nccl alloc sched (length left) c) (group_by_batch c)
      left right left_on right_on (replicate (length left) lopts) (replicate (length left) ropts)
      over_decom_factor nvlink_domain_size = Inr outs \<and>
    length outs = length left \<and>
    (\<Sum>r < length left. mset (rows env (outs ! r))) =
      join_rows left_on right_on (\<Sum>r < length left. mset (rows env (left ! r))) (\<Sum>r < length right. mset (rows env (right ! r)))"
proof -
  obtain okm multi where tr: "p2p_transport (round_over ucx nccl alloc sched (length left) c) okm (length left) multi"
      "group_by_batch c \<longrightarrow> multi" "okm_sizes okm (schema_sizes env schl \<union> schema_sizes env schr)"
    using communicator_transport [OF assms(3-5)] by blast
  then have ok: "okm_sizes okm (schema_sizes env schl)" "okm_sizes okm (schema_sizes env schr)"
    by (simp_all add: okm_sizes_def)
  show ?thesis
    using distributed_inner_join_ok [OF assms(1,2) tr(1,2) ok assms(6-9)] unfolding total_rows_def by blast
qed

text \<open>The join of the four ranks, on each communicator.\<close>

definition demo_pool :: buffer_pool where
  "demo_pool = fst (setup_cache 0 8 9)"

lemma demo_pool_sizes: "comm_buffer_size demo_pool = 9" "length (buffer_cache demo_pool) = 8"
  by (simp_all add: demo_pool_def setup_cache_def)

definition demo_join_over :: "communicator \<Rightarrow> nat table list res" where
  "demo_join_over c = distributed_inner_join store_codec demo_env (ref_ops demo_env) fifo_exchange
     (round_over tag_exchange fifo_exchange (\<lambda>n. replicate n 0) (\<lambda>_ _ _. [True, False]) 4 c) (group_by_batch c)
     demo_left demo_right [0] [0] (replicate 4 [default_options, cascaded_options])
     (replicate 4 [default_options, ColumnCompressionOptions CompNone default_format [cascaded_options, default_options]]) 1 1"

definition demo_joined :: "row multiset" where
  "demo_joined = {#[[1, 0, 0, 0], [10], [1, 0, 0, 0], [65, 66]], [[1, 0, 0, 0], [13], [1, 0, 0, 0], [65, 66]],
     [[3, 0, 0, 0], [12], [3, 0, 0, 0], []]#}"

theorem distributed_inner_join_any_communicator_witness:
  "(\<exists>outs. demo_join_over UCX = Inr outs \<and> (\<Sum>r < 4. mset (rows demo_env (outs ! r))) = demo_joined) \<and>
    (\<exists>outs. demo_join_over NCCL = Inr outs \<and> (\<Sum>r < 4. mset (rows demo_env (outs ! r))) = demo_joined) \<and>
    (\<exists>outs. demo_join_over (UCXBuffer demo_pool 7) = Inr outs \<and> (\<Sum>r < 4. mset (rows demo_env (outs ! r))) = demo_joined)"
proof -
  have "\<exists>outs. demo_join_over c = Inr outs \<and> (\<Sum>r < 4. mset (rows demo_env (outs ! r))) = demo_joined"
    if "c = UCX \<or> c = NCCL \<or> c = UCXBuffer demo_pool 7" for c
  proof -
    have fits: "communicator_fits c (length demo_left) (schema_sizes demo_env [Some 4, Some 1] \<union> schema_sizes demo_env [Some 4, None])"
      using that by (auto simp: schema_sizes_def demo_env_def demo_pool_sizes demo_lengths)
    show ?thesis
      unfolding demo_join_over_def demo_joined_def
      using distributed_inner_join_any_communicator [OF store_codec_ok fifo_ok tagged.ucx_tagged_axioms nccl_fifo.nccl_staging_axioms
          fits ref_ops_ok [OF demo_env_ok] demo_inputs demo_options, where sched = "\<lambda>_ _ _. [True, False]",
          unfolded demo_lengths demo_join_sums] by blast
  qed
  then show ?thesis by blast
qed

end
