(* ===== verification/Distribute_Table.thy ===== *)
theory Distribute_Table
  imports Options Shuffle
begin

text \<open>
  \<open>src/src/distribute_table.cpp\<close>: a table of the root rank is dealt out to all ranks in
  blocks of nearly equal size, and tables of all ranks are collected on the root. Both are
  rounds of point-to-point messages with the root on one side.
\<close>

section \<open>Blocks of rows\<close>

definition get_local_table_size :: "nat \<Rightarrow> rank \<Rightarrow> nat \<Rightarrow> nat" where
  "get_local_table_size global_table_size rank mpi_size =
     (let local_table_size = global_table_size div mpi_size in
      if rank < global_table_size mod mpi_size then local_table_size + 1 else local_table_size)"

text \<open>The first row of a rank, \<open>start_idx\<close> of \<open>distribute_cols\<close>.\<close>

definition start_row :: "nat \<Rightarrow> rank \<Rightarrow> nat \<Rightarrow> nat" where
  "start_row global_size irank mpi_size =
     min irank (global_size mod mpi_size) + (global_size div mpi_size) * irank"

lemma start_row_0 [simp]: "start_row G 0 N = 0"
  by (simp add: start_row_def)

lemma start_row_Suc: "start_row G (Suc r) N = start_row G r N + get_local_table_size G r N"
  by (simp add: start_row_def get_local_table_size_def Let_def min_def)

lemma start_row_all: "0 < N \<Longrightarrow> start_row G N N = G"
proof -
  assume "0 < N"
  then have "min N (G mod N) = G mod N" using mod_less_divisor [of N G] by (intro min_absorb2) simp
  then show ?thesis by (simp add: start_row_def)
qed

lemma start_row_mono: "r \<le> s \<Longrightarrow> start_row G r N \<le> start_row G s N"
  by (induction s) (auto simp: start_row_Suc le_Suc_eq)

lemma start_row_le: "0 < N \<Longrightarrow> r \<le> N \<Longrightarrow> start_row G r N \<le> G"
  using start_row_mono [of r N G N] by (simp add: start_row_all)

section \<open>Rounds with the root\<close>

definition scatter_sends :: "nat \<Rightarrow> (rank \<Rightarrow> 'm) \<Rightarrow> (rank \<times> 'm) list list" where
  "scatter_sends N m = map (\<lambda>i. (i, m i)) [1..<N] # replicate (N - 1) []"

definition gather_sends :: "nat \<Rightarrow> (rank \<Rightarrow> 'm) \<Rightarrow> (rank \<times> 'm) list list" where
  "gather_sends N m = [] # map (\<lambda>r. [(0, m r)]) [1..<N]"

context p2p_transport
begin

lemma scatter_round:
  assumes N: "0 < N" "N < 2 ^ 31" and okm: "\<forall>i < N. okm (m i)" and r: "r < N"
  shows "exch (scatter_sends N m) r (if r = 0 then [] else [0]) = Inr (if r = 0 then [] else [m r])"
proof (rule exch_fifo [OF _ r])
  have "distinct (map fst (map (\<lambda>i. (i, m i)) [1..<N]))" by (simp add: comp_def)
  then show "admissible okm N multi (scatter_sends N m)"
    using N okm by (auto simp: admissible_def scatter_sends_def)
  have "msgs_to (map (\<lambda>i. (i, m i)) [1..<N]) r = [m r]" if "r \<noteq> 0"
    using msgs_to_map_distinct [of "[1..<N]" "\<lambda>i. i" r m] r that by auto
  then show "fifo_exchange (scatter_sends N m) r (if r = 0 then [] else [0]) = Inr (if r = 0 then [] else [m r])"
    using N(1) by (simp add: fifo_exchange_def incoming_queues_def scatter_sends_def)
qed

lemma gather_round:
  assumes N: "0 < N" "N < 2 ^ 31" and okm: "\<forall>i < N. okm (m i)" and r: "r < N"
  shows "exch (gather_sends N m) r (if r = 0 then [1..<N] else []) = Inr (if r = 0 then map m [1..<N] else [])"
proof (rule exch_fifo [OF _ r])
  show "admissible okm N multi (gather_sends N m)"
    using N okm by (auto simp: admissible_def gather_sends_def)
  have q: "incoming_queues (gather_sends N m) 0 s = [m s]" if "s \<in> set [1..<N]" for s
    using that by (auto simp: incoming_queues_def gather_sends_def nth_Cons' msgs_to_def)
  have "match_recvs (incoming_queues (gather_sends N m) 0) [1..<N] =
      Inr (map (\<lambda>s. hd (incoming_queues (gather_sends N m) 0 s)) [1..<N],
        \<lambda>s. if s \<in> set [1..<N] then tl (incoming_queues (gather_sends N m) 0 s) else incoming_queues (gather_sends N m) 0 s)"
    using q by (intro match_recvs_distinct) auto
  moreover have "map (\<lambda>s. hd (incoming_queues (gather_sends N m) 0 s)) [1..<N] = map m [1..<N]"
    using q by (intro map_cong) auto
  ultimately show "fifo_exchange (gather_sends N m) r (if r = 0 then [1..<N] else []) = Inr (if r = 0 then map m [1..<N] else [])"
    by (simp add: fifo_exchange_def)
qed

end

section \<open>Distribution\<close>

text \<open>
  One column: the global column of the root and the allocated columns of all ranks. The root
  sends every worker its block and copies its own.
\<close>

definition distribute_cols ::
  "'d cudf \<Rightarrow> ((rank \<times> msg) list list \<Rightarrow> rank \<Rightarrow> rank list \<Rightarrow> msg list res) \<Rightarrow> 'd column \<Rightarrow> 'd column list \<Rightarrow> 'd column list res" where
  "distribute_cols env exch global_col local_cols =
     (let mpi_size = length local_cols;
          dtype_size = (\<lambda>r. int (size_of env (dtype (local_cols ! r))));
          global_size = column_size env global_col;
          block = (\<lambda>r. int (get_local_table_size global_size r mpi_size)) in
      ebind (emap (\<lambda>irank.
          ebind (read_mem (head global_col) (int (start_row global_size irank mpi_size) * dtype_size 0) (block irank * dtype_size 0))
            (\<lambda>b. Inr (irank, (nat (dtype_size 0), b)))) [1..<mpi_size]) (\<lambda>sends.
      emap (\<lambda>r.
          let local_col = local_cols ! r in
          ebind (exch (sends # replicate (mpi_size - 1) []) r (if r = 0 then [] else [0])) (\<lambda>ms.
          ebind (if r = 0
                 then ebind (read_mem (head global_col) 0 (block 0 * dtype_size 0)) (write_mem (head local_col) 0)
                 else complete_recvs (head local_col)
                        [(0, 0, int (column_size env local_col) * dtype_size r)] ms)
            (\<lambda>bs. Inr (FixedWidth (dtype local_col) bs)))) [0..<mpi_size]))"

text \<open>
  The whole table. \<open>bsz\<close> and \<open>bid\<close> are \<open>MPI_Bcast\<close> of sizes and of type ids: of a
  \<open>data_type\<close> only the first four bytes are broadcast, which are its \<open>type_id\<close>, so a
  worker gets \<open>of_id\<close> of it, the type with the default scale. A string column makes
  \<open>make_fixed_width_column\<close> fail.
\<close>

definition distribute_table ::
  "'d cudf \<Rightarrow> (int list \<Rightarrow> int list res) \<Rightarrow> (nat list \<Rightarrow> nat list res) \<Rightarrow> ('d \<Rightarrow> nat) \<Rightarrow> (nat \<Rightarrow> 'd) \<Rightarrow>
     ((rank \<times> msg) list list \<Rightarrow> rank \<Rightarrow> rank list \<Rightarrow> msg list res) \<Rightarrow> nat \<Rightarrow> 'd table \<Rightarrow> 'd table list res" where
  "distribute_table env bsz bid type_id of_id exch mpi_size global_table =
     ebind (bsz (int (num_rows env global_table) # replicate (mpi_size - 1) (-1))) (\<lambda>global_table_size.
     ebind (bsz (int (length global_table) # replicate (mpi_size - 1) (-1))) (\<lambda>ncols.
     ebind (emap (\<lambda>icol.
         case global_table ! icol of
           Strings offs cs \<Rightarrow> Inl ExternalError
         | FixedWidth d bs \<Rightarrow>
             ebind (bid (type_id d # replicate (mpi_size - 1) 0)) (\<lambda>ids.
               Inr (map (\<lambda>r. if r = 0 then d else of_id (ids ! r)) [0..<mpi_size])))
       [0..<nat (hd ncols)]) (\<lambda>columns_dtype.
     ebind (emap (\<lambda>icol.
         distribute_cols env exch (global_table ! icol)
           (map (\<lambda>r. let d = columns_dtype ! icol ! r in
                      FixedWidth d (replicate (get_local_table_size (nat (global_table_size ! r)) r mpi_size * size_of env d) 0))
             [0..<mpi_size]))
       [0..<nat (hd ncols)]) (\<lambda>cols.
     Inr (map (\<lambda>r. map (\<lambda>icol. cols ! icol ! r) [0..<nat (hd ncols)]) [0..<mpi_size])))))"

text \<open>What rank \<open>r\<close> gets of a column.\<close>

definition block_of :: "'d cudf \<Rightarrow> ('d \<Rightarrow> nat) \<Rightarrow> (nat \<Rightarrow> 'd) \<Rightarrow> nat \<Rightarrow> nat \<Rightarrow> rank \<Rightarrow> 'd column \<Rightarrow> 'd column" where
  "block_of env type_id of_id N G r c =
     FixedWidth (if r = 0 then dtype c else of_id (type_id (dtype c)))
       (subrange (head c) (int (start_row G r N) * int (size_of env (dtype c)))
          (int (start_row G (Suc r) N) * int (size_of env (dtype c))))"

lemma block_bounds:
  assumes "0 < N" and "r < N" and "length bs = G * w"
  shows "int (start_row G r N) * int w + int (get_local_table_size G r N) * int w = int (start_row G (Suc r) N) * int w"
    "int (start_row G (Suc r) N) * int w \<le> int (length bs)"
    "length (subrange bs (int (start_row G r N) * int w) (int (start_row G (Suc r) N) * int w)) = get_local_table_size G r N * w"
proof -
  show s: "int (start_row G r N) * int w + int (get_local_table_size G r N) * int w = int (start_row G (Suc r) N) * int w"
    by (simp add: start_row_Suc distrib_right)
  have "start_row G (Suc r) N * w \<le> G * w" using start_row_le [of N "Suc r" G] assms by (intro mult_le_mono1) simp
  then show b: "int (start_row G (Suc r) N) * int w \<le> int (length bs)"
    using assms(3) by (metis of_nat_le_iff of_nat_mult)
  show "length (subrange bs (int (start_row G r N) * int w) (int (start_row G (Suc r) N) * int w)) = get_local_table_size G r N * w"
  proof (subst length_subrange)
    show "int (start_row G r N) * int w \<le> int (start_row G (Suc r) N) * int w" using s by (metis le_add_same_cancel1 of_nat_0_le_iff of_nat_mult)
    show "nat (int (start_row G (Suc r) N) * int w - int (start_row G r N) * int w) = get_local_table_size G r N * w"
      unfolding s [symmetric] by (simp flip: of_nat_mult)
  qed (use b in simp_all)
qed

lemma write_whole: "length mem = length d \<Longrightarrow> write_mem mem 0 d = Inr d"
  by (simp add: write_mem_def)

lemma distribute_cols_ok:
  assumes env: "cudf_ok env" and tr: "p2p_transport exch okm N multi" and N: "0 < N" "N < 2 ^ 31"
    and okm: "okm_sizes okm {size_of env d}" and ty: "\<forall>r < N. size_of env (ty r) = size_of env d" "ty 0 = d"
    and len: "length bs = G * size_of env d"
  shows "distribute_cols env exch (FixedWidth d bs)
      (map (\<lambda>r. FixedWidth (ty r) (replicate (get_local_table_size G r N * size_of env (ty r)) 0)) [0..<N]) =
    Inr (map (\<lambda>r. FixedWidth (ty r) (subrange bs (int (start_row G r N) * int (size_of env d)) (int (start_row G (Suc r) N) * int (size_of env d)))) [0..<N])"
proof -
  let ?w = "size_of env d"
  let ?piece = "\<lambda>r. subrange bs (int (start_row G r N) * int ?w) (int (start_row G (Suc r) N) * int ?w)"
  let ?m = "\<lambda>r. (?w, ?piece r)"
  let ?loc = "map (\<lambda>r. FixedWidth (ty r) (replicate (get_local_table_size G r N * size_of env (ty r)) (0 :: byte))) [0..<N]"
  have w: "0 < ?w" using env by simp
  have G: "column_size env (FixedWidth d bs) = G" using len w by simp
  note b = block_bounds [OF N(1) _ len]
  have rd: "read_mem bs (int (start_row G r N) * int ?w) (int (get_local_table_size G r N) * int ?w) = Inr (?piece r)" if "r < N" for r
    using b [OF that] by (simp add: read_mem_def)
  have sends: "emap (\<lambda>irank. ebind (read_mem bs (int (start_row G irank N) * int ?w) (int (get_local_table_size G irank N) * int ?w))
      (\<lambda>b. Inr (irank, (nat (int ?w), b)))) [1..<N] = Inr (map (\<lambda>i. (i, ?m i)) [1..<N])"
    using rd by (intro emap_Inr) simp
  have okall: "\<forall>i < N. okm (?m i)" using okm b(3) by (auto simp: okm_sizes_def)
  have ex: "exch (map (\<lambda>i. (i, ?m i)) [1..<N] # replicate (N - 1) []) r (if r = 0 then [] else [0]) =
      Inr (if r = 0 then [] else [?m r])" if "r < N" for r
    using p2p_transport.scatter_round [OF tr N okall that] by (simp add: scatter_sends_def)
  have nth: "?loc ! r = FixedWidth (ty r) (replicate (get_local_table_size G r N * ?w) 0)" if "r < N" for r
    using that ty(1) by simp
  have dt: "dtype (?loc ! 0) = d" using nth N(1) ty(2) by simp
  have rd0: "read_mem bs 0 (int (get_local_table_size G 0 N) * int ?w) = Inr (?piece 0)" using rd [OF N(1)] by simp
  show ?thesis
    unfolding distribute_cols_def Let_def G length_map length_upt minus_nat.diff_0 column.sel dt sends ebind.simps
  proof (rule emap_Inr)
    fix r assume "r \<in> set [0..<N]"
    then have r: "r < N" by simp
    let ?mem = "replicate (get_local_table_size G r N * ?w) (0 :: byte)"
    have wr: "write_mem ?mem 0 (?piece r) = Inr (?piece r)" using b(3) [OF r] by (intro write_whole) simp
    have cs: "column_size env (?loc ! r) = get_local_table_size G r N" using nth [OF r] ty(1) r w by simp
    have pl: "int (length (?piece r)) = int (get_local_table_size G r N) * int ?w" using b(3) [OF r] by simp
    have tyr: "size_of env (ty r) = ?w" using ty(1) r by simp
    show "ebind (exch (map (\<lambda>i. (i, ?m i)) [1..<N] # replicate (N - 1) []) r (if r = 0 then [] else [0]))
       (\<lambda>ms. ebind (if r = 0 then ebind (read_mem bs 0 (int (get_local_table_size G 0 N) * int ?w)) (write_mem (head (?loc ! r)) 0)
              else complete_recvs (head (?loc ! r)) [(0, 0, int (column_size env (?loc ! r)) * int (size_of env (dtype (?loc ! r))))] ms)
            (\<lambda>bs. Inr (FixedWidth (dtype (?loc ! r)) bs))) = Inr (FixedWidth (ty r) (?piece r))"
      unfolding ex [OF r] cs unfolding nth [OF r] column.sel ebind.simps rd0 tyr
      using wr pl by (cases "r = 0") simp_all
  qed
qed

text \<open>A table of fixed-width columns with \<open>G\<close> rows.\<close>

definition fixed_table :: "'d cudf \<Rightarrow> nat \<Rightarrow> 'd table \<Rightarrow> bool" where
  "fixed_table env G t \<longleftrightarrow> t \<noteq> [] \<and> table_ok env G t \<and> list_all is_FixedWidth t"

definition ids_ok :: "'d cudf \<Rightarrow> ('d \<Rightarrow> nat) \<Rightarrow> (nat \<Rightarrow> 'd) \<Rightarrow> bool" where
  "ids_ok env type_id of_id \<longleftrightarrow> (\<forall>d. size_of env (of_id (type_id d)) = size_of env d)"

definition column_sizes :: "'d cudf \<Rightarrow> 'd table \<Rightarrow> nat set" where
  "column_sizes env t = (\<lambda>c. size_of env (dtype c)) ` set t"

lemma distribute_table_ok:
  assumes env: "cudf_ok env" and tr: "p2p_transport exch okm N multi" and N: "0 < N" "N < 2 ^ 31"
    and bsz: "broadcast bsz" and bid: "broadcast bid" and ids: "ids_ok env type_id of_id"
    and t: "fixed_table env G t" and okm: "okm_sizes okm (column_sizes env t)"
  shows "distribute_table env bsz bid type_id of_id exch N t =
    Inr (map (\<lambda>r. map (block_of env type_id of_id N G r) t) [0..<N])"
proof -
  note t' = t [unfolded fixed_table_def]
  have nr: "num_rows env t = G" using num_rows_eq [OF env] t' by blast
  have sz: "Suc (N - 1) = N" using N(1) by simp
  note bc = broadcast.bcast_cons
  let ?ty = "\<lambda>i r. if r = 0 then dtype (t ! i) else of_id (type_id (dtype (t ! i)))"
  have col: "t ! i = FixedWidth (dtype (t ! i)) (head (t ! i))" "length (head (t ! i)) = G * size_of env (dtype (t ! i))"
    "size_of env (dtype (t ! i)) \<in> column_sizes env t" if "i < length t" for i
  proof -
    have "is_FixedWidth (t ! i)" "column_ok env G (t ! i)" using t' that by (auto simp: list_all_length table_ok_def)
    then show "t ! i = FixedWidth (dtype (t ! i)) (head (t ! i))" "length (head (t ! i)) = G * size_of env (dtype (t ! i))"
      by (cases "t ! i"; simp)+
    show "size_of env (dtype (t ! i)) \<in> column_sizes env t" using that by (simp add: column_sizes_def)
  qed
  have types: "emap (\<lambda>icol. case t ! icol of Strings offs cs \<Rightarrow> Inl ExternalError
      | FixedWidth d bs \<Rightarrow> ebind (bid (type_id d # replicate (N - 1) 0)) (\<lambda>ids. Inr (map (\<lambda>r. if r = 0 then d else of_id (ids ! r)) [0..<N])))
      [0..<length t] = Inr (map (\<lambda>i. map (?ty i) [0..<N]) [0..<length t])"
  proof (rule emap_Inr)
    fix i assume "i \<in> set [0..<length t]"
    then obtain d bs where c: "t ! i = FixedWidth d bs" using col(1) by (metis atLeastLessThan_iff set_upt)
    have "(type_id d # replicate (N - 1) (type_id d)) ! r = type_id d" if "r < N" for r
      using that by (cases r) simp_all
    then have "map (\<lambda>r. if r = 0 then d else of_id ((type_id d # replicate (N - 1) (type_id d)) ! r)) [0..<N] =
        map (\<lambda>r. if r = 0 then d else of_id (type_id d)) [0..<N]"
      by (intro map_cong) simp_all
    then show "(case t ! i of Strings offs cs \<Rightarrow> Inl ExternalError
      | FixedWidth d bs \<Rightarrow> ebind (bid (type_id d # replicate (N - 1) 0)) (\<lambda>ids. Inr (map (\<lambda>r. if r = 0 then d else of_id (ids ! r)) [0..<N]))) =
      Inr (map (?ty i) [0..<N])"
      by (simp add: c bc [OF bid])
  qed
  have cols: "emap (\<lambda>icol. distribute_cols env exch (t ! icol) (map (\<lambda>r. let d = map (\<lambda>i. map (?ty i) [0..<N]) [0..<length t] ! icol ! r in
        FixedWidth d (replicate (get_local_table_size (nat (replicate N (int G) ! r)) r N * size_of env d) 0)) [0..<N]))
      [0..<length t] = Inr (map (\<lambda>i. map (\<lambda>r. block_of env type_id of_id N G r (t ! i)) [0..<N]) [0..<length t])"
  proof (rule emap_Inr)
    fix i assume "i \<in> set [0..<length t]"
    then have i: "i < length t" by simp
    have g: "replicate N (int G) ! r = int G" if "r < N" for r using that by simp
    have loc: "map (\<lambda>r. let d = map (\<lambda>i. map (?ty i) [0..<N]) [0..<length t] ! i ! r in
        FixedWidth d (replicate (get_local_table_size (nat (replicate N (int G) ! r)) r N * size_of env d) (0 :: byte))) [0..<N] =
        map (\<lambda>r. FixedWidth (?ty i r) (replicate (get_local_table_size G r N * size_of env (?ty i r)) 0)) [0..<N]"
      using i g by (intro map_cong) (simp_all add: Let_def)
    have ok: "okm_sizes okm {size_of env (dtype (t ! i))}" using okm col(3) [OF i] by (auto simp: okm_sizes_def)
    have "\<forall>r < N. size_of env (?ty i r) = size_of env (dtype (t ! i))" using ids by (simp add: ids_ok_def)
    from distribute_cols_ok [OF env tr N ok this _ col(2) [OF i]]
    show "distribute_cols env exch (t ! i) (map (\<lambda>r. let d = map (\<lambda>i. map (?ty i) [0..<N]) [0..<length t] ! i ! r in
        FixedWidth d (replicate (get_local_table_size (nat (replicate N (int G) ! r)) r N * size_of env d) 0)) [0..<N]) =
      Inr (map (\<lambda>r. block_of env type_id of_id N G r (t ! i)) [0..<N])"
      unfolding loc using col(1) [OF i] by (simp add: block_of_def)
  qed
  have rows_back: "map (\<lambda>i. map (\<lambda>i. map (\<lambda>r. block_of env type_id of_id N G r (t ! i)) [0..<N]) [0..<length t] ! i ! r) [0..<length t] =
      map (block_of env type_id of_id N G r) t" if "r < N" for r
    using that by (intro nth_equalityI) simp_all
  have hd: "nat (hd (replicate N (int (length t)))) = length t" using N(1) by simp
  show ?thesis
    unfolding distribute_table_def nr bc [OF bsz] ebind.simps length_replicate sz hd types cols
    using rows_back by simp
qed

section \<open>Collection\<close>

text \<open>\<open>MPI_Gather\<close>: the root gets the values of all ranks in the order of the ranks.\<close>

locale gather =
  fixes gth :: "'a list \<Rightarrow> 'a list res"
  assumes gather_all: "gth xs = Inr xs"

interpretation at_root: gather Inr
  by unfold_locales simp

text \<open>The scan of the row counts in \<open>size_type\<close>.\<close>

fun scan_rows :: "int \<Rightarrow> int list \<Rightarrow> int list" where
  "scan_rows acc [] = [acc]"
| "scan_rows acc (n # ns) = acc # scan_rows (narrow32 (acc + n)) ns"

definition collect_tables ::
  "'d cudf \<Rightarrow> (int list \<Rightarrow> int list res) \<Rightarrow> ((rank \<times> msg) list list \<Rightarrow> rank \<Rightarrow> rank list \<Rightarrow> msg list res) \<Rightarrow>
     'd table list \<Rightarrow> 'd table option list res" where
  "collect_tables env gth exch T =
     (let mpi_size = length T in
      ebind (gth (map (\<lambda>t. int (num_rows env t)) T)) (\<lambda>table_nrows.
      let table_nrows_scan = scan_rows 0 table_nrows in
      ebind (emap (\<lambda>c. case c of
          Strings offs cs \<Rightarrow> Inl ExternalError
        | FixedWidth d bs \<Rightarrow>
            if last table_nrows_scan < 0 then Inl ExternalError
            else Inr (FixedWidth d (replicate (nat (last table_nrows_scan) * size_of env d) 0))) (T ! 0)) (\<lambda>merged_columns.
      ebind (emap (\<lambda>icol.
          let dtype_size = (\<lambda>r. int (size_of env (dtype (T ! r ! icol)))) in
          ebind (emap (\<lambda>r. ebind (read_mem (head (T ! r ! icol)) 0 (int (num_rows env (T ! r)) * dtype_size r)) (\<lambda>b.
                   Inr [(0, (nat (dtype_size r), b))])) [1..<mpi_size]) (\<lambda>sends.
          ebind (emap (\<lambda>r. exch ([] # sends) r (if r = 0 then [1..<mpi_size] else [])) [0..<mpi_size]) (\<lambda>received.
          ebind (read_mem (head (T ! 0 ! icol)) 0 (table_nrows ! 0 * dtype_size 0)) (\<lambda>own.
          ebind (write_mem (head (merged_columns ! icol)) 0 own) (\<lambda>mem.
          ebind (complete_recvs mem
                   (map (\<lambda>irank. (irank, table_nrows_scan ! irank * dtype_size 0, table_nrows ! irank * dtype_size 0)) [1..<mpi_size])
                   (received ! 0)) (\<lambda>bs.
            Inr (FixedWidth (dtype (merged_columns ! icol)) bs))))))) [0..<length (T ! 0)]) (\<lambda>merged.
      Inr (Some merged # replicate (mpi_size - 1) None)))))"

lemma scan_rows_eq:
  assumes "\<forall>n \<in> set ns. 0 \<le> n" and "0 \<le> acc" and "acc + sum_list ns < 2 ^ 31"
  shows "scan_rows acc ns = acc # partial_sum acc ns"
  using assms
proof (induction ns arbitrary: acc)
  case (Cons n ns)
  have "0 \<le> sum_list ns" using Cons.prems(1) by (intro sum_list_nonneg) simp
  then have "narrow32 (acc + n) = acc + n" using Cons.prems by (intro narrow32_id) simp_all
  then show ?case using Cons by simp
qed simp

text \<open>Tables of the same fixed-width columns on all ranks, with few enough rows in total.\<close>

definition collectable :: "'d cudf \<Rightarrow> 'd table list \<Rightarrow> bool" where
  "collectable env T \<longleftrightarrow>
     T \<noteq> [] \<and> length T < 2 ^ 31 \<and> (\<forall>t \<in> set T. fixed_table env (num_rows env t) t \<and>
       map (\<lambda>c. size_of env (dtype c)) t = map (\<lambda>c. size_of env (dtype c)) (T ! 0)) \<and>
     (\<Sum>t \<leftarrow> T. int (num_rows env t)) < 2 ^ 31"

definition collected :: "'d table list \<Rightarrow> 'd table" where
  "collected T = map (\<lambda>i. FixedWidth (dtype (T ! 0 ! i)) (concat (map (\<lambda>t. head (t ! i)) T))) [0..<length (T ! 0)]"

lemma nth_collected:
  "i < length (T ! 0) \<Longrightarrow> collected T ! i = FixedWidth (dtype (T ! 0 ! i)) (concat (map (\<lambda>t. head (t ! i)) T))"
  by (simp add: collected_def)

lemma collectable_col:
  assumes c: "collectable env T" and r: "r < length T" and i: "i < length (T ! 0)"
  shows "T ! r ! i = FixedWidth (dtype (T ! r ! i)) (head (T ! r ! i))"
    "length (head (T ! r ! i)) = num_rows env (T ! r) * size_of env (dtype (T ! r ! i))"
    "size_of env (dtype (T ! r ! i)) = size_of env (dtype (T ! 0 ! i))"
proof -
  have f: "fixed_table env (num_rows env (T ! r)) (T ! r)"
    and m: "map (\<lambda>c. size_of env (dtype c)) (T ! r) = map (\<lambda>c. size_of env (dtype c)) (T ! 0)"
    using c nth_mem [OF r] unfolding collectable_def by blast+
  have l: "i < length (T ! r)" using map_eq_imp_length_eq [OF m] i by simp
  show "size_of env (dtype (T ! r ! i)) = size_of env (dtype (T ! 0 ! i))"
    using arg_cong [OF m, of "\<lambda>xs. xs ! i"] l i by simp
  have "is_FixedWidth (T ! r ! i)" "column_ok env (num_rows env (T ! r)) (T ! r ! i)"
    using f l by (auto simp: fixed_table_def list_all_length table_ok_def)
  then show "T ! r ! i = FixedWidth (dtype (T ! r ! i)) (head (T ! r ! i))"
    "length (head (T ! r ! i)) = num_rows env (T ! r) * size_of env (dtype (T ! r ! i))"
    by (cases "T ! r ! i"; simp)+
qed

text \<open>The memory of one merged column: the own block at the start, the others behind it.\<close>

lemma collect_memory:
  assumes d: "\<forall>r < N. int (length (d r)) = ns ! r * int w" and ns: "length ns = N" "\<forall>n \<in> set ns. 0 \<le> n" and N: "0 < N"
    and mem: "int (length mem) = (0 # partial_sum 0 ns) ! N * int w"
  shows "ebind (write_mem mem 0 (d 0)) (\<lambda>mem. complete_recvs mem
      (map (\<lambda>r. (r, (0 # partial_sum 0 ns) ! r * int w, ns ! r * int w)) [1..<N]) (map (\<lambda>r. (z, d r)) [1..<N])) =
    Inr (concat (map d [0..<N]))"
proof -
  let ?addr = "\<lambda>r. (0 # partial_sum 0 ns) ! r * int w"
  have ok: "offsets_ok N (0 # partial_sum 0 ns)" using ns by (intro offsets_ok_partial_sum)
  have addr: "addresses N ?addr" using addresses_offsets [OF ok, of w] by simp
  have diff: "int (length (d r)) = ?addr (Suc r) - ?addr r" if "r < N" for r
    using d that partial_sum_diff [of r ns 0] ns(1) by (simp add: left_diff_distrib [symmetric])
  have "efold (\<lambda>m r. if True then write_mem m (?addr r) (d r) else Inr m) mem [0..<N] =
      Inr (concat (map (\<lambda>r. if True then d r else subrange mem (?addr r) (?addr (Suc r))) [0..<N]))"
    by (rule write_all_segments [OF addr mem]) (simp add: diff)
  then have all: "efold (\<lambda>m r. write_mem m (?addr r) (d r)) mem [0..<N] = Inr (concat (map d [0..<N]))"
    by simp
  have cr: "complete_recvs mem' (map (\<lambda>r. (r, ?addr r, ns ! r * int w)) [1..<N]) (map (\<lambda>r. (z, d r)) [1..<N]) =
      efold (\<lambda>mem r. write_mem mem (?addr r) (d r)) mem' [1..<N]" for mem'
    using complete_recvs_efold [of "[1..<N]" "\<lambda>r. (z, d r)" "\<lambda>r. ns ! r * int w" mem' "\<lambda>r. r" ?addr] d by simp
  have "[0..<N] = 0 # [1..<N]" using N by (simp add: upt_conv_Cons)
  then have "efold (\<lambda>m r. write_mem m (?addr r) (d r)) mem [0..<N] =
      ebind (write_mem mem 0 (d 0)) (\<lambda>m. efold (\<lambda>m r. write_mem m (?addr r) (d r)) m [1..<N])"
    by simp
  then show ?thesis using all by (simp only: cr)
qed

lemma collect_tables_ok:
  assumes env: "cudf_ok env" and tr: "p2p_transport exch okm (length T) multi"
    and gth: "gather gth" and T: "collectable env T" and okm: "okm_sizes okm (column_sizes env (T ! 0))"
  shows "collect_tables env gth exch T = Inr (Some (collected T) # replicate (length T - 1) None)"
proof -
  let ?N = "length T" and ?ns = "map (\<lambda>t. int (num_rows env t)) T"
  let ?scan = "0 # partial_sum 0 ?ns"
  have N: "0 < ?N" "?N < 2 ^ 31" and tot: "sum_list ?ns < 2 ^ 31" using T unfolding collectable_def by blast+
  note col = collectable_col [OF T]
  have scan: "scan_rows 0 ?ns = ?scan" using tot by (intro scan_rows_eq) auto
  have lst: "last ?scan = sum_list ?ns" and lstN: "?scan ! ?N = sum_list ?ns"
  proof -
    have "length ?scan - 1 = ?N" by simp
    then have "last ?scan = ?scan ! ?N" by (metis last_conv_nth list.distinct(1))
    moreover have "?scan ! ?N = 0 + sum_list (take ?N ?ns)" by (rule partial_sum_nth) simp
    ultimately show "last ?scan = sum_list ?ns" "?scan ! ?N = sum_list ?ns" by simp_all
  qed
  have pos: "0 \<le> sum_list ?ns" by (intro sum_list_nonneg) auto
  have T0: "T ! 0 \<noteq> []" "list_all is_FixedWidth (T ! 0)"
    using T nth_mem [OF N(1)] unfolding collectable_def fixed_table_def by blast+
  let ?alloc = "\<lambda>c. FixedWidth (dtype c) (replicate (nat (sum_list ?ns) * size_of env (dtype c)) (0 :: byte))"
  have merged: "emap (\<lambda>c. case c of Strings offs cs \<Rightarrow> Inl ExternalError
        | FixedWidth d bs \<Rightarrow> if sum_list ?ns < 0 then Inl ExternalError
            else Inr (FixedWidth d (replicate (nat (sum_list ?ns) * size_of env d) 0))) (T ! 0) = Inr (map ?alloc (T ! 0))"
    using T0(2) pos by (intro emap_Inr) (auto simp: list_all_iff is_FixedWidth_def)
  let ?w = "\<lambda>i. size_of env (dtype (T ! 0 ! i))"
  have each: "(let dtype_size = (\<lambda>r. int (size_of env (dtype (T ! r ! i)))) in
          ebind (emap (\<lambda>r. ebind (read_mem (head (T ! r ! i)) 0 (int (num_rows env (T ! r)) * dtype_size r)) (\<lambda>b.
                   Inr [(0, (nat (dtype_size r), b))])) [1..<?N]) (\<lambda>sends.
          ebind (emap (\<lambda>r. exch ([] # sends) r (if r = 0 then [1..<?N] else [])) [0..<?N]) (\<lambda>received.
          ebind (read_mem (head (T ! 0 ! i)) 0 (?ns ! 0 * dtype_size 0)) (\<lambda>own.
          ebind (write_mem (head (map ?alloc (T ! 0) ! i)) 0 own) (\<lambda>mem.
          ebind (complete_recvs mem (map (\<lambda>irank. (irank, ?scan ! irank * dtype_size 0, ?ns ! irank * dtype_size 0)) [1..<?N])
                   (received ! 0)) (\<lambda>bs.
            Inr (FixedWidth (dtype (map ?alloc (T ! 0) ! i)) bs))))))) =
      Inr (FixedWidth (dtype (T ! 0 ! i)) (concat (map (\<lambda>t. head (t ! i)) T)))" if i: "i < length (T ! 0)" for i
  proof -
    let ?d = "\<lambda>r. head (T ! r ! i)"
    let ?m = "\<lambda>r. (?w i, ?d r)"
    have len: "length (?d r) = num_rows env (T ! r) * ?w i" if "r < ?N" for r using col(2,3) [OF that i] by simp
    have rd: "read_mem (?d r) 0 (int (num_rows env (T ! r)) * int (?w i)) = Inr (?d r)" if "r < ?N" for r
    proof -
      have "int (num_rows env (T ! r)) * int (?w i) = int (length (?d r))" using len [OF that] by simp
      then show ?thesis by simp
    qed
    have sends: "emap (\<lambda>r. ebind (read_mem (?d r) 0 (int (num_rows env (T ! r)) * int (size_of env (dtype (T ! r ! i))))) (\<lambda>b.
        Inr [(0, (nat (int (size_of env (dtype (T ! r ! i)))), b))])) [1..<?N] = Inr (map (\<lambda>r. [(0, ?m r)]) [1..<?N])"
      using rd col(3) [OF _ i] by (intro emap_Inr) simp
    have ok: "\<forall>r < ?N. okm (?m r)"
    proof (intro allI impI)
      fix r assume "r < ?N"
      from len [OF this] have "?w i dvd length (?d r)" by simp
      moreover have "?w i \<in> column_sizes env (T ! 0)" using i by (simp add: column_sizes_def)
      ultimately show "okm (?m r)" using okm unfolding okm_sizes_def by blast
    qed
    have rcv: "emap (\<lambda>r. exch ([] # map (\<lambda>r. [(0, ?m r)]) [1..<?N]) r (if r = 0 then [1..<?N] else [])) [0..<?N] =
        Inr (map (\<lambda>r. if r = 0 then map ?m [1..<?N] else []) [0..<?N])"
      using p2p_transport.gather_round [OF tr N ok, unfolded gather_sends_def] by (intro emap_Inr) simp
    have r0: "map (\<lambda>r. if r = 0 then map ?m [1..<?N] else []) [0..<?N] ! 0 = map ?m [1..<?N]" using N by simp
    have own: "read_mem (?d 0) 0 (?ns ! 0 * int (?w i)) = Inr (?d 0)" using rd [OF N(1)] N by simp
    have al: "head (map ?alloc (T ! 0) ! i) = replicate (nat (sum_list ?ns) * ?w i) 0" "dtype (map ?alloc (T ! 0) ! i) = dtype (T ! 0 ! i)"
      using i by simp_all
    have ml: "int (length (replicate (nat (sum_list ?ns) * ?w i) (0 :: byte))) = ?scan ! ?N * int (?w i)"
      using lstN pos by simp
    have dl: "\<forall>r < ?N. int (length (?d r)) = ?ns ! r * int (?w i)" using len by simp
    have nsl: "length ?ns = ?N" "\<forall>n \<in> set ?ns. 0 \<le> n" by auto
    have cm: "ebind (write_mem (replicate (nat (sum_list ?ns) * ?w i) 0) 0 (?d 0)) (\<lambda>mem. complete_recvs mem
      (map (\<lambda>r. (r, ?scan ! r * int (?w i), ?ns ! r * int (?w i))) [1..<?N]) (map ?m [1..<?N])) =
      Inr (concat (map ?d [0..<?N]))"
      by (rule collect_memory [OF dl nsl N(1) ml])
    have heads: "map ?d [0..<?N] = map (\<lambda>t. head (t ! i)) T" by (rule nth_equalityI) simp_all
    show ?thesis
      unfolding Let_def sends ebind.simps rcv r0 own al using cm unfolding heads
      by (simp only: ebind_assoc [symmetric] ebind.simps)
  qed
  show ?thesis
    unfolding collect_tables_def gather.gather_all [OF gth] ebind.simps scan Let_def [of T] Let_def [of "length T"] Let_def [of ?scan] lst merged
    using each by (subst emap_Inr [where g = "\<lambda>i. FixedWidth (dtype (T ! 0 ! i)) (concat (map (\<lambda>t. head (t ! i)) T))"])
      (simp_all add: collected_def)
qed

section \<open>Properties\<close>

lemma concat_blocks:
  assumes "\<forall>r < n. 0 \<le> addr r \<and> addr r \<le> (addr (Suc r) :: int)" and "addr 0 = 0"
  shows "concat (map (\<lambda>r. subrange bs (addr r) (addr (Suc r))) [0..<n]) = subrange bs 0 (addr n)"
  using assms(1)
proof (induction n)
  case (Suc n)
  then have "0 \<le> addr n" "addr n \<le> addr (Suc n)" by auto
  then show ?case using Suc subrange_append [of 0 "addr n" "addr (Suc n)" bs] by simp
qed (use assms(2) in simp)

lemma block_cell:
  assumes w: "size_of env d' = size_of env d" and i: "a + i < b"
  shows "cell env (FixedWidth d' (subrange bs (int a * int (size_of env d)) (int b * int (size_of env d)))) i =
    cell env (FixedWidth d bs) (a + i)"
proof -
  have "slice_rows env (FixedWidth d bs) a b ! i = column_rows env (b - a)
      (FixedWidth d (subrange bs (int a * int (size_of env d)) (int b * int (size_of env d)))) ! i"
    using i by (subst slice_fixed) simp_all
  then show ?thesis using i by (simp add: slice_rows_def column_rows_def w)
qed

text \<open>The block of a rank is a table, and holds its rows of the whole table.\<close>

lemma block_table:
  assumes N: "0 < N" and ids: "ids_ok env type_id of_id" and t: "fixed_table env G t" and r: "r < N"
  shows "table_ok env (get_local_table_size G r N) (map (block_of env type_id of_id N G r) t)"
    and "table_rows env (get_local_table_size G r N) (map (block_of env type_id of_id N G r) t) =
      subrange (table_rows env G t) (int (start_row G r N)) (int (start_row G (Suc r) N))"
proof -
  let ?b = "block_of env type_id of_id N G"
  have c: "\<exists>bs. c = FixedWidth (dtype c) bs \<and> length bs = G * size_of env (dtype c)" if "c \<in> set t" for c
    using t that by (cases c) (auto simp: fixed_table_def table_ok_def list_all_iff)
  have w: "size_of env (if r = 0 then d else of_id (type_id d)) = size_of env d" for d
    using ids by (simp add: ids_ok_def)
  show "table_ok env (get_local_table_size G r N) (map (?b r) t)"
    unfolding table_ok_def list_all_iff set_map
  proof (intro ballI, elim imageE)
    fix y c assume y: "y = ?b r c" and "c \<in> set t"
    from c [OF this(2)] obtain bs where bs: "c = FixedWidth (dtype c) bs" "length bs = G * size_of env (dtype c)" by blast
    have "head c = bs" using bs(1) by (metis column.sel(2))
    then show "column_ok env (get_local_table_size G r N) y"
      unfolding y block_of_def using block_bounds(3) [OF N r bs(2)] w by simp
  qed
  let ?n = "get_local_table_size G r N" and ?a = "start_row G r N"
  have an: "start_row G (Suc r) N = ?a + ?n" by (rule start_row_Suc)
  have le: "?a + ?n \<le> G" using start_row_le [of N "Suc r" G] N r an by simp
  show "table_rows env ?n (map (?b r) t) = subrange (table_rows env G t) (int ?a) (int (start_row G (Suc r) N))"
  proof (rule nth_equalityI)
    fix i assume "i < length (table_rows env ?n (map (?b r) t))"
    then have i: "i < ?n" by simp
    have "cell env (?b r c) i = cell env c (?a + i)" if "c \<in> set t" for c
    proof -
      from c [OF that] obtain bs where bs: "c = FixedWidth (dtype c) bs" by blast
      have "head c = bs" using bs by (metis column.sel(2))
      then have "cell env (?b r c) i = cell env (FixedWidth (dtype c) bs) (?a + i)"
        unfolding block_of_def using i an by (simp only:) (intro block_cell [OF w], simp)
      then show ?thesis using bs by simp
    qed
    moreover have "subrange (table_rows env G t) (int ?a) (int (start_row G (Suc r) N)) ! i = table_rows env G t ! (?a + i)"
      using i an le by (subst nth_subrange) simp_all
    ultimately show "table_rows env ?n (map (?b r) t) ! i = subrange (table_rows env G t) (int ?a) (int (start_row G (Suc r) N)) ! i"
      using i le by (simp add: table_rows_def)
  qed (use an le in \<open>simp add: length_subrange\<close>)
qed

text \<open>
  C27. \<open>distribute_table\<close> deals out the rows of the root in order: it ends without error,
  and rank \<open>r\<close> gets a well-formed table whose rows are the \<open>r\<close>-th block, with the row
  counts \<open>get_local_table_size\<close> announces. Its columns are of fixed width and as many as
  the root's; on the root they have the types of the table, on a worker the type that the
  broadcast of four bytes carries, the type with the id of the root's.
\<close>
theorem distribute_table_blocks:
  assumes "cudf_ok env" and "p2p_transport exch okm N multi" and "0 < N" and "N < 2 ^ 31"
    and "broadcast bsz" and "broadcast bid" and ids: "ids_ok env type_id of_id"
    and t: "fixed_table env G t" and "okm_sizes okm (column_sizes env t)"
  shows "\<exists>outs. distribute_table env bsz bid type_id of_id exch N t = Inr outs \<and> length outs = N \<and>
    (\<forall>r < N. table_ok env (get_local_table_size G r N) (outs ! r) \<and>
       table_rows env (get_local_table_size G r N) (outs ! r) =
         subrange (table_rows env G t) (int (start_row G r N)) (int (start_row G (Suc r) N)) \<and>
       schema (outs ! r) = map (\<lambda>c. Some (if r = 0 then dtype c else of_id (type_id (dtype c)))) t)"
proof -
  have schema: "schema (map (block_of env type_id of_id N G r) t) =
      map (\<lambda>c. Some (if r = 0 then dtype c else of_id (type_id (dtype c)))) t" for r
    by (simp add: schema_def block_of_def)
  have "distribute_table env bsz bid type_id of_id exch N t = Inr (map (\<lambda>r. map (block_of env type_id of_id N G r) t) [0..<N])"
    by (rule distribute_table_ok [OF assms])
  then show ?thesis using block_table [OF assms(3) ids t] schema
    by (intro exI [of _ "map (\<lambda>r. map (block_of env type_id of_id N G r) t) [0..<N]"]) simp
qed

lemma sum_local_sizes: "0 < N \<Longrightarrow> (\<Sum>r < N. get_local_table_size G r N) = G"
proof -
  assume N: "0 < N"
  have "(\<Sum>r < k. get_local_table_size G r N) = start_row G k N" for k by (induction k) (simp_all add: start_row_Suc)
  then show ?thesis using N by (simp add: start_row_all)
qed

lemma blocks_collectable:
  assumes env: "cudf_ok env" and N: "0 < N" "N < 2 ^ 31" and ids: "ids_ok env type_id of_id"
    and t: "fixed_table env G t" and G: "G < 2 ^ 31"
  shows "collectable env (map (\<lambda>r. map (block_of env type_id of_id N G r) t) [0..<N])"
proof -
  let ?b = "block_of env type_id of_id N G" and ?T = "map (\<lambda>r. map (block_of env type_id of_id N G r) t) [0..<N]"
  have w: "size_of env (dtype (?b r c)) = size_of env (dtype c)" for r c
    using ids by (simp add: block_of_def ids_ok_def)
  have c: "length (head c) = G * size_of env (dtype c)" if "c \<in> set t" for c
    using t that by (cases c) (auto simp: fixed_table_def table_ok_def list_all_iff)
  have fixed: "fixed_table env (get_local_table_size G r N) (map (?b r) t)" if r: "r < N" for r
  proof -
    have "column_ok env (get_local_table_size G r N) (?b r c)" if "c \<in> set t" for c
      using block_bounds(3) [OF N(1) r c [OF that]] w [of r c] by (simp add: block_of_def)
    then show ?thesis using t by (simp add: fixed_table_def table_ok_def list_all_iff block_of_def)
  qed
  have nr: "num_rows env (map (?b r) t) = get_local_table_size G r N" if "r < N" for r
    using fixed [OF that] num_rows_eq [OF env] unfolding fixed_table_def by blast
  have "?T ! 0 = map (?b 0) t" using N(1) by simp
  then have sizes: "map (\<lambda>c. size_of env (dtype c)) (map (?b r) t) = map (\<lambda>c. size_of env (dtype c)) (?T ! 0)" for r
    by (simp add: w)
  have "(\<Sum>t \<leftarrow> ?T. int (num_rows env t)) = (\<Sum>r \<leftarrow> [0..<N]. int (get_local_table_size G r N))"
    unfolding map_map by (rule sum_list_cong) (simp add: nr)
  also have "\<dots> = int G" using sum_local_sizes [OF N(1), of G] by (simp add: sum_list_upt flip: of_nat_sum)
  finally have tot: "(\<Sum>t \<leftarrow> ?T. int (num_rows env t)) < 2 ^ 31" using G by simp
  have "fixed_table env (num_rows env u) u \<and>
      map (\<lambda>c. size_of env (dtype c)) u = map (\<lambda>c. size_of env (dtype c)) (?T ! 0)" if "u \<in> set ?T" for u
  proof -
    obtain r where r: "r < N" "u = map (?b r) t" using \<open>u \<in> set ?T\<close> by auto
    show ?thesis unfolding r(2) nr [OF r(1)] using fixed [OF r(1)] sizes by blast
  qed
  then show ?thesis using N tot unfolding collectable_def by (intro conjI ballI) (simp_all del: map_map)
qed

text \<open>
  C28. Collecting the distributed pieces gives back the table of the root, byte for byte and
  with its types, and nothing on the other ranks. This holds although the workers get the
  types of the pieces without their scale.
\<close>
theorem distribute_collect_roundtrip:
  assumes "cudf_ok env" and "p2p_transport exch okm N multi" and "0 < N" and "N < 2 ^ 31"
    and "broadcast bsz" and "broadcast bid" and ids: "ids_ok env type_id of_id"
    and t: "fixed_table env G t" and okm: "okm_sizes okm (column_sizes env t)"
    and G: "G < 2 ^ 31" and gth: "gather gth"
  shows "ebind (distribute_table env bsz bid type_id of_id exch N t) (collect_tables env gth exch) =
    Inr (Some t # replicate (N - 1) None)"
proof -
  let ?b = "block_of env type_id of_id N G" and ?T = "map (\<lambda>r. map (block_of env type_id of_id N G r) t) [0..<N]"
  have c: "c = FixedWidth (dtype c) (head c) \<and> length (head c) = G * size_of env (dtype c)" if "c \<in> set t" for c
    using t that by (cases c) (auto simp: fixed_table_def table_ok_def list_all_iff)
  have T0: "?T ! 0 = map (?b 0) t" using assms(3) by simp
  have "column_sizes env (?T ! 0) = column_sizes env t"
    unfolding T0 column_sizes_def set_map image_image by (simp add: block_of_def)
  then have okm': "okm_sizes okm (column_sizes env (?T ! 0))" using okm by simp
  have lenT: "length ?T = N" by simp
  have run: "collect_tables env gth exch ?T = Inr (Some (collected ?T) # replicate (length ?T - 1) None)"
    by (rule collect_tables_ok [OF assms(1) _ gth blocks_collectable [OF assms(1,3,4) ids t G] okm'])
      (use assms(2) lenT in simp)
  have "collected ?T = t"
  proof (rule nth_equalityI)
    have l: "length (?T ! 0) = length t" unfolding T0 by simp
    show "length (collected ?T) = length t" using l by (simp add: collected_def del: nth_map)
    fix i assume "i < length (collected ?T)"
    then have i: "i < length t" using l by (simp add: collected_def del: nth_map)
    let ?w = "size_of env (dtype (t ! i))" and ?addr = "\<lambda>r. int (start_row G r N) * int (size_of env (dtype (t ! i)))"
    note ci = c [OF nth_mem [OF i]]
    have "map (\<lambda>u. head (u ! i)) ?T = map (\<lambda>r. subrange (head (t ! i)) (?addr r) (?addr (Suc r))) [0..<N]"
      using i by (simp add: block_of_def)
    moreover have "concat (map (\<lambda>r. subrange (head (t ! i)) (?addr r) (?addr (Suc r))) [0..<N]) = subrange (head (t ! i)) 0 (?addr N)"
    proof (rule concat_blocks)
      show "\<forall>r < N. 0 \<le> ?addr r \<and> ?addr r \<le> ?addr (Suc r)"
        using start_row_mono [of _ "Suc _" G N] by (auto intro!: mult_right_mono)
    qed simp
    moreover have "?addr N = int (length (head (t ! i)))" using ci start_row_all [OF assms(3), of G] by simp
    ultimately have "concat (map (\<lambda>u. head (u ! i)) ?T) = head (t ! i)" by (simp only: subrange_all)
    moreover have "dtype (?T ! 0 ! i) = dtype (t ! i)" unfolding T0 using i by (simp add: block_of_def)
    moreover have "collected ?T ! i = FixedWidth (dtype (?T ! 0 ! i)) (concat (map (\<lambda>u. head (u ! i)) ?T))"
      by (rule nth_collected) (simp only: l i)
    ultimately show "collected ?T ! i = t ! i" using ci by (simp only:)
  qed
  then show ?thesis using run distribute_table_ok [OF assms(1-9)] lenT by simp
qed

text \<open>The sizes of the blocks sum up to the row count and differ by at most one, larger ones first.\<close>

lemma local_table_sizes_balanced:
  assumes "0 < mpi_size"
  shows "(\<Sum>r < mpi_size. get_local_table_size G r mpi_size) = G"
    and "r \<le> s \<Longrightarrow> get_local_table_size G s mpi_size \<le> get_local_table_size G r mpi_size \<and>
      get_local_table_size G r mpi_size \<le> get_local_table_size G s mpi_size + 1"
  using sum_local_sizes [OF assms] by (auto simp: get_local_table_size_def Let_def)

text \<open>Three ranks and a table of four rows, for the witnesses.\<close>

definition demo_global :: "nat table" where
  "demo_global = [FixedWidth 1 [1, 2, 3, 4], FixedWidth 4 [1, 0, 0, 0, 2, 0, 0, 0, 3, 0, 0, 0, 4, 0, 0, 0]]"

lemma demo_global_ok: "fixed_table demo_env 4 demo_global"
  by (simp add: fixed_table_def demo_global_def table_ok_def demo_env_def)

lemma demo_ids: "ids_ok env (\<lambda>d. d) (\<lambda>d. d)"
  by (simp add: ids_ok_def)

text \<open>Type 9 is type 4 with a scale, which the broadcast of the id loses.\<close>

definition demo_id :: "nat \<Rightarrow> nat" where
  "demo_id d = (if d = 9 then 4 else d)"

definition demo_scaled :: "nat table" where
  "demo_scaled = [FixedWidth 1 [1, 2, 3, 4], FixedWidth 9 [1, 0, 0, 0, 2, 0, 0, 0, 3, 0, 0, 0, 4, 0, 0, 0]]"

theorem distribute_table_blocks_witness:
  "\<exists>outs. distribute_table demo_env root_value root_value demo_id (\<lambda>d. d) fifo_exchange 3 demo_scaled = Inr outs \<and>
    table_rows demo_env 1 (outs ! 1) = [[[3], [3, 0, 0, 0]]] \<and> schema (outs ! 0) = [Some 1, Some 9] \<and> schema (outs ! 1) = [Some 1, Some 4]"
proof -
  have n: "0 < (3 :: nat)" "3 < (2 ^ 31 :: nat)" "1 < (3 :: nat)" by simp_all
  have ids: "ids_ok demo_env demo_id (\<lambda>d. d)" by (simp add: ids_ok_def demo_id_def demo_env_def)
  have t: "fixed_table demo_env 4 demo_scaled" by (simp add: fixed_table_def demo_scaled_def table_ok_def demo_env_def)
  obtain outs where o: "distribute_table demo_env root_value root_value demo_id (\<lambda>d. d) fifo_exchange 3 demo_scaled = Inr outs"
    and all: "\<forall>r < 3. table_ok demo_env (get_local_table_size 4 r 3) (outs ! r) \<and>
      table_rows demo_env (get_local_table_size 4 r 3) (outs ! r) =
        subrange (table_rows demo_env 4 demo_scaled) (int (start_row 4 r 3)) (int (start_row 4 (Suc r) 3)) \<and>
      schema (outs ! r) = map (\<lambda>c. Some (if r = 0 then dtype c else demo_id (dtype c))) demo_scaled"
    using distribute_table_blocks [OF demo_env_ok fifo_ok n(1,2) root.broadcast_axioms root.broadcast_axioms ids t demo_okm] by blast
  have s: "get_local_table_size 4 1 3 = 1" "start_row 4 1 3 = 2" "start_row 4 (Suc 1) 3 = 3"
    by (simp_all add: get_local_table_size_def start_row_def)
  have "table_rows demo_env 1 (outs ! 1) = [[[3], [3, 0, 0, 0]]]"
    using all [rule_format, OF n(3), unfolded s] by (simp add: demo_scaled_def table_rows_def demo_env_def subrange_def upt_rec)
  moreover have "schema (outs ! 0) = [Some 1, Some 9]" "schema (outs ! 1) = [Some 1, Some 4]"
    using all [rule_format, OF n(1)] all [rule_format, OF n(3)] by (simp_all add: demo_scaled_def demo_id_def)
  ultimately show ?thesis using o by blast
qed

theorem distribute_collect_roundtrip_witness:
  "ebind (distribute_table demo_env root_value root_value (\<lambda>d. d) (\<lambda>d. d) fifo_exchange 3 demo_global)
    (collect_tables demo_env Inr fifo_exchange) = Inr [Some demo_global, None, None]"
proof -
  have n: "0 < (3 :: nat)" "3 < (2 ^ 31 :: nat)" "4 < (2 ^ 31 :: nat)" by simp_all
  have r: "replicate (3 - 1) None = [None, None]" by (simp add: numeral_2_eq_2)
  show ?thesis
    using distribute_collect_roundtrip [OF demo_env_ok fifo_ok n(1,2) root.broadcast_axioms root.broadcast_axioms demo_ids
        demo_global_ok demo_okm n(3) at_root.gather_axioms] unfolding r .
qed

end
