(* ===== verification/End_To_End.thy ===== *)
theory End_To_End
  imports Join_Communicators Distribute_Table Options
begin


section \<open>The distributed tables\<close>






section \<open>The collected result\<close>






section \<open>The join of the root\<close>












end
