(* ===== verification/Setup_Properties.thy ===== *)
theory Setup_Properties
  imports Setup
begin

text \<open>
  The properties of setup and release: what is created is released, in a legal order, and
  the sizes that the setup computes.
\<close>

section \<open>Setup and release\<close>

definition demo_platform :: platform where
  "demo_platform = \<lparr>plat_rank = 1, plat_addresses = [[1, 2], [3, 4], [5, 6]], plat_allgather = (\<lambda>xs. Inr (concat xs)), plat_book = 64,
     plat_free_memory = 1000000, plat_cache = (4096, 7), plat_blocks = [(512, 256, 0), (1024, 1024, 1)]\<rparr>"

lemma demo_platform_ok: "platform_ok demo_platform"
  using address_book.allgather_axioms by (auto simp: platform_ok_def demo_platform_def)

text \<open>
  C29. For every supported choice of communicator and registration method, setup, any rounds
  of sends and receives and \<open>destroy_memory_pool_and_communicator\<close> together respect the
  protocols of UCX, NCCL, CUDA, \<open>malloc\<close> and the memory pool. Plain UCX and NCCL release
  everything that was created: requests, staging blocks, endpoints, registrations, pool. The
  buffer communicator releases everything but its copy stream, the count buffer of every
  send and receive, and the cell for the user pointer of every receive, which are never
  freed. All memory is unregistered while the UCX context exists, and the communication
  buffers go back before the pool is destroyed.
\<close>
theorem setup_destroy_releases:
  assumes "platform_ok pl" and "supported communicator_name registration_method (plat_size pl) communicator_buffer_size"
    and "rounds_ok (plat_size pl) rounds"
  shows "\<exists>calls. lifecycle pl communicator_name registration_method communicator_buffer_size rounds = Inr calls \<and>
    api_run calls nothing = Some (if communicator_name = ''UCX'' \<and> registration_method = ''buffer''
      then nothing\<lparr>streams := [CopyStream], host_blocks := never_freed rounds\<rparr> else nothing)"
proof -
  consider "communicator_name = ''NCCL''" | "communicator_name = ''UCX''" "registration_method = ''none''"
    | "communicator_name = ''UCX''" "registration_method = ''preregistered''"
    | "communicator_name = ''UCX''" "registration_method = ''buffer''" "plat_size pl \<le> 65536"
      "2 * int (plat_size pl) * 100000 < communicator_buffer_size"
    using assms(2) unfolding supported_def by blast
  then show ?thesis
  proof cases
    case 1
    then show ?thesis using lifecycle_nccl [OF assms(3)] by simp
  next
    case 2
    then show ?thesis using lifecycle_none [OF assms(1,3)] by simp
  next
    case 3
    then show ?thesis using lifecycle_preregistered [OF assms(1,3)] by simp
  next
    case 4
    then show ?thesis using lifecycle_buffer [OF assms(1) 4(3,4) assms(3)] by simp
  qed
qed

text \<open>Two rounds: a send that completes at once and a receive, and another send.\<close>

definition demo_rounds :: "comm_op list list" where
  "demo_rounds = [[SendOp 12 512 None 80 16, RecvOp 300 768 7 24 32], [SendOp 8 512 (Some 7) 0 40]]"

lemma demo_never_freed: "never_freed demo_rounds = [16, 24, 32, 40]"
  by (simp add: never_freed_def demo_rounds_def)

theorem setup_destroy_releases_witness:
  "(\<exists>calls. lifecycle demo_platform ''UCX'' ''preregistered'' 0 demo_rounds = Inr calls \<and> api_run calls nothing = Some nothing) \<and>
    (\<exists>calls. lifecycle demo_platform ''NCCL'' ''none'' 0 demo_rounds = Inr calls \<and> api_run calls nothing = Some nothing) \<and>
    (\<exists>calls. lifecycle demo_platform ''UCX'' ''buffer'' 600048 demo_rounds = Inr calls \<and>
      api_run calls nothing = Some (nothing\<lparr>streams := [CopyStream], host_blocks := [16, 24, 32, 40]\<rparr>))"
proof -
  have r: "rounds_ok (plat_size demo_platform) demo_rounds"
    unfolding rounds_ok_def fresh_round_def demo_never_freed by (simp add: demo_rounds_def demo_platform_def)
  have s: "supported ''UCX'' ''preregistered'' (plat_size demo_platform) 0" "supported ''NCCL'' ''none'' (plat_size demo_platform) 0"
    "supported ''UCX'' ''buffer'' (plat_size demo_platform) 600048"
    by (simp_all add: supported_def demo_platform_def)
  note go = setup_destroy_releases [OF demo_platform_ok _ r, unfolded demo_never_freed]
  show ?thesis using go [OF s(1)] go [OF s(2)] go [OF s(3)] by simp
qed

text \<open>
  The setup rejects what it does not know: any other communicator name, any other
  registration method for UCX, and the buffer communicator on more than 65536 ranks.
\<close>
lemma setup_rejects_unknown:
  assumes "platform_ok pl"
  shows "(communicator_name \<noteq> ''NCCL'' \<and> communicator_name \<noteq> ''UCX'' \<longrightarrow>
      setup_memory_pool_and_communicator pl communicator_name registration_method size' = Inl UnknownCommunicatorName) \<and>
    (registration_method \<notin> {''buffer'', ''preregistered'', ''none''} \<longrightarrow>
      setup_memory_pool_and_communicator pl ''UCX'' registration_method size' = Inl UnknownRegistrationMethod) \<and>
    (65536 < plat_size pl \<longrightarrow>
      setup_memory_pool_and_communicator pl ''UCX'' ''buffer'' size' = Inl TooManyRanks)"
proof -
  obtain cs where "UCXCommunicator_initialize UCXBufferCommunicator_initialize_ucx (plat_book pl) (plat_allgather pl) (plat_addresses pl) (plat_rank pl) = Inr cs"
    using run_ucx_initialize [OF assms disjI2 [OF refl]] by blast
  moreover have "plat_size pl \<noteq> 0" using assms by (auto simp: platform_ok_def)
  ultimately show ?thesis
    by (auto simp: setup_memory_pool_and_communicator_def initialize_ucx_communicator_def UCXBufferCommunicator_initialize_def
        check_mpi_size_def guard_def Let_def)
qed

section \<open>Sizes\<close>

text \<open>
  The pool is a multiple of the 256 bytes that RMM aligns to, fits into the free memory
  and leaves at least 28 parts of 284 of it.
\<close>
lemma pool_size_bounds:
  "256 dvd pool_size free_memory \<and> 284 * pool_size free_memory \<le> 256 * free_memory \<and>
    free_memory * 256 < 284 * (pool_size free_memory + 256)"
proof -
  let ?q = "free_memory div 284" and ?m = "free_memory mod 284"
  have f: "free_memory = 284 * ?q + ?m" and m: "?m < 284" by simp_all
  obtain q m where q: "q = ?q" and f: "free_memory = 284 * q + m" and m: "m < 284" using f m by blast
  have p: "pool_size free_memory = q * 256" by (simp add: pool_size_def q)
  have "284 * (q * 256) \<le> 256 * (284 * q + m)" "(284 * q + m) * 256 < 284 * (q * 256 + 256)" using m by simp_all
  then show ?thesis unfolding p f [symmetric] by simp
qed

text \<open>
  C31. The communication buffers of the buffer communicator: all of them fit into the
  requested size, and they hold an element of \<open>n\<close> bytes if and only if the requested size
  is at least \<open>100000 + n\<close> bytes for each of the \<open>2 * mpi_size\<close> buffers. Below that, transfers
  never complete.
\<close>
theorem communication_buffer_bounds:
  assumes pl: "platform_ok pl" and ranks: "plat_size pl \<le> 65536"
    and size: "2 * int (plat_size pl) * 100000 < communicator_buffer_size"
  shows "\<exists>calls st h. setup_memory_pool_and_communicator pl ''UCX'' ''buffer'' communicator_buffer_size =
      Inr (calls, UCXBuffer st h, None) \<and>
    length (buffer_cache st) = 2 * plat_size pl \<and>
    comm_buffer_size st * int (length (buffer_cache st)) \<le> communicator_buffer_size \<and>
    (\<forall>n. n \<le> comm_buffer_size st \<longleftrightarrow> 2 * int (plat_size pl) * (100000 + n) \<le> communicator_buffer_size)"
  using setup_buffers [OF assms] .

theorem communication_buffer_bounds_witness:
  "\<exists>calls st h. setup_memory_pool_and_communicator demo_platform ''UCX'' ''buffer'' 600048 = Inr (calls, UCXBuffer st h, None) \<and>
    8 \<le> comm_buffer_size st \<and> \<not> 9 \<le> comm_buffer_size st"
proof -
  have n: "plat_size demo_platform = 3" by (simp add: demo_platform_def)
  have "plat_size demo_platform \<le> 65536" "2 * int (plat_size demo_platform) * 100000 < 600048" by (simp_all add: n)
  from communication_buffer_bounds [OF demo_platform_ok this]
  obtain calls st h where "setup_memory_pool_and_communicator demo_platform ''UCX'' ''buffer'' 600048 = Inr (calls, UCXBuffer st h, None)"
    and b: "\<forall>n. n \<le> comm_buffer_size st \<longleftrightarrow> 2 * int (plat_size demo_platform) * (100000 + n) \<le> 600048" by blast
  then show ?thesis using b [rule_format, of 8] b [rule_format, of 9] by (simp add: n)
qed

section \<open>Registered memory\<close>

text \<open>
  C32. Every block of a registered memory resource is registered as long as it is in use: for
  all sequences of legal requests the calls respect the protocols of CUDA and UCX, and
  afterwards exactly the blocks in use are allocated and mapped, each with its own handle.
  That the table of handles keeps old entries does no harm, even when CUDA returns a
  pointer again.
\<close>
theorem registered_memory_stays_registered:
  assumes "in_use requests [] = Some live" and "has_context s" and "mappings s = []" and "cuda_blocks s = []"
  shows "\<exists>calls mr s'. mr_requests new_registered_memory_resource requests = Inr (calls, mr) \<and> api_run calls s = Some s' \<and>
    mappings s' = map (\<lambda>(p, h). (h, p)) live \<and> cuda_blocks s' = map fst live \<and>
    (\<forall>(p, h) \<in> set live. registered_handles mr p = Some h)"
proof -
  have "mr_inv new_registered_memory_resource [] s" using assms by (simp add: mr_inv_def)
  from mr_requests_ok [OF assms(1) this] show ?thesis
    unfolding mr_inv_def with_blocks_def by auto
qed

theorem registered_memory_stays_registered_witness:
  "\<exists>calls mr s'. mr_requests new_registered_memory_resource [Allocate 8 256 0, Deallocate 256, Allocate 16 256 1, Allocate 8 512 0] =
      Inr (calls, mr) \<and> api_run calls (nothing\<lparr>has_context := True\<rparr>) = Some s' \<and> mappings s' = [(1, 256), (0, 512)]"
proof -
  have "in_use [Allocate 8 256 0, Deallocate 256, Allocate 16 256 1, Allocate 8 512 0] [] = Some [(256, 1), (512, 0)]" by simp
  from registered_memory_stays_registered [OF this, of "nothing\<lparr>has_context := True\<rparr>"]
  show ?thesis by (auto simp: nothing_def)
qed

text \<open>
  C33. Two registered memory resources compare equal, but are not interchangeable: when two
  resources have served legal requests, a block that only the first has allocated goes back
  to the first in accordance with the protocols, while the second looks up a handle that is
  not in its table, past the end of the map.
\<close>
theorem equal_resources_not_interchangeable:
  assumes live: "in_use requests [] = Some live" "in_use requests' [] = Some live'"
    and p: "p \<in> fst ` set live" "\<forall>n h. Allocate n p h \<notin> set requests'"
    and s: "has_context s" "mappings s = []" "cuda_blocks s = []"
  shows "\<exists>calls mr calls' mr' free_calls s'.
    mr_requests new_registered_memory_resource requests = Inr (calls, mr) \<and>
    mr_requests new_registered_memory_resource requests' = Inr (calls', mr') \<and>
    do_is_equal mr (RegisteredResource mr') \<and>
    do_deallocate mr p = Inr (free_calls, mr) \<and> api_run (calls @ free_calls) s = Some s' \<and> p \<notin> set (cuda_blocks s') \<and>
    do_deallocate mr' p = Inl OutOfBounds"
proof -
  have inv: "mr_inv new_registered_memory_resource [] s" using s by (simp add: mr_inv_def)
  from mr_requests_ok [OF live(2) inv] obtain calls' mr'
    where 2: "mr_requests new_registered_memory_resource requests' = Inr (calls', mr')" by blast
  have "registered_handles mr' p = None"
    using mr_requests_unknown [OF 2 _ p(2)] by (simp add: new_registered_memory_resource_def)
  then have bad: "do_deallocate mr' p = Inl OutOfBounds" by (simp add: do_deallocate_def)
  from mr_requests_ok [OF live(1) inv] obtain calls mr where 1: "mr_requests new_registered_memory_resource requests = Inr (calls, mr)"
      "api_run calls s = Some (with_blocks s live)" "mr_inv mr live (with_blocks s live)" by blast
  have "in_use [Deallocate p] live = Some (filter (\<lambda>b. fst b \<noteq> p) live)" using p(1) by simp
  from mr_requests_ok [OF this 1(3)] obtain free_calls where 3: "do_deallocate mr p = Inr (free_calls, mr)"
      "api_run free_calls (with_blocks s live) = Some (with_blocks s (filter (\<lambda>b. fst b \<noteq> p) live))"
    by (auto simp: res_simps do_deallocate_def split: option.splits)
  have "api_run (calls @ free_calls) s = Some (with_blocks s (filter (\<lambda>b. fst b \<noteq> p) live))"
    unfolding api_run_append using 1(2) 3(2) by simp
  moreover have "p \<notin> set (cuda_blocks (with_blocks s (filter (\<lambda>b. fst b \<noteq> p) live)))" by (auto simp: with_blocks_def)
  moreover have "do_is_equal mr (RegisteredResource mr')" by simp
  ultimately show ?thesis using 1(1) 2 3(1) bad by blast
qed

theorem equal_resources_not_interchangeable_witness:
  "\<exists>calls mr calls' mr'. mr_requests new_registered_memory_resource [Allocate 8 256 0] = Inr (calls, mr) \<and>
    mr_requests new_registered_memory_resource [Allocate 8 512 1] = Inr (calls', mr') \<and>
    do_is_equal mr (RegisteredResource mr') \<and> do_deallocate mr' 256 = Inl OutOfBounds"
proof -
  have live: "in_use [Allocate 8 256 0] [] = Some [(256, 0)]" "in_use [Allocate 8 512 1] [] = Some [(512, 1)]"
    and p: "256 \<in> fst ` set [(256 :: ptr, 0 :: mem_handle)]" "\<forall>n h. Allocate n 256 h \<notin> set [Allocate 8 512 1]" by simp_all
  show ?thesis
    using equal_resources_not_interchangeable [OF live p, of "nothing\<lparr>has_context := True\<rparr>"] by (simp add: nothing_def) blast
qed

section \<open>Endpoints and devices\<close>

text \<open>
  Every rank opens its endpoint to rank \<open>i\<close> with the address of rank \<open>i\<close>, and ranks that
  share a node of \<open>n\<close> devices and are numbered consecutively select different devices.
\<close>
lemma endpoints_and_devices:
  assumes "allgather allg" and "\<forall>a \<in> set worker_addresses. length a = len" and "r < length worker_addresses"
  shows "create_endpoints book allg worker_addresses r =
      Inr (HostMalloc book # map (\<lambda>i. UcpEpCreate i (worker_addresses ! i)) [0..<length worker_addresses] @ [HostFree book]) \<and>
    (\<forall>n i j. i div n = j div n \<and> set_cuda_device i n = set_cuda_device j n \<and> 0 < n \<longrightarrow> i = j)"
proof -
  have "i = j" if "i div n = j div n" "set_cuda_device i n = set_cuda_device j n" "0 < n" for i j n
    using that by (metis div_mult_mod_eq neq0_conv set_cuda_device_def sum.inject(2))
  then show ?thesis using create_endpoints_ok [OF assms] by blast
qed

lemma endpoints_of_two_ranks:
  "create_endpoints 64 (\<lambda>xs. Inr (concat xs)) [[1, 2], [3, 4]] 0 =
    Inr [HostMalloc 64, UcpEpCreate 0 [1, 2], UcpEpCreate 1 [3, 4], HostFree 64]"
proof -
  have "\<forall>a \<in> set [[1, 2], [3, 4 :: byte]]. length a = 2" "0 < length [[1, 2], [3, 4 :: byte]]" by simp_all
  from endpoints_and_devices [OF address_book.allgather_axioms this] show ?thesis by (simp add: upt_rec)
qed

end
