(* ===== verification/Lottery.thy ===== *)
theory Lottery
  imports Prelude "HOL-Library.Word"
begin

text \<open>
  \<open>src/generate_dataset/generate_dataset.cuh\<close>: unique random keys, drawn by many GPU threads
  at once from a shared array, the lottery, with an atomic compare-and-swap. The random
  numbers are arguments: \<open>pick row\<close> is the index \<open>size_type(x * lottery_size)\<close> for the draw of
  row \<open>row\<close>. A step of the model is one access to the shared array. The row index is a
  32-bit \<open>size_type\<close>, to which the stride is added until it leaves the table or wraps around.
\<close>

section \<open>Atomic compare and swap\<close>

text \<open>\<open>atomicCAS\<close> returns the old value and stores the new one if the old one is as expected.\<close>

definition atomicCAS :: "int list \<Rightarrow> nat \<Rightarrow> int \<Rightarrow> int \<Rightarrow> int list \<times> int" where
  "atomicCAS mem address compare val =
     (if mem ! address = compare then mem[address := val] else mem, mem ! address)"

section \<open>Threads\<close>

text \<open>
  Where a thread is: at the head of its row loop, about to read an entry of the lottery for
  a row, about to swap the entry it has read, or past its last row.
\<close>

datatype draw_pc = NextRow int | ReadEntry int nat | SwapEntry int nat int | Finished

record draw_state =
  lottery :: "int list"
  build_tbl :: "int option list"
  thread_pc :: "draw_pc list"

definition start_draw :: "nat \<Rightarrow> nat \<Rightarrow> nat \<Rightarrow> draw_state" where
  "start_draw lottery_size build_tbl_size num_threads =
     \<lparr>lottery = map int [0..<lottery_size], build_tbl = replicate build_tbl_size None,
      thread_pc = map (\<lambda>start_idx. NextRow (int start_idx)) [0..<num_threads]\<rparr>"

text \<open>\<open>idx += stride\<close> in 32 bits.\<close>

definition next_index :: "int \<Rightarrow> nat \<Rightarrow> int" where
  "next_index idx stride = sint (word_of_int (idx + int stride) :: 32 word)"

text \<open>
  One step of thread \<open>t\<close> in \<open>init_build_tbl\<close> with unique keys; the stride is the number of
  threads. \<open>None\<close> if the thread has finished. An index that has wrapped around to a negative
  row passes the test of the loop; the key drawn for it is written out of bounds.
\<close>

definition draw_step :: "(int \<Rightarrow> nat) \<Rightarrow> nat \<Rightarrow> draw_state \<Rightarrow> draw_state res option" where
  "draw_step pick t s =
     (let size' = length (lottery s); goto = (\<lambda>pc. s\<lparr>thread_pc := (thread_pc s)[t := pc]\<rparr>) in
      case thread_pc s ! t of
        Finished \<Rightarrow> None
      | NextRow idx \<Rightarrow>
          Some (Inr (goto (if idx < int (length (build_tbl s)) then ReadEntry idx (pick idx) else Finished)))
      | ReadEntry idx lottery_idx \<Rightarrow>
          Some (ebind (vec_at (lottery s) lottery_idx) (\<lambda>lottery_val.
            Inr (goto (if lottery_val \<noteq> - 1 then SwapEntry idx lottery_idx lottery_val
                       else ReadEntry idx ((lottery_idx + 1) mod size')))))
      | SwapEntry idx lottery_idx lottery_val \<Rightarrow>
          (case atomicCAS (lottery s) lottery_idx lottery_val (- 1) of (lottery', old) \<Rightarrow>
             Some (if old = - 1
               then Inr ((goto (ReadEntry idx ((lottery_idx + 1) mod size')))\<lparr>lottery := lottery'\<rparr>)
               else if idx < 0 then Inl OutOfBounds
               else Inr ((goto (NextRow (next_index idx (length (thread_pc s)))))
                 \<lparr>lottery := lottery', build_tbl := (build_tbl s)[nat idx := Some old]\<rparr>))))"

inductive draw_steps :: "(int \<Rightarrow> nat) \<Rightarrow> draw_state \<Rightarrow> draw_state \<Rightarrow> bool" for pick where
  draw: "t < length (thread_pc s) \<Longrightarrow> draw_step pick t s = Some (Inr s') \<Longrightarrow> draw_steps pick s s'"

inductive_cases draw_stepsE: "draw_steps pick s s'"

section \<open>The invariant\<close>

text \<open>
  Every entry is a key or drawn; the drawn keys are in the build table, once each; a thread
  has filled its rows before the current one, and holds a key that was in the entry.
\<close>

definition keys_ok :: "nat \<Rightarrow> int list \<Rightarrow> int option list \<Rightarrow> bool" where
  "keys_ok n lot tbl \<longleftrightarrow>
     length lot = n \<and> (\<forall>i < n. lot ! i = int i \<or> lot ! i = - 1) \<and>
     (\<forall>r < length tbl. \<forall>v. tbl ! r = Some v \<longrightarrow> 0 \<le> v \<and> v < int n \<and> lot ! nat v = - 1) \<and>
     (\<forall>r < length tbl. \<forall>r' < length tbl. tbl ! r \<noteq> None \<and> tbl ! r = tbl ! r' \<longrightarrow> r = r') \<and>
     (\<forall>i < n. lot ! i = - 1 \<longrightarrow> (\<exists>r < length tbl. tbl ! r = Some (int i)))"

definition rows_filled :: "nat \<Rightarrow> int option list \<Rightarrow> nat \<Rightarrow> nat \<Rightarrow> bool" where
  "rows_filled T tbl t idx \<longleftrightarrow>
     idx mod T = t \<and> (\<forall>r < length tbl. r mod T = t \<longrightarrow> (tbl ! r = None \<longleftrightarrow> idx \<le> r))"

fun thread_ok :: "nat \<Rightarrow> nat \<Rightarrow> int option list \<Rightarrow> nat \<Rightarrow> draw_pc \<Rightarrow> bool" where
  "thread_ok n T tbl t (NextRow idx) \<longleftrightarrow> 0 \<le> idx \<and> rows_filled T tbl t (nat idx)"
| "thread_ok n T tbl t (ReadEntry idx i) \<longleftrightarrow> 0 \<le> idx \<and> rows_filled T tbl t (nat idx) \<and> nat idx < length tbl \<and> i < n"
| "thread_ok n T tbl t (SwapEntry idx i v) \<longleftrightarrow>
     0 \<le> idx \<and> rows_filled T tbl t (nat idx) \<and> nat idx < length tbl \<and> i < n \<and> v = int i"
| "thread_ok n T tbl t Finished \<longleftrightarrow> (\<forall>r < length tbl. r mod T = t \<longrightarrow> tbl ! r \<noteq> None)"

definition draw_inv :: "nat \<Rightarrow> draw_state \<Rightarrow> bool" where
  "draw_inv n s \<longleftrightarrow> keys_ok n (lottery s) (build_tbl s) \<and>
     (\<forall>t < length (thread_pc s). thread_ok n (length (thread_pc s)) (build_tbl s) t (thread_pc s ! t))"

lemma draw_invD:
  assumes "draw_inv n s"
  shows "keys_ok n (lottery s) (build_tbl s)" and "length (lottery s) = n"
    and "\<forall>i < n. lottery s ! i = int i \<or> lottery s ! i = - 1"
    and "t < length (thread_pc s) \<Longrightarrow> thread_ok n (length (thread_pc s)) (build_tbl s) t (thread_pc s ! t)"
proof -
  show k: "keys_ok n (lottery s) (build_tbl s)" using assms by (simp add: draw_inv_def)
  show "length (lottery s) = n" "\<forall>i < n. lottery s ! i = int i \<or> lottery s ! i = - 1"
    using k unfolding keys_ok_def by blast+
  show "t < length (thread_pc s) \<Longrightarrow> thread_ok n (length (thread_pc s)) (build_tbl s) t (thread_pc s ! t)"
    using assms by (simp add: draw_inv_def)
qed

lemma start_draw_inv: "0 < T \<Longrightarrow> draw_inv n (start_draw n B T)"
  by (auto simp: draw_inv_def keys_ok_def rows_filled_def start_draw_def intro: mod_less_eq_dividend)

lemma next_row:
  fixes r idx T :: nat
  assumes "r mod T = idx mod T" and "r \<noteq> idx"
  shows "idx \<le> r \<longleftrightarrow> idx + T \<le> r"
proof
  assume "idx \<le> r"
  then have "T dvd r - idx" using assms(1) by (metis mod_eq_dvd_iff_nat)
  moreover have "0 < r - idx" using \<open>idx \<le> r\<close> assms(2) by simp
  ultimately have "T \<le> r - idx" by (rule dvd_imp_le)
  then show "idx + T \<le> r" using \<open>idx \<le> r\<close> by simp
qed simp

text \<open>A step that only moves the program counter, and the swap that draws a key.\<close>

lemma goto_inv:
  assumes "draw_inv n s" and "t < length (thread_pc s)" and "thread_ok n (length (thread_pc s)) (build_tbl s) t pc"
  shows "draw_inv n (s\<lparr>thread_pc := (thread_pc s)[t := pc]\<rparr>)"
  using assms by (auto simp: draw_inv_def nth_list_update)

lemma thread_ok_other:
  assumes "thread_ok n T tbl t' pc" and "idx mod T \<noteq> t'"
  shows "thread_ok n T (tbl[idx := x]) t' pc"
proof -
  have "tbl[idx := x] ! r = tbl ! r" if "r mod T = t'" for r
    using that assms(2) by (metis nth_list_update_neq)
  then show ?thesis using assms(1) by (cases pc) (auto simp: rows_filled_def)
qed

lemma keys_ok_draw:
  assumes k: "keys_ok n lot tbl" and b: "idx < length tbl" "i < n" "lot ! i = int i" and empty: "tbl ! idx = None"
  shows "keys_ok n (lot[i := - 1]) (tbl[idx := Some (int i)])"
proof -
  note k' = k [unfolded keys_ok_def]
  have fresh: "tbl ! r \<noteq> Some (int i)" if "r < length tbl" for r
  proof
    assume "tbl ! r = Some (int i)"
    then have "lot ! nat (int i) = - 1" using k' that by blast
    then show False using b(3) by simp
  qed
  have len: "length lot = n" using k' by blast
  have vals: "0 \<le> v \<and> v < int n \<and> lot[i := - 1] ! nat v = - 1" if "r < length tbl" "tbl[idx := Some (int i)] ! r = Some v" for r v
  proof (cases "r = idx")
    case True
    then have "v = int i" using that(2) b(1) by simp
    then show ?thesis using b len by simp
  next
    case False
    then have "0 \<le> v \<and> v < int n \<and> lot ! nat v = - 1" using that k' by simp
    then show ?thesis using b(2) len by (cases "nat v = i") auto
  qed
  have inj: "r = r'" if "r < length tbl" "r' < length tbl" "tbl[idx := Some (int i)] ! r \<noteq> None"
    "tbl[idx := Some (int i)] ! r = tbl[idx := Some (int i)] ! r'" for r r'
  proof (cases "r = idx \<or> r' = idx")
    case True
    then show ?thesis using that fresh by (metis nth_list_update_eq nth_list_update_neq)
  next
    case False
    then show ?thesis using that k' by simp
  qed
  have entries: "lot[i := - 1] ! k = int k \<or> lot[i := - 1] ! k = - 1" if "k < n" for k
    using k' that len by (cases "k = i") auto
  have drawn: "\<exists>r < length tbl. tbl[idx := Some (int i)] ! r = Some (int k)" if k: "k < n" "lot[i := - 1] ! k = - 1" for k
  proof (cases "k = i")
    case True
    then show ?thesis using b(1) by (intro exI [of _ idx]) simp
  next
    case False
    then have "lot ! k = - 1" using k(2) by simp
    then obtain r where r: "r < length tbl" "tbl ! r = Some (int k)" using k' k(1) by blast
    then have "r \<noteq> idx" using empty by auto
    then show ?thesis using r by (intro exI [of _ r]) simp
  qed
  show ?thesis
    unfolding keys_ok_def length_list_update using len vals inj entries drawn by blast
qed

lemma rows_filled_draw:
  assumes "rows_filled T tbl t idx" and "idx < length tbl" and "0 < T"
  shows "rows_filled T (tbl[idx := Some v]) t (idx + T)"
proof -
  have "tbl[idx := Some v] ! r = None \<longleftrightarrow> idx + T \<le> r" if "r < length tbl" "r mod T = t" for r
    using assms that next_row [of r T idx] by (cases "r = idx") (auto simp: rows_filled_def)
  then show ?thesis using assms(1) by (simp add: rows_filled_def)
qed

text \<open>Up to \<open>2 ^ 31\<close> rows and threads the index never wraps around.\<close>

lemma sint_word_of_int32: "0 \<le> x \<Longrightarrow> x < 2 ^ 31 \<Longrightarrow> sint (word_of_int x :: 32 word) = x"
  by (simp add: signed_of_int signed_take_bit_int_eq_self)

lemma next_index_eq: "k + T < 2 ^ 31 \<Longrightarrow> next_index (int k) T = int (k + T)"
  unfolding next_index_def of_nat_add [symmetric] by (rule sint_word_of_int32) simp_all

lemma next_index_wraps: "k < 2 ^ 31 \<Longrightarrow> T < 2 ^ 31 \<Longrightarrow> 2 ^ 31 \<le> k + T \<Longrightarrow> next_index (int k) T < 0"
proof -
  assume a: "k < 2 ^ 31" "T < 2 ^ 31" "2 ^ 31 \<le> k + T"
  have "(int k + int T + 2 ^ 31) mod 2 ^ 32 = int k + int T + 2 ^ 31 - 2 ^ 32"
    using a by (subst mod_pos_geq) simp_all
  then have "sint (word_of_int (int k + int T) :: 32 word) = int k + int T - 2 ^ 32"
    unfolding signed_of_int signed_take_bit_eq_take_bit_shift take_bit_eq_mod by simp
  then show ?thesis using a by (simp add: next_index_def)
qed

text \<open>A thread has wrapped around: its row is negative.\<close>

fun negative_row :: "draw_pc \<Rightarrow> bool" where
  "negative_row (NextRow idx) \<longleftrightarrow> idx < 0"
| "negative_row (ReadEntry idx i) \<longleftrightarrow> idx < 0"
| "negative_row (SwapEntry idx i v) \<longleftrightarrow> idx < 0"
| "negative_row Finished \<longleftrightarrow> False"

definition wrapped :: "draw_state \<Rightarrow> bool" where
  "wrapped s \<longleftrightarrow> list_ex negative_row (thread_pc s)"

definition sizes_small :: "draw_state \<Rightarrow> bool" where
  "sizes_small s \<longleftrightarrow> length (build_tbl s) + length (thread_pc s) \<le> 2 ^ 31"

text \<open>A step from a state in which no thread has wrapped around never fails.\<close>

lemma draw_step_or_wrap:
  assumes inv: "draw_inv n s" and t: "t < length (thread_pc s)" and pick: "\<forall>r. pick r < n"
    and ints: "sizes_small s \<or> length (build_tbl s) < 2 ^ 31 \<and> length (thread_pc s) < 2 ^ 31" and step: "draw_step pick t s = Some res"
  shows "\<exists>s'. res = Inr s' \<and> (draw_inv n s' \<or> wrapped s' \<and> \<not> sizes_small s)"
proof -
  let ?T = "length (thread_pc s)" and ?B = "length (build_tbl s)"
  have n: "0 < n" using pick by (metis gr_zeroI not_less0)
  note keys = draw_invD(1) [OF inv] and len = draw_invD(2) [OF inv] and e = draw_invD(3) [OF inv] and ok = draw_invD(4) [OF inv t]
  have move: "\<exists>s'. Inr (s\<lparr>thread_pc := (thread_pc s)[t := pc]\<rparr>) = Inr s' \<and> (draw_inv n s' \<or> wrapped s' \<and> \<not> sizes_small s)"
    if "thread_ok n ?T (build_tbl s) t pc" for pc
    using goto_inv [OF inv t that] by blast
  show ?thesis
  proof (cases "thread_pc s ! t")
    case (NextRow idx)
    have "res = Inr (s\<lparr>thread_pc := (thread_pc s)[t := if idx < int ?B then ReadEntry idx (pick idx) else Finished]\<rparr>)"
      using step NextRow by (simp add: draw_step_def Let_def)
    moreover have "thread_ok n ?T (build_tbl s) t (if idx < int ?B then ReadEntry idx (pick idx) else Finished)"
      using ok NextRow pick by (auto simp: rows_filled_def)
    ultimately show ?thesis using move by blast
  next
    case (ReadEntry idx i)
    let ?pc = "if lottery s ! i \<noteq> - 1 then SwapEntry idx i (lottery s ! i) else ReadEntry idx ((i + 1) mod length (lottery s))"
    have "res = Inr (s\<lparr>thread_pc := (thread_pc s)[t := ?pc]\<rparr>)"
      using step ReadEntry ok len by (auto simp: draw_step_def Let_def)
    moreover have "thread_ok n ?T (build_tbl s) t ?pc" using ok ReadEntry e n len by auto
    ultimately show ?thesis using move by blast
  next
    case (SwapEntry idx i v)
    obtain k where k: "idx = int k" using ok SwapEntry nonneg_eq_int by auto
    have b: "rows_filled ?T (build_tbl s) t k" "k < ?B" "i < n" "v = int i" using ok SwapEntry k by simp_all
    show ?thesis
    proof (cases "lottery s ! i = - 1")
      case True
      then have "res = Inr (s\<lparr>thread_pc := (thread_pc s)[t := ReadEntry idx ((i + 1) mod length (lottery s))]\<rparr>)"
        using step SwapEntry b by (simp add: draw_step_def atomicCAS_def Let_def)
      moreover have "thread_ok n ?T (build_tbl s) t (ReadEntry idx ((i + 1) mod length (lottery s)))" using b n len k by simp
      ultimately show ?thesis using move by blast
    next
      case False
      then have i: "lottery s ! i = int i" using e b by blast
      let ?next = "\<lambda>idx'. s\<lparr>thread_pc := (thread_pc s)[t := NextRow idx'], lottery := (lottery s)[i := - 1],
        build_tbl := (build_tbl s)[k := Some (int i)]\<rparr>"
      have res: "res = Inr (?next (next_index (int k) ?T))"
        using step SwapEntry b i unfolding k by (simp add: draw_step_def atomicCAS_def Let_def)
      have "thread_ok n ?T ((build_tbl s)[k := Some (int i)]) t' ((thread_pc s)[t := NextRow (int (k + ?T))] ! t')" if t': "t' < ?T" for t'
      proof (cases "t' = t")
        case True
        have "0 < ?T" by (rule le_less_trans [OF le0 t])
        from rows_filled_draw [OF b(1,2) this] show ?thesis using True t by (simp add: nat_int_add)
      next
        case False
        then have "k mod ?T \<noteq> t'" using b(1) by (simp add: rows_filled_def)
        then show ?thesis using False t' inv by (simp add: thread_ok_other draw_inv_def)
      qed
      moreover have "build_tbl s ! k = None" using b(1,2) by (simp add: rows_filled_def)
      ultimately have inv': "draw_inv n (?next (int (k + ?T)))" using keys_ok_draw [OF keys b(2,3) i] by (simp add: draw_inv_def)
      show ?thesis
      proof (cases "k + ?T < 2 ^ 31")
        case True
        then show ?thesis using inv' res by (simp only: next_index_eq) blast
      next
        case False
        then have big: "\<not> sizes_small s" using b(2) by (simp add: sizes_small_def)
        then have "next_index (int k) ?T < 0" using ints b(2) False by (intro next_index_wraps) simp_all
        then have "wrapped (?next (next_index (int k) ?T))" using t by (auto simp: wrapped_def list_ex_length)
        moreover note big
        ultimately show ?thesis using res by blast
      qed
    qed
  next
    case Finished
    then show ?thesis using step by (simp add: draw_step_def Let_def)
  qed
qed

lemma draw_step_inv:
  assumes "draw_inv n s" and "t < length (thread_pc s)" and "\<forall>r. pick r < n" and small: "sizes_small s"
    and "draw_step pick t s = Some res"
  shows "\<exists>s'. res = Inr s' \<and> draw_inv n s'"
  using draw_step_or_wrap [OF assms(1-3) _ assms(5)] small by blast

text \<open>A thread that has wrapped around never finishes: its row passes the test of the loop.\<close>

lemma wrapped_step:
  assumes "wrapped s" and "draw_step pick t s = Some (Inr s')"
  shows "wrapped s'"
proof -
  obtain t' where t': "t' < length (thread_pc s)" "negative_row (thread_pc s ! t')"
    using assms(1) by (auto simp: wrapped_def list_ex_length)
  have "length (thread_pc s') = length (thread_pc s)" "t' \<noteq> t \<Longrightarrow> thread_pc s' ! t' = thread_pc s ! t'"
    using assms(2) by (auto simp: draw_step_def Let_def vec_at_def atomicCAS_def split: draw_pc.splits if_splits)
  moreover have "negative_row (thread_pc s' ! t)" if "negative_row (thread_pc s ! t)" "t < length (thread_pc s)"
    using assms(2) that by (auto simp: draw_step_def Let_def vec_at_def atomicCAS_def split: draw_pc.splits if_splits)
  ultimately show ?thesis using t' unfolding wrapped_def list_ex_length by metis
qed

section \<open>Termination\<close>

text \<open>
  The distance to the next key that has not been drawn, cyclically. As long as a row is
  empty there is one, because every drawn key is in the table.
\<close>

definition live_key :: "int list \<Rightarrow> nat \<Rightarrow> bool" where
  "live_key lot i \<longleftrightarrow> lot ! (i mod length lot) \<noteq> - 1"

definition distance :: "int list \<Rightarrow> nat \<Rightarrow> nat" where
  "distance lot i = (LEAST k. live_key lot (i + k))"

lemma live_exists:
  assumes k: "keys_ok n lot tbl" and B: "length tbl \<le> n" and e: "idx < length tbl" "tbl ! idx = None"
  shows "\<exists>i < n. lot ! i \<noteq> - 1"
proof (rule ccontr)
  assume "\<not> ?thesis"
  then have "\<forall>i < n. \<exists>r. r < length tbl \<and> tbl ! r = Some (int i)" using k unfolding keys_ok_def by blast
  then obtain f where f: "\<forall>i < n. f i < length tbl \<and> tbl ! f i = Some (int i)" by metis
  have "inj_on f {..<n}"
  proof (rule inj_onI)
    fix i j assume "i \<in> {..<n}" "j \<in> {..<n}" "f i = f j"
    then have "Some (int i) = Some (int j)" using f by (metis lessThan_iff)
    then show "i = j" by simp
  qed
  moreover have "f ` {..<n} \<subseteq> {..<length tbl} - {idx}" using f e(2) by fastforce
  ultimately have "card {..<n} \<le> card ({..<length tbl} - {idx})" by (intro card_inj_on_le) simp_all
  then show False using B e(1) by simp
qed

lemma distance_live:
  assumes "i0 < length lot" and "lot ! i0 \<noteq> - 1" and "i < length lot"
  shows "live_key lot (i + distance lot i)" and "distance lot i < length lot"
proof -
  let ?n = "length lot" and ?k = "(i0 + length lot - i) mod length lot"
  have "(i + ?k) mod ?n = (i + (i0 + ?n - i)) mod ?n" by (simp add: mod_add_right_eq)
  also have "\<dots> = i0" using assms(1,3) by simp
  finally have l: "live_key lot (i + ?k)" using assms(2) by (simp add: live_key_def)
  then show "live_key lot (i + distance lot i)" unfolding distance_def by (rule LeastI)
  have "distance lot i \<le> ?k" unfolding distance_def using l by (rule Least_le)
  moreover have "0 < ?n" by (rule le_less_trans [OF le0 assms(1)])
  ultimately show "distance lot i < ?n" using mod_less_divisor [of ?n "i0 + ?n - i"] by linarith
qed

lemma distance_next:
  assumes "i0 < length lot" and "lot ! i0 \<noteq> - 1" and i: "i < length lot" "lot ! i = - 1"
  shows "distance lot ((i + 1) mod length lot) < distance lot i"
proof -
  note l = distance_live(1) [OF assms(1-3)]
  have "distance lot i \<noteq> 0" using l i by (intro notI) (simp add: live_key_def)
  then obtain k where k: "distance lot i = Suc k" by (cases "distance lot i") auto
  have "((i + 1) mod length lot + k) mod length lot = (i + Suc k) mod length lot" by (simp add: mod_add_left_eq)
  then have "live_key lot ((i + 1) mod length lot + k)" using l k by (simp add: live_key_def)
  then have "distance lot ((i + 1) mod length lot) \<le> k" unfolding distance_def by (rule Least_le)
  then show ?thesis using k by simp
qed

lemma distance_0: "lot ! i \<noteq> - 1 \<Longrightarrow> i < length lot \<Longrightarrow> distance lot i = 0"
  by (simp add: distance_def live_key_def)

text \<open>The steps a thread takes before some thread fills a row, and the measure of a state.\<close>

fun pc_cost :: "int list \<Rightarrow> nat \<Rightarrow> draw_pc \<Rightarrow> nat" where
  "pc_cost lot B (NextRow idx) = (if idx < int B then length lot + 3 else 1)"
| "pc_cost lot B (ReadEntry idx i) = distance lot i + 2"
| "pc_cost lot B (SwapEntry idx i v) = (if lot ! i \<noteq> - 1 then 1 else distance lot ((i + 1) mod length lot) + 3)"
| "pc_cost lot B Finished = 0"

definition empty_rows :: "int option list \<Rightarrow> nat" where
  "empty_rows tbl = length (filter (\<lambda>x. x = None) tbl)"

definition total_cost :: "draw_state \<Rightarrow> nat" where
  "total_cost s = (\<Sum>pc \<leftarrow> thread_pc s. pc_cost (lottery s) (length (build_tbl s)) pc)"

definition draw_measure :: "draw_state \<Rightarrow> nat" where
  "draw_measure s = empty_rows (build_tbl s) * (length (thread_pc s) * (length (lottery s) + 3) + 1) + total_cost s"

lemma sum_list_update_less:
  fixes f :: "'a \<Rightarrow> nat"
  shows "t < length xs \<Longrightarrow> f x < f (xs ! t) \<Longrightarrow> (\<Sum>y \<leftarrow> xs[t := x]. f y) < (\<Sum>y \<leftarrow> xs. f y)"
proof (induction xs arbitrary: t)
  case (Cons y ys)
  then show ?case by (cases t) auto
qed simp

lemma empty_rows_fill:
  "idx < length tbl \<Longrightarrow> tbl ! idx = None \<Longrightarrow> Suc (empty_rows (tbl[idx := Some v])) = empty_rows tbl"
proof (induction tbl arbitrary: idx)
  case (Cons x xs)
  then show ?case by (cases idx) (auto simp: empty_rows_def)
qed simp

lemma sum_list_le_length: "\<forall>x \<in> set xs. f x \<le> (c :: nat) \<Longrightarrow> (\<Sum>x \<leftarrow> xs. f x) \<le> length xs * c"
  by (induction xs) auto

text \<open>A thread within its bounds costs at most one round through the lottery.\<close>

lemma pc_cost_bound:
  assumes "thread_ok n T tbl t pc" and "length lot = n" and "0 < n" and live: "\<exists>i < n. lot ! i \<noteq> - 1"
  shows "pc_cost lot (length tbl) pc \<le> n + 3"
proof -
  obtain i0 where i0: "i0 < length lot" "lot ! i0 \<noteq> - 1" using live assms(2) by blast
  show ?thesis
  proof (cases pc)
    case (ReadEntry idx i)
    then have "i < length lot" using assms(1,2) by simp
    from distance_live(2) [OF i0 this] show ?thesis using ReadEntry assms(2) by simp
  next
    case (SwapEntry idx i v)
    have "(i + 1) mod length lot < length lot" using assms(2,3) by simp
    from distance_live(2) [OF i0 this] show ?thesis using SwapEntry assms(2) by simp
  qed (use assms(2) in simp_all)
qed

lemma full_table_cost:
  assumes "thread_ok n T tbl t pc" and "\<forall>r < length tbl. tbl ! r \<noteq> None"
  shows "pc_cost lot (length tbl) pc \<le> 1"
proof -
  have "\<not> (rows_filled T tbl t r \<and> r < length tbl)" for r
  proof
    assume r: "rows_filled T tbl t r \<and> r < length tbl"
    then have "tbl ! r = None" by (simp add: rows_filled_def)
    then show False using assms(2) r by blast
  qed
  then show ?thesis using assms(1) by (cases pc) (auto, metis nat_less_iff)
qed

lemma no_empty_rows: "empty_rows tbl = 0 \<longleftrightarrow> (\<forall>r < length tbl. tbl ! r \<noteq> None)"
  by (auto simp: empty_rows_def filter_empty_conv all_set_conv_all_nth)

lemma total_cost_bound:
  assumes inv: "draw_inv n s" and B: "length (build_tbl s) \<le> n"
  shows "total_cost s \<le> length (thread_pc s) * (n + 3)"
proof -
  note k = draw_invD(1) [OF inv] and len = draw_invD(2) [OF inv]
  have "pc_cost (lottery s) (length (build_tbl s)) (thread_pc s ! t) \<le> n + 3" if t: "t < length (thread_pc s)" for t
  proof -
    note ok = draw_invD(4) [OF inv t]
    show ?thesis
    proof (cases "\<forall>r < length (build_tbl s). build_tbl s ! r \<noteq> None")
      case True
      then show ?thesis using full_table_cost [OF ok] by (meson le_add2 le_trans one_le_numeral)
    next
      case False
      then obtain r where r: "r < length (build_tbl s)" "build_tbl s ! r = None" by blast
      then have "0 < n" using B by simp
      then show ?thesis using pc_cost_bound [OF ok len _ live_exists [OF k B r]] by blast
    qed
  qed
  then show ?thesis unfolding total_cost_def by (intro sum_list_le_length) (auto simp: in_set_conv_nth)
qed

lemma goto_measure:
  assumes "t < length (thread_pc s)"
    and "pc_cost (lottery s) (length (build_tbl s)) pc < pc_cost (lottery s) (length (build_tbl s)) (thread_pc s ! t)"
  shows "draw_measure (s\<lparr>thread_pc := (thread_pc s)[t := pc]\<rparr>) < draw_measure s"
  using sum_list_update_less [OF assms(1), of "pc_cost (lottery s) (length (build_tbl s))", OF assms(2)]
  by (simp add: draw_measure_def total_cost_def)

text \<open>Every step decreases the measure: the thread comes closer to a key, or a row is filled.\<close>

lemma draw_step_measure:
  assumes inv: "draw_inv n s" and t: "t < length (thread_pc s)" and pick: "\<forall>r. pick r < n"
    and B: "length (build_tbl s) \<le> n" and small: "sizes_small s"
    and step: "draw_step pick t s = Some (Inr s')"
  shows "draw_measure s' < draw_measure s"
proof -
  let ?T = "length (thread_pc s)" and ?B = "length (build_tbl s)" and ?lot = "lottery s"
  note k = draw_invD(1) [OF inv] and len = draw_invD(2) [OF inv] and e = draw_invD(3) [OF inv] and ok = draw_invD(4) [OF inv t]
  show ?thesis
  proof (cases "thread_pc s ! t")
    case (NextRow idx)
    let ?pc = "if idx < int ?B then ReadEntry idx (pick idx) else Finished"
    have "s' = s\<lparr>thread_pc := (thread_pc s)[t := ?pc]\<rparr>" using step NextRow by (simp add: draw_step_def Let_def)
    moreover have "pc_cost ?lot ?B ?pc < pc_cost ?lot ?B (thread_pc s ! t)"
    proof (cases "idx < int ?B")
      case True
      then have r: "nat idx < ?B" using ok NextRow by (simp add: nat_less_iff)
      then have "build_tbl s ! nat idx = None" using ok NextRow by (simp add: rows_filled_def)
      from live_exists [OF k B r this] obtain i0 where "i0 < length ?lot" "?lot ! i0 \<noteq> - 1" using len by blast
      from distance_live(2) [OF this, of "pick idx"] show ?thesis using True NextRow pick len by simp
    qed (simp add: NextRow)
    ultimately show ?thesis using goto_measure [OF t] by blast
  next
    case (ReadEntry idx i)
    have b: "nat idx < ?B" "i < length ?lot" "build_tbl s ! nat idx = None" using ok ReadEntry len by (simp_all add: rows_filled_def)
    from live_exists [OF k B b(1,3)] obtain i0 where i0: "i0 < length ?lot" "?lot ! i0 \<noteq> - 1" using len by blast
    let ?pc = "if ?lot ! i \<noteq> - 1 then SwapEntry idx i (?lot ! i) else ReadEntry idx ((i + 1) mod length ?lot)"
    have "s' = s\<lparr>thread_pc := (thread_pc s)[t := ?pc]\<rparr>" using step ReadEntry b by (auto simp: draw_step_def Let_def)
    moreover have "pc_cost ?lot ?B ?pc < pc_cost ?lot ?B (thread_pc s ! t)"
      using ReadEntry b distance_next [OF i0 b(2)] by simp
    ultimately show ?thesis using goto_measure [OF t] by blast
  next
    case (SwapEntry idx i v)
    obtain r where r: "idx = int r" using ok SwapEntry nonneg_eq_int by auto
    have b: "r < ?B" "i < length ?lot" "v = int i" "build_tbl s ! r = None" using ok SwapEntry len r by (simp_all add: rows_filled_def)
    have nxt: "next_index idx ?T = int (r + ?T)" unfolding r using small b(1) by (intro next_index_eq) (simp add: sizes_small_def)
    show ?thesis
    proof (cases "?lot ! i = - 1")
      case True
      then have "s' = s\<lparr>thread_pc := (thread_pc s)[t := ReadEntry idx ((i + 1) mod length ?lot)]\<rparr>"
        using step SwapEntry b by (simp add: draw_step_def atomicCAS_def Let_def)
      moreover have "pc_cost ?lot ?B (ReadEntry idx ((i + 1) mod length ?lot)) < pc_cost ?lot ?B (thread_pc s ! t)"
        using SwapEntry True by simp
      ultimately show ?thesis using goto_measure [OF t] by blast
    next
      case False
      then have i: "?lot ! i = int i" using e b len by blast
      let ?s = "s\<lparr>thread_pc := (thread_pc s)[t := NextRow (int (r + ?T))], lottery := (?lot)[i := - 1],
        build_tbl := (build_tbl s)[r := Some (int i)]\<rparr>"
      have s': "s' = ?s" using step SwapEntry b i nxt unfolding r by (simp add: draw_step_def atomicCAS_def Let_def)
      have inv': "draw_inv n ?s" using draw_step_inv [OF inv t pick small step] s' by blast
      have "total_cost ?s \<le> ?T * (n + 3)" using total_cost_bound [OF inv'] B by simp
      moreover have "draw_measure ?s = empty_rows (build_tbl ?s) * (?T * (n + 3) + 1) + total_cost ?s"
        by (simp add: draw_measure_def len)
      moreover have "draw_measure s = Suc (empty_rows (build_tbl ?s)) * (?T * (n + 3) + 1) + total_cost s"
        using empty_rows_fill [OF b(1,4), of "int i"] by (simp add: draw_measure_def len)
      ultimately show ?thesis unfolding s' by simp
    qed
  next
    case Finished
    then show ?thesis using step by (simp add: draw_step_def Let_def)
  qed
qed

end
