(* ===== verification/Input_Tables.thy ===== *)
theory Input_Tables
  imports Complex_Main Lottery
begin

text \<open>
  The rest of \<open>src/generate_dataset/generate_dataset.cuh\<close>: complete runs of the drawing
  threads under a schedule, the probe table, and \<open>generate_input_tables\<close>. The numbers of
  \<open>curand_uniform_double\<close>, which lie in (0, 1], are arguments.
\<close>

section \<open>Runs of the drawing threads\<close>

primrec run_draw :: "(int \<Rightarrow> nat) \<Rightarrow> (nat \<Rightarrow> nat) \<Rightarrow> draw_state \<Rightarrow> nat \<Rightarrow> draw_state res" where
  "run_draw pick sched s 0 = Inr s"
| "run_draw pick sched s (Suc k) =
     ebind (run_draw pick sched s k) (\<lambda>u.
       case draw_step pick (sched k) u of None \<Rightarrow> Inr u | Some res \<Rightarrow> res)"

definition finished :: "draw_state \<Rightarrow> bool" where
  "finished s \<longleftrightarrow> list_all (\<lambda>pc. pc = Finished) (thread_pc s)"

definition fair_draws :: "nat \<Rightarrow> (nat \<Rightarrow> nat) \<Rightarrow> bool" where
  "fair_draws T sched \<longleftrightarrow> (\<forall>k. sched k < T) \<and> (\<forall>t < T. \<forall>k. \<exists>k' \<ge> k. sched k' = t)"

lemma draw_step_lengths:
  assumes "draw_step pick t s = Some (Inr s')"
  shows "length (thread_pc s') = length (thread_pc s)" and "length (build_tbl s') = length (build_tbl s)"
  using assms
  by (auto simp: draw_step_def Let_def vec_at_def atomicCAS_def split: draw_pc.splits if_splits)

lemma unfinished_steps:
  assumes inv: "draw_inv n s" and t: "t < length (thread_pc s)" "thread_pc s ! t \<noteq> Finished" and pick: "\<forall>r. pick r < n"
    and small: "sizes_small s"
  shows "\<exists>s'. draw_step pick t s = Some (Inr s')"
proof -
  have "draw_step pick t s \<noteq> None"
    using t(2) by (cases "thread_pc s ! t") (simp_all add: draw_step_def Let_def atomicCAS_def)
  then show ?thesis using draw_step_inv [OF inv t(1) pick small] by blast
qed

lemma sizes_small_cong:
  "length (thread_pc u) = length (thread_pc s) \<Longrightarrow> length (build_tbl u) = length (build_tbl s) \<Longrightarrow> sizes_small u \<longleftrightarrow> sizes_small s"
  by (simp add: sizes_small_def)

lemma run_draw_ok:
  assumes inv: "draw_inv n s" and pick: "\<forall>r. pick r < n" and sched: "\<forall>k. sched k < length (thread_pc s)"
    and small: "sizes_small s"
  shows "\<exists>u. run_draw pick sched s k = Inr u \<and> draw_inv n u \<and>
    length (thread_pc u) = length (thread_pc s) \<and> length (build_tbl u) = length (build_tbl s)"
proof (induction k)
  case (Suc k)
  then obtain u where u: "run_draw pick sched s k = Inr u" "draw_inv n u"
    "length (thread_pc u) = length (thread_pc s)" "length (build_tbl u) = length (build_tbl s)" by blast
  show ?case
  proof (cases "draw_step pick (sched k) u")
    case None
    then show ?thesis using u by simp
  next
    case (Some res)
    have "sched k < length (thread_pc u)" using sched u(3) by simp
    moreover have "sizes_small u" using small u(3,4) sizes_small_cong by blast
    ultimately obtain v where v: "res = Inr v" "draw_inv n v" using draw_step_inv [OF u(2) _ pick _ Some] by blast
    then show ?thesis using u Some draw_step_lengths [of pick "sched k" u v] by simp
  qed
qed (use inv in simp)

text \<open>Whatever the sizes: what a run has reached is correct, or some thread has wrapped around.\<close>

lemma run_draw_or_wrap:
  assumes inv: "draw_inv n s" and pick: "\<forall>r. pick r < n" and sched: "\<forall>k. sched k < length (thread_pc s)"
    and ints: "sizes_small s \<or> length (build_tbl s) < 2 ^ 31 \<and> length (thread_pc s) < 2 ^ 31"
    and run: "run_draw pick sched s k = Inr u"
  shows "(draw_inv n u \<or> wrapped u) \<and> length (thread_pc u) = length (thread_pc s) \<and> length (build_tbl u) = length (build_tbl s)"
  using run
proof (induction k arbitrary: u)
  case (Suc k)
  then obtain v where v: "run_draw pick sched s k = Inr v"
    "(case draw_step pick (sched k) v of None \<Rightarrow> Inr v | Some res \<Rightarrow> res) = Inr u" by (auto simp: ebind_Inr_iff)
  note ih = Suc.IH [OF v(1)]
  show ?case
  proof (cases "draw_step pick (sched k) v")
    case None
    then show ?thesis using v(2) ih by simp
  next
    case (Some res)
    then have step: "draw_step pick (sched k) v = Some (Inr u)" using v(2) by simp
    have "sizes_small v \<or> length (build_tbl v) < 2 ^ 31 \<and> length (thread_pc v) < 2 ^ 31"
      using ints ih by (simp add: sizes_small_def)
    then have "draw_inv n v \<Longrightarrow> draw_inv n u \<or> wrapped u"
      using draw_step_or_wrap [OF _ _ pick _ step] sched ih by (metis sum.inject(2))
    then have "draw_inv n u \<or> wrapped u" using ih wrapped_step [OF _ step] by blast
    then show ?thesis using ih draw_step_lengths [OF step] by simp
  qed
qed (use inv in simp)

lemma wrapped_not_finished: "wrapped s \<Longrightarrow> \<not> finished s"
  unfolding wrapped_def finished_def list_ex_iff list_all_iff by (metis negative_row.simps(4))

text \<open>A fair schedule finishes all threads: the measure cannot decrease for ever.\<close>

lemma run_draw_ends:
  assumes inv: "draw_inv n s" and pick: "\<forall>r. pick r < n" and fair: "fair_draws (length (thread_pc s)) sched"
    and B: "length (build_tbl s) \<le> n" and small: "sizes_small s"
  shows "\<exists>k u. run_draw pick sched s k = Inr u \<and> finished u"
proof -
  let ?T = "length (thread_pc s)"
  have sched: "\<forall>k. sched k < ?T" using fair by (simp add: fair_draws_def)
  obtain u where u: "\<And>k. run_draw pick sched s k = Inr (u k)" "\<And>k. draw_inv n (u k)"
    "\<And>k. length (thread_pc (u k)) = ?T" "\<And>k. length (build_tbl (u k)) \<le> n" "\<And>k. sizes_small (u k)"
    using run_draw_ok [OF inv pick sched small] B small sizes_small_cong by metis
  have next_u: "draw_step pick (sched k) (u k) = None \<and> u (Suc k) = u k \<or>
      draw_step pick (sched k) (u k) = Some (Inr (u (Suc k)))" for k
    using u(1) [of k] u(1) [of "Suc k"] by (cases "draw_step pick (sched k) (u k)") simp_all
  have dec: "u (Suc k) = u k \<or> draw_measure (u (Suc k)) < draw_measure (u k)" for k
    using next_u [of k] draw_step_measure [OF u(2) _ pick u(4) u(5)] sched u(3) by metis
  obtain k where least: "\<And>k'. draw_measure (u k) \<le> draw_measure (u k')"
    using ex_has_least_nat [of "\<lambda>k. True" 0 "\<lambda>k. draw_measure (u k)"] by blast
  have same: "u (k + d) = u k" for d
  proof (induction d)
    case (Suc d)
    then show ?case using dec [of "k + d"] least [of "Suc (k + d)"] by simp
  qed simp
  have "thread_pc (u k) ! t = Finished" if t: "t < ?T" for t
  proof (rule ccontr)
    assume "thread_pc (u k) ! t \<noteq> Finished"
    then obtain s' where s': "draw_step pick t (u k) = Some (Inr s')" using unfinished_steps [OF u(2) _ _ pick u(5)] t u(3) by metis
    obtain d where d: "sched (k + d) = t" using fair t unfolding fair_draws_def by (metis le_Suc_ex)
    have "u (Suc (k + d)) = s'" using next_u [of "k + d"] s' d same by simp
    moreover have "draw_measure s' < draw_measure (u k)" using draw_step_measure [OF u(2) _ pick u(4) u(5) s'] t u(3) by simp
    ultimately show False using least [of "Suc (k + d)"] by simp
  qed
  then have "finished (u k)" using u(3) by (simp add: finished_def list_all_length)
  then show ?thesis using u(1) by blast
qed

section \<open>Keys of a finished run\<close>

definition drawn_keys :: "draw_state \<Rightarrow> int list" where
  "drawn_keys s = map the (build_tbl s)"

lemma finished_keys:
  assumes inv: "draw_inv n s" and fin: "finished s" and T: "0 < length (thread_pc s)"
  shows "distinct (drawn_keys s)" and "set (drawn_keys s) \<subseteq> {0..<int n}"
    and "\<forall>i < n. lottery s ! i = (if int i \<in> set (drawn_keys s) then - 1 else int i)"
proof -
  let ?tbl = "build_tbl s"
  note k = draw_invD(1) [OF inv, unfolded keys_ok_def]
  have some: "?tbl ! r \<noteq> None" if r: "r < length ?tbl" for r
  proof -
    have "r mod length (thread_pc s) < length (thread_pc s)" using T by simp
    from draw_invD(4) [OF inv this] show ?thesis using fin r \<open>r mod length (thread_pc s) < _\<close>
      by (simp add: finished_def list_all_length)
  qed
  have row: "drawn_keys s ! r = v \<longleftrightarrow> ?tbl ! r = Some v" if "r < length ?tbl" for r v
    using some [OF that] that by (auto simp: drawn_keys_def)
  show "distinct (drawn_keys s)"
    unfolding distinct_conv_nth
  proof (intro allI impI)
    fix i j assume ij: "i < length (drawn_keys s)" "j < length (drawn_keys s)" "i \<noteq> j"
    then have l: "i < length ?tbl" "j < length ?tbl" by (simp_all add: drawn_keys_def)
    then have "?tbl ! i \<noteq> ?tbl ! j" using k some ij(3) by blast
    then show "drawn_keys s ! i \<noteq> drawn_keys s ! j" using row l some by (metis option.exhaust)
  qed
  have key: "v \<in> set (drawn_keys s) \<longleftrightarrow> (\<exists>r < length ?tbl. ?tbl ! r = Some v)" for v
    using row by (auto simp: in_set_conv_nth) (auto simp: drawn_keys_def)
  have vals: "0 \<le> v \<and> v < int n \<and> lottery s ! nat v = - 1" if "v \<in> set (drawn_keys s)" for v
    using that k unfolding key by blast
  then show "set (drawn_keys s) \<subseteq> {0..<int n}" by force
  show "\<forall>i < n. lottery s ! i = (if int i \<in> set (drawn_keys s) then - 1 else int i)"
  proof (intro allI impI)
    fix i assume i: "i < n"
    show "lottery s ! i = (if int i \<in> set (drawn_keys s) then - 1 else int i)"
    proof (cases "int i \<in> set (drawn_keys s)")
      case True
      then show ?thesis using vals [OF True] by simp
    next
      case False
      then show ?thesis using k i unfolding key by (metis (no_types, lifting))
    qed
  qed
qed

section \<open>The kernels and \<open>generate_input_tables\<close>\<close>

text \<open>
  The random numbers: one per row of the build table, two per row of the probe table. A
  double is a rational number, and the conversion to an integer truncates. A row whose
  index has wrapped around has a number, too.
\<close>

record uniforms =
  x_build :: "int \<Rightarrow> rat"
  x_choice :: "nat \<Rightarrow> rat"
  x_pick :: "nat \<Rightarrow> rat"

definition lottery_index :: "rat \<Rightarrow> nat \<Rightarrow> nat" where
  "lottery_index x lottery_size = nat \<lfloor>x * of_nat lottery_size\<rfloor>"

text \<open>\<open>size_type\<close> is the 32-bit \<open>cudf::size_type\<close>; \<open>key_max\<close> is the largest value of \<open>key_type\<close>.\<close>

definition initial_lottery_size :: "int \<Rightarrow> int \<Rightarrow> int" where
  "initial_lottery_size key_max rand_max =
     sint (word_of_int (if rand_max < key_max - 1 then rand_max + 1 else rand_max) :: 32 word)"

text \<open>
  The last step of a round of the other loops over rows: the next index of the thread. If it
  has wrapped around, the next round writes to a negative row.
\<close>

definition end_of_round :: "nat \<Rightarrow> nat \<Rightarrow> 'a \<Rightarrow> 'a res" where
  "end_of_round num_threads idx val = (if next_index (int idx) num_threads < 0 then Inl OutOfBounds else Inr val)"

text \<open>The build table and the lottery after a run of at most \<open>fuel\<close> steps; \<open>None\<close> if it goes on.\<close>

definition init_build_tbl ::
  "uniforms \<Rightarrow> (nat \<Rightarrow> nat) \<Rightarrow> nat \<Rightarrow> nat \<Rightarrow> nat \<Rightarrow> int \<Rightarrow> bool \<Rightarrow> nat \<Rightarrow> (int list \<times> int list) res option" where
  "init_build_tbl u sched fuel num_threads build_tbl_size rand_max uniq_build_tbl_keys lottery_size =
     (if uniq_build_tbl_keys then
        case run_draw (\<lambda>idx. lottery_index (x_build u idx) lottery_size) sched
               (start_draw lottery_size build_tbl_size num_threads) fuel of
          Inl e \<Rightarrow> Some (Inl e)
        | Inr s \<Rightarrow> if finished s then Some (Inr (drawn_keys s, lottery s)) else None
      else Some (ebind (emap (\<lambda>idx. end_of_round num_threads idx \<lfloor>x_build u (int idx) * of_int rand_max\<rfloor>) [0..<build_tbl_size])
             (\<lambda>build_tbl. Inr (build_tbl, replicate lottery_size 0))))"

text \<open>\<open>thrust::set_difference\<close> of the keys 0, 1, ... and the build table.\<close>

definition unused_keys :: "nat \<Rightarrow> int list \<Rightarrow> int list" where
  "unused_keys lottery_size build = filter (\<lambda>k. k \<notin> set build) (map int [0..<lottery_size])"

definition init_probe_tbl :: "uniforms \<Rightarrow> nat \<Rightarrow> nat \<Rightarrow> int list \<Rightarrow> int list \<Rightarrow> nat \<Rightarrow> rat \<Rightarrow> int list res" where
  "init_probe_tbl u num_threads probe_tbl_size build lottery_mem lottery_size selectivity =
     emap (\<lambda>idx. ebind (
       if x_choice u idx \<le> selectivity then
         let build_tbl_idx = int (lottery_index (x_pick u idx) (length build));
             clamped = (if int (length build) \<le> build_tbl_idx then int (length build) - 1 else build_tbl_idx) in
         if clamped < 0 then Inl OutOfBounds else vec_at build (nat clamped)
       else vec_at lottery_mem (lottery_index (x_pick u idx) lottery_size)) (end_of_round num_threads idx)) [0..<probe_tbl_size]"

text \<open>The unused keys overwrite the beginning of the lottery.\<close>

definition generate_input_tables ::
  "uniforms \<Rightarrow> (nat \<Rightarrow> nat) \<Rightarrow> nat \<Rightarrow> nat \<Rightarrow> int \<Rightarrow> nat \<Rightarrow> nat \<Rightarrow> rat \<Rightarrow> int \<Rightarrow> bool \<Rightarrow> (int list \<times> int list) res option" where
  "generate_input_tables u sched fuel num_threads key_max build_tbl_size probe_tbl_size selectivity rand_max uniq_build_tbl_keys =
     (let lottery_size = initial_lottery_size key_max rand_max in
      if lottery_size < 0 then Some (Inl ExternalError)
      else map_option (\<lambda>res. ebind res (\<lambda>(build, lottery_mem).
        let unused = unused_keys (nat lottery_size) build in
        ebind (init_probe_tbl u num_threads probe_tbl_size build (unused @ drop (length unused) lottery_mem) (length unused) selectivity)
          (\<lambda>probe_tbl. Inr (build, probe_tbl))))
        (init_build_tbl u sched fuel num_threads build_tbl_size rand_max uniq_build_tbl_keys (nat lottery_size)))"

lemma lottery_index_less: "0 \<le> x \<Longrightarrow> x < 1 \<Longrightarrow> 0 < n \<Longrightarrow> lottery_index x n < n"
proof -
  assume x: "0 \<le> x" "x < 1" "0 < n"
  then have "x * of_nat n < 1 * of_nat n" by (intro mult_strict_right_mono) simp_all
  then show ?thesis using x by (simp add: lottery_index_def floor_less_iff nat_less_iff)
qed

lemma lottery_index_one: "lottery_index 1 n = n"
  by (simp add: lottery_index_def)

lemma initial_lottery_size_eq:
  "0 \<le> rand_max \<Longrightarrow> rand_max < key_max - 1 \<Longrightarrow> rand_max + 1 < 2 ^ 31 \<Longrightarrow> initial_lottery_size key_max rand_max = rand_max + 1"
  using sint_word_of_int32 [of "rand_max + 1"] by (simp only: initial_lottery_size_def if_True)

lemma unused_keys_set: "set (unused_keys n build) = {0..<int n} - set build"
proof -
  have "set (map int [0..<n]) = {0..<int n}" by (simp add: image_int_atLeastLessThan flip: atLeastLessThan_upt)
  then show ?thesis by (auto simp: unused_keys_def)
qed

lemma unused_keys_length: "distinct build \<Longrightarrow> set build \<subseteq> {0..<int n} \<Longrightarrow> length (unused_keys n build) + length build = n"
proof -
  assume d: "distinct build" and b: "set build \<subseteq> {0..<int n}"
  have "distinct (unused_keys n build)" by (simp add: unused_keys_def distinct_map)
  then have "length (unused_keys n build) = card ({0..<int n} - set build)"
    using distinct_card [of "unused_keys n build"] by (simp add: unused_keys_set)
  also have "\<dots> = n - card (set build)" using b by (subst card_Diff_subset) simp_all
  finally have "length (unused_keys n build) = n - length build" using distinct_card [OF d] by simp
  moreover have "length build \<le> n" using card_mono [OF _ b] distinct_card [OF d] by simp
  ultimately show ?thesis by simp
qed

section \<open>Correctness\<close>

definition uniforms_ok :: "uniforms \<Rightarrow> bool" where
  "uniforms_ok u \<longleftrightarrow> (\<forall>i. 0 \<le> x_build u i \<and> x_build u i < 1) \<and> (\<forall>i. 0 \<le> x_pick u i \<and> x_pick u i < 1)"

lemma build_run:
  assumes x: "\<forall>i. 0 \<le> x_build u i \<and> x_build u i < 1" and n: "0 < n" and T: "0 < T" and sched: "\<forall>k. sched k < T"
    and small: "B + T \<le> 2 ^ 31"
  shows "\<exists>s. run_draw (\<lambda>idx. lottery_index (x_build u idx) n) sched (start_draw n B T) fuel = Inr s \<and> draw_inv n s \<and>
    length (thread_pc s) = T \<and> length (build_tbl s) = B"
proof -
  have "length (thread_pc (start_draw n B T)) = T" "length (build_tbl (start_draw n B T)) = B" by (simp_all add: start_draw_def)
  moreover have "\<forall>r. lottery_index (x_build u r) n < n" using x n lottery_index_less by blast
  ultimately show ?thesis using run_draw_ok [OF start_draw_inv [OF T], of _ n sched B fuel] sched small
    by (metis sizes_small_def)
qed

lemma init_build_tbl_keys:
  assumes x: "\<forall>i. 0 \<le> x_build u i \<and> x_build u i < 1" and n: "0 < n" and T: "0 < T" and sched: "\<forall>k. sched k < T"
    and ints: "B + T \<le> 2 ^ 31 \<or> B < 2 ^ 31 \<and> T < 2 ^ 31" and res: "init_build_tbl u sched fuel T B rand_max True n = Some (Inr (build, mem))"
  shows "length build = B" "distinct build" "set build \<subseteq> {0..<int n}" "length mem = n"
    "\<forall>i < n. mem ! i = (if int i \<in> set build then - 1 else int i)"
proof -
  let ?s0 = "start_draw n B T"
  obtain s where s: "run_draw (\<lambda>idx. lottery_index (x_build u idx) n) sched ?s0 fuel = Inr s"
    "finished s" "build = drawn_keys s" "mem = lottery s"
    using res by (auto simp: init_build_tbl_def split: sum.splits if_splits)
  have l: "length (thread_pc ?s0) = T" "length (build_tbl ?s0) = B" by (simp_all add: start_draw_def)
  have pick: "\<forall>r. lottery_index (x_build u r) n < n" using x n lottery_index_less by blast
  have "draw_inv n s" and ls: "length (thread_pc s) = T" "length (build_tbl s) = B"
    using run_draw_or_wrap [OF start_draw_inv [OF T] pick _ _ s(1)] ints sched l
      wrapped_not_finished [of s] s(2) by (auto simp: sizes_small_def)
  moreover have "0 < length (thread_pc s)" using T ls by simp
  ultimately show "length build = B" "distinct build" "set build \<subseteq> {0..<int n}" "length mem = n"
    "\<forall>i < n. mem ! i = (if int i \<in> set build then - 1 else int i)"
    using finished_keys [OF _ s(2)] draw_invD(2) by (simp_all add: s(3,4)) (simp_all add: drawn_keys_def)
qed

lemma init_build_tbl_no_error:
  assumes x: "\<forall>i. 0 \<le> x_build u i \<and> x_build u i < 1" and n: "0 < n" and T: "0 < T" and sched: "\<forall>k. sched k < T"
    and small: "B + T \<le> 2 ^ 31" and res: "init_build_tbl u sched fuel T B rand_max True n = Some res"
  shows "\<exists>build mem. res = Inr (build, mem)"
  using build_run [OF x n T sched small, of fuel] res by (auto simp: init_build_tbl_def split: if_splits)

lemma init_build_tbl_ends:
  assumes x: "\<forall>i. 0 \<le> x_build u i \<and> x_build u i < 1" and n: "0 < n" and fair: "fair_draws T sched" and T: "0 < T" and B: "B \<le> n"
    and small: "B + T \<le> 2 ^ 31"
  shows "\<exists>fuel res. init_build_tbl u sched fuel T B rand_max True n = Some res"
proof -
  have "\<forall>r. lottery_index (x_build u r) n < n" using x n lottery_index_less by blast
  from run_draw_ends [OF start_draw_inv [OF T] this, of B sched] obtain k s
    where "run_draw (\<lambda>idx. lottery_index (x_build u idx) n) sched (start_draw n B T) k = Inr s" "finished s"
    using fair B small by (auto simp: start_draw_def sizes_small_def)
  then show ?thesis by (intro exI [of _ k]) (simp add: init_build_tbl_def)
qed

lemma init_probe_tbl_keys:
  assumes x: "\<forall>i < P. 0 \<le> x_pick u i \<and> x_pick u i < 1" and mem: "length unused \<le> length mem" "take (length unused) mem = unused"
    and need: "\<forall>i < P. if x_choice u i \<le> selectivity then build \<noteq> [] else unused \<noteq> []" and small: "P + T \<le> 2 ^ 31"
  shows "\<exists>probe. init_probe_tbl u T P build mem (length unused) selectivity = Inr probe \<and> length probe = P \<and>
    (\<forall>i < P. probe ! i \<in> (if x_choice u i \<le> selectivity then set build else set unused))"
proof -
  let ?row = "\<lambda>i. if x_choice u i \<le> selectivity then build ! lottery_index (x_pick u i) (length build)
    else unused ! lottery_index (x_pick u i) (length unused)"
  let ?f = "\<lambda>idx. ebind (if x_choice u idx \<le> selectivity then
         let build_tbl_idx = int (lottery_index (x_pick u idx) (length build));
             clamped = (if int (length build) \<le> build_tbl_idx then int (length build) - 1 else build_tbl_idx) in
         if clamped < 0 then Inl OutOfBounds else vec_at build (nat clamped)
       else vec_at mem (lottery_index (x_pick u idx) (length unused))) (end_of_round T idx)"
  have e: "end_of_round T i v = Inr v" if "i < P" for i and v :: int
    using next_index_eq [of i T] small that by (simp add: end_of_round_def)
  have row: "?f i = Inr (?row i) \<and> ?row i \<in> (if x_choice u i \<le> selectivity then set build else set unused)" if i: "i < P" for i
  proof (cases "x_choice u i \<le> selectivity")
    case True
    then have "lottery_index (x_pick u i) (length build) < length build" using x need i by (intro lottery_index_less) auto
    then show ?thesis using True e [OF i] by (simp add: Let_def)
  next
    case False
    then have l: "lottery_index (x_pick u i) (length unused) < length unused" using x need i by (intro lottery_index_less) auto
    then have "mem ! lottery_index (x_pick u i) (length unused) = unused ! lottery_index (x_pick u i) (length unused)"
      using mem(2) by (metis nth_take)
    then show ?thesis using False l mem(1) e [OF i] by simp
  qed
  have "emap ?f [0..<P] = Inr (map ?row [0..<P])" using row by (intro emap_Inr) simp
  moreover have "\<forall>i < P. map ?row [0..<P] ! i \<in> (if x_choice u i \<le> selectivity then set build else set unused)"
  proof (intro allI impI)
    fix i assume i: "i < P"
    then have "map ?row [0..<P] ! i = ?row i" by simp
    then show "map ?row [0..<P] ! i \<in> (if x_choice u i \<le> selectivity then set build else set unused)"
      using row [OF i] by (simp only:)
  qed
  ultimately show ?thesis unfolding init_probe_tbl_def by (intro exI [of _ "map ?row [0..<P]"]) simp
qed

text \<open>\<open>generate_input_tables\<close> with unique keys: it ends, more fuel changes nothing, and its result.\<close>

definition keys_fit :: "uniforms \<Rightarrow> nat \<Rightarrow> int \<Rightarrow> nat \<Rightarrow> nat \<Rightarrow> rat \<Rightarrow> int \<Rightarrow> bool" where
  "keys_fit u T key_max B P selectivity rand_max \<longleftrightarrow>
     uniforms_ok u \<and> 0 < T \<and> B + T \<le> 2 ^ 31 \<and> P + T \<le> 2 ^ 31 \<and> 0 \<le> rand_max \<and> rand_max < key_max - 1 \<and> rand_max + 1 < 2 ^ 31 \<and> int B \<le> rand_max + 1 \<and>
     (\<forall>i < P. if x_choice u i \<le> selectivity then 0 < B else int B < rand_max + 1)"

lemma keys_fit_size:
  assumes "keys_fit u T key_max B P selectivity rand_max"
  defines "n \<equiv> nat (rand_max + 1)"
  shows "initial_lottery_size key_max rand_max = int n" "0 < n" "B \<le> n" "int n = rand_max + 1"
    "\<forall>i. 0 \<le> x_build u i \<and> x_build u i < 1" "0 < T" "{0..rand_max} = {0..<int n}"
    "B + T \<le> 2 ^ 31" "P + T \<le> 2 ^ 31"
  using assms initial_lottery_size_eq [of rand_max key_max] by (auto simp: keys_fit_def uniforms_ok_def)

lemma generate_input_tables_ends:
  assumes fit: "keys_fit u T key_max B P selectivity rand_max" and fair: "fair_draws T sched"
  shows "\<exists>fuel res. generate_input_tables u sched fuel T key_max B P selectivity rand_max True = Some res"
proof -
  define n where "n = nat (rand_max + 1)"
  note n = keys_fit_size [OF fit, folded n_def]
  show ?thesis
    using init_build_tbl_ends [OF n(5,2) fair n(6,3,8), of rand_max] n(1) by (auto simp: generate_input_tables_def Let_def)
qed

lemma generate_input_tables_keys:
  assumes fit: "keys_fit u T key_max B P selectivity rand_max" and sched: "\<forall>k. sched k < T"
    and g: "generate_input_tables u sched fuel T key_max B P selectivity rand_max True = Some res"
  shows "\<exists>build probe. res = Inr (build, probe) \<and> length build = B \<and> distinct build \<and> set build \<subseteq> {0..rand_max} \<and>
    length probe = P \<and> (\<forall>i < P. probe ! i \<in> (if x_choice u i \<le> selectivity then set build else {0..rand_max} - set build))"
proof -
  define n where "n = nat (rand_max + 1)"
  note n = keys_fit_size [OF fit, folded n_def]
  have need: "\<forall>i < P. if x_choice u i \<le> selectivity then 0 < B else int B < rand_max + 1" using fit unfolding keys_fit_def by blast
  have x: "\<forall>i < P. 0 \<le> x_pick u i \<and> x_pick u i < 1" using fit by (simp add: keys_fit_def uniforms_ok_def)
  obtain bres where r: "init_build_tbl u sched fuel T B rand_max True n = Some bres"
    using g n(1) by (auto simp: generate_input_tables_def Let_def)
  obtain build mem where br: "bres = Inr (build, mem)" using init_build_tbl_no_error [OF n(5,2,6) sched n(8) r] by blast
  note b = br init_build_tbl_keys [OF n(5,2,6) sched disjI1 [OF n(8)] r [unfolded br]]
  let ?un = "unused_keys n build"
  have "length ?un + B = n" using unused_keys_length [OF b(3,4)] b(2) by simp
  then have "0 < length ?un \<longleftrightarrow> int B < rand_max + 1" using n(3,4) by presburger
  then have "?un \<noteq> [] \<longleftrightarrow> int B < rand_max + 1" by simp
  moreover have "build \<noteq> [] \<longleftrightarrow> 0 < B" using b(2) by auto
  ultimately have nd: "\<forall>i < P. if x_choice u i \<le> selectivity then build \<noteq> [] else ?un \<noteq> []" using need by presburger
  have "length ?un \<le> length (?un @ drop (length ?un) mem)" "take (length ?un) (?un @ drop (length ?un) mem) = ?un" by simp_all
  from init_probe_tbl_keys [OF x this nd n(9)] obtain probe
    where p: "init_probe_tbl u T P build (?un @ drop (length ?un) mem) (length ?un) selectivity = Inr probe" "length probe = P"
      "\<forall>i < P. probe ! i \<in> (if x_choice u i \<le> selectivity then set build else set ?un)" by blast
  have "res = Inr (build, probe)" using g r b(1) p(1) n(1) by (simp add: generate_input_tables_def Let_def)
  then show ?thesis using b p(2,3) unfolding n(7) unused_keys_set by blast
qed

lemma run_draw_finished:
  assumes "run_draw pick sched s k = Inr u" and "finished u" and "\<forall>k. sched k < length (thread_pc u)" and "k \<le> k'"
  shows "run_draw pick sched s k' = Inr u"
  using assms(4)
proof (induction k' rule: dec_induct)
  case (step k')
  have "thread_pc u ! sched k' = Finished" using assms(2,3) by (simp add: finished_def list_all_length)
  then have "draw_step pick (sched k') u = None" by (simp add: draw_step_def Let_def)
  then show ?case using step by simp
qed (rule assms(1))

lemma generate_input_tables_more_fuel:
  assumes fit: "keys_fit u T key_max B P selectivity rand_max" and sched: "\<forall>k. sched k < T"
    and g: "generate_input_tables u sched fuel T key_max B P selectivity rand_max True = Some res" and "fuel \<le> fuel'"
  shows "generate_input_tables u sched fuel' T key_max B P selectivity rand_max True = Some res"
proof -
  define n where "n = nat (rand_max + 1)"
  note n = keys_fit_size [OF fit, folded n_def]
  let ?run = "run_draw (\<lambda>idx. lottery_index (x_build u idx) n) sched"
  obtain s where s: "?run (start_draw n B T) fuel = Inr s" "draw_inv n s" "length (thread_pc s) = T"
    using build_run [OF n(5,2,6) sched n(8)] by blast
  then have f: "finished s" using g n(1) by (auto simp: generate_input_tables_def init_build_tbl_def Let_def split: if_splits)
  have "?run (start_draw n B T) fuel' = Inr s" by (rule run_draw_finished [OF s(1) f _ assms(4)]) (simp add: s(3) sched)
  then have "init_build_tbl u sched fuel' T B rand_max True n = init_build_tbl u sched fuel T B rand_max True n"
    using s(1) by (simp add: init_build_tbl_def)
  then show ?thesis using g n(1) by (simp add: generate_input_tables_def Let_def)
qed

end
