(* ===== verification/Int_Bytes.thy ===== *)
theory Int_Bytes
  imports Table
begin

text \<open>
  Integers of any width as bytes, low byte first, and columns of them: what the data
  generator writes and the device adds to. Storing keeps the low bytes, so arithmetic on
  stored integers is modulo \<open>256 ^ w\<close>, for signed and unsigned types alike.
\<close>

section \<open>One integer\<close>

primrec store_int :: "nat \<Rightarrow> int \<Rightarrow> byte list" where
  "store_int 0 x = []"
| "store_int (Suc w) x = word_of_int x # store_int w (x div 256)"

fun load_int :: "byte list \<Rightarrow> int" where
  "load_int [] = 0"
| "load_int (b # bs) = uint b + 256 * load_int bs"

lemma length_store_int [simp]: "length (store_int w x) = w"
  by (induction w arbitrary: x) simp_all

lemma load_store_int: "load_int (store_int w x) = x mod 256 ^ w"
proof (induction w arbitrary: x)
  case (Suc w)
  have "uint (word_of_int x :: byte) = x mod 256" by (simp add: unsigned_of_int take_bit_eq_mod)
  then have "load_int (store_int (Suc w) x) = 256 * (x div 256 mod 256 ^ w) + x mod 256"
    by (simp only: store_int.simps load_int.simps Suc add.commute)
  also have "\<dots> = x mod (256 * 256 ^ w)" by (rule zmod_zmult2_eq [symmetric]) simp
  finally show ?case by (simp only: power_Suc)
qed simp

lemma mod_div_256: "x mod (256 * 256 ^ w) div 256 = x div 256 mod (256 ^ w :: int)"
proof -
  have "x mod (256 * 256 ^ w) = 256 * (x div 256 mod 256 ^ w) + x mod 256" by (rule zmod_zmult2_eq) simp
  moreover have "(256 * a + x mod 256) div 256 = a" for a :: int by simp
  ultimately show ?thesis by (simp only:)
qed

lemma store_int_cong: "x mod 256 ^ w = y mod 256 ^ w \<Longrightarrow> store_int w x = store_int w y"
proof (induction w arbitrary: x y)
  case (Suc w)
  have e: "x mod (256 * 256 ^ w) = y mod (256 * 256 ^ w)" using Suc.prems by simp
  have m: "z mod (256 * 256 ^ w) mod 256 = z mod 256" for z :: int by (rule mod_mod_cancel) (rule dvd_triv_left)
  have "x mod 256 = y mod 256" using arg_cong [OF e, of "\<lambda>z. z mod 256"] unfolding m .
  then have "(word_of_int x :: byte) = word_of_int y" by (simp add: word_of_int_eq_iff take_bit_eq_mod)
  moreover have "x div 256 mod 256 ^ w = y div 256 mod 256 ^ w"
    using arg_cong [OF e, of "\<lambda>z. z div 256"] unfolding mod_div_256 .
  then have "store_int w (x div 256) = store_int w (y div 256)" by (rule Suc.IH)
  ultimately show ?case by (simp only: store_int.simps)
qed simp

lemma store_load_add: "store_int w (load_int (store_int w x) + c) = store_int w (x + c)"
  by (rule store_int_cong) (simp add: load_store_int mod_add_left_eq)

lemma store_int_inj:
  assumes "store_int w x = store_int w y" and "0 \<le> x" "x < 256 ^ w" and "0 \<le> y" "y < 256 ^ w"
  shows "x = y"
proof -
  have "x mod 256 ^ w = y mod 256 ^ w"
    using arg_cong [OF assms(1), of load_int] unfolding load_store_int .
  then show ?thesis unfolding mod_pos_pos_trivial [OF assms(2,3)] mod_pos_pos_trivial [OF assms(4,5)] .
qed

section \<open>Columns\<close>

definition store_ints :: "nat \<Rightarrow> int list \<Rightarrow> byte list" where
  "store_ints w xs = concat (map (store_int w) xs)"

lemma length_store_ints [simp]: "length (store_ints w xs) = length xs * w"
  by (induction xs) (simp_all add: store_ints_def)

lemma store_ints_append: "store_ints w (xs @ ys) = store_ints w xs @ store_ints w ys"
  by (simp add: store_ints_def)

lemma store_ints_concat: "store_ints w (concat xss) = concat (map (store_ints w) xss)"
  by (induction xss) (simp_all add: store_ints_append, simp add: store_ints_def)

lemma subrange_store_ints:
  assumes "a \<le> b" and "b \<le> length xs"
  shows "subrange (store_ints w xs) (int a * int w) (int b * int w) = store_ints w (take (b - a) (drop a xs))"
proof -
  have xs: "xs = take a xs @ take (b - a) (drop a xs) @ drop b xs"
    using assms(1) by (metis append_take_drop_id drop_drop le_add_diff_inverse2)
  have "int b * int w - int a * int w = int ((b - a) * w)" using assms(1) by (simp add: of_nat_diff left_diff_distrib)
  then have n: "nat (int a * int w) = a * w" "nat (int b * int w - int a * int w) = (b - a) * w"
    by (simp_all only: nat_int flip: of_nat_mult)
  have "store_ints w xs = store_ints w (take a xs) @ store_ints w (take (b - a) (drop a xs)) @ store_ints w (drop b xs)"
    by (subst xs) (simp only: store_ints_append)
  then show ?thesis using assms by (simp add: subrange_def n)
qed

lemma cell_store_ints:
  assumes "i < length xs"
  shows "cell env (FixedWidth d (store_ints (size_of env d) xs)) i = store_int (size_of env d) (xs ! i)"
proof -
  have "take (Suc i - i) (drop i xs) = [xs ! i]" using assms by (simp add: take_Suc_conv_app_nth)
  then show ?thesis
    using subrange_store_ints [of i "Suc i" xs "size_of env d"] assms by (simp add: store_ints_def)
qed

end
