(* ===== verification/Generate_Table.thy ===== *)
theory Generate_Table
  imports Input_Tables Int_Bytes Table_Rows
begin

text \<open>
  \<open>src/src/generate_table.cuh\<close>: the benchmark tables. Every rank generates a build and a
  probe table with a key and a payload column, moves their values to its own range, and
  deals its rows out to all ranks in one all-to-all communication.
\<close>

section \<open>Generation on one rank\<close>

definition generate_payload_functor :: "nat \<Rightarrow> nat \<Rightarrow> byte list" where
  "generate_payload_functor w nelements = store_ints w (map int [0..<nelements])"

definition generate_build_probe_tables ::
  "'d cudf \<Rightarrow> 'd \<Rightarrow> 'd \<Rightarrow> uniforms \<Rightarrow> (nat \<Rightarrow> nat) \<Rightarrow> nat \<Rightarrow> nat \<Rightarrow> nat \<Rightarrow> nat \<Rightarrow> rat \<Rightarrow> int \<Rightarrow> bool \<Rightarrow>
     ('d table \<times> 'd table) res option" where
  "generate_build_probe_tables env key_type payload_type u sched fuel num_threads
       build_table_nrows probe_table_nrows selectivity rand_max uniq_build_tbl_keys =
     (let w = size_of env key_type;
          payload = (\<lambda>n. FixedWidth payload_type (generate_payload_functor (size_of env payload_type) n)) in
      map_option (\<lambda>res. ebind res (\<lambda>(build, probe). Inr
          ([FixedWidth key_type (store_ints w build), payload build_table_nrows],
           [FixedWidth key_type (store_ints w probe), payload probe_table_nrows])))
        (generate_input_tables u sched fuel num_threads (2 ^ (8 * w - 1) - 1)
           build_table_nrows probe_table_nrows selectivity rand_max uniq_build_tbl_keys))"

text \<open>Both columns are of fixed width.\<close>

fun add_constant_to_column :: "'d cudf \<Rightarrow> 'd column \<Rightarrow> int \<Rightarrow> 'd column" where
  "add_constant_to_column env (FixedWidth d bs) constant =
     FixedWidth d (concat (map (\<lambda>i. store_int (size_of env d) (load_int (cell env (FixedWidth d bs) i) + constant))
       [0..<column_size env (FixedWidth d bs)]))"
| "add_constant_to_column env (Strings offs cs) constant = Strings offs cs"

section \<open>The distributed tables\<close>

text \<open>
  The number of rows times the rank is a 32-bit product before it is converted to the
  payload type.
\<close>

definition move_to_range :: "'d cudf \<Rightarrow> int \<Rightarrow> nat \<Rightarrow> rank \<Rightarrow> 'd table \<Rightarrow> 'd table" where
  "move_to_range env rand_max_per_rank nrows_per_rank r t =
     t[0 := add_constant_to_column env (t ! 0) (rand_max_per_rank * int r),
       1 := add_constant_to_column env (t ! 1) (narrow32 (int nrows_per_rank * int r))]"

definition table_offsets :: "nat \<Rightarrow> nat \<Rightarrow> 32 word list" where
  "table_offsets mpi_size nrows_per_rank = map (\<lambda>irank. of_nat (nrows_per_rank div mpi_size * irank)) [0..<mpi_size + 1]"

definition receive_table :: "'d cudf \<Rightarrow> 'd table \<Rightarrow> int list \<Rightarrow> 'd table" where
  "receive_table env pre recv_offset =
     map (\<lambda>c. FixedWidth (dtype c) (replicate (nat (last recv_offset) * size_of env (dtype c)) 0)) pre"

text \<open>From the generated tables of all ranks to the distributed ones.\<close>

definition distribute_generated ::
  "nvcomp \<Rightarrow> 'd cudf \<Rightarrow> ((rank \<times> int) list list \<Rightarrow> rank \<Rightarrow> rank list \<Rightarrow> int list res) \<Rightarrow>
     ((rank \<times> msg) list list \<Rightarrow> rank \<Rightarrow> rank list \<Rightarrow> msg list res) \<Rightarrow> bool \<Rightarrow> int \<Rightarrow> nat \<Rightarrow> nat \<Rightarrow>
     ('d table \<times> 'd table) list \<Rightarrow> ('d table \<times> 'd table) list res" where
  "distribute_generated nv env mpi exch group_by_batch rand_max_per_rank build_table_nrows probe_table_nrows pre =
     (let N = length pre;
          pre_build = (\<lambda>r. move_to_range env rand_max_per_rank build_table_nrows r (fst (pre ! r)));
          pre_probe = (\<lambda>r. move_to_range env rand_max_per_rank probe_table_nrows r (snd (pre ! r)));
          build_offset = table_offsets N build_table_nrows;
          probe_offset = table_offsets N probe_table_nrows in
      ebind (communicate_sizes_size_type mpi N 1 (replicate N build_offset)) (\<lambda>build_recv.
      ebind (communicate_sizes_size_type mpi N 1 (replicate N probe_offset)) (\<lambda>probe_recv.
      ebind (emap (\<lambda>r.
          ebind (append_to_all_to_all_comm_buffers_fixed env (pre_build r) (receive_table env (pre_build r) (build_recv ! r))
                   (comm_group_at N 1 r) build_offset (build_recv ! r) (generate_none_compression_options (pre_build r)) [])
            (append_to_all_to_all_comm_buffers_fixed env (pre_probe r) (receive_table env (pre_probe r) (probe_recv ! r))
               (comm_group_at N 1 r) probe_offset (probe_recv ! r) (generate_none_compression_options (pre_probe r))))
        [0..<N]) (\<lambda>buffers.
      ebind (all_to_all_comm nv env mpi exch group_by_batch N 1 True buffers) (\<lambda>done.
      Inr (map (\<lambda>r. (fst (store_columns (receive_table env (pre_build r) (build_recv ! r)) (done ! r)),
                     fst (store_columns (receive_table env (pre_probe r) (probe_recv ! r)) (drop (length (pre_build r)) (done ! r)))))
             [0..<N]))))))"

text \<open>
  The whole function; \<open>None\<close> if a rank has not finished its generation within \<open>fuel\<close> steps.
\<close>

definition generate_tables_distributed ::
  "nvcomp \<Rightarrow> 'd cudf \<Rightarrow> ((rank \<times> int) list list \<Rightarrow> rank \<Rightarrow> rank list \<Rightarrow> int list res) \<Rightarrow>
     ((rank \<times> msg) list list \<Rightarrow> rank \<Rightarrow> rank list \<Rightarrow> msg list res) \<Rightarrow> bool \<Rightarrow> nat \<Rightarrow> 'd \<Rightarrow> 'd \<Rightarrow>
     (rank \<Rightarrow> uniforms) \<Rightarrow> (rank \<Rightarrow> nat \<Rightarrow> nat) \<Rightarrow> nat \<Rightarrow> nat \<Rightarrow> nat \<Rightarrow> nat \<Rightarrow> rat \<Rightarrow> int \<Rightarrow> bool \<Rightarrow>
     ('d table \<times> 'd table) list res option" where
  "generate_tables_distributed nv env mpi exch group_by_batch mpi_size key_type payload_type u sched fuel num_threads
       build_table_nrows_per_rank probe_table_nrows_per_rank selectivity rand_max_per_rank uniq_build_tbl_keys =
     map_option (\<lambda>res. ebind (emap (\<lambda>x. x) res)
        (distribute_generated nv env mpi exch group_by_batch rand_max_per_rank
           build_table_nrows_per_rank probe_table_nrows_per_rank))
       (those (map (\<lambda>r. generate_build_probe_tables env key_type payload_type (u r) (sched r) fuel num_threads
          build_table_nrows_per_rank probe_table_nrows_per_rank selectivity rand_max_per_rank uniq_build_tbl_keys)
        [0..<mpi_size]))"

section \<open>Tables of keys and payloads\<close>

definition kp_table :: "'d cudf \<Rightarrow> 'd \<Rightarrow> 'd \<Rightarrow> (int \<times> int) list \<Rightarrow> 'd table" where
  "kp_table env kt pt rows =
     [FixedWidth kt (store_ints (size_of env kt) (map fst rows)), FixedWidth pt (store_ints (size_of env pt) (map snd rows))]"

lemma add_constant_store_ints:
  assumes "cudf_ok env"
  shows "add_constant_to_column env (FixedWidth d (store_ints (size_of env d) xs)) c =
    FixedWidth d (store_ints (size_of env d) (map (\<lambda>x. x + c) xs))"
proof -
  have w: "0 < size_of env d" using assms by simp
  have "map (\<lambda>i. store_int (size_of env d) (load_int (cell env (FixedWidth d (store_ints (size_of env d) xs)) i) + c)) [0..<length xs] =
      map (\<lambda>i. store_int (size_of env d) (xs ! i + c)) [0..<length xs]"
    by (rule map_cong [OF refl]) (simp only: set_upt atLeastLessThan_iff cell_store_ints store_load_add)
  also have "\<dots> = map (store_int (size_of env d)) (map (\<lambda>x. x + c) xs)" by (rule nth_equalityI) simp_all
  finally have "map (\<lambda>i. store_int (size_of env d) (load_int (cell env (FixedWidth d (store_ints (size_of env d) xs)) i) + c)) [0..<length xs] =
      map (store_int (size_of env d)) (map (\<lambda>x. x + c) xs)" .
  then show ?thesis using w by (simp only: add_constant_to_column.simps column_size.simps length_store_ints)
      (simp only: store_ints_def nonzero_mult_div_cancel_right less_numeral_extra neq0_conv)
qed

definition moved :: "int \<Rightarrow> int \<Rightarrow> (int \<times> int) list \<Rightarrow> (int \<times> int) list" where
  "moved a b = map (\<lambda>(k, p). (k + a, p + b))"

lemma move_kp_table:
  "cudf_ok env \<Longrightarrow> move_to_range env m n r (kp_table env kt pt rows) =
    kp_table env kt pt (moved (m * int r) (narrow32 (int n * int r)) rows)"
  by (simp add: move_to_range_def kp_table_def moved_def add_constant_store_ints case_prod_unfold comp_def
      del: add_constant_to_column.simps)

lemma length_moved [simp]: "length (moved a b rows) = length rows"
  by (simp add: moved_def)

lemma table_offsets_int:
  assumes "n < 2 ^ 31"
  shows "map sint (table_offsets N n) = map (\<lambda>i. int (n div N * i)) [0..<N + 1]"
proof -
  have "sint (of_nat (n div N * i) :: 32 word) = int (n div N * i)" if i: "i \<le> N" for i
  proof -
    have "n div N * i \<le> n div N * N" using i by (rule mult_le_mono2)
    also have "\<dots> \<le> n" by simp
    finally have "n div N * i < 2 ^ 31" using assms by linarith
    then show ?thesis by (simp add: signed_of_nat signed_take_bit_int_eq_self del: of_nat_mult)
  qed
  then show ?thesis by (simp add: table_offsets_def del: of_nat_mult upt_Suc)
qed

section \<open>The communication\<close>

text \<open>Every rank cuts its rows into \<open>N\<close> chunks of \<open>q\<close> rows; rank \<open>r\<close> gets chunk \<open>r\<close> of all.\<close>

definition dealt :: "nat \<Rightarrow> nat \<Rightarrow> (rank \<Rightarrow> 'a list) \<Rightarrow> rank \<Rightarrow> 'a list" where
  "dealt N q rows r = concat (map (\<lambda>s. take q (drop (q * r) (rows s))) [0..<N])"

lemma map_dealt: "map f (dealt N q rows r) = dealt N q (\<lambda>s. map f (rows s)) r"
  by (simp add: dealt_def map_concat take_map drop_map comp_def)

lemma dealt_store_ints: "store_ints w (dealt N q rows r) =
    concat (map (\<lambda>s. store_ints w (take q (drop (q * r) (rows s)))) [0..<N])"
  by (simp add: dealt_def store_ints_concat comp_def)

lemma mset_chunks: "N * q \<le> length xs \<Longrightarrow> (\<Sum>r < N. mset (take q (drop (q * r) xs))) = mset (take (N * q) xs)"
proof (induction N)
  case (Suc N)
  have e: "Suc N * q = N * q + q" "q * N = N * q" by simp_all
  have "take (Suc N * q) xs = take (N * q) xs @ take q (drop (q * N) xs)" unfolding e by (rule take_add)
  then show ?case using Suc by simp
qed simp

lemma mset_dealt:
  assumes "\<forall>s < N. length (rows s) = n"
  shows "(\<Sum>r < N. mset (dealt N (n div N) rows r)) = (\<Sum>s < N. mset (take (N * (n div N)) (rows s)))"
proof -
  have "mset (dealt N (n div N) rows r) = (\<Sum>s < N. mset (take (n div N) (drop (n div N * r) (rows s))))" for r
    by (simp add: dealt_def mset_concat sum_list_upt comp_def)
  then have "(\<Sum>r < N. mset (dealt N (n div N) rows r)) = (\<Sum>r < N. \<Sum>s < N. mset (take (n div N) (drop (n div N * r) (rows s))))"
    by (simp only:)
  also have "\<dots> = (\<Sum>s < N. \<Sum>r < N. mset (take (n div N) (drop (n div N * r) (rows s))))" by (rule sum.swap)
  also have "\<dots> = (\<Sum>s < N. mset (take (N * (n div N)) (rows s)))"
    using assms by (intro sum.cong refl mset_chunks) simp
  finally show ?thesis .
qed

text \<open>One column as a buffer on every rank.\<close>

definition deal_recv :: "nat \<Rightarrow> nat \<Rightarrow> rank \<Rightarrow> int list" where
  "deal_recv N n r = recv_offsets_spec N 1 (replicate N (map sint (table_offsets N n))) r"

definition deal_buffer :: "'d cudf \<Rightarrow> nat \<Rightarrow> nat \<Rightarrow> 'd \<Rightarrow> (rank \<Rightarrow> int list) \<Rightarrow> rank \<Rightarrow> 'd a2a_buffer" where
  "deal_buffer env N n d xs r =
     AllToAllCommBuffer (store_ints (size_of env d) (xs r)) (replicate (nat (last (deal_recv N n r)) * size_of env d) 0)
       (map sint (table_offsets N n)) (deal_recv N n r) d CompNone default_format"

lemma deal_offsets_ok: "n < 2 ^ 31 \<Longrightarrow> offsets_ok N (map sint (table_offsets N n))"
  by (simp add: table_offsets_int offsets_ok_def sorted_iff_nth_mono mult_left_mono del: upt_Suc of_nat_mult)

lemma deal_recv_ok: "0 < N \<Longrightarrow> N < 2 ^ 31 \<Longrightarrow> r < N \<Longrightarrow> n < 2 ^ 31 \<Longrightarrow> offsets_ok N (deal_recv N n r)"
  using recv_offsets_spec_ok [of N N 1 r "replicate N (map sint (table_offsets N n))"] deal_offsets_ok [of n N]
  by (simp add: deal_recv_def group_params_def)

lemma deal_ready:
  assumes "0 < N" and "N < 2 ^ 31" and "n < 2 ^ 31" and "\<forall>s < N. length (xs s) = n"
  shows "buffer_ready env N N 1 d CompNone (deal_buffer env N n d xs)"
proof -
  have o: "map sint (table_offsets N n) ! N = int (n div N * N)"
    using assms(3) by (simp add: table_offsets_int del: upt_Suc of_nat_mult)
  have "n div N * N \<le> n" by simp
  then have "int (n div N * N) \<le> int n" by (simp only: of_nat_le_iff)
  moreover have "int n < 2 ^ 31" using assms(3) by simp
  ultimately have b: "int (n div N * N) < 2 ^ 31" by (rule le_less_trans)
  have "int (n div N * N) * int (size_of env d) \<le> int (n * size_of env d)"
    using \<open>n div N * N \<le> n\<close> by (simp only: of_nat_mult [symmetric] of_nat_le_iff mult_le_mono1)
  moreover have "int (nat (last (deal_recv N n r)) * size_of env d) = deal_recv N n r ! N * int (size_of env d)" if "r < N" for r
    using deal_recv_ok [OF assms(1,2) that assms(3)] by (simp add: offsets_ok_last offsets_ok_nonneg)
  moreover have "map (\<lambda>s. send_offsets (deal_buffer env N n d xs s)) [0..<N] = replicate N (map sint (table_offsets N n))"
    by (simp add: deal_buffer_def AllToAllCommBuffer_def map_replicate_const)
  ultimately show ?thesis
    using assms(4) deal_offsets_ok [OF assms(3), of N] o b
    unfolding buffer_ready_def
    by (simp add: deal_buffer_def AllToAllCommBuffer_def sendable_def deal_recv_def del: of_nat_mult)
qed

lemma deal_delivered:
  assumes "n < 2 ^ 31" and "r < N" and "\<forall>s < N. length (xs s) = n"
  shows "delivered env N 1 True (deal_buffer env N n d xs) r = store_ints (size_of env d) (dealt N (n div N) xs r)"
proof -
  have idx: "get_local_idx (comm_group_at N 1 r) = r" using assms(2) by (simp add: get_local_idx_def comm_group_at_def)
  have "seg (store_ints (size_of env d) (xs s)) (map sint (table_offsets N n)) (size_of env d) r =
      store_ints (size_of env d) (take (n div N) (drop (n div N * r) (xs s)))" if "s < N" for s
  proof -
    have "n div N * Suc r \<le> n div N * N" using assms(2) by (intro mult_le_mono2) simp
    also have "\<dots> \<le> n" by simp
    finally have "n div N * Suc r \<le> length (xs s)" using assms(3) that by simp
    moreover have "n div N * r \<le> n div N * Suc r" by simp
    moreover have "n div N * Suc r - n div N * r = n div N" by simp
    ultimately show ?thesis
      using subrange_store_ints [of "n div N * r" "n div N * Suc r" "xs s" "size_of env d"] assms(1,2)
      by (simp only: seg_def table_offsets_int)
        (simp add: nth_append del: upt_Suc of_nat_mult)
  qed
  then show ?thesis
    unfolding delivered_def Let_def members_all [OF assms(2)] idx dealt_store_ints
    by (intro arg_cong [where f = concat] map_cong refl) (simp add: deal_buffer_def AllToAllCommBuffer_def)
qed

text \<open>The four buffers, and what the ranks end up with.\<close>

definition kp_plan :: "'d cudf \<Rightarrow> nat \<Rightarrow> 'd \<Rightarrow> 'd \<Rightarrow> nat \<Rightarrow> (rank \<Rightarrow> (int \<times> int) list) \<Rightarrow> nat \<Rightarrow> rank \<Rightarrow> 'd a2a_buffer" where
  "kp_plan env N kt pt n rows b =
     (if b = 0 then deal_buffer env N n kt (\<lambda>s. map fst (rows s)) else deal_buffer env N n pt (\<lambda>s. map snd (rows s)))"

lemma kp_ready:
  assumes "0 < N" and "N < 2 ^ 31" and "n < 2 ^ 31" and "\<forall>s < N. length (rows s) = n"
  shows "buffer_ready env N N 1 (if b = 0 then kt else pt) CompNone (kp_plan env N kt pt n rows b)"
proof (cases "b = 0")
  case True
  then show ?thesis unfolding kp_plan_def if_P [OF True] using assms by (intro deal_ready) simp_all
next
  case False
  then show ?thesis unfolding kp_plan_def if_not_P [OF False] using assms by (intro deal_ready) simp_all
qed

lemma kp_delivered:
  assumes "n < 2 ^ 31" and "r < N" and "\<forall>s < N. length (rows s) = n"
  shows "delivered env N 1 True (kp_plan env N kt pt n rows 0) r = store_ints (size_of env kt) (map fst (dealt N (n div N) rows r))"
    and "delivered env N 1 True (kp_plan env N kt pt n rows 1) r = store_ints (size_of env pt) (map snd (dealt N (n div N) rows r))"
  using assms(3) deal_delivered [OF assms(1,2), of "\<lambda>s. map fst (rows s)" env kt]
    deal_delivered [OF assms(1,2), of "\<lambda>s. map snd (rows s)" env pt]
  by (simp_all add: kp_plan_def map_dealt del: One_nat_def)

lemma append_kp_table:
  "append_to_all_to_all_comm_buffers_fixed env (kp_table env kt pt (rows r)) (receive_table env (kp_table env kt pt (rows r)) (deal_recv N n r))
     g (table_offsets N n) (deal_recv N n r) (generate_none_compression_options (kp_table env kt pt (rows r))) bufs =
   Inr (bufs @ [kp_plan env N kt pt n rows 0 r, kp_plan env N kt pt n rows 1 r])"
  by (simp add: append_to_all_to_all_comm_buffers_fixed_def append_to_all_to_all_comm_buffers_def kp_table_def receive_table_def
      column_buffers_def generate_none_compression_options_def default_options_def vec_at_def kp_plan_def deal_buffer_def
      upt_rec numeral_2_eq_2)

lemma store_kp_table:
  assumes "recv_buffer b0 = store_ints (size_of env kt) (map fst out)" and "recv_buffer b1 = store_ints (size_of env pt) (map snd out)"
  shows "fst (store_columns (receive_table env (kp_table env kt pt rows) ro) (b0 # b1 # bs)) = kp_table env kt pt out"
  using assms by (simp add: kp_table_def receive_table_def)

lemma distribute_generated_ok:
  fixes bs ps :: "rank \<Rightarrow> (int \<times> int) list"
  assumes nv: "nvcomp_ok nv" and env: "cudf_ok env" and mpi: "p2p_transport mpi (\<lambda>_. True) N False"
    and tr: "p2p_transport exch okm N multi" and N: "0 < N" "N < 2 ^ 31" and gbb: "gbb \<longrightarrow> multi"
    and B: "B < 2 ^ 31" "\<forall>s < N. length (bs s) = B" and P: "P < 2 ^ 31" "\<forall>s < N. length (ps s) = P"
    and okm: "okm_sizes okm {size_of env kt, size_of env pt}"
  shows "distribute_generated nv env mpi exch gbb m B P (map (\<lambda>r. (kp_table env kt pt (bs r), kp_table env kt pt (ps r))) [0..<N]) =
    Inr (map (\<lambda>r. (kp_table env kt pt (dealt N (B div N) (\<lambda>s. moved (m * int s) (narrow32 (int B * int s)) (bs s)) r),
                   kp_table env kt pt (dealt N (P div N) (\<lambda>s. moved (m * int s) (narrow32 (int P * int s)) (ps s)) r))) [0..<N])"
proof -
  define rb where "rb s = moved (m * int s) (narrow32 (int B * int s)) (bs s)" for s
  define rp where "rp s = moved (m * int s) (narrow32 (int P * int s)) (ps s)" for s
  define F where "F b = (if b < 2 then kp_plan env N kt pt B rb b else kp_plan env N kt pt P rp (b - 2))" for b :: nat
  let ?pre = "map (\<lambda>r. (kp_table env kt pt (bs r), kp_table env kt pt (ps r))) [0..<N]"
  let ?ty = "\<lambda>b :: nat. if b = 0 \<or> b = 2 then kt else pt"
  have grp: "group_params N N 1" using N by (simp add: group_params_def)
  have len: "\<forall>s < N. length (rb s) = B" "\<forall>s < N. length (rp s) = P" using B(2) P(2) by (simp_all add: rb_def rp_def)
  have sizes: "communicate_sizes_size_type mpi N 1 (replicate N (table_offsets N n)) = Inr (map (deal_recv N n) [0..<N])" for n
  proof -
    have "communicate_sizes mpi N 1 (replicate N (map sint (table_offsets N n))) =
        Inr (map (recv_offsets_spec N 1 (replicate N (map sint (table_offsets N n)))) [0..<N])"
      by (rule communicate_sizes_eq [OF mpi grp]) (simp_all add: table_offsets_def del: upt_Suc)
    then show ?thesis by (simp add: communicate_sizes_size_type_def deal_recv_def [abs_def])
  qed
  have pre: "move_to_range env m B r (kp_table env kt pt (bs r)) = kp_table env kt pt (rb r)"
    "move_to_range env m P r (kp_table env kt pt (ps r)) = kp_table env kt pt (rp r)" for r
    by (simp_all add: move_kp_table [OF env] rb_def rp_def)
  have four: "[0..<4] = [0, 1, 2, 3 :: nat]" by (simp add: upt_rec)
  have row: "map (\<lambda>b. G b r) [0..<4] = [G 0 r, G 1 r, G 2 r, G 3 r]" for G :: "nat \<Rightarrow> rank \<Rightarrow> 'a a2a_buffer" and r
    unfolding four by simp
  have ready: "plans_ready env N N 1 4 ?ty (\<lambda>_. CompNone) F"
    unfolding plans_ready_def
  proof (intro allI impI)
    fix b :: nat assume "b < 4"
    then show "buffer_ready env N N 1 (?ty b) CompNone (F b)"
      using kp_ready [OF N P(1) len(2), where env = env and kt = kt and pt = pt and b = "b - 2"] kp_ready [OF N B(1) len(1), where env = env and kt = kt and pt = pt and b = b]
      by (cases "b < 2") (auto simp: F_def simp del: One_nat_def)
  qed
  have wires: "okm_sizes okm ((\<lambda>b. wire_size env (?ty b) CompNone) ` {..<4})"
    using okm by (auto simp: okm_sizes_def wire_size_def)
  have comm: "all_to_all_comm nv env mpi exch gbb N 1 True (mat 4 N F) = Inr (mat 4 N (\<lambda>b. after_comm nv env N N 1 True (F b)))"
    by (rule all_to_all_comm_ok [OF nv env grp mpi tr ready wires N(1) gbb])
  have recv: "recv_buffer (after_comm nv env N N 1 True (F b) r) = delivered env N 1 True (F b) r" if "b < 4" "r < N" for b r
    using that ready by (subst after_comm_none [OF grp]) (auto simp: plans_ready_def buffer_ready_def)
  have del: "delivered env N 1 True (kp_plan env N kt pt n rows 0) r = store_ints (size_of env kt) (map fst (dealt N (n div N) rows r))"
    "delivered env N 1 True (kp_plan env N kt pt n rows 1) r = store_ints (size_of env pt) (map snd (dealt N (n div N) rows r))"
    if "n < 2 ^ 31" "\<forall>s < N. length (rows s) = n" "r < N" for n rows r
    using that kp_delivered [of n r N rows env kt pt] by simp_all
  have Fb: "F 0 = kp_plan env N kt pt B rb 0" "F 1 = kp_plan env N kt pt B rb 1"
    "F 2 = kp_plan env N kt pt P rp 0" "F 3 = kp_plan env N kt pt P rp 1" by (simp_all add: F_def)
  let ?after = "\<lambda>b. after_comm nv env N N 1 True (F b)"
  have out: "fst (store_columns (receive_table env (kp_table env kt pt (rb r)) (deal_recv N B r)) (map (\<lambda>b. ?after b r) [0..<4])) =
      kp_table env kt pt (dealt N (B div N) rb r)"
    "fst (store_columns (receive_table env (kp_table env kt pt (rp r)) (deal_recv N P r)) (drop 2 (map (\<lambda>b. ?after b r) [0..<4]))) =
      kp_table env kt pt (dealt N (P div N) rp r)" if r: "r < N" for r
  proof -
    have "recv_buffer (?after 0 r) = store_ints (size_of env kt) (map fst (dealt N (B div N) rb r))"
      "recv_buffer (?after 1 r) = store_ints (size_of env pt) (map snd (dealt N (B div N) rb r))"
      "recv_buffer (?after 2 r) = store_ints (size_of env kt) (map fst (dealt N (P div N) rp r))"
      "recv_buffer (?after 3 r) = store_ints (size_of env pt) (map snd (dealt N (P div N) rp r))"
      using recv [of 0 r] recv [of 1 r] recv [of 2 r] recv [of 3 r] r del [OF B(1) len(1) r] del [OF P(1) len(2) r]
      unfolding Fb by (simp_all del: One_nat_def)
    then show "fst (store_columns (receive_table env (kp_table env kt pt (rb r)) (deal_recv N B r)) (map (\<lambda>b. ?after b r) [0..<4])) =
        kp_table env kt pt (dealt N (B div N) rb r)"
      "fst (store_columns (receive_table env (kp_table env kt pt (rp r)) (deal_recv N P r)) (drop 2 (map (\<lambda>b. ?after b r) [0..<4]))) =
        kp_table env kt pt (dealt N (P div N) rp r)"
      unfolding four by (simp_all add: store_kp_table)
  qed
  let ?br = "map (deal_recv N B) [0..<N]" and ?pr = "map (deal_recv N P) [0..<N]"
    and ?pb = "\<lambda>r. move_to_range env m B r (fst (?pre ! r))" and ?pp = "\<lambda>r. move_to_range env m P r (snd (?pre ! r))"
  have bufs: "emap (\<lambda>r.
      ebind (append_to_all_to_all_comm_buffers_fixed env (?pb r) (receive_table env (?pb r) (?br ! r))
               (comm_group_at N 1 r) (table_offsets N B) (?br ! r) (generate_none_compression_options (?pb r)) [])
        (append_to_all_to_all_comm_buffers_fixed env (?pp r) (receive_table env (?pp r) (?pr ! r))
           (comm_group_at N 1 r) (table_offsets N P) (?pr ! r) (generate_none_compression_options (?pp r))))
      [0..<N] = Inr (mat 4 N F)"
    unfolding mat_def row Fb by (intro emap_Inr) (simp add: pre append_kp_table del: One_nat_def)
  have two: "length (kp_table env kt pt rows) = 2" for rows by (simp add: kp_table_def)
  have "map (\<lambda>r. (fst (store_columns (receive_table env (?pb r) (?br ! r)) (mat 4 N ?after ! r)),
      fst (store_columns (receive_table env (?pp r) (?pr ! r)) (drop (length (?pb r)) (mat 4 N ?after ! r))))) [0..<N] =
    map (\<lambda>r. (kp_table env kt pt (dealt N (B div N) rb r), kp_table env kt pt (dealt N (P div N) rp r))) [0..<N]"
    by (rule map_cong [OF refl]) (simp add: pre out two del: One_nat_def)
  then show ?thesis
    unfolding distribute_generated_def Let_def length_map length_upt diff_zero sizes ebind.simps bufs comm rb_def rp_def
    by (simp only:)
qed

end
