(* ===== verification/Input_Properties.thy ===== *)
theory Input_Properties
  imports Input_Tables
begin

text \<open>
  The properties of the data generator: the keys of the two tables under every fair schedule
  of the GPU threads, the end of the drawing, and the inputs it fails on.
\<close>

section \<open>Unique keys\<close>

text \<open>
  C34. For random numbers below 1 (of \<open>curand_uniform_double\<close>, which may return 1), no more
  rows than keys, and at most \<open>2 ^ 31\<close> rows of a table and threads, so that no row index wraps
  around, every fair schedule of the drawing threads ends, and the tables are as documented: the keys of the build table are
  pairwise distinct and in [0, rand_max], a row of the probe table whose first random number
  is at most the selectivity has a key of the build table, and every other row has a key in
  [0, rand_max] that is not in the build table.
\<close>
theorem generate_input_tables_unique:
  assumes u: "uniforms_ok u" and fair: "fair_draws T sched" and T: "0 < T"
    and rand_max: "0 \<le> rand_max" "rand_max < key_max - 1" "rand_max + 1 < 2 ^ 31" and B: "int B \<le> rand_max + 1"
    and small: "B + T \<le> 2 ^ 31" "P + T \<le> 2 ^ 31"
    and need: "\<forall>i < P. if x_choice u i \<le> selectivity then 0 < B else int B < rand_max + 1"
  shows "\<exists>fuel build probe. generate_input_tables u sched fuel T key_max B P selectivity rand_max True = Some (Inr (build, probe)) \<and>
    length build = B \<and> distinct build \<and> set build \<subseteq> {0..rand_max} \<and> length probe = P \<and>
    (\<forall>i < P. probe ! i \<in> (if x_choice u i \<le> selectivity then set build else {0..rand_max} - set build))"
proof -
  have fit: "keys_fit u T key_max B P selectivity rand_max" using assms by (simp add: keys_fit_def)
  have sched: "\<forall>k. sched k < T" using fair by (simp add: fair_draws_def)
  show ?thesis using generate_input_tables_ends [OF fit fair] generate_input_tables_keys [OF fit sched] by blast
qed

text \<open>Three threads in turn, for the witnesses.\<close>

definition demo_uniforms :: uniforms where
  "demo_uniforms = \<lparr>x_build = (\<lambda>i. 1 / 2), x_choice = (\<lambda>i. if even i then 1 / 4 else 3 / 4), x_pick = (\<lambda>i. 1 / 3)\<rparr>"

lemma in_turn_fair: "0 < T \<Longrightarrow> fair_draws T (\<lambda>k. k mod T)"
  unfolding fair_draws_def
proof (intro conjI allI impI)
  fix t k assume "0 < T" and t: "t < T"
  show "\<exists>k' \<ge> k. k' mod T = t"
    using t \<open>0 < T\<close> by (intro exI [of _ "t + k * T"]) (simp add: trans_le_add2)
qed simp

lemma demo_uniforms_ok: "uniforms_ok demo_uniforms"
  by (simp add: uniforms_ok_def demo_uniforms_def)

theorem generate_input_tables_unique_witness:
  "\<exists>fuel build probe. generate_input_tables demo_uniforms (\<lambda>k. k mod 3) fuel 3 (2 ^ 63 - 1) 4 2 (3 / 10) 9 True =
      Some (Inr (build, probe)) \<and> distinct build \<and> probe ! 0 \<in> set build \<and> probe ! 1 \<notin> set build"
proof -
  have "(0 :: nat) < 3" and r: "(0 :: int) \<le> 9" "9 < 2 ^ 63 - 1 - (1 :: int)" "9 + 1 < (2 ^ 31 :: int)" "int 4 \<le> 9 + 1"
    "4 + 3 \<le> (2 ^ 31 :: nat)" "2 + 3 \<le> (2 ^ 31 :: nat)" by simp_all
  have need: "\<forall>i < 2. if x_choice demo_uniforms i \<le> 3 / 10 then 0 < (4 :: nat) else int 4 < 9 + 1" by simp
  have c: "x_choice demo_uniforms 0 \<le> 3 / 10" "\<not> x_choice demo_uniforms 1 \<le> 3 / 10" by (simp_all add: demo_uniforms_def)
  from generate_input_tables_unique [OF demo_uniforms_ok in_turn_fair [OF \<open>0 < 3\<close>] \<open>0 < 3\<close> r need]
  obtain fuel build probe where g: "generate_input_tables demo_uniforms (\<lambda>k. k mod 3) fuel 3 (2 ^ 63 - 1) 4 2 (3 / 10) 9 True = Some (Inr (build, probe))"
    "distinct build" "\<forall>i < 2. probe ! i \<in> (if x_choice demo_uniforms i \<le> 3 / 10 then set build else {0..9} - set build)"
    by blast
  have "probe ! 0 \<in> set build" using g(3) [rule_format, of 0] c(1) by simp
  moreover have "probe ! 1 \<notin> set build" using g(3) [rule_format, of 1] c(2) by simp
  ultimately show ?thesis using g(1,2) by blast
qed

section \<open>Termination\<close>

text \<open>
  C36. The compare-and-swap loops end without any fairness if rows and threads are at most
  \<open>2 ^ 31\<close>, so that no row index wraps around, and the entries the draws start from are within
  the lottery: however the accesses of the threads interleave, no access is out of bounds, a thread that has not finished can always
  take a step, and there are at most \<open>(B + 1) * (T * (n + 3) + 1)\<close> steps in all.
\<close>
theorem drawing_terminates:
  assumes "0 < T" and "B \<le> n" and "\<forall>idx. pick idx < n" and "(draw_steps pick ^^ k) (start_draw n B T) s"
    and small: "B + T \<le> 2 ^ 31"
  shows "k \<le> (B + 1) * (T * (n + 3) + 1) \<and>
    (\<forall>t < T. thread_pc s ! t \<noteq> Finished \<longrightarrow> (\<exists>s'. draw_step pick t s = Some (Inr s')))"
proof -
  let ?s0 = "start_draw n B T"
  have run: "draw_inv n s \<and> length (thread_pc s) = T \<and> length (build_tbl s) = B \<and> draw_measure s + k \<le> draw_measure ?s0"
    using assms(4)
  proof (induction k arbitrary: s)
    case 0
    then show ?case using start_draw_inv [OF assms(1)] by (auto simp: start_draw_def)
  next
    case (Suc k)
    then obtain u where u: "(draw_steps pick ^^ k) ?s0 u" "draw_steps pick u s" by auto
    then obtain t where t: "t < length (thread_pc u)" "draw_step pick t u = Some (Inr s)" by (auto elim: draw_stepsE)
    note ih = Suc.IH [OF u(1)]
    have su: "sizes_small u" using ih small by (simp add: sizes_small_def)
    have "draw_measure s < draw_measure u" using draw_step_measure [OF _ t(1) assms(3) _ su t(2)] ih assms(2) by simp
    moreover have "draw_inv n s" using draw_step_inv [OF _ t(1) assms(3) su t(2)] ih by blast
    ultimately show ?case using ih draw_step_lengths [OF t(2)] by simp
  qed
  have l: "length (lottery ?s0) = n" "length (thread_pc ?s0) = T" "length (build_tbl ?s0) = B" by (simp_all add: start_draw_def)
  have "total_cost ?s0 \<le> T * (n + 3)" using total_cost_bound [OF start_draw_inv [OF assms(1)], of n B] assms(2) l by simp
  moreover have "empty_rows (build_tbl ?s0) \<le> B" using l(3) by (metis empty_rows_def length_filter_le)
  ultimately have "draw_measure ?s0 \<le> B * (T * (n + 3) + 1) + T * (n + 3)"
    unfolding draw_measure_def l by (intro add_mono mult_le_mono1)
  then have "k \<le> (B + 1) * (T * (n + 3) + 1)" using run by simp
  moreover have "sizes_small s" using run small by (simp add: sizes_small_def)
  ultimately show ?thesis using run unfinished_steps [OF _ _ _ assms(3)] by blast
qed

theorem drawing_terminates_witness:
  "(draw_steps (\<lambda>i. 0) ^^ 0) (start_draw 4 2 3) (start_draw 4 2 3) \<and> (0 :: nat) \<le> (2 + 1) * (3 * (4 + 3) + 1) \<and>
    (\<exists>s'. draw_step (\<lambda>i. 0) 1 (start_draw 4 2 3) = Some (Inr s'))"
proof -
  have "(draw_steps (\<lambda>i. 0) ^^ 0) (start_draw 4 2 3) (start_draw 4 2 3)" by simp
  from drawing_terminates [OF _ _ _ this] show ?thesis by (simp add: start_draw_def nth_Cons' upt_rec)
qed

section \<open>Inputs it fails on\<close>

text \<open>
  C37. With more rows than keys the drawing never ends, whatever the schedule and the
  random numbers below 1: \<open>generate_input_tables\<close> has no check for it. Beyond \<open>2 ^ 31\<close> rows and
  threads, where a row index may wrap around and a key be written out of bounds, there are
  still no tables.
\<close>
theorem more_rows_than_keys_never_ends:
  assumes u: "uniforms_ok u" and T: "0 < T" and sched: "\<forall>k. sched k < T"
    and rand_max: "0 \<le> rand_max" "rand_max < key_max - 1" "rand_max + 1 < 2 ^ 31" and B: "rand_max + 1 < int B"
    and ints: "B < 2 ^ 31" "T < 2 ^ 31"
  shows "generate_input_tables u sched fuel T key_max B P selectivity rand_max True \<noteq> Some (Inr tables) \<and>
    (B + T \<le> 2 ^ 31 \<longrightarrow> generate_input_tables u sched fuel T key_max B P selectivity rand_max True = None)"
proof -
  define n where "n = nat (rand_max + 1)"
  have n: "initial_lottery_size key_max rand_max = int n" "0 < n" "n < B"
    using initial_lottery_size_eq [OF rand_max] rand_max(1) B by (auto simp: n_def)
  have x: "\<forall>i. 0 \<le> x_build u i \<and> x_build u i < 1" using u by (simp add: uniforms_ok_def)
  have none: "init_build_tbl u sched fuel T B rand_max True n \<noteq> Some (Inr bm)" for bm
  proof
    assume "init_build_tbl u sched fuel T B rand_max True n = Some (Inr bm)"
    then obtain build mem where "init_build_tbl u sched fuel T B rand_max True n = Some (Inr (build, mem))" by (cases bm) simp
    note b = init_build_tbl_keys [OF x n(2) T sched disjI2 [OF conjI [OF ints]] this]
    have "card (set build) \<le> card {0..<int n}" using b(3) by (intro card_mono) simp_all
    then show False using b(1) distinct_card [OF b(2)] n(3) by simp
  qed
  have never: "init_build_tbl u sched fuel T B rand_max True n = None" if "B + T \<le> 2 ^ 31"
    using init_build_tbl_no_error [OF x n(2) T sched that, of fuel rand_max] none
    by (cases "init_build_tbl u sched fuel T B rand_max True n") auto
  show ?thesis
    using never none n(1) by (cases "init_build_tbl u sched fuel T B rand_max True n") (auto simp: generate_input_tables_def Let_def ebind_Inr_iff)
qed

theorem more_rows_than_keys_never_ends_witness:
  "\<forall>fuel. generate_input_tables demo_uniforms (\<lambda>k. k mod 3) fuel 3 (2 ^ 63 - 1) 5 2 (3 / 10) 3 True = None"
proof
  fix fuel
  have "(0 :: nat) < 3" "\<forall>k :: nat. k mod 3 < 3" "(0 :: int) \<le> 3" "(3 :: int) < 2 ^ 63 - 1 - 1" "3 + 1 < (2 ^ 31 :: int)"
    "3 + 1 < int 5" "5 < (2 ^ 31 :: nat)" "3 < (2 ^ 31 :: nat)" by simp_all
  from more_rows_than_keys_never_ends [OF demo_uniforms_ok this, of fuel]
  show "generate_input_tables demo_uniforms (\<lambda>k. k mod 3) fuel 3 (2 ^ 63 - 1) 5 2 (3 / 10) 3 True = None" by simp
qed

text \<open>A row of the probe table only fails with an index out of bounds.\<close>

lemma probe_row_fails:
  assumes "init_probe_tbl u T P build mem k selectivity = Inl e"
  shows "e = OutOfBounds"
proof (rule ccontr)
  assume "e \<noteq> OutOfBounds"
  have v: "vec_at xs j = Inl e' \<Longrightarrow> e' = OutOfBounds" for xs :: "int list" and j e'
    by (simp add: vec_at_def split: if_splits)
  have "emap f xs = Inl e \<Longrightarrow> \<exists>x \<in> set xs. f x = Inl e" for f :: "nat \<Rightarrow> int res" and xs
    by (induction xs) (auto simp: ebind_Inl_iff)
  with assms obtain idx where "(ebind (if x_choice u idx \<le> selectivity then
         let build_tbl_idx = int (lottery_index (x_pick u idx) (length build));
             clamped = (if int (length build) \<le> build_tbl_idx then int (length build) - 1 else build_tbl_idx) in
         if clamped < 0 then Inl OutOfBounds else vec_at build (nat clamped)
       else vec_at mem (lottery_index (x_pick u idx) k)) (end_of_round T idx)) = Inl e"
    unfolding init_probe_tbl_def by blast
  then show False using \<open>e \<noteq> OutOfBounds\<close> v by (auto simp: ebind_Inl_iff end_of_round_def Let_def split: if_splits)
qed

text \<open>
  C38. \<open>curand_uniform_double\<close> includes 1, and the index of an unused key is not clamped. If the
  number for an unused key is 1, the row does not get an unused key at random: the kernel
  reads the entry behind the unused keys. With an empty build table there is none, and the
  kernel reads out of bounds. Otherwise the entry is left over from the drawing, and the row
  gets what it holds: -1, which no table may have, if the key \<open>rand_max + 1 - B\<close> was drawn for
  the build table, and that key if it was not.
\<close>
theorem uniform_one_breaks_tables:
  assumes x: "\<forall>i. 0 \<le> x_build u i \<and> x_build u i < 1" and T: "0 < T" and sched: "\<forall>k. sched k < T"
    and rand_max: "0 \<le> rand_max" "rand_max < key_max - 1" "rand_max + 1 < 2 ^ 31" and small: "B + T \<le> 2 ^ 31"
    and i: "i < P" "selectivity < x_choice u i" "x_pick u i = 1"
    and g: "generate_input_tables u sched fuel T key_max B P selectivity rand_max True = Some res"
  shows "if B = 0 then res = Inl OutOfBounds
    else (\<forall>build probe. res = Inr (build, probe) \<longrightarrow>
      probe ! i = (if rand_max + 1 - int B \<in> set build then - 1 else rand_max + 1 - int B))"
proof -
  define n where "n = nat (rand_max + 1)"
  have n: "initial_lottery_size key_max rand_max = int n" "0 < n" "int n = rand_max + 1"
    using initial_lottery_size_eq [OF rand_max] rand_max(1) by (auto simp: n_def)
  obtain bres where r: "init_build_tbl u sched fuel T B rand_max True n = Some bres"
    using g n(1) by (auto simp: generate_input_tables_def Let_def)
  obtain build mem where br: "bres = Inr (build, mem)" using init_build_tbl_no_error [OF x n(2) T sched small r] by blast
  note b = br init_build_tbl_keys [OF x n(2) T sched disjI1 [OF small] r [unfolded br]]
  let ?un = "unused_keys n build" and ?mem = "unused_keys n build @ drop (length (unused_keys n build)) mem"
  have l: "length ?un + B = n" using unused_keys_length [OF b(3,4)] b(2) by simp
  have m: "length ?mem = n" using l b(5) by simp
  have res: "res = ebind (init_probe_tbl u T P build ?mem (length ?un) selectivity) (\<lambda>probe. Inr (build, probe))"
    using g r b(1) n(1) by (simp add: generate_input_tables_def Let_def)
  have elem: "vec_at ?mem (length ?un) = Inr (probe ! i)"
    if "init_probe_tbl u T P build ?mem (length ?un) selectivity = Inr probe" for probe
    using emap_nth [OF that [unfolded init_probe_tbl_def], of i] i
    by (auto simp: lottery_index_one ebind_Inr_iff end_of_round_def split: if_splits)
  have B: "B \<noteq> 0" if "init_probe_tbl u T P build ?mem (length ?un) selectivity = Inr probe" for probe
  proof -
    have "length ?un < length ?mem" using elem [OF that] unfolding vec_at_def by (rule contrapos_pp) simp
    then show ?thesis using l m by linarith
  qed
  have key: "probe ! i = (if rand_max + 1 - int B \<in> set build then - 1 else rand_max + 1 - int B)"
    if p: "init_probe_tbl u T P build ?mem (length ?un) selectivity = Inr probe" for probe
  proof -
    have lt: "length ?un < n" using l B [OF p] by simp
    have d: "int (length ?un) = rand_max + 1 - int B" using l n(3) by linarith
    have "probe ! i = ?mem ! length ?un" using elem [OF p] lt m by simp
    also have "\<dots> = mem ! length ?un" using lt b(5) by (simp add: nth_append)
    also have "\<dots> = (if int (length ?un) \<in> set build then - 1 else int (length ?un))" using b(6) lt by blast
    finally show ?thesis unfolding d .
  qed
  show ?thesis
  proof (cases "init_probe_tbl u T P build ?mem (length ?un) selectivity")
    case (Inl e)
    then show ?thesis using res probe_row_fails [OF Inl] by simp
  next
    case (Inr probe)
    then show ?thesis using res key [OF Inr] B [OF Inr] by simp
  qed
qed

definition ones :: uniforms where
  "ones = \<lparr>x_build = (\<lambda>i. 1 / 2), x_choice = (\<lambda>i. 1), x_pick = (\<lambda>i. 1)\<rparr>"

theorem uniform_one_breaks_tables_witness:
  "generate_input_tables ones (\<lambda>k. 0) 8 1 100 2 1 (1 / 2) 3 True = Some (Inr ([2, 3], [- 1])) \<and>
    generate_input_tables ones (\<lambda>k. 0) 8 1 100 0 1 (1 / 2) 3 True = Some (Inl OutOfBounds)"
proof -
  have g: "generate_input_tables ones (\<lambda>k. 0) 8 1 100 2 1 (1 / 2) 3 True = Some (Inr ([2, 3], [- 1]))" by code_simp
  have "generate_input_tables ones (\<lambda>k. 0) 8 1 100 0 1 (1 / 2) 3 True \<noteq> None" by code_simp
  then obtain res where g0: "generate_input_tables ones (\<lambda>k. 0) 8 1 100 0 1 (1 / 2) 3 True = Some res" by blast
  have x: "\<forall>i. 0 \<le> x_build ones i \<and> x_build ones i < 1" by (simp add: ones_def)
  have i: "(0 :: nat) < 1" "\<forall>k :: nat. (0 :: nat) < 1" "(0 :: int) \<le> 3" "(3 :: int) < 100 - 1" "3 + 1 < (2 ^ 31 :: int)"
    "0 + 1 \<le> (2 ^ 31 :: nat)" "(1 / 2) < x_choice ones 0" "x_pick ones 0 = 1" by (simp_all add: ones_def)
  from uniform_one_breaks_tables [OF x i(1-6,1,7,8) g0] show ?thesis using g g0 by simp
qed

end
