(* ===== verification/Generate_Properties.thy ===== *)
theory Generate_Properties
  imports Generate_Table Examples Input_Properties
begin

text \<open>
  The properties of the distributed benchmark tables: which rows every rank gets, and the
  keys that two ranks have in common.
\<close>

section \<open>The rows of the tables\<close>

text \<open>The rows of rank \<open>s\<close> after it has moved its keys and payloads to its range.\<close>

definition range_rows :: "int \<Rightarrow> nat \<Rightarrow> rank \<Rightarrow> int list \<Rightarrow> (int \<times> int) list" where
  "range_rows rand_max n s keys = map (\<lambda>i. (keys ! i + rand_max * int s, int i + int n * int s)) [0..<n]"

definition indexed :: "int list \<Rightarrow> (int \<times> int) list" where
  "indexed keys = zip keys (map int [0..<length keys])"

lemma moved_indexed:
  assumes "length keys = n" and "int n * int s < 2 ^ 31"
  shows "moved (rand_max * int s) (narrow32 (int n * int s)) (indexed keys) = range_rows rand_max n s keys"
  using assms by (auto intro!: nth_equalityI simp: moved_def indexed_def range_rows_def narrow32_id simp del: of_nat_mult)

lemma indexed_table:
  "kp_table env kt pt (indexed keys) =
     [FixedWidth kt (store_ints (size_of env kt) keys),
      FixedWidth pt (generate_payload_functor (size_of env pt) (length keys))]"
  by (simp add: kp_table_def indexed_def generate_payload_functor_def)

lemma those_map_Some: "(\<And>x. x \<in> set xs \<Longrightarrow> f x = Some (g x)) \<Longrightarrow> those (map f xs) = Some (map g xs)"
  by (induction xs) simp_all

lemma those_Some_nth: "those xs = Some ys \<Longrightarrow> length ys = length xs \<and> (\<forall>i < length xs. xs ! i = Some (ys ! i))"
proof (induction xs arbitrary: ys)
  case (Cons x xs)
  then obtain y zs where "x = Some y" "those xs = Some zs" "ys = y # zs" by (auto split: option.splits)
  then show ?case using Cons.IH [of zs] by (auto simp: nth_Cons split: nat.split)
qed simp

text \<open>Everything the generation relies on, on every rank.\<close>

definition generation_ok ::
  "'d cudf \<Rightarrow> nat \<Rightarrow> 'd \<Rightarrow> (rank \<Rightarrow> uniforms) \<Rightarrow> (rank \<Rightarrow> nat \<Rightarrow> nat) \<Rightarrow> nat \<Rightarrow> nat \<Rightarrow> nat \<Rightarrow> rat \<Rightarrow> int \<Rightarrow> bool" where
  "generation_ok env N kt u sched T B P selectivity rand_max \<longleftrightarrow>
     (\<forall>r < N. keys_fit (u r) T (2 ^ (8 * size_of env kt - 1) - 1) B P selectivity rand_max \<and> fair_draws T (sched r)) \<and>
     0 < N \<and> N < 2 ^ 31 \<and> B * N < 2 ^ 31 \<and> P * N < 2 ^ 31"

definition tables_of :: "'d cudf \<Rightarrow> 'd \<Rightarrow> 'd \<Rightarrow> nat \<Rightarrow> int \<Rightarrow> nat \<Rightarrow> nat \<Rightarrow> (rank \<Rightarrow> int list) \<Rightarrow> (rank \<Rightarrow> int list) \<Rightarrow> ('d table \<times> 'd table) list" where
  "tables_of env kt pt N rand_max B P bk pk =
     map (\<lambda>r. (kp_table env kt pt (dealt N (B div N) (\<lambda>s. range_rows rand_max B s (bk s)) r),
               kp_table env kt pt (dealt N (P div N) (\<lambda>s. range_rows rand_max P s (pk s)) r))) [0..<N]"

definition keys_as_documented :: "uniforms \<Rightarrow> nat \<Rightarrow> nat \<Rightarrow> rat \<Rightarrow> int \<Rightarrow> int list \<Rightarrow> int list \<Rightarrow> bool" where
  "keys_as_documented u B P selectivity rand_max build probe \<longleftrightarrow>
     length build = B \<and> distinct build \<and> set build \<subseteq> {0..rand_max} \<and> length probe = P \<and>
     (\<forall>i < P. probe ! i \<in> (if x_choice u i \<le> selectivity then set build else {0..rand_max} - set build))"

lemma dealt_cong: "(\<And>s. s < N \<Longrightarrow> f s = g s) \<Longrightarrow> dealt N q f r = dealt N q g r"
  unfolding dealt_def by (intro arg_cong [where f = concat] map_cong) simp_all

lemma small_product: "s < N \<Longrightarrow> n * N < 2 ^ 31 \<Longrightarrow> int n * int s < 2 ^ 31"
proof -
  assume "s < N" and n: "n * N < 2 ^ 31"
  then have "n * s \<le> n * N" by (intro mult_le_mono2) simp
  then have "n * s < 2 ^ 31" using n by linarith
  then have "int (n * s) < int (2 ^ 31)" by (simp only: of_nat_less_iff)
  then show ?thesis by (simp only: of_nat_mult of_nat_power of_nat_numeral)
qed

lemma generate_tables_result:
  assumes ok: "generation_ok env N kt u sched T B P selectivity rand_max" and nv: "nvcomp_ok nv" and env: "cudf_ok env"
    and mpi: "p2p_transport mpi (\<lambda>_. True) N False" and tr: "p2p_transport exch okm N multi" and gbb: "gbb \<longrightarrow> multi"
    and okm: "okm_sizes okm {size_of env kt, size_of env pt}"
    and g: "\<forall>r < N. generate_input_tables (u r) (sched r) fuel T (2 ^ (8 * size_of env kt - 1) - 1) B P selectivity rand_max True = Some (res r)"
  shows "\<exists>bk pk. (\<forall>s < N. keys_as_documented (u s) B P selectivity rand_max (bk s) (pk s)) \<and>
    generate_tables_distributed nv env mpi exch gbb N kt pt u sched fuel T B P selectivity rand_max True =
      Some (Inr (tables_of env kt pt N rand_max B P bk pk))"
proof -
  have N: "0 < N" "N < 2 ^ 31" and BP: "B * N < 2 ^ 31" "P * N < 2 ^ 31" using ok by (simp_all add: generation_ok_def)
  have "\<exists>b p. res r = Inr (b, p) \<and> keys_as_documented (u r) B P selectivity rand_max b p" if r: "r < N" for r
  proof -
    have "keys_fit (u r) T (2 ^ (8 * size_of env kt - 1) - 1) B P selectivity rand_max" "\<forall>k. sched r k < T"
      using ok r by (simp_all add: generation_ok_def fair_draws_def)
    from generate_input_tables_keys [OF this] show ?thesis using g r unfolding keys_as_documented_def by blast
  qed
  then obtain bk pk where k: "\<And>r. r < N \<Longrightarrow> res r = Inr (bk r, pk r)"
    "\<And>r. r < N \<Longrightarrow> keys_as_documented (u r) B P selectivity rand_max (bk r) (pk r)" by metis
  have len: "\<forall>s < N. length (indexed (bk s)) = B" "\<forall>s < N. length (indexed (pk s)) = P"
    using k(2) by (simp_all add: keys_as_documented_def indexed_def)
  let ?pre = "\<lambda>r. (kp_table env kt pt (indexed (bk r)), kp_table env kt pt (indexed (pk r)))"
  have one: "generate_build_probe_tables env kt pt (u r) (sched r) fuel T B P selectivity rand_max True = Some (Inr (?pre r))"
    if "r < N" for r
    using g k(1) k(2) [unfolded keys_as_documented_def] that by (simp add: generate_build_probe_tables_def Let_def indexed_table)
  have "those (map (\<lambda>r. generate_build_probe_tables env kt pt (u r) (sched r) fuel T B P selectivity rand_max True) [0..<N]) =
      Some (map (\<lambda>r. Inr (?pre r)) [0..<N])"
    using one by (intro those_map_Some) simp
  moreover have "emap (\<lambda>x. x) (map (\<lambda>r. Inr (?pre r)) [0..<N]) = Inr (map ?pre [0..<N])"
    by (rule emap_map_Inr) simp
  moreover have "distribute_generated nv env mpi exch gbb rand_max B P (map ?pre [0..<N]) =
      Inr (tables_of env kt pt N rand_max B P bk pk)"
  proof -
    have "B \<le> B * N" "P \<le> P * N" using N(1) by simp_all
    then have "B < 2 ^ 31" "P < 2 ^ 31" using BP by linarith+
    note d = distribute_generated_ok [OF nv env mpi tr N gbb this(1) len(1) this(2) len(2) okm, of rand_max]
    have "moved (rand_max * int s) (narrow32 (int B * int s)) (indexed (bk s)) = range_rows rand_max B s (bk s)"
      "moved (rand_max * int s) (narrow32 (int P * int s)) (indexed (pk s)) = range_rows rand_max P s (pk s)" if "s < N" for s
      using k(2) [OF that] small_product [OF that] BP by (simp_all add: moved_indexed keys_as_documented_def)
    then show ?thesis unfolding d tables_of_def by (simp cong: dealt_cong)
  qed
  ultimately have "generate_tables_distributed nv env mpi exch gbb N kt pt u sched fuel T B P selectivity rand_max True =
      Some (Inr (tables_of env kt pt N rand_max B P bk pk))"
    by (simp add: generate_tables_distributed_def)
  then show ?thesis using k(2) by blast
qed

lemma generate_tables_ends:
  assumes ok: "generation_ok env N kt u sched T B P selectivity rand_max"
  shows "\<exists>fuel res. \<forall>r < N. generate_input_tables (u r) (sched r) fuel T (2 ^ (8 * size_of env kt - 1) - 1) B P selectivity rand_max True =
    Some (res r)"
proof -
  let ?g = "\<lambda>r fuel. generate_input_tables (u r) (sched r) fuel T (2 ^ (8 * size_of env kt - 1) - 1) B P selectivity rand_max True"
  have fit: "keys_fit (u r) T (2 ^ (8 * size_of env kt - 1) - 1) B P selectivity rand_max" "fair_draws T (sched r)" if "r < N" for r
    using ok that by (simp_all add: generation_ok_def)
  have "\<exists>k x. ?g r k = Some x" if "r < N" for r using generate_input_tables_ends [OF fit [OF that]] .
  then obtain k x where kx: "\<And>r. r < N \<Longrightarrow> ?g r (k r) = Some (x r)" by metis
  let ?fuel = "Max (k ` {..<N})"
  have "?g r ?fuel = Some (x r)" if r: "r < N" for r
  proof (rule generate_input_tables_more_fuel [OF fit(1) [OF r] _ kx [OF r]])
    show "\<forall>k. sched r k < T" using fit(2) [OF r] by (simp add: fair_draws_def)
    show "k r \<le> ?fuel" using r by (intro Max_ge) auto
  qed
  then show ?thesis by blast
qed

text \<open>
  C39. With unique build keys, random numbers below 1 and within the limits of C34, \<open>generate_tables_distributed\<close>
  ends on all ranks, and rank \<open>r\<close> then holds the
  \<open>r\<close>-th chunk of the rows of every rank, in rank order, key and payload together: keys
  are moved by \<open>rand_max\<close> and payloads by the number of rows for every rank, and the keys
  were unique on the rank that generated them. All ranks together hold the first
  \<open>N * (B div N)\<close> rows of every rank, that is all rows if the number of ranks divides \<open>B\<close>,
  which the documentation asks for.
\<close>
theorem generated_tables_dealt:
  assumes ok: "generation_ok env N kt u sched T B P selectivity rand_max" and "nvcomp_ok nv" and "cudf_ok env"
    and "p2p_transport mpi (\<lambda>_. True) N False" and "p2p_transport exch okm N multi" and "group_by_batch \<longrightarrow> multi"
    and "okm_sizes okm {size_of env kt, size_of env pt}"
  shows "\<exists>fuel bk pk. generate_tables_distributed nv env mpi exch group_by_batch N kt pt u sched fuel T B P selectivity rand_max True =
      Some (Inr (map (\<lambda>r. (kp_table env kt pt (dealt N (B div N) (\<lambda>s. range_rows rand_max B s (bk s)) r),
                           kp_table env kt pt (dealt N (P div N) (\<lambda>s. range_rows rand_max P s (pk s)) r))) [0..<N])) \<and>
    (\<forall>s < N. keys_as_documented (u s) B P selectivity rand_max (bk s) (pk s)) \<and>
    (\<Sum>r < N. mset (dealt N (B div N) (\<lambda>s. range_rows rand_max B s (bk s)) r)) =
      (\<Sum>s < N. mset (take (N * (B div N)) (range_rows rand_max B s (bk s))))"
proof -
  obtain fuel res where g: "\<forall>r < N. generate_input_tables (u r) (sched r) fuel T (2 ^ (8 * size_of env kt - 1) - 1)
      B P selectivity rand_max True = Some (res r)" using generate_tables_ends [OF ok] by blast
  have "(\<Sum>r < N. mset (dealt N (B div N) (\<lambda>s. range_rows rand_max B s (bk s)) r)) =
      (\<Sum>s < N. mset (take (N * (B div N)) (range_rows rand_max B s (bk s))))" for bk
    by (rule mset_dealt) (simp add: range_rows_def)
  then show ?thesis using generate_tables_result [OF assms g] unfolding tables_of_def by blast
qed

lemma demo_generation:
  assumes "int B \<le> rand_max + 1" and "0 \<le> rand_max \<and> rand_max < 2 ^ 30" and "B * 2 < 2 ^ 30" and "P * 2 < 2 ^ 30"
    and "\<forall>i < P. if x_choice demo_uniforms i \<le> 3 / 10 then 0 < B else int B < rand_max + 1"
  shows "generation_ok demo_env 2 4 (\<lambda>r. demo_uniforms) (\<lambda>r k. k mod 3) 3 B P (3 / 10) rand_max"
proof -
  have "keys_fit demo_uniforms 3 (2 ^ (8 * size_of demo_env 4 - 1) - 1) B P (3 / 10) rand_max"
    unfolding keys_fit_def by (intro conjI assms(1,5) demo_uniforms_ok) (use assms(2-4) in \<open>simp_all add: demo_env_def\<close>)
  then show ?thesis using assms(3,4) in_turn_fair [of 3] by (simp add: generation_ok_def)
qed

theorem generated_tables_dealt_witness:
  "\<exists>fuel bk pk. generate_tables_distributed store_codec demo_env fifo_exchange fifo_exchange True 2 4 8 (\<lambda>r. demo_uniforms)
      (\<lambda>r k. k mod 3) fuel 3 4 2 (3 / 10) 9 True =
    Some (Inr [(kp_table demo_env 4 8 (dealt 2 2 (\<lambda>s. range_rows 9 4 s (bk s)) 0), kp_table demo_env 4 8 (dealt 2 1 (\<lambda>s. range_rows 9 2 s (pk s)) 0)),
               (kp_table demo_env 4 8 (dealt 2 2 (\<lambda>s. range_rows 9 4 s (bk s)) 1), kp_table demo_env 4 8 (dealt 2 1 (\<lambda>s. range_rows 9 2 s (pk s)) 1))])"
proof -
  have ok: "generation_ok demo_env 2 4 (\<lambda>r. demo_uniforms) (\<lambda>r k. k mod 3) 3 4 2 (3 / 10) 9" by (rule demo_generation) simp_all
  have two: "[0..<2] = [0, 1 :: nat]" "4 div 2 = (2 :: nat)" "2 div 2 = (1 :: nat)" by (simp_all add: upt_rec)
  show ?thesis
    using generated_tables_dealt [OF ok store_codec_ok demo_env_ok fifo_ok fifo_ok _ demo_okm, of True True 8]
    unfolding two list.map by blast
qed

section \<open>Keys that two ranks have in common\<close>

lemma dealt_index:
  assumes "\<forall>s < N. length (rows s) = n" and "N dvd n" and "s < N" and "x \<in> set (rows s)"
  shows "\<exists>r < N. \<exists>i < length (dealt N (n div N) rows r). dealt N (n div N) rows r ! i = x"
proof -
  have "take (N * (n div N)) (rows s) = rows s" using assms(1-3) by simp
  then have "x \<in># (\<Sum>s < N. mset (take (N * (n div N)) (rows s)))" using assms(3,4) by (simp add: set_mset_sum del: take_all_iff) (metis lessThan_iff)
  then have "x \<in># (\<Sum>r < N. mset (dealt N (n div N) rows r))" unfolding mset_dealt [OF assms(1)] .
  then show ?thesis by (auto simp: set_mset_sum in_set_conv_nth)
qed

text \<open>
  C40. The keys of rank \<open>s\<close> are moved by \<open>rand_max * s\<close>, but there are \<open>rand_max + 1\<close> of
  them: the largest key of a rank is the smallest of the next. With unique build keys,
  random numbers below 1 and as many rows as keys, two ranks or more always end up with a key that occurs twice.
\<close>
theorem unique_keys_repeat:
  assumes ok: "generation_ok env N kt u sched T B P selectivity rand_max" and "nvcomp_ok nv" and "cudf_ok env"
    and "p2p_transport mpi (\<lambda>_. True) N False" and "p2p_transport exch okm N multi" and "group_by_batch \<longrightarrow> multi"
    and "okm_sizes okm {size_of env kt, size_of env pt}"
    and N: "2 \<le> N" "N dvd B" and B: "int B = rand_max + 1"
  shows "\<exists>fuel outs r i r' i'. generate_tables_distributed nv env mpi exch group_by_batch N kt pt u sched fuel T B P selectivity rand_max True =
      Some (Inr outs) \<and> r < N \<and> r' < N \<and> (r, i) \<noteq> (r', i') \<and>
    i < column_size env (fst (outs ! r) ! 0) \<and> i' < column_size env (fst (outs ! r') ! 0) \<and>
    cell env (fst (outs ! r) ! 0) i = cell env (fst (outs ! r') ! 0) i'"
proof -
  obtain fuel res where "\<forall>r < N. generate_input_tables (u r) (sched r) fuel T (2 ^ (8 * size_of env kt - 1) - 1)
      B P selectivity rand_max True = Some (res r)" using generate_tables_ends [OF ok] by blast
  from generate_tables_result [OF assms(1-7) this] obtain bk pk
    where k: "\<forall>s < N. keys_as_documented (u s) B P selectivity rand_max (bk s) (pk s)"
      and g: "generate_tables_distributed nv env mpi exch group_by_batch N kt pt u sched fuel T B P selectivity rand_max True =
        Some (Inr (tables_of env kt pt N rand_max B P bk pk))" by blast
  have all: "set (bk s) = {0..rand_max}" if "s < N" for s
  proof (rule card_subset_eq)
    have kd: "length (bk s) = B" "distinct (bk s)" "set (bk s) \<subseteq> {0..rand_max}" using k that by (simp_all add: keys_as_documented_def)
    then show "set (bk s) \<subseteq> {0..rand_max}" "card (set (bk s)) = card {0..rand_max}"
      using B distinct_card [OF kd(2)] by simp_all
  qed simp
  have len: "length (bk s) = B" if "s < N" for s using k that by (simp add: keys_as_documented_def)
  have s: "0 < N" "1 < N" using N(1) by simp_all
  have "0 < B" using ok B s(1) by (auto simp: generation_ok_def keys_fit_def)
  then have r: "rand_max \<in> set (bk 0)" "0 \<in> set (bk 1)" using all s B by auto
  obtain i0 i1 where i: "i0 < B" "bk 0 ! i0 = rand_max" "i1 < B" "bk 1 ! i1 = 0"
    using r len s unfolding in_set_conv_nth by metis
  let ?rows = "\<lambda>s. range_rows rand_max B s (bk s)"
  have x: "(rand_max, int i0) \<in> set (?rows 0)" "(rand_max, int i1 + int B) \<in> set (?rows 1)"
    using i by (force simp: range_rows_def)+
  have lr: "\<forall>s < N. length (?rows s) = B" by (simp add: range_rows_def)
  obtain r0 j0 where j0: "r0 < N" "j0 < length (dealt N (B div N) ?rows r0)" "dealt N (B div N) ?rows r0 ! j0 = (rand_max, int i0)"
    using dealt_index [OF lr N(2) s(1) x(1)] by blast
  obtain r1 j1 where j1: "r1 < N" "j1 < length (dealt N (B div N) ?rows r1)" "dealt N (B div N) ?rows r1 ! j1 = (rand_max, int i1 + int B)"
    using dealt_index [OF lr N(2) s(2) x(2)] by blast
  let ?outs = "tables_of env kt pt N rand_max B P bk pk"
  have w: "0 < size_of env kt" using assms(3) by simp
  have c: "column_size env (fst (?outs ! r) ! 0) = length (dealt N (B div N) ?rows r)"
    "i < length (dealt N (B div N) ?rows r) \<Longrightarrow>
      cell env (fst (?outs ! r) ! 0) i = store_int (size_of env kt) (fst (dealt N (B div N) ?rows r ! i))" if "r < N" for r i
    using that w cell_store_ints [of i "map fst (dealt N (B div N) ?rows r)" env kt]
    by (simp_all add: tables_of_def kp_table_def del: cell.simps)
  have "(r0, j0) \<noteq> (r1, j1)" using j0(3) j1(3) i(1) by auto
  then show ?thesis using g c(1) c(2) [OF j0(1,2)] c(2) [OF j1(1,2)] j0 j1 by (intro exI [of _ fuel] exI [of _ ?outs] exI [of _ r0] exI [of _ j0] exI [of _ r1] exI [of _ j1]) simp
qed

theorem unique_keys_repeat_witness:
  "\<exists>fuel outs r i r' i'. generate_tables_distributed store_codec demo_env fifo_exchange fifo_exchange True 2 4 8 (\<lambda>r. demo_uniforms)
      (\<lambda>r k. k mod 3) fuel 3 4 0 (3 / 10) 3 True = Some (Inr outs) \<and> (r, i) \<noteq> (r', i') \<and>
    cell demo_env (fst (outs ! r) ! 0) i = cell demo_env (fst (outs ! r') ! 0) i'"
proof -
  have ok: "generation_ok demo_env 2 4 (\<lambda>r. demo_uniforms) (\<lambda>r k. k mod 3) 3 4 0 (3 / 10) 3" by (rule demo_generation) simp_all
  have h: "True \<longrightarrow> True" "2 \<le> (2 :: nat)" "2 dvd (4 :: nat)" "int 4 = 3 + 1" by simp_all
  show ?thesis
    using unique_keys_repeat [OF ok store_codec_ok demo_env_ok fifo_ok fifo_ok h(1) demo_okm h(2-4), of 8] by blast
qed

end
