(* ===== verification/Kernel_Launch.thy ===== *)
theory Kernel_Launch
  imports Input_Tables "HOL-Library.Word"
begin

text \<open>
  The launches of \<open>generate_input_tables\<close> (\<open>src/generate_dataset/generate_dataset.cuh\<close>): the
  number of threads, their random number generators, and the rows that each thread of the
  kernels visits. An index is an \<open>int\<close> of 32 bits, as in the instances the library uses.
\<close>

section \<open>Threads and generators\<close>

definition block_size :: nat where
  "block_size = 128"

text \<open>The indices \<open>blockIdx.x * blockDim.x + threadIdx.x\<close> of the threads of a launch.\<close>

definition thread_indices :: "nat \<Rightarrow> nat \<Rightarrow> nat list" where
  "thread_indices gridDim blockDim =
     concat (map (\<lambda>blockIdx. map (\<lambda>threadIdx. blockIdx * blockDim + threadIdx) [0..<blockDim]) [0..<gridDim])"

text \<open>\<open>num_states\<close>, from the multiprocessors of the device and the resident blocks of each kernel.\<close>

definition num_states :: "nat \<Rightarrow> nat \<Rightarrow> nat \<Rightarrow> nat" where
  "num_states num_sms num_blocks_init_build_tbl num_blocks_init_probe_tbl =
     num_sms * max num_blocks_init_build_tbl num_blocks_init_probe_tbl * block_size"

text \<open>A launch; \<open>seeded i\<close> is the state that \<open>curand_init\<close> makes for sequence number \<open>i\<close>.\<close>

definition init_curand :: "(nat \<Rightarrow> 's) \<Rightarrow> nat \<Rightarrow> nat \<Rightarrow> 's option list \<Rightarrow> nat \<Rightarrow> 's option list res" where
  "init_curand seeded gridDim blockDim state nstates =
     efold (\<lambda>st ithread.
         if ithread < nstates
         then (if ithread < length st then Inr (st[ithread := Some (seeded ithread)]) else Inl OutOfBounds)
         else Inr st)
       state (thread_indices gridDim blockDim)"

definition make_states :: "(nat \<Rightarrow> 's) \<Rightarrow> nat \<Rightarrow> 's option list res" where
  "make_states seeded nstates =
     init_curand seeded ((nstates - 1) div block_size + 1) block_size (replicate nstates None) nstates"

text \<open>
  What the threads of a kernel start with: the assertion on \<open>start_idx\<close> and the copy of the
  thread's generator, which must have been initialised.
\<close>

definition local_state :: "'s option list \<Rightarrow> nat \<Rightarrow> nat \<Rightarrow> 's res" where
  "local_state state nstates start_idx =
     ebind (guard (start_idx < nstates) AssertFailed) (\<lambda>u.
     ebind (vec_at state start_idx) (\<lambda>s. case s of None \<Rightarrow> Inl BadPointer | Some x \<Rightarrow> Inr x))"

text \<open>
  The loop \<open>for (idx = start_idx; idx < tbl_size; idx += stride)\<close>: the rows it visits, \<open>None\<close>
  if it is not over after \<open>fuel\<close> rounds. The sum of two 32-bit integers wraps around.
\<close>

fun loop_rows :: "nat \<Rightarrow> int \<Rightarrow> int \<Rightarrow> int \<Rightarrow> int list option" where
  "loop_rows 0 idx tbl_size stride = None"
| "loop_rows (Suc fuel) idx tbl_size stride =
     (if idx < tbl_size
      then map_option ((#) idx) (loop_rows fuel (sint (word_of_int (idx + stride) :: 32 word)) tbl_size stride)
      else Some [])"

text \<open>A kernel: the generator and the rows of each of its threads.\<close>

definition kernel_rows ::
  "nat \<Rightarrow> 's option list \<Rightarrow> nat \<Rightarrow> nat \<Rightarrow> nat \<Rightarrow> int \<Rightarrow> ('s \<times> int list option) list res" where
  "kernel_rows fuel state nstates gridDim blockDim tbl_size =
     emap (\<lambda>start_idx. ebind (local_state state nstates start_idx) (\<lambda>s.
         Inr (s, loop_rows fuel (int start_idx) tbl_size (int (blockDim * gridDim)))))
       (thread_indices gridDim blockDim)"

text \<open>The generators, and the kernel over a table: both kernels run on the grid of \<open>init_build_tbl\<close>.\<close>

definition launch_kernel ::
  "(nat \<Rightarrow> 's) \<Rightarrow> nat \<Rightarrow> nat \<Rightarrow> nat \<Rightarrow> nat \<Rightarrow> int \<Rightarrow> ('s \<times> int list option) list res" where
  "launch_kernel seeded fuel num_sms num_blocks_init_build_tbl num_blocks_init_probe_tbl tbl_size =
     (let nstates = num_states num_sms num_blocks_init_build_tbl num_blocks_init_probe_tbl in
      ebind (make_states seeded nstates) (\<lambda>state.
        kernel_rows fuel state nstates (num_sms * num_blocks_init_build_tbl) block_size tbl_size))"

section \<open>The threads of a launch\<close>

lemma thread_indices_eq: "thread_indices gridDim blockDim = [0..<gridDim * blockDim]"
proof (induction gridDim)
  case (Suc g)
  have "map (\<lambda>i. g * blockDim + i) [0..<blockDim] = [g * blockDim..<g * blockDim + blockDim]"
    using map_add_upt [of "g * blockDim" blockDim] by (simp add: add.commute)
  moreover have "[0..<g * blockDim + blockDim] = [0..<g * blockDim] @ [g * blockDim..<g * blockDim + blockDim]"
    by (rule upt_add_eq_append) simp
  ultimately show ?case using Suc by (simp add: thread_indices_def add.commute)
qed (simp add: thread_indices_def)

lemma init_curand_from:
  assumes "length st = n" and "k \<le> m"
  shows "\<exists>st'. efold (\<lambda>st i. if i < n
         then (if i < length st then Inr (st[i := Some (seeded i)]) else Inl OutOfBounds)
         else Inr st) st [k..<m] = Inr st' \<and> length st' = n \<and>
      (\<forall>i < n. st' ! i = (if k \<le> i \<and> i < m then Some (seeded i) else st ! i))"
  using assms(2)
proof (induction m rule: dec_induct)
  case base
  show ?case using assms(1) by auto
next
  case (step m)
  then obtain st' where "efold (\<lambda>st i. if i < n
         then (if i < length st then Inr (st[i := Some (seeded i)]) else Inl OutOfBounds)
         else Inr st) st [k..<m] = Inr st'" "length st' = n"
      "\<forall>i < n. st' ! i = (if k \<le> i \<and> i < m then Some (seeded i) else st ! i)" by blast
  then show ?case using step(1) by (auto simp: efold_append nth_list_update less_Suc_eq)
qed

lemma enough_blocks: "n \<le> ((n - 1) div block_size + 1) * block_size"
proof -
  have "n - 1 < ((n - 1) div block_size + 1) * block_size"
    by (simp add: block_size_def dividend_less_div_times [of 128 "n - 1", simplified add.commute] mult.commute)
  then show ?thesis by simp
qed

lemma make_states_ok: "make_states seeded n = Inr (map (\<lambda>i. Some (seeded i)) [0..<n])"
proof -
  obtain st where st: "make_states seeded n = Inr st" "length st = n" "\<forall>i < n. st ! i = Some (seeded i)"
    using init_curand_from [of "replicate n None" n 0 "((n - 1) div block_size + 1) * block_size" seeded] enough_blocks [of n]
    by (auto simp: make_states_def init_curand_def thread_indices_eq)
  then have "st = map (\<lambda>i. Some (seeded i)) [0..<n]" by (intro nth_equalityI) simp_all
  then show ?thesis using st(1) by simp
qed

section \<open>The rows of a thread\<close>

lemma rows_of_residue:
  fixes idx T n :: nat
  assumes "0 < T" and "idx < n"
  shows "filter (\<lambda>r. idx \<le> r \<and> r mod T = idx mod T) [0..<n] = idx # filter (\<lambda>r. idx + T \<le> r \<and> r mod T = idx mod T) [0..<n]"
proof -
  have split: "[0..<n] = [0..<idx] @ idx # [Suc idx..<n]"
    using assms(2) upt_conv_Cons [of idx n] upt_add_eq_append [of 0 idx "n - idx"] by simp
  have "filter (\<lambda>r. idx \<le> r \<and> r mod T = idx mod T) [Suc idx..<n] = filter (\<lambda>r. idx + T \<le> r \<and> r mod T = idx mod T) [Suc idx..<n]"
  proof (rule filter_cong [OF refl])
    fix r assume "r \<in> set [Suc idx..<n]"
    then have "r mod T = idx mod T \<Longrightarrow> idx \<le> r \<longleftrightarrow> idx + T \<le> r" using next_row [of r T idx] by auto
    then show "(idx \<le> r \<and> r mod T = idx mod T) = (idx + T \<le> r \<and> r mod T = idx mod T)" by blast
  qed
  then show ?thesis using assms(1) unfolding split by simp
qed

lemma loop_rows_from:
  assumes T: "0 < T" "n + T \<le> 2 ^ 31" and "n \<le> idx + fuel"
  shows "loop_rows (Suc fuel) (int idx) (int n) (int T) = Some (map int (filter (\<lambda>r. idx \<le> r \<and> r mod T = idx mod T) [0..<n]))"
  using assms(3)
proof (induction fuel arbitrary: idx)
  case 0
  then show ?case by (simp add: filter_empty_conv)
next
  case (Suc fuel)
  show ?case
  proof (cases "idx < n")
    case True
    have "sint (word_of_int (int idx + int T) :: 32 word) = int (idx + T)"
      using sint_word_of_int32 [of "int (idx + T)"] True T(2) by simp
    moreover have "loop_rows (Suc fuel) (int (idx + T)) (int n) (int T) =
        Some (map int (filter (\<lambda>r. idx + T \<le> r \<and> r mod T = idx mod T) [0..<n]))"
      using Suc.IH [of "idx + T"] Suc.prems T(1) by simp
    ultimately show ?thesis using True rows_of_residue [OF T(1) True] by (simp del: of_nat_add loop_rows.simps add: loop_rows.simps(2) [of "Suc fuel"])
  qed (simp add: filter_empty_conv)
qed

lemma thread_rows:
  assumes "0 < T" and "n + T \<le> 2 ^ 31" and "n < fuel" and "t < T"
  shows "loop_rows fuel (int t) (int n) (int T) = Some (map int (filter (\<lambda>r. r mod T = t) [0..<n]))"
proof -
  obtain k where k: "fuel = Suc k" using assms(3) by (cases fuel) simp_all
  have "(t \<le> r \<and> r mod T = t mod T) = (r mod T = t)" for r
    using assms(4) mod_less_eq_dividend [of r T] by auto
  then show ?thesis using loop_rows_from [OF assms(1,2), of t k] assms(3) k by simp
qed

text \<open>Past the bound on the rows the sum wraps around and the loop goes on at a negative row.\<close>

lemma loop_rows_wraps:
  assumes "0 \<le> idx" "idx < n" "n < 2 ^ 31" and "0 \<le> T" "T < 2 ^ 31" "2 ^ 31 \<le> idx + T"
  shows "loop_rows (Suc (Suc fuel)) idx n T =
    map_option (\<lambda>rs. idx # (idx + T - 2 ^ 32) # rs)
      (loop_rows fuel (sint (word_of_int (idx + T - 2 ^ 32 + T) :: 32 word)) n T)"
proof -
  have "sint (word_of_int (idx + T) :: 32 word) = (idx + T + 2 ^ 31) mod 2 ^ 32 - 2 ^ 31"
    unfolding signed_of_int by (simp add: signed_take_bit_eq_take_bit_shift take_bit_eq_mod)
  also have "(idx + T + 2 ^ 31) mod 2 ^ 32 = idx + T + 2 ^ 31 - 2 ^ 32"
    using assms by (simp add: mod_pos_geq)
  finally have "sint (word_of_int (idx + T) :: 32 word) = idx + T - 2 ^ 32" by simp
  then show ?thesis using assms by (simp add: option.map_comp comp_def del: of_int_add)
qed

section \<open>The kernels\<close>

text \<open>
  C35. The launches divide the tables: every thread of a kernel has a generator that was
  initialised with its own sequence number, its loop ends, and every row belongs to exactly
  one thread, the one that the model of the drawing gives it to. The row count plus the
  number of threads must not exceed \<open>2 ^ 31\<close>, or the index wraps around.
\<close>
theorem kernels_divide_rows:
  assumes "0 < num_sms * num_blocks" and T: "T = num_sms * num_blocks * block_size" and "n + T \<le> 2 ^ 31" and "n < fuel"
  shows "\<exists>ks. launch_kernel seeded fuel num_sms num_blocks num_blocks_probe (int n) = Inr ks \<and> length ks = T \<and>
    (\<forall>t < T. ks ! t = (seeded t, Some (map int (filter (\<lambda>r. r mod T = t) [0..<n])))) \<and>
    (\<forall>r < n. \<exists>!t. t < T \<and> int r \<in> set (the (snd (ks ! t))))"
proof -
  let ?n = "num_states num_sms num_blocks num_blocks_probe"
  let ?row = "\<lambda>t. (seeded t, Some (map int (filter (\<lambda>r. r mod T = t) [0..<n])))"
  have T0: "0 < T" using assms(1) by (simp add: T block_size_def)
  have le: "T \<le> ?n" by (simp add: T num_states_def mult_le_mono)
  have idx: "thread_indices (num_sms * num_blocks) block_size = [0..<T]" by (simp add: thread_indices_eq T)
  have "local_state (map (\<lambda>i. Some (seeded i)) [0..<?n]) ?n t = Inr (seeded t)" if "t < T" for t
    using that le by (simp add: local_state_def)
  then have "emap (\<lambda>t. ebind (local_state (map (\<lambda>i. Some (seeded i)) [0..<?n]) ?n t) (\<lambda>s. Inr (s, loop_rows fuel (int t) (int n) (int T))))
      [0..<T] = Inr (map ?row [0..<T])"
    using thread_rows [OF T0 assms(3,4)] by (intro emap_Inr) simp
  moreover have "int (block_size * (num_sms * num_blocks)) = int T" by (simp add: T mult.commute)
  ultimately have run: "launch_kernel seeded fuel num_sms num_blocks num_blocks_probe (int n) = Inr (map ?row [0..<T])"
    by (simp only: launch_kernel_def Let_def make_states_ok ebind.simps kernel_rows_def idx)
  have one: "\<exists>!t. t < T \<and> int r \<in> set (the (snd (map ?row [0..<T] ! t)))" if "r < n" for r
    using T0 that by (intro ex1I [of _ "r mod T"]) auto
  show ?thesis using run one by (intro exI [of _ "map ?row [0..<T]"]) simp
qed

theorem kernels_divide_rows_witness:
  "\<exists>ks. launch_kernel (\<lambda>i. i) 131 1 1 3 130 = Inr ks \<and> length ks = 128 \<and> ks ! 1 = (1, Some [1, 129])"
proof -
  have f: "filter (\<lambda>r. r mod 128 = 1) [0..<130] = [1, 129 :: nat]" by code_simp
  have "0 < 1 * (1 :: nat)" "128 = 1 * 1 * block_size" "130 + 128 \<le> (2 ^ 31 :: nat)" "130 < (131 :: nat)" by (simp_all add: block_size_def)
  from kernels_divide_rows [OF this, of "\<lambda>i. i" 3] obtain ks
    where "launch_kernel (\<lambda>i. i) 131 1 1 3 (int 130) = Inr ks" "length ks = 128"
      "\<forall>t < 128. ks ! t = (t, Some (map int (filter (\<lambda>r. r mod 128 = t) [0..<130])))" by blast
  then show ?thesis using f by (intro exI [of _ ks]) simp
qed

end
