(* ===== verification/Warmup.thy ===== *)
theory Warmup
  imports Runtime All_To_All
begin

text \<open>
  \<open>warmup_all_to_all\<close> (\<open>src/src/all_to_all_comm.cpp\<close>): every rank exchanges a buffer with
  every other rank. \<open>sb\<close> and \<open>rb\<close> are the pointers the memory resource returns for the
  send and receive buffers, \<open>contents s i\<close> what the send buffer of rank \<open>s\<close> for rank \<open>i\<close> holds.
\<close>

definition warmup_buffers :: "nat \<Rightarrow> (rank \<Rightarrow> ptr) \<Rightarrow> (rank \<Rightarrow> ptr) \<Rightarrow> rank \<Rightarrow> (ptr \<times> int) list" where
  "warmup_buffers n sb rb irank = [(sb irank, int n), (rb irank, int n)]"

definition warmup_all_to_all ::
  "((rank \<times> msg) list list \<Rightarrow> rank \<Rightarrow> rank list \<Rightarrow> msg list res) \<Rightarrow> nat \<Rightarrow> (rank \<Rightarrow> rank \<Rightarrow> byte list) \<Rightarrow>
     (rank \<Rightarrow> ptr) \<Rightarrow> (rank \<Rightarrow> ptr) \<Rightarrow> rank \<Rightarrow> (api_call list \<times> byte list list) res" where
  "warmup_all_to_all exch mpi_size contents sb rb r =
     (if mpi_size = 0 then Inl DivideByZero else
      let n = 10000000 div mpi_size; others = (\<lambda>s. filter (\<lambda>irank. irank \<noteq> s) [0..<mpi_size]) in
      ebind (exch (map (\<lambda>s. map (\<lambda>irank. (irank, (1, contents s irank))) (others s)) [0..<mpi_size]) r (others r)) (\<lambda>ms.
      ebind (emap (\<lambda>(es, bs). if length bs = n then Inr bs else Inl SizeMismatch) ms) (\<lambda>received.
      Inr (concat (map (\<lambda>irank. allocate_calls (warmup_buffers n sb rb irank)) (others r)) @
           concat (map (\<lambda>irank. deallocate_calls (warmup_buffers n sb rb irank)) [0..<r]), received))))"

section \<open>The memory\<close>

lemma concat_calls:
  "concat (map (\<lambda>i. allocate_calls (f i)) xs) = allocate_calls (concat (map f xs))"
  "concat (map (\<lambda>i. deallocate_calls (f i)) xs) = deallocate_calls (concat (map f xs))"
  by (simp_all add: allocate_calls_def deallocate_calls_def map_concat comp_def)

lemma others_split: "r < N \<Longrightarrow> filter (\<lambda>i. i \<noteq> r) [0..<N] = [0..<r] @ [Suc r..<N]"
proof -
  assume r: "r < N"
  have "[0..<N] = [0..<r] @ r # [Suc r..<N]"
    using r upt_add_eq_append [of 0 r "N - r"] upt_conv_Cons [of r N] by simp
  then show ?thesis by (simp add: filter_id_conv)
qed

text \<open>
  C30. The warm-up exchange succeeds, and every rank receives the buffers of all others;
  but the last loop runs up to \<open>mpi_rank\<close> instead of \<open>mpi_size\<close>, so a rank frees only the
  buffers for the ranks below it: rank \<open>r\<close> loses \<open>2 * (mpi_size - 1 - r)\<close> blocks of the
  memory pool, and only the last rank frees everything.
\<close>
theorem warmup_leaks:
  assumes tr: "p2p_transport exch okm N multi" and N: "N < 2 ^ 31" and r: "r < N"
    and contents: "\<forall>s < N. \<forall>i < N. length (contents s i) = 10000000 div N \<and> okm (1, contents s i)"
    and s: "has_pool s" "mappings s = []"
    and fresh: "distinct (map fst (pool_blocks s) @ concat (map (\<lambda>i. [sb i, rb i]) (filter (\<lambda>i. i \<noteq> r) [0..<N])))"
  shows "\<exists>calls s'. warmup_all_to_all exch N contents sb rb r = Inr (calls, map (\<lambda>s. contents s r) (filter (\<lambda>s. s \<noteq> r) [0..<N])) \<and>
    api_run calls s = Some s' \<and>
    pool_blocks s' = pool_blocks s @ concat (map (\<lambda>i. [(sb i, int (10000000 div N)), (rb i, int (10000000 div N))]) [Suc r..<N]) \<and>
    length (pool_blocks s') = length (pool_blocks s) + 2 * (N - 1 - r)"
proof -
  define n where "n = 10000000 div N"
  let ?others = "\<lambda>s. filter (\<lambda>i. i \<noteq> s) [0..<N]" and ?bl = "\<lambda>xs. concat (map (warmup_buffers n sb rb) xs)"
  let ?snds = "map (\<lambda>s. map (\<lambda>i. (i, (1, contents s i))) (?others s)) [0..<N]"
  have exch: "exch ?snds r (?others r) = Inr (map (\<lambda>s. (1, contents s r)) (?others r))"
  proof (rule p2p_transport.single_round [OF tr])
    show "distinct (?others r)" by simp
    show "admissible okm N multi ?snds" using N contents by (auto simp: admissible_def comp_def)
    show "\<forall>s \<in> set (?others r). s < length ?snds \<and> msgs_to (?snds ! s) r = [(1, contents s r)]"
    proof
      fix q assume "q \<in> set (?others r)"
      then have q: "q < N" "r \<in> set (?others q)" using r by auto
      have "msgs_to (map (\<lambda>i. (i, (1, contents q i))) (?others q)) r = [(1, contents q r)]"
        using q(2) by (intro msgs_to_map_distinct [of "?others q" "\<lambda>i. i" r "\<lambda>i. (1, contents q i)"]) simp_all
      then show "q < length ?snds \<and> msgs_to (?snds ! q) r = [(1, contents q r)]" using q by simp
    qed
  qed (rule r)
  have recv: "emap (\<lambda>(es, bs). if length bs = n then Inr bs else Inl SizeMismatch) (map (\<lambda>s. (1 :: nat, contents s r)) (?others r)) =
      Inr (map (\<lambda>s. contents s r) (?others r))"
    using contents r by (intro emap_map_Inr) (simp add: n_def)
  have run: "warmup_all_to_all exch N contents sb rb r =
      Inr (allocate_calls (?bl (?others r)) @ deallocate_calls (?bl [0..<r]), map (\<lambda>s. contents s r) (?others r))"
    using r exch recv by (simp add: warmup_all_to_all_def n_def concat_calls Let_def)
  have fst: "map fst (?bl xs) = concat (map (\<lambda>i. [sb i, rb i]) xs)" for xs
    by (simp add: warmup_buffers_def map_concat comp_def)
  have d: "distinct (map fst (pool_blocks s @ ?bl (?others r)))" unfolding map_append fst by (rule fresh)
  have split: "?bl (?others r) = ?bl [0..<r] @ ?bl [Suc r..<N]" unfolding others_split [OF r] by simp
  have nn: "\<forall>(p, k) \<in> set (?bl (?others r)). 0 \<le> k" by (auto simp: warmup_buffers_def)
  have d': "distinct (map fst (pool_blocks s @ ?bl [0..<r]))"
    using d unfolding split by (metis append_assoc distinct_append map_append)
  let ?s1 = "s\<lparr>pool_blocks := pool_blocks s @ ?bl (?others r)\<rparr>" and ?s2 = "s\<lparr>pool_blocks := pool_blocks s @ ?bl [Suc r..<N]\<rparr>"
  have "api_run (allocate_calls (?bl (?others r))) s = Some ?s1" by (rule allocate_calls_run [OF s(1) d nn])
  moreover have "api_run (deallocate_calls (?bl [0..<r])) ?s1 = Some (?s1\<lparr>pool_blocks := pool_blocks s @ ?bl [Suc r..<N]\<rparr>)"
    by (rule deallocate_calls_run [OF _ _ _ d']) (use s in \<open>simp_all add: split\<close>)
  ultimately have "api_run (allocate_calls (?bl (?others r)) @ deallocate_calls (?bl [0..<r])) s = Some ?s2"
    unfolding api_run_append by simp
  moreover have "length (concat (map (\<lambda>i. [(sb i, int n), (rb i, int n)]) xs)) = 2 * length xs" for xs by (induction xs) simp_all
  moreover have "?bl [Suc r..<N] = concat (map (\<lambda>i. [(sb i, int n), (rb i, int n)]) [Suc r..<N])"
    by (simp add: warmup_buffers_def [abs_def])
  ultimately show ?thesis unfolding run n_def [symmetric] by (intro exI conjI) auto
qed

theorem warmup_leaks_witness:
  "\<exists>calls received s'. warmup_all_to_all fifo_exchange 4 (\<lambda>s i. replicate 2500000 0) (\<lambda>i. 512 * int i) (\<lambda>i. 512 * int i + 256) 1 = Inr (calls, received) \<and>
    api_run calls (nothing\<lparr>has_pool := True\<rparr>) = Some s' \<and> length (pool_blocks s') = 4"
proof -
  have "p2p_transport fifo_exchange (\<lambda>_ :: msg. True) 4 True" by (rule fifo.p2p_transport_axioms)
  from warmup_leaks [OF this, of 1 "\<lambda>s i. replicate 2500000 0" "nothing\<lparr>has_pool := True\<rparr>" "\<lambda>i. 512 * int i" "\<lambda>i. 512 * int i + 256"]
  show ?thesis by (auto simp: nothing_def upt_rec)
qed

end
