(* ===== verification/Request_Handles.thy ===== *)
theory Request_Handles
  imports Buffer_Communicator
begin

text \<open>
  The request handles of \<open>UCXBufferCommunicator\<close> (\<open>src/src/communicator.cpp\<close> 300-307,
  401-703, 705-772): memory that UCX takes from its own pool or that \<open>send\<close> allocates, a
  pointer from every internal handle to the handle the user holds, and callbacks that UCX
  may run before the handle has been filled. A handle that UCX has taken back may come
  again for the next request with the contents it was left with. This theory models the
  memory and the operations on it; \<open>BadPointer\<close> is every use of a handle that is not
  allocated, has been released, belongs to nobody or lacks its information.
\<close>

section \<open>Handles\<close>

text \<open>The field \<open>orig_info\<close>: \<open>nullptr\<close>, the mark \<open>0x1\<close>, or a pointer to a handle.\<close>

datatype orig_ptr = Unset | Called | Orig nat

datatype request_info = NoInfo | SendInfo send_info | RecvInfo recv_info

record handle = comm_info +
  has_comm :: bool
  orig_info :: orig_ptr
  payload :: request_info

text \<open>What UCX runs on the memory of a request when it allocates it.\<close>

definition request_init :: "handle \<Rightarrow> handle" where
  "request_init info = info\<lparr>completed := False, has_comm := False, orig_info := Unset, custom_allocated := False\<rparr>"

text \<open>
  The state: the memory of all handles, which of them come from \<open>malloc\<close> and which UCX has
  back, the operations in flight under a handle (a count, or a batch of at most so many
  bytes), the handles returned to the user and not waited for yet, and the pool of
  communication buffers. \<open>history\<close> is for the proofs, no operation reads it: for a handle of
  the user what was asked for, and the messages sent or received so far.
\<close>

datatype flight = CountFlight | BatchFlight int

datatype transfer = NoTransfer | SendTransfer send_info | RecvTransfer "byte list option" int rank "32 word"

record requests =
  handle_at :: "nat \<rightharpoonup> handle"
  malloced :: "nat set"
  ucx_free :: "nat set"
  in_flight :: "nat \<rightharpoonup> flight"
  returned :: "nat set"
  pool :: buffer_pool
  history :: "nat \<Rightarrow> transfer \<times> wire list"

definition start_requests :: "buffer_pool \<Rightarrow> requests" where
  "start_requests st =
     \<lparr>handle_at = Map.empty, malloced = {}, ucx_free = {}, in_flight = Map.empty, returned = {}, pool = st,
      history = (\<lambda>r. (NoTransfer, []))\<rparr>"

section \<open>Memory\<close>

definition deref :: "requests \<Rightarrow> nat \<Rightarrow> handle res" where
  "deref s a =
     (if a \<in> ucx_free s then Inl BadPointer
      else case handle_at s a of None \<Rightarrow> Inl BadPointer | Some h \<Rightarrow> Inr h)"

definition store :: "requests \<Rightarrow> nat \<Rightarrow> handle \<Rightarrow> requests" where
  "store s a h = s\<lparr>handle_at := (handle_at s)(a \<mapsto> h)\<rparr>"

text \<open>
  UCX picks the memory of a request: one it has back, as it is, or new memory, with
  whatever it contains, which it initialises. (It does not pick memory in use.)
\<close>

definition ucx_request :: "nat \<times> handle \<Rightarrow> requests \<Rightarrow> (nat \<times> requests) res" where
  "ucx_request choice s =
     (let (b, raw) = choice in
      if b \<in> ucx_free s then Inr (b, s\<lparr>ucx_free := ucx_free s - {b}\<rparr>)
      else if handle_at s b = None then Inr (b, store s b (request_init raw))
      else Inl ExternalError)"

definition malloc_handle :: "nat \<times> handle \<Rightarrow> requests \<Rightarrow> (nat \<times> requests) res" where
  "malloc_handle choice s =
     (let (b, raw) = choice in
      if handle_at s b = None
      then Inr (b, (store s b (raw\<lparr>custom_allocated := True, completed := False\<rparr>))\<lparr>malloced := insert b (malloced s)\<rparr>)
      else Inl ExternalError)"

definition ucp_request_free :: "nat \<Rightarrow> requests \<Rightarrow> requests res" where
  "ucp_request_free a s =
     ebind (deref s a) (\<lambda>h. if a \<in> malloced s then Inl BadPointer else Inr (s\<lparr>ucx_free := insert a (ucx_free s)\<rparr>))"

definition free_handle :: "nat \<Rightarrow> requests \<Rightarrow> requests res" where
  "free_handle a s =
     ebind (deref s a) (\<lambda>h.
       if a \<in> malloced s then Inr (s\<lparr>handle_at := (handle_at s)(a := None), malloced := malloced s - {a}\<rparr>)
       else Inl BadPointer)"

section \<open>The callbacks\<close>

definition log_messages :: "handle \<Rightarrow> wire list \<Rightarrow> requests \<Rightarrow> requests" where
  "log_messages h ms s =
     (case orig_info h of
        Orig r \<Rightarrow> (case history s r of (tr, ws) \<Rightarrow> s\<lparr>history := (history s)(r := (tr, ws @ ms))\<rparr>)
      | _ \<Rightarrow> s)"

text \<open>
  The end of a transfer: the handle of the user is marked. The copies of a handle share the
  pointer to the user's buffer; here its contents \<open>p\<close> end up in the handle of the user.
\<close>

definition complete_orig :: "handle \<Rightarrow> request_info \<Rightarrow> requests \<Rightarrow> requests res" where
  "complete_orig h p s =
     (case orig_info h of
        Orig r \<Rightarrow> ebind (deref s r) (\<lambda>hr. Inr (store s r (hr\<lparr>completed := True, payload := p\<rparr>)))
      | _ \<Rightarrow> Inl BadPointer)"

text \<open>The end of a handler: an internal handle is reset and goes back to UCX.\<close>

definition release_internal :: "nat \<Rightarrow> handle \<Rightarrow> requests \<Rightarrow> requests res" where
  "release_internal a h s =
     (if orig_info h = Orig a then Inr s
      else ebind (deref s a) (\<lambda>h'. ucp_request_free a
        (store s a (h'\<lparr>completed := False, has_comm := False, orig_info := Unset, custom_allocated := False\<rparr>))))"

definition launch :: "nat \<Rightarrow> flight \<Rightarrow> requests \<Rightarrow> requests" where
  "launch b f s = s\<lparr>in_flight := (in_flight s)(b \<mapsto> f)\<rparr>"

text \<open>
  \<open>send_handler\<close> on the handle at \<open>a\<close>: the batches as in the theory of the transfers;
  the request of a batch that does not complete at once gets a copy of the handle.
\<close>

definition send_callback :: "int \<Rightarrow> bool list \<Rightarrow> nat \<times> handle \<Rightarrow> nat \<Rightarrow> requests \<Rightarrow> (wire list \<times> requests) res" where
  "send_callback cbs replies choice a s =
     ebind (deref s a) (\<lambda>h.
     case payload h of
       SendInfo info \<Rightarrow>
         if \<not> has_comm h then Inl BadPointer else
         ebind (send_handler cbs info replies) (\<lambda>(ms, st).
         ebind (case st of
                  Sent \<Rightarrow> complete_orig h (payload h) (log_messages h ms s)
                | SendPending info' \<Rightarrow>
                    ebind (ucx_request choice (log_messages h ms s)) (\<lambda>(b, s1).
                      Inr (launch b (BatchFlight 0) (store s1 b (h\<lparr>payload := SendInfo info', custom_allocated := False\<rparr>))))) (\<lambda>s2.
         ebind (release_internal a h s2) (\<lambda>s3. Inr (ms, s3))))
     | _ \<Rightarrow> Inl BadPointer)"

text \<open>
  \<open>recv_handler\<close> when UCX runs it inside the call that makes the request: it leaves a mark in a
  handle that is not filled. In a handle with old contents it would go on with them.
\<close>

definition early_callback :: "nat \<Rightarrow> requests \<Rightarrow> requests res" where
  "early_callback b s =
     ebind (deref s b) (\<lambda>h. if orig_info h = Unset then Inr (store s b (h\<lparr>orig_info := Called\<rparr>)) else Inl BadPointer)"

text \<open>
  A receive that \<open>recv_handler\<close> posts: which memory UCX picks, and the batch if it arrives
  within the call. The new handle is filled after the call; the second result says whether
  the callback has left its mark.
\<close>

type_synonym recv_answer = "(nat \<times> handle) \<times> byte list option"

definition fill_request ::
  "nat \<Rightarrow> handle \<Rightarrow> recv_info \<Rightarrow> int \<Rightarrow> recv_answer \<Rightarrow> requests \<Rightarrow> (nat \<times> bool \<times> requests) res" where
  "fill_request a h info posted answer s =
     (let (choice, arrived) = answer in
      ebind (ucx_request choice s) (\<lambda>(b, s1).
      ebind (case arrived of
               None \<Rightarrow> Inr (info, s1)
             | Some bs \<Rightarrow> ebind (batch_arrives info posted bs) (\<lambda>info'.
                          ebind (early_callback b s1) (\<lambda>s2. Inr (info', log_messages h [Batch bs] s2)))) (\<lambda>(info2, s2).
      ebind (deref s2 b) (\<lambda>hb.
        Inr (b, orig_info hb \<noteq> Unset,
             store (store s2 a (h\<lparr>payload := RecvInfo info2\<rparr>)) b (h\<lparr>payload := RecvInfo info2\<rparr>))))))"

text \<open>
  \<open>recv_handler\<close> on the handle at \<open>a\<close>; if the callback of the next receive has come too
  early, the handler calls itself. (The answers are used up where UCX reports an error,
  which ends the program.)
\<close>

fun recv_callback :: "int \<Rightarrow> recv_answer list \<Rightarrow> nat \<Rightarrow> requests \<Rightarrow> requests res" where
  "recv_callback cbs answers a s =
     ebind (deref s a) (\<lambda>h.
     if orig_info h = Unset then Inr (store s a (h\<lparr>orig_info := Called\<rparr>))
     else case payload h of
       RecvInfo info \<Rightarrow>
         if \<not> has_comm h then Inl BadPointer else
         ebind (recv_handler cbs info) (\<lambda>st.
         ebind (case st of
                  Received buf \<Rightarrow> complete_orig h (RecvInfo (info\<lparr>r_buffer := buf\<rparr>)) s
                | RecvPending info' posted \<Rightarrow>
                   (case answers of
                      [] \<Rightarrow> Inl (Exit 1)
                    | answer # rest \<Rightarrow>
                        ebind (fill_request a h info' posted answer s) (\<lambda>(b, callback_called, s3).
                        if callback_called then recv_callback cbs rest b s3
                        else Inr (launch b (BatchFlight posted) s3)))) (\<lambda>s4.
         release_internal a h s4))
     | _ \<Rightarrow> Inl BadPointer)"

declare recv_callback.simps [simp del]

section \<open>The operations\<close>

definition take_buffer :: "requests \<Rightarrow> (int \<times> requests) res" where
  "take_buffer s = ebind (take_comm_buffer (pool s)) (\<lambda>(b, p). Inr (b, s\<lparr>pool := p\<rparr>))"

text \<open>
  The part \<open>send\<close> and \<open>recv_helper\<close> share: take a communication buffer, fill the handle,
  return it. The first result is the handle as it was before. Receives reset
  \<open>custom_allocated\<close>, sends rely on what is there.
\<close>

definition fill_handle :: "nat \<Rightarrow> request_info \<Rightarrow> bool \<Rightarrow> transfer \<Rightarrow> wire list \<Rightarrow> requests \<Rightarrow> (handle \<times> requests) res" where
  "fill_handle a p reset tr ms s =
     ebind (take_buffer s) (\<lambda>(comm_buffer, s').
     ebind (deref s' a) (\<lambda>h.
       Inr (h, (store s' a (h\<lparr>payload := p, info_buffer := comm_buffer, has_comm := True, orig_info := Orig a,
                  custom_allocated := custom_allocated h \<and> \<not> reset\<rparr>))
                \<lparr>returned := insert a (returned s'), history := (history s')(a := (tr, ms))\<rparr>)))"

text \<open>
  \<open>send\<close>: if the count is sent at once the handle is allocated by hand and the callback is
  called by hand.
\<close>

definition handle_send ::
  "int \<Rightarrow> byte list \<Rightarrow> int \<Rightarrow> int \<Rightarrow> rank \<Rightarrow> 32 word \<Rightarrow> bool \<Rightarrow> nat \<times> handle \<Rightarrow> bool list \<Rightarrow> nat \<times> handle \<Rightarrow> requests \<Rightarrow>
     (nat \<times> wire list \<times> requests) res" where
  "handle_send cbs buf cnt element_size dest tag inl choice replies choice' s =
     ebind (if inl then malloc_handle choice s
            else ebind (ucx_request choice s) (\<lambda>(a, s1). Inr (a, launch a CountFlight s1))) (\<lambda>(a, s2).
     ebind (fill_handle a (SendInfo (initial_send buf cnt element_size dest tag)) False
              (SendTransfer (initial_send buf cnt element_size dest tag)) [Count cnt] s2) (\<lambda>(h, s3).
     if custom_allocated h then ebind (send_callback cbs replies choice' a s3) (\<lambda>(ms, s4). Inr (a, Count cnt # ms, s4))
     else Inr (a, [Count cnt], s3)))"

text \<open>
  \<open>recv_helper\<close>: \<open>arrived\<close> is the count if it arrives within the call that asks for it; then
  the callback is called by hand.
\<close>

definition initial_recv :: "int \<Rightarrow> byte list option \<Rightarrow> int \<Rightarrow> rank \<Rightarrow> 32 word \<Rightarrow> int \<Rightarrow> recv_info" where
  "initial_recv cbs buf element_size source tag n =
     \<lparr>r_buffer = buf, r_comm_buffer = replicate (nat cbs) 0, r_count = n, r_element_size = element_size,
      r_source = source, r_user_tag = tag, r_ibatch = 0\<rparr>"

definition handle_recv ::
  "int \<Rightarrow> byte list option \<Rightarrow> int \<Rightarrow> rank \<Rightarrow> 32 word \<Rightarrow> nat \<times> handle \<Rightarrow> int option \<Rightarrow>
     recv_answer list \<Rightarrow> requests \<Rightarrow> (nat \<times> requests) res" where
  "handle_recv cbs buf element_size source tag choice arrived answers s =
     ebind (ucx_request choice s) (\<lambda>(a, s1).
     ebind (case arrived of None \<Rightarrow> Inr (launch a CountFlight s1) | Some n \<Rightarrow> early_callback a s1) (\<lambda>s2.
     ebind (fill_handle a (RecvInfo (initial_recv cbs buf element_size source tag (case arrived of None \<Rightarrow> 0 | Some n \<Rightarrow> n))) True
              (RecvTransfer buf element_size source tag) (case arrived of None \<Rightarrow> [] | Some n \<Rightarrow> [Count n]) s2) (\<lambda>(h, s3).
     if orig_info h \<noteq> Unset then ebind (recv_callback cbs answers a s3) (\<lambda>s4. Inr (a, s4))
     else Inr (a, s3))))"

text \<open>The end of \<open>wait\<close> and of \<open>waitall\<close> for a completed request.\<close>

definition handle_release :: "nat \<Rightarrow> requests \<Rightarrow> requests res" where
  "handle_release a s =
     ebind (deref s a) (\<lambda>h.
     let s1 = (store s a (h\<lparr>completed := False, has_comm := False, orig_info := Unset, info_buffer := 0\<rparr>))
                \<lparr>pool := (pool s)\<lparr>buffer_cache := buffer_cache (pool s) @ [info_buffer h]\<rparr>, returned := returned s - {a}\<rparr> in
     if custom_allocated h then free_handle a s1 else ucp_request_free a s1)"

section \<open>Events\<close>

text \<open>
  What happens to a communicator, one after the other: the program posts a send or a
  receive, UCX completes an operation in flight while it makes progress, or the program
  has found a returned handle complete and gives it back. The pairs of an address and the
  contents UCX leaves there, the completion flags and the early arrivals are the choices of
  UCX.
\<close>

datatype event =
    PostSend "byte list" int int rank "32 word" bool "nat \<times> handle" "bool list" "nat \<times> handle"
  | PostRecv "byte list option" int rank "32 word" "nat \<times> handle" "int option" "recv_answer list"
  | SendDone nat "bool list" "nat \<times> handle"
  | CountArrived nat int "recv_answer list"
  | BatchArrived nat "byte list" "recv_answer list"
  | Release nat

text \<open>
  Arrivals that do not fit the operation in flight, and the release of a handle that is not
  returned or not complete, do not happen: they are the failure \<open>ExternalError\<close>.
\<close>

definition land :: "nat \<Rightarrow> requests \<Rightarrow> requests" where
  "land a s = s\<lparr>in_flight := (in_flight s)(a := None)\<rparr>"

fun run_event :: "int \<Rightarrow> event \<Rightarrow> requests \<Rightarrow> requests res" where
  "run_event cbs (PostSend buf cnt es dest tag inl choice replies choice') s =
     ebind (handle_send cbs buf cnt es dest tag inl choice replies choice' s) (\<lambda>(a, ms, s'). Inr s')"
| "run_event cbs (PostRecv buf es source tag choice arrived answers) s =
     ebind (handle_recv cbs buf es source tag choice arrived answers s) (\<lambda>(a, s'). Inr s')"
| "run_event cbs (SendDone a replies choice) s =
     (case (in_flight s a, handle_at s a) of
        (Some f, Some h) \<Rightarrow>
          (case payload h of
             SendInfo info \<Rightarrow> ebind (send_callback cbs replies choice a (land a s)) (\<lambda>(ms, s'). Inr s')
           | _ \<Rightarrow> Inl ExternalError)
      | _ \<Rightarrow> Inl ExternalError)"
| "run_event cbs (CountArrived a n answers) s =
     (case (in_flight s a, handle_at s a) of
        (Some CountFlight, Some h) \<Rightarrow>
          (case payload h of
             RecvInfo info \<Rightarrow>
               recv_callback cbs answers a (log_messages h [Count n] (store (land a s) a (h\<lparr>payload := RecvInfo (info\<lparr>r_count := n\<rparr>)\<rparr>)))
           | _ \<Rightarrow> Inl ExternalError)
      | _ \<Rightarrow> Inl ExternalError)"
| "run_event cbs (BatchArrived a bs answers) s =
     (case (in_flight s a, handle_at s a) of
        (Some (BatchFlight size'), Some h) \<Rightarrow>
          (case payload h of
             RecvInfo info \<Rightarrow>
               ebind (batch_arrives info size' bs) (\<lambda>info'.
                 recv_callback cbs answers a (log_messages h [Batch bs] (store (land a s) a (h\<lparr>payload := RecvInfo info'\<rparr>))))
           | _ \<Rightarrow> Inl ExternalError)
      | _ \<Rightarrow> Inl ExternalError)"
| "run_event cbs (Release a) s =
     (case handle_at s a of
        Some h \<Rightarrow> if a \<in> returned s \<and> completed h then handle_release a s else Inl ExternalError
      | None \<Rightarrow> Inl ExternalError)"

end
