(* ===== verification/Request_Invariant.thy ===== *)
theory Request_Invariant
  imports Request_Handles
begin

text \<open>
  The invariant of the request handles: who owns every handle, what UCX finds in a handle it
  has back, that every transfer has one operation in flight, that communication buffers are
  not shared, and that the messages so far are those of the transfer. Then the steps that
  handlers and operations consist of, each of which keeps the invariant.
\<close>

section \<open>Transfers so far\<close>

fun recv_after :: "int \<Rightarrow> recv_state \<Rightarrow> wire list \<Rightarrow> recv_state res" where
  "recv_after cbs st [] = Inr st"
| "recv_after cbs (RecvPending info n) (Batch bs # ws) =
     ebind (batch_arrives info n bs) (\<lambda>info'. ebind (recv_handler cbs info') (\<lambda>st. recv_after cbs st ws))"
| "recv_after cbs _ (_ # _) = Inl Unmatched"

lemma recv_after_snoc:
  "recv_after cbs st ws = Inr (RecvPending i n) \<Longrightarrow> batch_arrives i n bs = Inr i' \<Longrightarrow> recv_handler cbs i' = Inr st' \<Longrightarrow>
     recv_after cbs st (ws @ [Batch bs]) = Inr st'"
  by (induction cbs st ws rule: recv_after.induct) (auto simp: ebind_Inr_iff)

lemma recv_after_run: "recv_after cbs st ws = Inr (Received buf) \<Longrightarrow> run_recv cbs st (ws @ rest) = Inr (buf, rest)"
  by (induction cbs st ws rule: recv_after.induct) (auto simp: ebind_Inr_iff)

definition sent_so_far :: "int \<Rightarrow> send_info \<Rightarrow> wire list \<Rightarrow> send_state \<Rightarrow> bool" where
  "sent_so_far cbs i0 ws st \<longleftrightarrow> (\<exists>calls ms. run_send cbs i0 calls = Inr (ms, st) \<and> ws = Count (s_count i0) # ms)"

definition received_so_far :: "int \<Rightarrow> (int \<Rightarrow> recv_info) \<Rightarrow> wire list \<Rightarrow> recv_state \<Rightarrow> bool" where
  "received_so_far cbs mk ws st \<longleftrightarrow>
     (\<exists>n bs st0. ws = Count n # bs \<and> recv_handler cbs (mk n) = Inr st0 \<and> recv_after cbs st0 bs = Inr st)"

lemma run_send_snoc:
  "run_send cbs i0 calls = Inr (ms, SendPending i) \<Longrightarrow> send_handler cbs i replies = Inr (ms', st) \<Longrightarrow>
     run_send cbs i0 (calls @ [replies]) = Inr (ms @ ms', st)"
proof (induction calls arbitrary: i0 ms)
  case (Cons a calls)
  obtain ms1 st1 where 1: "send_handler cbs i0 a = Inr (ms1, st1)" using Cons.prems(1) by (auto simp: ebind_Inr_iff)
  show ?case
  proof (cases st1)
    case (SendPending i1)
    then obtain ms2 where "run_send cbs i1 calls = Inr (ms2, SendPending i)" "ms = ms1 @ ms2"
      using Cons.prems(1) 1 by (auto simp: ebind_Inr_iff)
    then show ?thesis using Cons.IH [OF _ Cons.prems(2)] 1 SendPending by simp
  qed (use Cons.prems(1) 1 in simp)
qed (simp split: send_state.split)

lemma sent_step:
  "sent_so_far cbs i0 ws (SendPending i) \<Longrightarrow> send_handler cbs i replies = Inr (ms, st) \<Longrightarrow> sent_so_far cbs i0 (ws @ ms) st"
  unfolding sent_so_far_def using run_send_snoc by fastforce

lemma sent_start: "sent_so_far cbs i0 [Count (s_count i0)] (SendPending i0)"
  unfolding sent_so_far_def by (intro exI [of _ "[]"]) simp

lemma received_start: "recv_handler cbs (mk n) = Inr st \<Longrightarrow> received_so_far cbs mk [Count n] st"
  unfolding received_so_far_def by auto

lemma received_step:
  "received_so_far cbs mk ws (RecvPending i n) \<Longrightarrow> batch_arrives i n bs = Inr i' \<Longrightarrow> recv_handler cbs i' = Inr st \<Longrightarrow>
     received_so_far cbs mk (ws @ [Batch bs]) st"
  unfolding received_so_far_def using recv_after_snoc by fastforce

section \<open>The invariant\<close>

text \<open>
  \<open>clean\<close>: how UCX's pool has to find a handle. \<open>chain s r\<close>: the operations in flight for
  the handle \<open>r\<close> of the user. In the middle of a handler there are internal handles that
  are not in flight, \<open>act\<close>, and handles of the user that the handler works for, \<open>cur\<close>.
\<close>

definition clean :: "handle \<Rightarrow> bool" where
  "clean h \<longleftrightarrow> \<not> completed h \<and> \<not> has_comm h \<and> orig_info h = Unset \<and> \<not> custom_allocated h"

definition hdl :: "requests \<Rightarrow> nat \<Rightarrow> handle" where
  "hdl s a = the (handle_at s a)"

definition chain :: "requests \<Rightarrow> nat \<Rightarrow> nat set" where
  "chain s r = {a. in_flight s a \<noteq> None \<and> orig_info (hdl s a) = Orig r}"

definition works_for :: "requests \<Rightarrow> nat \<Rightarrow> handle \<Rightarrow> bool" where
  "works_for s r h \<longleftrightarrow> r \<in> returned s \<and> orig_info h = Orig r \<and> has_comm h \<and> payload h \<noteq> NoInfo \<and>
     info_buffer h = info_buffer (hdl s r)"

definition owners_ok :: "nat set \<Rightarrow> requests \<Rightarrow> bool" where
  "owners_ok act s \<longleftrightarrow>
     finite (returned s) \<and>
     dom (handle_at s) = ucx_free s \<union> dom (in_flight s) \<union> returned s \<union> act \<and>
     ucx_free s \<inter> (dom (in_flight s) \<union> returned s \<union> act) = {} \<and>
     act \<inter> (dom (in_flight s) \<union> returned s) = {} \<and>
     malloced s \<subseteq> returned s - dom (in_flight s)"

definition handles_ok :: "nat set \<Rightarrow> requests \<Rightarrow> bool" where
  "handles_ok cur s \<longleftrightarrow>
     (\<forall>a \<in> ucx_free s. clean (hdl s a)) \<and>
     (\<forall>r \<in> returned s. works_for s r (hdl s r) \<and> (custom_allocated (hdl s r) \<longleftrightarrow> r \<in> malloced s)) \<and>
     (\<forall>a \<in> dom (in_flight s). \<exists>r. works_for s r (hdl s a)) \<and>
     (\<forall>r \<in> returned s. if r \<in> cur then \<not> completed (hdl s r) \<and> chain s r = {}
        else if completed (hdl s r) then chain s r = {} else is_singleton (chain s r))"

definition buffers_ok :: "int multiset \<Rightarrow> requests \<Rightarrow> bool" where
  "buffers_ok B s \<longleftrightarrow> mset (buffer_cache (pool s)) + (\<Sum>r \<in> returned s. {#info_buffer (hdl s r)#}) = B"

text \<open>
  The histories: what was sent, or received and handled, is what the functions of a single
  transfer compute. \<open>due\<close>: a handler is about to run on the handle; \<open>flying\<close>: an operation is
  in flight for it; \<open>ended\<close>: the transfer is complete.
\<close>

fun due :: "int \<Rightarrow> transfer \<times> wire list \<Rightarrow> request_info \<Rightarrow> bool" where
  "due cbs (SendTransfer i0, ws) (SendInfo i) = sent_so_far cbs i0 ws (SendPending i)"
| "due cbs (RecvTransfer buf es source tag, ws) (RecvInfo i) =
     (\<forall>st. recv_handler cbs i = Inr st \<longrightarrow> received_so_far cbs (initial_recv cbs buf es source tag) ws st)"
| "due cbs _ _ = False"

fun flying :: "int \<Rightarrow> transfer \<times> wire list \<Rightarrow> request_info \<Rightarrow> flight \<Rightarrow> bool" where
  "flying cbs (SendTransfer i0, ws) (SendInfo i) f = sent_so_far cbs i0 ws (SendPending i)"
| "flying cbs (RecvTransfer buf es source tag, ws) (RecvInfo i) CountFlight =
     (ws = [] \<and> i = initial_recv cbs buf es source tag 0)"
| "flying cbs (RecvTransfer buf es source tag, ws) (RecvInfo i) (BatchFlight n) =
     received_so_far cbs (initial_recv cbs buf es source tag) ws (RecvPending i n)"
| "flying cbs _ _ _ = False"

fun ended :: "int \<Rightarrow> transfer \<times> wire list \<Rightarrow> request_info \<Rightarrow> bool" where
  "ended cbs (SendTransfer i0, ws) (SendInfo i) = sent_so_far cbs i0 ws Sent"
| "ended cbs (RecvTransfer buf es source tag, ws) (RecvInfo i) =
     received_so_far cbs (initial_recv cbs buf es source tag) ws (Received (r_buffer i))"
| "ended cbs _ _ = False"

definition history_ok :: "int \<Rightarrow> nat set \<Rightarrow> requests \<Rightarrow> bool" where
  "history_ok cbs cur s \<longleftrightarrow>
     (\<forall>r \<in> returned s. r \<notin> cur \<longrightarrow>
        (if completed (hdl s r) then ended cbs (history s r) (payload (hdl s r))
         else \<forall>a \<in> chain s r. flying cbs (history s r) (payload (hdl s a)) (the (in_flight s a))))"

definition requests_inv :: "int \<Rightarrow> int multiset \<Rightarrow> nat set \<Rightarrow> nat set \<Rightarrow> requests \<Rightarrow> bool" where
  "requests_inv cbs B act cur s \<longleftrightarrow> owners_ok act s \<and> handles_ok cur s \<and> buffers_ok B s \<and> history_ok cbs cur s"

lemma owners_okI:
  assumes "finite (returned s)" and "dom (handle_at s) = ucx_free s \<union> dom (in_flight s) \<union> returned s \<union> act"
    and "ucx_free s \<inter> (dom (in_flight s) \<union> returned s \<union> act) = {}" and "act \<inter> (dom (in_flight s) \<union> returned s) = {}"
    and "malloced s \<subseteq> returned s - dom (in_flight s)"
  shows "owners_ok act s"
  using assms unfolding owners_ok_def by simp

lemma owners_okD:
  assumes "requests_inv cbs B act cur s"
  shows "finite (returned s)" "dom (handle_at s) = ucx_free s \<union> dom (in_flight s) \<union> returned s \<union> act"
    "ucx_free s \<inter> (dom (in_flight s) \<union> returned s \<union> act) = {}" "act \<inter> (dom (in_flight s) \<union> returned s) = {}"
    "malloced s \<subseteq> returned s - dom (in_flight s)"
  using assms unfolding requests_inv_def owners_ok_def by simp_all

lemma handles_okD:
  assumes "handles_ok cur s"
  shows "a \<in> ucx_free s \<Longrightarrow> clean (hdl s a)" "r \<in> returned s \<Longrightarrow> works_for s r (hdl s r)"
    "r \<in> returned s \<Longrightarrow> custom_allocated (hdl s r) \<longleftrightarrow> r \<in> malloced s"
    "a \<in> dom (in_flight s) \<Longrightarrow> \<exists>r. works_for s r (hdl s a)"
    "r \<in> returned s \<Longrightarrow> r \<in> cur \<Longrightarrow> \<not> completed (hdl s r) \<and> chain s r = {}"
    "r \<in> returned s \<Longrightarrow> r \<notin> cur \<Longrightarrow> completed (hdl s r) \<Longrightarrow> chain s r = {}"
    "r \<in> returned s \<Longrightarrow> r \<notin> cur \<Longrightarrow> \<not> completed (hdl s r) \<Longrightarrow> is_singleton (chain s r)"
  using assms unfolding handles_ok_def by (blast, blast, blast, blast, metis+)

lemma hdl_store [simp]: "hdl (store s a h) b = (if b = a then h else hdl s b)"
  by (simp add: hdl_def store_def)

lemma store_simps [simp]:
  "ucx_free (store s a h) = ucx_free s" "malloced (store s a h) = malloced s" "in_flight (store s a h) = in_flight s"
  "returned (store s a h) = returned s" "pool (store s a h) = pool s" "history (store s a h) = history s"
  "handle_at (store s a h) = (handle_at s)(a \<mapsto> h)"
  by (simp_all add: store_def)

lemma launch_simps [simp]:
  "ucx_free (launch b f s) = ucx_free s" "malloced (launch b f s) = malloced s"
  "in_flight (launch b f s) = (in_flight s)(b \<mapsto> f)"
  "returned (launch b f s) = returned s" "pool (launch b f s) = pool s" "handle_at (launch b f s) = handle_at s" "history (launch b f s) = history s"
  "hdl (launch b f s) = hdl s"
  by (simp_all add: launch_def hdl_def fun_eq_iff)

lemma land_simps [simp]:
  "ucx_free (land b s) = ucx_free s" "malloced (land b s) = malloced s"
  "in_flight (land b s) = (in_flight s)(b := None)"
  "returned (land b s) = returned s" "pool (land b s) = pool s" "handle_at (land b s) = handle_at s" "history (land b s) = history s" "hdl (land b s) = hdl s"
  by (simp_all add: land_def hdl_def fun_eq_iff)

lemma log_simps [simp]:
  "ucx_free (log_messages h ms s) = ucx_free s" "malloced (log_messages h ms s) = malloced s"
  "in_flight (log_messages h ms s) = in_flight s" "returned (log_messages h ms s) = returned s"
  "pool (log_messages h ms s) = pool s" "handle_at (log_messages h ms s) = handle_at s" "hdl (log_messages h ms s) = hdl s"
  by (simp_all add: log_messages_def hdl_def fun_eq_iff split: orig_ptr.split prod.split)

lemma log_history:
  "orig_info h = Orig r \<Longrightarrow> history (log_messages h ms s) = (history s)(r := (fst (history s r), snd (history s r) @ ms))"
  by (simp add: log_messages_def split: prod.split)

lemma deref_ok: "requests_inv cbs B act cur s \<Longrightarrow> a \<in> dom (in_flight s) \<union> returned s \<union> act \<Longrightarrow> deref s a = Inr (hdl s a)"
proof -
  assume i: "requests_inv cbs B act cur s" and a: "a \<in> dom (in_flight s) \<union> returned s \<union> act"
  then have "a \<notin> ucx_free s" "a \<in> dom (handle_at s)" by (auto simp: requests_inv_def owners_ok_def)
  then show ?thesis by (auto simp: deref_def hdl_def)
qed

section \<open>The steps that handlers consist of\<close>

lemma chain_frame:
  "in_flight s' = in_flight s \<Longrightarrow> \<forall>a \<in> dom (in_flight s). hdl s' a = hdl s a \<Longrightarrow> chain s' r = chain s r"
  by (auto simp: chain_def dom_def)

lemma handles_frame:
  assumes f: "in_flight s' = in_flight s" "returned s' = returned s" "malloced s' = malloced s"
    and e: "\<forall>a \<in> dom (in_flight s) \<union> returned s. hdl s' a = hdl s a"
    and c: "\<forall>a \<in> ucx_free s'. clean (hdl s' a)" and h: "handles_ok cur s"
  shows "handles_ok cur s'"
proof -
  have w: "works_for s' r h = works_for s r h" for r h using f(2) e by (auto simp: works_for_def)
  have ch: "chain s' r = chain s r" for r using f(1) e by (intro chain_frame) auto
  have r: "hdl s' r = hdl s r" if "r \<in> returned s" for r using e that by blast
  have a: "hdl s' a = hdl s a" if "a \<in> dom (in_flight s)" for a using e that by blast
  show ?thesis
    using h c unfolding handles_ok_def f w ch by (simp add: r a cong: ball_cong)
qed

lemma buffers_frame:
  assumes "returned s' = returned s" "pool s' = pool s" "\<forall>a \<in> returned s. info_buffer (hdl s' a) = info_buffer (hdl s a)"
  shows "buffers_ok B s' = buffers_ok B s"
proof -
  have "(\<Sum>r \<in> returned s. {#info_buffer (hdl s' r)#}) = (\<Sum>r \<in> returned s. {#info_buffer (hdl s r)#})"
    using assms(3) by (intro sum.cong) simp_all
  then show ?thesis using assms(1,2) by (simp add: buffers_ok_def)
qed

lemma history_frame:
  assumes f: "in_flight s' = in_flight s" "returned s' = returned s" "history s' = history s"
    and e: "\<forall>a \<in> dom (in_flight s) \<union> returned s. hdl s' a = hdl s a"
  shows "history_ok cbs cur s' = history_ok cbs cur s"
proof -
  have ch: "chain s' r = chain s r" for r using f(1) e by (intro chain_frame) auto
  have a: "hdl s' a = hdl s a" if "a \<in> chain s r" for a r using e that unfolding chain_def by blast
  have r: "hdl s' r = hdl s r" if "r \<in> returned s" for r using e that by blast
  show ?thesis unfolding history_ok_def f ch by (simp add: r a cong: ball_cong)
qed

text \<open>The histories of the transfers that a step does not touch.\<close>

lemma history_others:
  assumes h: "history_ok cbs cur s"
    and e: "\<And>q. q \<in> returned s' \<Longrightarrow> q \<notin> cur' \<Longrightarrow> q \<noteq> r \<Longrightarrow>
      q \<in> returned s \<and> q \<notin> cur \<and> hdl s' q = hdl s q \<and> history s' q = history s q \<and> chain s' q = chain s q \<and>
      (\<forall>x \<in> chain s q. hdl s' x = hdl s x \<and> in_flight s' x = in_flight s x)"
    and r: "r \<in> returned s' \<Longrightarrow> r \<notin> cur' \<Longrightarrow>
      if completed (hdl s' r) then ended cbs (history s' r) (payload (hdl s' r))
      else \<forall>x \<in> chain s' r. flying cbs (history s' r) (payload (hdl s' x)) (the (in_flight s' x))"
  shows "history_ok cbs cur' s'"
  unfolding history_ok_def
proof (intro ballI impI)
  fix q assume q: "q \<in> returned s'" "q \<notin> cur'"
  show "if completed (hdl s' q) then ended cbs (history s' q) (payload (hdl s' q))
      else \<forall>x \<in> chain s' q. flying cbs (history s' q) (payload (hdl s' x)) (the (in_flight s' x))"
  proof (cases "q = r")
    case True
    then show ?thesis using r q by simp
  next
    case False
    then show ?thesis using h e [OF q False] unfolding history_ok_def by (auto split: if_splits)
  qed
qed

text \<open>Messages of a transfer that a handler works for.\<close>

lemma log_ok:
  assumes i: "requests_inv cbs B act cur s" and r: "r \<in> cur" and h: "orig_info h = Orig r"
  shows "requests_inv cbs B act cur (log_messages h ms s)"
proof -
  have ch: "chain (log_messages h ms s) q = chain s q" for q by (simp add: chain_def)
  have w: "works_for (log_messages h ms s) = works_for s" by (simp add: works_for_def fun_eq_iff)
  have "history_ok cbs cur (log_messages h ms s)"
    using i r by (auto simp: requests_inv_def history_ok_def ch log_history [OF h])
  then show ?thesis
    using i by (simp add: requests_inv_def owners_ok_def handles_ok_def buffers_ok_def ch w)
qed

lemma log_works: "works_for (log_messages h ms s) = works_for s"
  by (simp add: works_for_def fun_eq_iff)

lemma store_active:
  assumes i: "requests_inv cbs B act cur s" and b: "b \<in> act"
  shows "requests_inv cbs B act cur (store s b h)"
proof -
  have nb: "b \<notin> ucx_free s" "b \<notin> dom (in_flight s)" "b \<notin> returned s" using i b by (auto simp: requests_inv_def owners_ok_def)
  have "owners_ok act (store s b h)" using i b by (auto simp: requests_inv_def owners_ok_def)
  moreover have "handles_ok cur (store s b h)"
    by (rule handles_frame [of _ s]) (use i nb in \<open>auto simp: requests_inv_def handles_ok_def\<close>)
  moreover have "buffers_ok B (store s b h)"
    using i nb(3) by (subst buffers_frame [of _ s]) (auto simp: requests_inv_def)
  moreover have "history_ok cbs cur (store s b h)"
    using i nb by (subst history_frame [of _ s]) (auto simp: requests_inv_def)
  ultimately show ?thesis by (simp add: requests_inv_def)
qed

lemma ucx_request_ok:
  assumes i: "requests_inv cbs B act cur s" and q: "ucx_request choice s = Inr (b, s1)"
  shows "requests_inv cbs B (insert b act) cur s1" and "b \<notin> act" and "b \<notin> dom (in_flight s)" and "b \<notin> returned s" and "b \<notin> malloced s"
    and "clean (hdl s1 b)" and "\<And>a. a \<noteq> b \<Longrightarrow> hdl s1 a = hdl s a" and "in_flight s1 = in_flight s" and "returned s1 = returned s"
    and "malloced s1 = malloced s" and "pool s1 = pool s" and "history s1 = history s"
proof -
  obtain raw where c: "choice = (b, raw)"
    using q by (cases choice) (auto simp: ucx_request_def split: if_splits)
  have s1: "b \<in> ucx_free s \<and> s1 = s\<lparr>ucx_free := ucx_free s - {b}\<rparr> \<or>
      b \<notin> ucx_free s \<and> handle_at s b = None \<and> s1 = store s b (request_init raw)"
    using q c by (auto simp: ucx_request_def split: if_splits)
  note own = i [unfolded requests_inv_def owners_ok_def]
  show nb: "b \<notin> act" "b \<notin> dom (in_flight s)" "b \<notin> returned s"
    using s1 own by (auto simp: dom_def set_eq_iff)
  then show "b \<notin> malloced s" using own by blast
  have cl: "clean (hdl s a)" if "a \<in> ucx_free s" for a using i that by (auto simp: requests_inv_def handles_ok_def)
  show e: "\<And>a. a \<noteq> b \<Longrightarrow> hdl s1 a = hdl s a" using s1 by (auto simp: hdl_def)
  show f: "in_flight s1 = in_flight s" "returned s1 = returned s" "malloced s1 = malloced s" "pool s1 = pool s" "history s1 = history s"
    using s1 by auto
  show "clean (hdl s1 b)" using s1 cl [of b] by (auto simp: hdl_def clean_def request_init_def)
  have uf: "ucx_free s1 = ucx_free s - {b}" using s1 by auto
  have "dom (handle_at s1) = insert b (dom (handle_at s))"
  proof -
    have "b \<in> ucx_free s \<Longrightarrow> b \<in> dom (handle_at s)" using own by blast
    then show ?thesis using s1 by (auto simp: insert_absorb)
  qed
  then have dm: "dom (handle_at s1) = insert b (ucx_free s \<union> dom (in_flight s) \<union> returned s \<union> act)"
    unfolding owners_okD(2) [OF i] .
  have "owners_ok (insert b act) s1"
  proof (rule owners_okI)
    show "dom (handle_at s1) = ucx_free s1 \<union> dom (in_flight s1) \<union> returned s1 \<union> insert b act" unfolding dm f uf by blast
    show "ucx_free s1 \<inter> (dom (in_flight s1) \<union> returned s1 \<union> insert b act) = {}"
      using owners_okD(3) [OF i] unfolding f uf by blast
    show "insert b act \<inter> (dom (in_flight s1) \<union> returned s1) = {}" using owners_okD(4) [OF i] nb unfolding f by blast
  qed (use owners_okD(1,5) [OF i] in \<open>simp_all only: f\<close>)
  moreover have same: "\<forall>a \<in> dom (in_flight s) \<union> returned s. hdl s1 a = hdl s a"
  proof
    fix a assume "a \<in> dom (in_flight s) \<union> returned s"
    then have "a \<noteq> b" using nb(2,3) by blast
    then show "hdl s1 a = hdl s a" by (rule e)
  qed
  have "\<forall>a \<in> ucx_free s1. clean (hdl s1 a)" using e cl uf by simp
  with same have "handles_ok cur s1"
    by (intro handles_frame [OF f(1-3)]) (use i in \<open>simp_all add: requests_inv_def\<close>)
  moreover have "buffers_ok B s1"
    using i same by (subst buffers_frame [OF f(2,4)]) (auto simp: requests_inv_def)
  moreover have "history_ok cbs cur s1"
    using i by (subst history_frame [OF f(1,2,5) same]) (simp add: requests_inv_def)
  ultimately show "requests_inv cbs B (insert b act) cur s1" by (simp add: requests_inv_def)
qed

text \<open>The last step of a handler that goes on: the copied handle is in flight.\<close>

lemma launch_ok:
  assumes i: "requests_inv cbs B act cur s" and b: "b \<in> act" and r: "r \<in> cur" and w: "works_for s r (hdl s b)"
    and fl: "flying cbs (history s r) (payload (hdl s b)) f"
  shows "requests_inv cbs B (act - {b}) (cur - {r}) (launch b f s)"
proof -
  have h: "handles_ok cur s" using i by (simp add: requests_inv_def)
  have nb: "b \<notin> ucx_free s" "b \<notin> dom (in_flight s)" "b \<notin> returned s"
    using owners_okD(3,4) [OF i] b by blast+
  have rr: "r \<in> returned s" "orig_info (hdl s b) = Orig r" using w by (auto simp: works_for_def)
  have wf: "works_for (launch b f s) q k = works_for s q k" for q k by (simp add: works_for_def)
  have ch: "chain (launch b f s) q = (if q = r then insert b (chain s q) else chain s q)" for q
    using nb(2) rr(2) by (auto simp: chain_def)
  have dom: "dom ((in_flight s)(b \<mapsto> f)) = insert b (dom (in_flight s))" by simp
  have "owners_ok (act - {b}) (launch b f s)"
  proof (rule owners_okI; unfold launch_simps dom)
    show "dom (handle_at s) = ucx_free s \<union> insert b (dom (in_flight s)) \<union> returned s \<union> (act - {b})"
      unfolding owners_okD(2) [OF i] using b by blast
    show "ucx_free s \<inter> (insert b (dom (in_flight s)) \<union> returned s \<union> (act - {b})) = {}"
      using owners_okD(3) [OF i] nb(1) by blast
    show "(act - {b}) \<inter> (insert b (dom (in_flight s)) \<union> returned s) = {}" using owners_okD(4) [OF i] by blast
    show "malloced s \<subseteq> returned s - insert b (dom (in_flight s))" using owners_okD(5) [OF i] nb(3) by blast
  qed (rule owners_okD(1) [OF i])
  moreover have "handles_ok (cur - {r}) (launch b f s)"
    unfolding handles_ok_def launch_simps dom wf ch
  proof (intro conjI ballI)
    show "clean (hdl s a)" if "a \<in> ucx_free s" for a using h that by (simp add: handles_ok_def)
    show "works_for s q (hdl s q)" "custom_allocated (hdl s q) = (q \<in> malloced s)" if "q \<in> returned s" for q
      using h that by (simp_all add: handles_ok_def)
    show "\<exists>q. works_for s q (hdl s a)" if "a \<in> insert b (dom (in_flight s))" for a
      using h that w by (auto simp: handles_ok_def)
    fix q assume q: "q \<in> returned s"
    show "if q \<in> cur - {r} then \<not> completed (hdl s q) \<and> (if q = r then insert b (chain s q) else chain s q) = {}
        else if completed (hdl s q) then (if q = r then insert b (chain s q) else chain s q) = {}
        else is_singleton (if q = r then insert b (chain s q) else chain s q)"
      using h r rr q by (auto simp: handles_ok_def is_singleton_def)
  qed
  moreover have "buffers_ok B (launch b f s)" using i by (simp add: requests_inv_def buffers_ok_def)
  moreover have "history_ok cbs (cur - {r}) (launch b f s)"
    unfolding history_ok_def
  proof (intro ballI impI)
    fix q assume q: "q \<in> returned (launch b f s)" "q \<notin> cur - {r}"
    show "if completed (hdl (launch b f s) q) then ended cbs (history (launch b f s) q) (payload (hdl (launch b f s) q))
        else \<forall>a \<in> chain (launch b f s) q. flying cbs (history (launch b f s) q) (payload (hdl (launch b f s) a)) (the (in_flight (launch b f s) a))"
    proof (cases "q = r")
      case True
      then show ?thesis using handles_okD(5) [OF h rr(1) r] fl by (simp add: ch)
    next
      case False
      have "a \<noteq> b" if "a \<in> chain s q" for a using that nb(2) unfolding chain_def by blast
      then show ?thesis using i q False by (auto simp: requests_inv_def history_ok_def ch)
    qed
  qed
  ultimately show ?thesis by (simp add: requests_inv_def)
qed

text \<open>
  A handler changes the handle of the user it works for; it may complete it.
\<close>

lemma store_returned:
  assumes i: "requests_inv cbs B act cur s" and r: "r \<in> returned s" "r \<in> cur"
    and k: "works_for s r k" "custom_allocated k = custom_allocated (hdl s r)"
    and fin: "completed k \<longrightarrow> ended cbs (history s r) (payload k)" and cur': "cur' = (if completed k then cur - {r} else cur)"
  shows "requests_inv cbs B act cur' (store s r k)"
proof -
  have h: "handles_ok cur s" using i by (simp add: requests_inv_def)
  have nr: "r \<notin> ucx_free s" using owners_okD(3) [OF i] r(1) by blast
  have wr: "works_for s r (hdl s r)" using handles_okD(2) [OF h r(1)] .
  have same: "orig_info k = orig_info (hdl s r)" "info_buffer k = info_buffer (hdl s r)"
    using k(1) wr by (simp_all add: works_for_def)
  have wf: "works_for (store s r k) q l = works_for s q l" for q l using same by (auto simp: works_for_def)
  have ch: "chain (store s r k) q = chain s q" for q using same by (auto simp: chain_def)
  have cr: "chain s r = {}" using handles_okD(5) [OF h r] by simp
  have "r \<in> dom (handle_at s)" unfolding owners_okD(2) [OF i] using r by blast
  then have "dom (handle_at (store s r k)) = dom (handle_at s)" by (auto simp: insert_absorb)
  then have "owners_ok act (store s r k)"
    by (intro owners_okI) (use owners_okD [OF i] in \<open>simp_all only: store_simps(1-5)\<close>)
  moreover have "handles_ok cur' (store s r k)"
    unfolding handles_ok_def store_simps wf ch hdl_store
  proof (intro conjI ballI)
    show "clean (if a = r then k else hdl s a)" if "a \<in> ucx_free s" for a using handles_okD(1) [OF h that] that nr by auto
    show "works_for s q (if q = r then k else hdl s q)" "custom_allocated (if q = r then k else hdl s q) = (q \<in> malloced s)" if "q \<in> returned s" for q
      using handles_okD(2,3) [OF h that] k by auto
    show "\<exists>q. works_for s q (if a = r then k else hdl s a)" if "a \<in> dom (in_flight s)" for a
      using handles_okD(4) [OF h that] k by auto
    fix q assume q: "q \<in> returned s"
    show "if q \<in> cur' then \<not> completed (if q = r then k else hdl s q) \<and> chain s q = {}
        else if completed (if q = r then k else hdl s q) then chain s q = {} else is_singleton (chain s q)"
      using handles_okD(5-7) [OF h q] cr r cur' by (auto split: if_splits)
  qed
  moreover have "buffers_ok B (store s r k)"
    using i same by (subst buffers_frame [of _ s]) (auto simp: requests_inv_def)
  moreover have "history_ok cbs cur' (store s r k)"
    unfolding history_ok_def
  proof (intro ballI impI)
    fix q assume q: "q \<in> returned (store s r k)" "q \<notin> cur'"
    have ne: "a \<noteq> r" if "a \<in> chain s q" "q \<noteq> r" for a
      using that wr unfolding chain_def works_for_def by auto
    show "if completed (hdl (store s r k) q) then ended cbs (history (store s r k) q) (payload (hdl (store s r k) q))
        else \<forall>a \<in> chain (store s r k) q. flying cbs (history (store s r k) q) (payload (hdl (store s r k) a)) (the (in_flight (store s r k) a))"
    proof (cases "q = r")
      case True
      then show ?thesis using fin q(2) r(2) cur' by (simp split: if_splits)
    next
      case False
      have "q \<notin> cur" using q(2) cur' False by (auto split: if_splits)
      then show ?thesis using i q(1) False ne by (auto simp: requests_inv_def history_ok_def ch)
    qed
  qed
  ultimately show ?thesis by (simp add: requests_inv_def)
qed

text \<open>UCX gets an internal handle back.\<close>

lemma release_active:
  assumes i: "requests_inv cbs B act cur s" and a: "a \<in> act" and o': "orig_info h \<noteq> Orig a"
  shows "\<exists>s'. release_internal a h s = Inr s' \<and> requests_inv cbs B (act - {a}) cur s' \<and> returned s' = returned s \<and>
    in_flight s' = in_flight s"
proof -
  let ?h = "hdl s a\<lparr>completed := False, has_comm := False, orig_info := Unset, custom_allocated := False\<rparr>"
  let ?s = "store s a ?h"
  note i' = store_active [OF i a, of ?h]
  note own = i' [unfolded requests_inv_def owners_ok_def]
  have d: "deref s a = Inr (hdl s a)" "deref ?s a = Inr ?h"
    using deref_ok [OF i, of a] deref_ok [OF i', of a] a by simp_all
  have na: "a \<notin> malloced s" "a \<notin> dom (in_flight s)" "a \<notin> returned s"
    using owners_okD(4,5) [OF i] a by blast+
  let ?t = "?s\<lparr>ucx_free := insert a (ucx_free ?s)\<rparr>"
  have hd: "hdl ?t = hdl ?s" by (simp add: hdl_def fun_eq_iff)
  have "release_internal a h s = Inr ?t"
    using o' d na by (simp add: release_internal_def ucp_request_free_def)
  moreover have "owners_ok (act - {a}) ?t"
  proof (rule owners_okI)
    have "dom (handle_at ?t) = dom (handle_at ?s)" by simp
    then show "dom (handle_at ?t) = ucx_free ?t \<union> dom (in_flight ?t) \<union> returned ?t \<union> (act - {a})"
      unfolding owners_okD(2) [OF i'] using a by auto
    show "ucx_free ?t \<inter> (dom (in_flight ?t) \<union> returned ?t \<union> (act - {a})) = {}"
      using owners_okD(3) [OF i] na by auto
    show "(act - {a}) \<inter> (dom (in_flight ?t) \<union> returned ?t) = {}" using owners_okD(4) [OF i] by auto
  qed (use owners_okD(1,5) [OF i] in simp_all)
  moreover have "handles_ok cur ?t"
    by (rule handles_frame [of _ ?s]) (use i' hd in \<open>auto simp: requests_inv_def handles_ok_def clean_def\<close>)
  moreover have "buffers_ok B ?t"
    using i' hd by (subst buffers_frame [of _ ?s]) (auto simp: requests_inv_def)
  moreover have "history_ok cbs cur ?t"
    using i' hd by (subst history_frame [of _ ?s]) (auto simp: requests_inv_def)
  ultimately show ?thesis by (intro exI [of _ ?t]) (simp add: requests_inv_def)
qed

text \<open>UCX completes an operation in flight: the handler starts to work.\<close>

lemma land_ok:
  assumes i: "requests_inv cbs B {} {} s" and a: "in_flight s a \<noteq> None" and w: "works_for s r (hdl s a)"
  shows "requests_inv cbs B (if a = r then {} else {a}) {r} (land a s)"
proof -
  have h: "handles_ok {} s" using i by (simp add: requests_inv_def)
  have rr: "r \<in> returned s" "orig_info (hdl s a) = Orig r" using w by (auto simp: works_for_def)
  have ain: "a \<in> chain s r" using a rr by (simp add: chain_def)
  then have sing: "\<not> completed (hdl s r)" "chain s r = {a}"
    using h rr(1) by (auto simp: handles_ok_def is_singleton_def split: if_splits)
  have aret: "a = r" if "a \<in> returned s" using h that rr by (auto simp: handles_ok_def works_for_def)
  have dom: "dom ((in_flight s)(a := None)) = dom (in_flight s) - {a}" by simp
  have wf: "works_for (land a s) q k = works_for s q k" for q k by (simp add: works_for_def)
  have ch: "chain (land a s) q = chain s q - {a}" for q by (auto simp: chain_def)
  have other: "a \<notin> chain s q" if "q \<noteq> r" for q using that rr by (simp add: chain_def)
  have ad: "a \<in> dom (in_flight s)" using a by blast
  let ?act = "if a = r then {} else {a}"
  have "owners_ok ?act (land a s)"
  proof (rule owners_okI; unfold land_simps dom)
    show "dom (handle_at s) = ucx_free s \<union> (dom (in_flight s) - {a}) \<union> returned s \<union> ?act"
      unfolding owners_okD(2) [OF i] using ad rr(1) by auto
    show "ucx_free s \<inter> (dom (in_flight s) - {a} \<union> returned s \<union> ?act) = {}"
      using owners_okD(3) [OF i] ad by auto
    show "?act \<inter> (dom (in_flight s) - {a} \<union> returned s) = {}" using aret by auto
    show "malloced s \<subseteq> returned s - (dom (in_flight s) - {a})" using owners_okD(5) [OF i] by blast
  qed (rule owners_okD(1) [OF i])
  moreover have "handles_ok {r} (land a s)"
    unfolding handles_ok_def land_simps dom wf ch
  proof (intro conjI ballI)
    show "clean (hdl s x)" if "x \<in> ucx_free s" for x using h that by (simp add: handles_ok_def)
    show "works_for s q (hdl s q)" "custom_allocated (hdl s q) = (q \<in> malloced s)" if "q \<in> returned s" for q
      using h that by (simp_all add: handles_ok_def)
    show "\<exists>q. works_for s q (hdl s x)" if "x \<in> dom (in_flight s) - {a}" for x using h that by (simp add: handles_ok_def)
    fix q assume q: "q \<in> returned s"
    show "if q \<in> {r} then \<not> completed (hdl s q) \<and> chain s q - {a} = {}
        else if completed (hdl s q) then chain s q - {a} = {} else is_singleton (chain s q - {a})"
      using h q sing other [of q] by (auto simp: handles_ok_def)
  qed
  moreover have "buffers_ok B (land a s)" using i by (simp add: requests_inv_def buffers_ok_def)
  moreover have "history_ok cbs {r} (land a s)"
  proof (rule history_others [where r = r])
    show "history_ok cbs {} s" using i by (simp add: requests_inv_def)
    fix q assume q: "q \<in> returned (land a s)" "q \<noteq> r"
    have "chain s q - {a} = chain s q" using other [OF q(2)] by blast
    then show "q \<in> returned s \<and> q \<notin> {} \<and> hdl (land a s) q = hdl s q \<and> history (land a s) q = history s q \<and> chain (land a s) q = chain s q \<and>
        (\<forall>x \<in> chain s q. hdl (land a s) x = hdl s x \<and> in_flight (land a s) x = in_flight s x)"
      using q other [OF q(2)] by (auto simp: ch)
  qed simp
  ultimately show ?thesis by (simp add: requests_inv_def)
qed

text \<open>A handle is filled and returned: in flight, or about to be handled.\<close>

definition add_handle ::
  "nat \<Rightarrow> handle \<Rightarrow> flight option \<Rightarrow> bool \<Rightarrow> buffer_pool \<Rightarrow> transfer \<times> wire list \<Rightarrow> requests \<Rightarrow> requests" where
  "add_handle a h f mal p hist s =
     s\<lparr>handle_at := (handle_at s)(a \<mapsto> h), in_flight := (case f of None \<Rightarrow> in_flight s | Some g \<Rightarrow> (in_flight s)(a \<mapsto> g)),
       malloced := (if mal then insert a (malloced s) else malloced s), returned := insert a (returned s), pool := p,
       history := (history s)(a := hist)\<rparr>"

lemma add_handle_ok:
  assumes i: "requests_inv cbs B {a} {} s" and p: "buffer_cache (pool s) = info_buffer h # buffer_cache p"
    and h: "orig_info h = Orig a" "has_comm h" "payload h \<noteq> NoInfo" "\<not> completed h" "custom_allocated h = mal"
    and f: "mal \<longrightarrow> f = None" and fl: "\<forall>g. f = Some g \<longrightarrow> flying cbs hist (payload h) g"
  shows "requests_inv cbs B {} (if f = None then {a} else {}) (add_handle a h f mal p hist s)"
proof -
  let ?t = "add_handle a h f mal p hist s"
  have ok: "handles_ok {} s" using i by (simp add: requests_inv_def)
  have na: "a \<notin> ucx_free s" "a \<notin> dom (in_flight s)" "a \<notin> returned s" "a \<notin> malloced s"
    using owners_okD(3-5) [OF i] by blast+
  have t: "ucx_free ?t = ucx_free s" "returned ?t = insert a (returned s)" "pool ?t = p"
    "dom (in_flight ?t) = (if f = None then dom (in_flight s) else insert a (dom (in_flight s)))"
    "dom (handle_at ?t) = insert a (dom (handle_at s))" "malloced ?t = (if mal then insert a (malloced s) else malloced s)"
    by (auto simp: add_handle_def split: option.splits if_splits)
  have hd: "hdl ?t x = (if x = a then h else hdl s x)" for x by (simp add: add_handle_def hdl_def)
  have fl': "in_flight ?t x = (if x = a \<and> f \<noteq> None then f else in_flight s x)" for x
    by (simp add: add_handle_def split: option.splits)
  have wf: "works_for ?t q k = works_for s q k" if "q \<noteq> a" for q k using that by (simp add: works_for_def t hd)
  have wa: "works_for ?t a h" using h by (simp add: works_for_def t hd)
  have orig: "orig_info (hdl s x) \<noteq> Orig a" if x: "x \<in> dom (in_flight s)" for x
  proof -
    obtain q where "works_for s q (hdl s x)" using handles_okD(4) [OF ok x] by blast
    then show ?thesis using na(3) by (auto simp: works_for_def)
  qed
  have ch: "chain ?t q = (if q = a then (if f = None then {} else {a}) else chain s q)" for q
    using orig h(1) na(2) by (auto simp: chain_def fl' hd split: if_splits)
  have "owners_ok {} ?t"
  proof (rule owners_okI; unfold t)
    show "insert a (dom (handle_at s)) = ucx_free s \<union> (if f = None then dom (in_flight s) else insert a (dom (in_flight s))) \<union> insert a (returned s) \<union> {}"
      unfolding owners_okD(2) [OF i] by auto
    show "ucx_free s \<inter> ((if f = None then dom (in_flight s) else insert a (dom (in_flight s))) \<union> insert a (returned s) \<union> {}) = {}"
      using owners_okD(3) [OF i] na(1) by auto
    show "(if mal then insert a (malloced s) else malloced s) \<subseteq> insert a (returned s) - (if f = None then dom (in_flight s) else insert a (dom (in_flight s)))"
    proof -
      have "malloced s \<subseteq> returned s - dom (in_flight s)" by (rule owners_okD(5) [OF i])
      then show ?thesis using na f by (cases "f = None") auto
    qed
  qed (use owners_okD(1) [OF i] in simp_all)
  moreover have "handles_ok (if f = None then {a} else {}) ?t"
    unfolding handles_ok_def
  proof (intro conjI ballI)
    show "clean (hdl ?t x)" if "x \<in> ucx_free ?t" for x using ok that na(1) by (auto simp: handles_ok_def t hd)
    show "works_for ?t q (hdl ?t q)" "custom_allocated (hdl ?t q) = (q \<in> malloced ?t)" if "q \<in> returned ?t" for q
      using ok that wa wf h(5) na(4) by (cases "q = a"; auto simp: handles_ok_def t hd)+
    show "\<exists>q. works_for ?t q (hdl ?t x)" if x: "x \<in> dom (in_flight ?t)" for x
    proof (cases "x = a")
      case True
      then show ?thesis using wa hd by auto
    next
      case False
      then have "x \<in> dom (in_flight s)" using x t(4) by (auto split: if_splits)
      then obtain q where "works_for s q (hdl s x)" using handles_okD(4) [OF ok] by blast
      moreover from this have "q \<noteq> a" using na(3) by (auto simp: works_for_def)
      ultimately show ?thesis using wf False by (auto simp: hd)
    qed
    fix q assume q: "q \<in> returned ?t"
    show "if q \<in> (if f = None then {a} else {}) then \<not> completed (hdl ?t q) \<and> chain ?t q = {}
        else if completed (hdl ?t q) then chain ?t q = {} else is_singleton (chain ?t q)"
      using ok q h(4) by (cases "q = a") (auto simp: handles_ok_def t hd ch)
  qed
  moreover have "buffers_ok B ?t"
  proof -
    have "(\<Sum>r \<in> returned s. {#info_buffer (hdl ?t r)#}) = (\<Sum>r \<in> returned s. {#info_buffer (hdl s r)#})"
      using na(3) by (intro sum.cong) (auto simp: hd)
    then show ?thesis
      using i na(3) owners_okD(1) [OF i] p by (simp add: requests_inv_def buffers_ok_def t hd)
  qed
  moreover have "history_ok cbs (if f = None then {a} else {}) ?t"
  proof (rule history_others [where r = a])
    show "history_ok cbs {} s" using i by (simp add: requests_inv_def)
    fix q assume q: "q \<in> returned ?t" "q \<noteq> a"
    have "x \<noteq> a" if "x \<in> chain s q" for x using that na(2) unfolding chain_def by blast
    moreover have "history ?t q = history s q" using q(2) by (simp add: add_handle_def)
    ultimately show "q \<in> returned s \<and> q \<notin> {} \<and> hdl ?t q = hdl s q \<and> history ?t q = history s q \<and> chain ?t q = chain s q \<and>
        (\<forall>x \<in> chain s q. hdl ?t x = hdl s x \<and> in_flight ?t x = in_flight s x)"
      using q t(2) by (auto simp: ch hd fl')
  next
    have "history ?t a = hist" by (simp add: add_handle_def)
    then show "if completed (hdl ?t a) then ended cbs (history ?t a) (payload (hdl ?t a))
        else \<forall>x \<in> chain ?t a. flying cbs (history ?t a) (payload (hdl ?t x)) (the (in_flight ?t x))"
      if "a \<notin> (if f = None then {a} else {})"
      using that fl h(4) by (auto simp: ch hd fl' split: if_splits)
  qed
  ultimately show ?thesis by (simp add: requests_inv_def)
qed

text \<open>A completed handle of the user goes back, and its buffer to the queue.\<close>

lemma handle_release_ok:
  assumes i: "requests_inv cbs B {} {} s" and a: "a \<in> returned s" "completed (hdl s a)"
  shows "\<exists>s'. handle_release a s = Inr s' \<and> requests_inv cbs B {} {} s'"
proof -
  let ?h = "hdl s a"
  let ?k = "?h\<lparr>completed := False, has_comm := False, orig_info := Unset, info_buffer := 0\<rparr>"
  let ?s1 = "(store s a ?k)\<lparr>pool := (pool s)\<lparr>buffer_cache := buffer_cache (pool s) @ [info_buffer ?h]\<rparr>, returned := returned s - {a}\<rparr>"
  have ok: "handles_ok {} s" using i by (simp add: requests_inv_def)
  have wa: "works_for s a ?h" and cm: "custom_allocated ?h = (a \<in> malloced s)" and ca: "chain s a = {}"
    using ok a by (auto simp: handles_ok_def)
  have nf: "a \<notin> dom (in_flight s)" using ca wa unfolding chain_def works_for_def by blast
  have nu: "a \<notin> ucx_free s" using owners_okD(3) [OF i] a(1) by blast
  define s' where "s' = (if a \<in> malloced s
     then ?s1\<lparr>handle_at := (handle_at ?s1)(a := None), malloced := malloced s - {a}\<rparr>
     else ?s1\<lparr>ucx_free := insert a (ucx_free s)\<rparr>)"
  have d: "deref s a = Inr ?h" using deref_ok [OF i, of a] a by simp
  have "deref ?s1 a = Inr ?k" using nu by (simp add: deref_def)
  then have run: "handle_release a s = Inr s'"
    unfolding handle_release_def d ebind.simps Let_def cm free_handle_def ucp_request_free_def s'_def by simp
  have t: "ucx_free s' = (if a \<in> malloced s then ucx_free s else insert a (ucx_free s))" "returned s' = returned s - {a}"
    "in_flight s' = in_flight s" "malloced s' = malloced s - {a}" "history s' = history s"
    "buffer_cache (pool s') = buffer_cache (pool s) @ [info_buffer ?h]"
    "dom (handle_at s') = (if a \<in> malloced s then dom (handle_at s) - {a} else insert a (dom (handle_at s)))"
    by (auto simp: s'_def store_def)
  have hd: "hdl s' x = hdl s x" if "x \<noteq> a" for x using that by (simp add: s'_def hdl_def store_def)
  have hda: "a \<notin> malloced s \<Longrightarrow> hdl s' a = ?k" by (simp add: s'_def hdl_def store_def)
  have no: "q \<noteq> a" if "works_for s q (hdl s x)" "x \<in> dom (in_flight s)" for q x
    using that ca unfolding chain_def works_for_def by blast
  have wf: "works_for s' q k = works_for s q k" if "q \<noteq> a" for q k using that by (simp add: works_for_def t hd)
  have "\<forall>x \<in> dom (in_flight s). hdl s' x = hdl s x"
  proof
    fix x assume "x \<in> dom (in_flight s)"
    then have "x \<noteq> a" using nf by blast
    then show "hdl s' x = hdl s x" by (rule hd)
  qed
  then have ch: "chain s' q = chain s q" for q by (intro chain_frame t(3))
  have "owners_ok {} s'"
  proof (rule owners_okI; unfold t)
    show "(if a \<in> malloced s then dom (handle_at s) - {a} else insert a (dom (handle_at s))) =
        (if a \<in> malloced s then ucx_free s else insert a (ucx_free s)) \<union> dom (in_flight s) \<union> (returned s - {a}) \<union> {}"
      unfolding owners_okD(2) [OF i] using a(1) nf nu by auto
    show "(if a \<in> malloced s then ucx_free s else insert a (ucx_free s)) \<inter> (dom (in_flight s) \<union> (returned s - {a}) \<union> {}) = {}"
      using owners_okD(3) [OF i] nf by auto
    show "malloced s - {a} \<subseteq> returned s - {a} - dom (in_flight s)" using owners_okD(5) [OF i] by blast
  qed (use owners_okD(1) [OF i] in simp_all)
  moreover have "handles_ok {} s'"
    unfolding handles_ok_def t ch
  proof (intro conjI ballI)
    show "clean (hdl s' x)" if "x \<in> (if a \<in> malloced s then ucx_free s else insert a (ucx_free s))" for x
      using ok that nu cm hda by (cases "x = a") (auto simp: handles_ok_def hd clean_def split: if_splits)
    show "works_for s' q (hdl s' q)" "custom_allocated (hdl s' q) = (q \<in> malloced s - {a})" if "q \<in> returned s - {a}" for q
      using ok that by (auto simp: handles_ok_def hd wf)
    show "\<exists>q. works_for s' q (hdl s' x)" if x: "x \<in> dom (in_flight s)" for x
    proof -
      obtain q where q: "works_for s q (hdl s x)" using handles_okD(4) [OF ok x] by blast
      have "x \<noteq> a" using x nf by blast
      then show ?thesis using q no [OF q x] wf hd by auto
    qed
    fix q assume "q \<in> returned s - {a}"
    then show "if q \<in> {} then \<not> completed (hdl s' q) \<and> chain s q = {}
        else if completed (hdl s' q) then chain s q = {} else is_singleton (chain s q)"
      using ok by (auto simp: handles_ok_def hd)
  qed
  moreover have "buffers_ok B s'"
  proof -
    have e: "(\<Sum>r \<in> returned s - {a}. {#info_buffer (hdl s' r)#}) = (\<Sum>r \<in> returned s - {a}. {#info_buffer (hdl s r)#})"
      by (intro sum.cong) (auto simp: hd)
    have "(\<Sum>r \<in> returned s. {#info_buffer (hdl s r)#}) = {#info_buffer ?h#} + (\<Sum>r \<in> returned s - {a}. {#info_buffer (hdl s r)#})"
      by (rule sum.remove [OF owners_okD(1) [OF i] a(1)])
    then show ?thesis using i by (simp add: requests_inv_def buffers_ok_def t e)
  qed
  moreover have "history_ok cbs {} s'"
  proof (rule history_others [where r = a])
    show "history_ok cbs {} s" using i by (simp add: requests_inv_def)
    fix q assume q: "q \<in> returned s'" "q \<noteq> a"
    have "x \<noteq> a" if "x \<in> chain s q" for x using that nf unfolding chain_def by blast
    then show "q \<in> returned s \<and> q \<notin> {} \<and> hdl s' q = hdl s q \<and> history s' q = history s q \<and> chain s' q = chain s q \<and>
        (\<forall>x \<in> chain s q. hdl s' x = hdl s x \<and> in_flight s' x = in_flight s x)"
      using q by (auto simp: ch hd t)
  qed (use t(2) in simp)
  ultimately show ?thesis using run by (simp add: requests_inv_def)
qed

end
