(* ===== verification/Request_Safety.thy ===== *)
theory Request_Safety
  imports Request_Invariant
begin

text \<open>
  Every handler, every operation and every event keeps the invariant of the request handles
  and uses no bad pointer.
\<close>

section \<open>The handlers keep the invariant\<close>

text \<open>\<open>safe m P\<close>: no bad pointer is used, and a result satisfies \<open>P\<close>.\<close>

definition safe :: "'a res \<Rightarrow> ('a \<Rightarrow> bool) \<Rightarrow> bool" where
  "safe m P \<longleftrightarrow> m \<noteq> Inl BadPointer \<and> (\<forall>x. m = Inr x \<longrightarrow> P x)"

lemma safe_Inr [simp]: "safe (Inr x) P = P x"
  by (simp add: safe_def)

lemma safe_Inl [simp]: "safe (Inl e) P \<longleftrightarrow> e \<noteq> BadPointer"
  by (simp add: safe_def)

lemma safe_bind: "safe m Q \<Longrightarrow> (\<And>x. m = Inr x \<Longrightarrow> Q x \<Longrightarrow> safe (f x) P) \<Longrightarrow> safe (ebind m f) P"
  by (cases m) (auto simp: safe_def)

lemma safe_mono: "safe m P \<Longrightarrow> (\<And>x. P x \<Longrightarrow> Q x) \<Longrightarrow> safe m Q"
  by (auto simp: safe_def)

lemma safe_read [intro!]: "safe (read_mem m a n) (\<lambda>_. True)"
  by (simp add: read_mem_def safe_def)

lemma safe_write [intro!]: "safe (write_mem m a bs) (\<lambda>_. True)"
  by (simp add: write_mem_def safe_def)

lemma safe_send_handler: "safe (send_handler cbs info replies) (\<lambda>_. True)"
proof (induction replies arbitrary: info)
  case Nil
  then show ?case by (subst send_handler.simps) (auto simp: Let_def intro!: safe_bind [OF safe_read])
next
  case (Cons reply replies)
  show ?case
    by (subst send_handler.simps)
      (auto simp: Let_def intro!: safe_bind [OF safe_read] safe_bind [OF Cons.IH] split: bool.split)
qed

lemma safe_recv_handler: "safe (recv_handler cbs info) (\<lambda>_. True)"
  unfolding recv_handler_def Let_def guard_def
  by (auto intro!: safe_bind [where Q = "\<lambda>_. True"] split: option.split)

lemma safe_batch_arrives: "safe (batch_arrives info n bs) (\<lambda>_. True)"
  unfolding batch_arrives_def by (auto intro!: safe_bind [where Q = "\<lambda>_. True"])

lemma complete_orig_ok:
  assumes i: "requests_inv cbs B act cur s" and r: "r \<in> cur" and w: "works_for s r h"
    and p: "ended cbs (history s r) p"
  shows "safe (complete_orig h p s) (\<lambda>s'. requests_inv cbs B act (cur - {r}) s' \<and> returned s' = returned s)"
proof -
  let ?k = "hdl s r\<lparr>completed := True, payload := p\<rparr>"
  have rr: "r \<in> returned s" "orig_info h = Orig r" using w by (auto simp: works_for_def)
  have "works_for s r (hdl s r)" using i rr(1) by (simp add: requests_inv_def handles_ok_def)
  moreover have "p \<noteq> NoInfo" using p by (cases "history s r"; cases "fst (history s r)") auto
  ultimately have "works_for s r ?k" by (simp add: works_for_def)
  then have "requests_inv cbs B act (cur - {r}) (store s r ?k)"
    using r p by (intro store_returned [OF i rr(1)]) simp_all
  moreover have "deref s r = Inr (hdl s r)" using deref_ok [OF i, of r] rr(1) by simp
  ultimately show ?thesis using rr by (simp add: complete_orig_def)
qed

lemma finish_handler:
  assumes i: "requests_inv cbs B act cur s" and a: "a \<in> act \<or> a = r" and r: "r \<in> returned s" and o': "orig_info h = Orig r"
  shows "safe (release_internal a h s) (\<lambda>s'. requests_inv cbs B (act - {a}) cur s' \<and> returned s' = returned s)"
proof (cases "a = r")
  case True
  then have "a \<notin> act" using owners_okD(4) [OF i] r by blast
  then show ?thesis using i True o' by (simp add: release_internal_def)
next
  case False
  then obtain s' where "release_internal a h s = Inr s'" "requests_inv cbs B (act - {a}) cur s'" "returned s' = returned s"
    using release_active [OF i, of a h] a o' by auto
  then show ?thesis by simp
qed

lemma works_for_request:
  assumes i: "requests_inv cbs B act cur s" and q: "ucx_request choice s = Inr (b, s1)" and w: "works_for s r h"
  shows "works_for s1 r h"
proof -
  have "r \<noteq> b" using w ucx_request_ok(4) [OF i q] by (auto simp: works_for_def)
  from ucx_request_ok(7) [OF i q this] show ?thesis using w ucx_request_ok(9) [OF i q] by (simp add: works_for_def)
qed

text \<open>The request of the next operation gets the information of the handle.\<close>

lemma copy_handle:
  assumes i: "requests_inv cbs B act cur s" and q: "ucx_request choice s = Inr (b, s1)" and w: "works_for s r h" and r: "r \<in> cur"
    and k: "works_for s r k" and fl: "flying cbs (history s r) (payload k) f"
  shows "requests_inv cbs B act (cur - {r}) (launch b f (store s1 b k))"
proof -
  note u = ucx_request_ok [OF i q]
  have i2: "requests_inv cbs B (insert b act) cur (store s1 b k)" by (rule store_active [OF u(1)]) simp
  have "r \<noteq> b" using w u(4) by (auto simp: works_for_def)
  then have "works_for (store s1 b k) r (hdl (store s1 b k) b)"
    using works_for_request [OF i q k] by (simp add: works_for_def)
  from launch_ok [OF i2 _ r this, of f] show ?thesis using u(2,12) fl by simp
qed

lemma safe_ucx_request: "safe (ucx_request choice s) (\<lambda>_. True)"
  by (auto simp: ucx_request_def split: prod.split)

lemma due_send:
  assumes "due cbs hist (SendInfo info)"
  obtains i0 ws where "hist = (SendTransfer i0, ws)" "sent_so_far cbs i0 ws (SendPending info)"
proof -
  obtain tr ws where h: "hist = (tr, ws)" by (cases hist)
  from assms show ?thesis unfolding h by (cases tr) (use that h in auto)
qed

lemma send_callback_ok:
  assumes i: "requests_inv cbs B act cur s" and r: "r \<in> cur" and a: "a \<in> act \<or> a = r"
    and w: "works_for s r (hdl s a)" and p: "payload (hdl s a) = SendInfo info" and due: "due cbs (history s r) (SendInfo info)"
  shows "safe (send_callback cbs replies choice a s)
    (\<lambda>(ms, s'). requests_inv cbs B (act - {a}) (cur - {r}) s' \<and> returned s' = returned s)"
proof -
  let ?h = "hdl s a" and ?Q = "\<lambda>s2. requests_inv cbs B act (cur - {r}) s2 \<and> returned s2 = returned s"
  obtain i0 ws where hist: "history s r = (SendTransfer i0, ws)" and so: "sent_so_far cbs i0 ws (SendPending info)"
    using due by (rule due_send)
  have rr: "r \<in> returned s" "orig_info ?h = Orig r" "has_comm ?h" using w by (auto simp: works_for_def)
  have d: "deref s a = Inr ?h" using deref_ok [OF i, of a] a rr(1) by auto
  have fin: "safe (ebind (release_internal a ?h s2) (\<lambda>s3. Inr (ms, s3)))
      (\<lambda>(ms, s'). requests_inv cbs B (act - {a}) (cur - {r}) s' \<and> returned s' = returned s)" if "?Q s2" for s2 and ms :: "wire list"
    by (rule safe_bind [OF finish_handler [where r = r]]) (use that a rr in auto)
  note i' = log_ok [OF i r rr(2)]
  have w': "works_for (log_messages ?h ms s) r ?h" for ms using w by (simp add: log_works)
  have hist': "history (log_messages ?h ms s) r = (SendTransfer i0, ws @ ms)" for ms by (simp add: log_history [OF rr(2)] hist)
  have comp: "safe (complete_orig ?h (payload ?h) (log_messages ?h ms s)) ?Q" if "send_handler cbs info replies = Inr (ms, Sent)" for ms
    using complete_orig_ok [OF i' r w', of ms "payload ?h"] sent_step [OF so that] by (simp add: hist' p)
  have pend: "safe (ebind (ucx_request choice (log_messages ?h ms s)) (\<lambda>(b, s1). Inr (launch b (BatchFlight 0)
      (store s1 b (?h\<lparr>payload := SendInfo info', custom_allocated := False\<rparr>))))) ?Q"
    if "send_handler cbs info replies = Inr (ms, SendPending info')" for info' ms
  proof (rule safe_bind [OF safe_ucx_request])
    fix x assume x: "ucx_request choice (log_messages ?h ms s) = Inr x"
    obtain b s1 where bs: "x = (b, s1)" by (cases x)
    have "works_for (log_messages ?h ms s) r (?h\<lparr>payload := SendInfo info', custom_allocated := False\<rparr>)"
      using w by (simp add: works_for_def)
    from copy_handle [OF i' x [unfolded bs] w' r this, of "BatchFlight 0"]
    show "safe (case x of (b, s1) \<Rightarrow> Inr (launch b (BatchFlight 0)
        (store s1 b (?h\<lparr>payload := SendInfo info', custom_allocated := False\<rparr>)))) ?Q"
      using ucx_request_ok(9) [OF i' x [unfolded bs]] sent_step [OF so that] by (simp add: bs hist')
  qed
  show ?thesis
    unfolding send_callback_def d ebind.simps p request_info.case
    using rr(3) comp [unfolded p]
    by (auto intro!: safe_bind [OF safe_send_handler] safe_bind [OF comp [unfolded p]] safe_bind [OF pend] fin
        split: send_state.split)
qed

text \<open>A handler changes the information of its own handle, internal or not.\<close>

lemma store_own:
  assumes i: "requests_inv cbs B act cur s" and a: "a \<in> act \<or> a = r" and r: "r \<in> cur" and w: "works_for s r (hdl s a)"
    and p: "p \<noteq> NoInfo"
  shows "requests_inv cbs B act cur (store s a (hdl s a\<lparr>payload := p\<rparr>))"
    and "works_for (store s a (hdl s a\<lparr>payload := p\<rparr>)) r = works_for s r"
proof -
  have rr: "r \<in> returned s" using w by (simp add: works_for_def)
  show "works_for (store s a (hdl s a\<lparr>payload := p\<rparr>)) r = works_for s r" by (auto simp: works_for_def fun_eq_iff)
  show "requests_inv cbs B act cur (store s a (hdl s a\<lparr>payload := p\<rparr>))"
  proof (cases "a = r")
    case True
    have "\<not> completed (hdl s r)" using i r rr by (auto simp: requests_inv_def handles_ok_def)
    then show ?thesis
      unfolding True using w p True by (intro store_returned [OF i rr r]) (simp_all add: works_for_def)
  next
    case False
    then show ?thesis using a by (intro store_active [OF i]) simp
  qed
qed

lemma safe_early:
  assumes i: "requests_inv cbs B act cur s" and b: "b \<in> act" and c: "orig_info (hdl s b) = Unset"
  shows "early_callback b s = Inr (store s b (hdl s b\<lparr>orig_info := Called\<rparr>))"
  using deref_ok [OF i, of b] b c by (simp add: early_callback_def)

text \<open>
  A batch that arrives within the call is noted and leaves its mark in the new handle; then
  the handler is due, otherwise the receive is in flight.
\<close>

lemma due_recv:
  assumes "due cbs hist (RecvInfo info)"
  obtains buf es source tag ws where "hist = (RecvTransfer buf es source tag, ws)"
    "\<And>st. recv_handler cbs info = Inr st \<Longrightarrow> received_so_far cbs (initial_recv cbs buf es source tag) ws st"
proof -
  obtain tr ws where h: "hist = (tr, ws)" by (cases hist)
  from assms show ?thesis unfolding h by (cases tr) (use that h in auto)
qed

lemma arrival_ok:
  assumes i: "requests_inv cbs B act cur s" and b: "b \<in> act" and c: "clean (hdl s b)" and r: "r \<in> cur" "orig_info h = Orig r"
    and fl: "flying cbs (history s r) (RecvInfo info) (BatchFlight n)"
  shows "safe (case arrived of None \<Rightarrow> Inr (info, s)
      | Some bs \<Rightarrow> ebind (batch_arrives info n bs) (\<lambda>info'. ebind (early_callback b s) (\<lambda>s2. Inr (info', log_messages h [Batch bs] s2))))
    (\<lambda>(info2, s2). requests_inv cbs B act cur s2 \<and> (\<forall>x. x \<noteq> b \<longrightarrow> hdl s2 x = hdl s x) \<and> returned s2 = returned s \<and>
       (if orig_info (hdl s2 b) \<noteq> Unset then due cbs (history s2 r) (RecvInfo info2)
        else flying cbs (history s2 r) (RecvInfo info2) (BatchFlight n)))"
proof (cases arrived)
  case None
  then show ?thesis using i c fl by (simp add: clean_def)
next
  case (Some bs)
  obtain tr ws where hist: "history s r = (tr, ws)" by (cases "history s r")
  then obtain buf es source tag where tr: "tr = RecvTransfer buf es source tag"
    and so: "received_so_far cbs (initial_recv cbs buf es source tag) ws (RecvPending info n)"
    using fl by (cases tr) auto
  let ?s2 = "store s b (hdl s b\<lparr>orig_info := Called\<rparr>)"
  have early: "early_callback b s = Inr ?s2" using c by (intro safe_early [OF i b]) (simp add: clean_def)
  have i2: "requests_inv cbs B act cur (log_messages h [Batch bs] ?s2)" by (rule log_ok [OF store_active [OF i b] r])
  have "due cbs (history (log_messages h [Batch bs] ?s2) r) (RecvInfo info')" if "batch_arrives info n bs = Inr info'" for info'
    using received_step [OF so that] by (simp add: log_history [OF r(2)] hist tr)
  then show ?thesis using i2 by (auto simp: Some early intro!: safe_bind [OF safe_batch_arrives])
qed

lemma fill_request_ok:
  assumes i: "requests_inv cbs B act cur s" and r: "r \<in> cur" and a: "a \<in> act \<or> a = r" and w: "works_for s r (hdl s a)"
    and fl: "flying cbs (history s r) (RecvInfo info) (BatchFlight n)"
  shows "safe (fill_request a (hdl s a) info n answer s) (\<lambda>(b, called, s3).
    requests_inv cbs B (insert b act) cur s3 \<and> b \<notin> act \<and> returned s3 = returned s \<and> works_for s3 r (hdl s3 b) \<and>
    (\<exists>info'. payload (hdl s3 b) = RecvInfo info' \<and>
       (if called then due cbs (history s3 r) (RecvInfo info') else flying cbs (history s3 r) (RecvInfo info') (BatchFlight n))))"
    (is "safe _ ?P")
proof -
  let ?h = "hdl s a"
  obtain choice arrived where ans: "answer = (choice, arrived)" by (cases answer)
  have rr: "r \<in> returned s" "orig_info ?h = Orig r" using w by (auto simp: works_for_def)
  have "safe (ebind (deref s2 b) (\<lambda>hb. Inr (b, orig_info hb \<noteq> Unset,
      store (store s2 a (?h\<lparr>payload := RecvInfo info2\<rparr>)) b (?h\<lparr>payload := RecvInfo info2\<rparr>)))) ?P"
    if q: "ucx_request choice s = Inr (b, s1)"
      and s2: "requests_inv cbs B (insert b act) cur s2" "\<forall>x. x \<noteq> b \<longrightarrow> hdl s2 x = hdl s1 x" "returned s2 = returned s1"
      and hist: "if orig_info (hdl s2 b) \<noteq> Unset then due cbs (history s2 r) (RecvInfo info2)
        else flying cbs (history s2 r) (RecvInfo info2) (BatchFlight n)"
    for b s1 s2 info2
  proof -
    note u = ucx_request_ok [OF i q]
    have ab: "a \<noteq> b" "r \<noteq> b" using a u(2,4) rr(1) by auto
    have ha: "hdl s2 a = ?h" and hr: "hdl s2 r = hdl s r" using s2(2) u(7) ab by simp_all
    have ret: "returned s2 = returned s" using s2(3) u(9) by simp
    have w2: "works_for s2 r k = works_for s r k" for k using hr ret by (simp add: works_for_def)
    have a': "a \<in> insert b act \<or> a = r" using a by blast
    have "RecvInfo info2 \<noteq> NoInfo" by simp
    note o' = store_own [OF s2(1) a' r _ this, unfolded ha w2, OF w]
    define k where "k = ?h\<lparr>payload := RecvInfo info2\<rparr>"
    let ?s3 = "store (store s2 a k) b k"
    have "requests_inv cbs B (insert b act) cur ?s3"
      using store_active [OF o'(1), of b k] by (simp add: k_def)
    moreover have "works_for ?s3 r (hdl ?s3 b)"
    proof -
      have h: "orig_info k = Orig r" "has_comm k" "payload k \<noteq> NoInfo" "info_buffer k = info_buffer (hdl s r)"
        using w by (simp_all add: works_for_def k_def)
      have "info_buffer (hdl s2 r) = info_buffer k" using h(4) hr by simp
      then show ?thesis using h(1-3) rr ret by (simp add: works_for_def)
    qed
    moreover have "deref s2 b = Inr (hdl s2 b)" using deref_ok [OF s2(1), of b] by simp
    moreover have "payload (hdl ?s3 b) = RecvInfo info2" by (simp add: k_def)
    moreover have "if orig_info (hdl s2 b) \<noteq> Unset then due cbs (history ?s3 r) (RecvInfo info2)
        else flying cbs (history ?s3 r) (RecvInfo info2) (BatchFlight n)" using hist by simp
    ultimately show ?thesis using u(2) ret unfolding k_def [symmetric] by (simp del: hdl_store split del: if_split)
  qed
  note last = this
  show ?thesis
    unfolding fill_request_def ans prod.case Let_def
  proof (rule safe_bind [OF safe_ucx_request])
    fix x assume q: "ucx_request choice s = Inr x"
    obtain b s1 where x: "x = (b, s1)" by (cases x)
    note u = ucx_request_ok [OF i q [unfolded x]]
    have fl1: "flying cbs (history s1 r) (RecvInfo info) (BatchFlight n)" using fl u(12) by simp
    show "safe (case x of (b, s1) \<Rightarrow>
      ebind (case arrived of None \<Rightarrow> Inr (info, s1)
             | Some bs \<Rightarrow> ebind (batch_arrives info n bs) (\<lambda>info'. ebind (early_callback b s1) (\<lambda>s2. Inr (info', log_messages ?h [Batch bs] s2)))) (\<lambda>(info2, s2).
      ebind (deref s2 b) (\<lambda>hb. Inr (b, orig_info hb \<noteq> Unset,
        store (store s2 a (?h\<lparr>payload := RecvInfo info2\<rparr>)) b (?h\<lparr>payload := RecvInfo info2\<rparr>))))) ?P"
      unfolding x prod.case
    proof (rule safe_bind [OF arrival_ok [OF u(1) insertI1 u(6) r rr(2) fl1]])
      fix y assume y: "case y of (info2, s2) \<Rightarrow> requests_inv cbs B (insert b act) cur s2 \<and> (\<forall>x. x \<noteq> b \<longrightarrow> hdl s2 x = hdl s1 x) \<and>
        returned s2 = returned s1 \<and> (if orig_info (hdl s2 b) \<noteq> Unset then due cbs (history s2 r) (RecvInfo info2)
        else flying cbs (history s2 r) (RecvInfo info2) (BatchFlight n))"
      obtain info2 s2 where e: "y = (info2, s2)" by (cases y)
      show "safe (case y of (info2, s2) \<Rightarrow> ebind (deref s2 b) (\<lambda>hb. Inr (b, orig_info hb \<noteq> Unset,
        store (store s2 a (?h\<lparr>payload := RecvInfo info2\<rparr>)) b (?h\<lparr>payload := RecvInfo info2\<rparr>)))) ?P"
        using last [OF q [unfolded x], of s2 info2] y unfolding e prod.case by blast
    qed
  qed
qed

text \<open>One call of the handler, given that the call it makes itself keeps the invariant.\<close>

lemma recv_callback_step:
  assumes i: "requests_inv cbs B act cur s" and r: "r \<in> cur" and a: "a \<in> act \<or> a = r"
    and w: "works_for s r (hdl s a)" and p: "payload (hdl s a) = RecvInfo info" and due: "due cbs (history s r) (RecvInfo info)"
    and rec: "\<And>b s3 info'. answers \<noteq> [] \<Longrightarrow> requests_inv cbs B (insert b act) cur s3 \<Longrightarrow> b \<notin> act \<Longrightarrow> returned s3 = returned s \<Longrightarrow>
      works_for s3 r (hdl s3 b) \<Longrightarrow> payload (hdl s3 b) = RecvInfo info' \<Longrightarrow> due cbs (history s3 r) (RecvInfo info') \<Longrightarrow>
      safe (recv_callback cbs (tl answers) b s3) (\<lambda>s'. requests_inv cbs B (insert b act - {b}) (cur - {r}) s' \<and> returned s' = returned s3)"
  shows "safe (recv_callback cbs answers a s) (\<lambda>s'. requests_inv cbs B (act - {a}) (cur - {r}) s' \<and> returned s' = returned s)"
proof -
  let ?h = "hdl s a" and ?Q = "\<lambda>s2. requests_inv cbs B act (cur - {r}) s2 \<and> returned s2 = returned s"
  obtain ubuf es source tag ws where hist: "history s r = (RecvTransfer ubuf es source tag, ws)"
    and so: "\<And>st. recv_handler cbs info = Inr st \<Longrightarrow> received_so_far cbs (initial_recv cbs ubuf es source tag) ws st"
    using due by (rule due_recv) blast
  have rr: "r \<in> returned s" "orig_info ?h = Orig r" "has_comm ?h" using w by (auto simp: works_for_def)
  have d: "deref s a = Inr ?h" using deref_ok [OF i, of a] a rr(1) by auto
  have fin: "safe (release_internal a ?h s2) (\<lambda>s'. requests_inv cbs B (act - {a}) (cur - {r}) s' \<and> returned s' = returned s)" if "?Q s2" for s2
    by (rule safe_mono [OF finish_handler [where r = r]]) (use that a rr in auto)
  have rcv: "safe (complete_orig ?h (RecvInfo (info\<lparr>r_buffer := buf\<rparr>)) s) ?Q" if "recv_handler cbs info = Inr (Received buf)" for buf
    using so [OF that] by (intro complete_orig_ok [OF i r w]) (simp add: hist)
  have pend: "safe (ebind (fill_request a ?h info' n answer s) (\<lambda>(b, called, s3).
      if called then recv_callback cbs rest b s3 else Inr (launch b (BatchFlight n) s3))) ?Q"
    if st: "recv_handler cbs info = Inr (RecvPending info' n)" and ans: "answers = answer # rest" for info' n answer rest
  proof -
    have fl: "flying cbs (history s r) (RecvInfo info') (BatchFlight n)" using so [OF st] by (simp add: hist)
    show ?thesis
    proof (rule safe_bind [OF fill_request_ok [OF i r a w fl]])
      fix x :: "nat \<times> bool \<times> requests"
      assume x: "case x of (b, called, s3) \<Rightarrow> requests_inv cbs B (insert b act) cur s3 \<and> b \<notin> act \<and> returned s3 = returned s \<and>
        works_for s3 r (hdl s3 b) \<and> (\<exists>info'. payload (hdl s3 b) = RecvInfo info' \<and>
        (if called then due cbs (history s3 r) (RecvInfo info') else flying cbs (history s3 r) (RecvInfo info') (BatchFlight n)))"
      obtain b called s3 where e: "x = (b, called, s3)" by (cases x)
      obtain j where s3: "requests_inv cbs B (insert b act) cur s3" "b \<notin> act" "returned s3 = returned s"
        "works_for s3 r (hdl s3 b)" "payload (hdl s3 b) = RecvInfo j"
        and j: "if called then due cbs (history s3 r) (RecvInfo j) else flying cbs (history s3 r) (RecvInfo j) (BatchFlight n)"
        using x unfolding e prod.case by blast
      have "called \<Longrightarrow> safe (recv_callback cbs rest b s3) ?Q" using rec [OF _ s3] ans s3(2,3) j by simp
      moreover have "\<not> called \<Longrightarrow> ?Q (launch b (BatchFlight n) s3)" using launch_ok [OF s3(1) _ r s3(4)] s3(2,3,5) j by simp
      ultimately show "safe (case x of (b, called, s3) \<Rightarrow>
          if called then recv_callback cbs rest b s3 else Inr (launch b (BatchFlight n) s3)) ?Q" by (simp add: e)
    qed
  qed
  show ?thesis
    unfolding recv_callback.simps [of cbs answers] d ebind.simps p request_info.case
    using rr(2,3)
    by (auto intro!: safe_bind [OF safe_recv_handler] safe_bind [OF rcv] safe_bind [OF pend] fin
        split: recv_state.split list.split)
qed

lemma recv_callback_ok:
  assumes "requests_inv cbs B act cur s" and "r \<in> cur" and "a \<in> act \<or> a = r"
    and "works_for s r (hdl s a)" and "payload (hdl s a) = RecvInfo info" and "due cbs (history s r) (RecvInfo info)"
  shows "safe (recv_callback cbs answers a s) (\<lambda>s'. requests_inv cbs B (act - {a}) (cur - {r}) s' \<and> returned s' = returned s)"
  using assms
proof (induction answers arbitrary: act a s info)
  case (Nil act a s info)
  show ?case by (rule recv_callback_step [OF Nil(1-6)]) simp
next
  case (Cons answer answers act a s info)
  show ?case
  proof (rule recv_callback_step [OF Cons.prems(1-6)])
    fix b s3 info'
    assume s3: "requests_inv cbs B (insert b act) cur s3" "b \<notin> act" "returned s3 = returned s"
      "works_for s3 r (hdl s3 b)" "payload (hdl s3 b) = RecvInfo info'" "due cbs (history s3 r) (RecvInfo info')"
    have "b \<in> insert b act \<or> b = r" by simp
    from Cons.IH [OF s3(1) Cons.prems(2) this s3(4-6)]
    show "safe (recv_callback cbs (tl (answer # answers)) b s3)
        (\<lambda>s'. requests_inv cbs B (insert b act - {b}) (cur - {r}) s' \<and> returned s' = returned s3)" by simp
  qed
qed

text \<open>The handlers as the program and UCX call them.\<close>

lemma callbacks_end:
  assumes i: "requests_inv cbs B (if a = r then {} else {a}) {r} s" and w: "works_for s r (hdl s a)"
    and due: "due cbs (history s r) (payload (hdl s a))"
  shows "payload (hdl s a) = RecvInfo rinfo \<Longrightarrow> safe (recv_callback cbs answers a s) (\<lambda>s'. requests_inv cbs B {} {} s')"
    and "payload (hdl s a) = SendInfo sinfo \<Longrightarrow> safe (send_callback cbs replies choice a s) (\<lambda>(ms, s'). requests_inv cbs B {} {} s')"
proof -
  have act: "a \<in> (if a = r then {} else {a}) \<or> a = r" and e: "(if a = r then {} else {a}) - {a} = {}" by simp_all
  show "safe (recv_callback cbs answers a s) (\<lambda>s'. requests_inv cbs B {} {} s')" if "payload (hdl s a) = RecvInfo rinfo"
    by (rule safe_mono [OF recv_callback_ok [OF i singletonI act w that due [unfolded that]]]) (simp add: e)
  show "safe (send_callback cbs replies choice a s) (\<lambda>(ms, s'). requests_inv cbs B {} {} s')" if "payload (hdl s a) = SendInfo sinfo"
    by (rule safe_mono [OF send_callback_ok [OF i singletonI act w that due [unfolded that]]]) (auto simp: e)
qed

section \<open>The events keep the invariant\<close>

text \<open>The two operations of the program, and all events.\<close>

lemma take_buffer_cases:
  "safe (take_buffer s) (\<lambda>(b, s'). \<exists>p. s' = s\<lparr>pool := p\<rparr> \<and> buffer_cache (pool s) = b # buffer_cache p)"
  by (auto simp: take_buffer_def take_comm_buffer_def split: list.split)

text \<open>Memory for a handle that is about to be filled, with the operation UCX may have under way.\<close>

definition made :: "nat \<Rightarrow> handle \<Rightarrow> flight option \<Rightarrow> bool \<Rightarrow> requests \<Rightarrow> requests" where
  "made a k f mal s =
     s\<lparr>handle_at := (handle_at s)(a \<mapsto> k), in_flight := (case f of None \<Rightarrow> in_flight s | Some g \<Rightarrow> (in_flight s)(a \<mapsto> g)),
       malloced := (if mal then insert a (malloced s) else malloced s)\<rparr>"

lemma fill_handle_ok:
  assumes i: "requests_inv cbs B {a} {} s" and f: "mal \<longrightarrow> f = None" and p: "p \<noteq> NoInfo"
    and k: "\<not> completed k" "custom_allocated k \<and> \<not> reset \<longleftrightarrow> mal"
    and fl: "\<forall>g. f = Some g \<longrightarrow> flying cbs (tr, ms) p g"
  shows "safe (fill_handle a p reset tr ms (made a k f mal s)) (\<lambda>(h, t). h = k \<and>
    requests_inv cbs B {} (if f = None then {a} else {}) t \<and> works_for t a (hdl t a) \<and> payload (hdl t a) = p \<and> history t a = (tr, ms))"
    (is "safe _ ?P")
  unfolding fill_handle_def
proof (rule safe_bind [OF take_buffer_cases])
  fix x assume "case x of (b, s') \<Rightarrow> \<exists>q. s' = made a k f mal s\<lparr>pool := q\<rparr> \<and> buffer_cache (pool (made a k f mal s)) = b # buffer_cache q"
  then obtain b q where x: "x = (b, made a k f mal s\<lparr>pool := q\<rparr>)" and q: "buffer_cache (pool s) = b # buffer_cache q"
    by (cases x) (auto simp: made_def)
  let ?k = "k\<lparr>payload := p, info_buffer := b, has_comm := True, orig_info := Orig a, custom_allocated := mal\<rparr>"
  let ?t = "add_handle a ?k f mal q (tr, ms) s"
  have "a \<notin> ucx_free s" using owners_okD(3) [OF i] by blast
  then have d: "deref (made a k f mal s\<lparr>pool := q\<rparr>) a = Inr k" by (simp add: deref_def made_def)
  have t: "(store (made a k f mal s\<lparr>pool := q\<rparr>) a ?k)\<lparr>returned := insert a (returned (made a k f mal s\<lparr>pool := q\<rparr>)),
      history := (history (made a k f mal s\<lparr>pool := q\<rparr>))(a := (tr, ms))\<rparr> = ?t"
    by (simp add: add_handle_def made_def store_def)
  have "requests_inv cbs B {} (if f = None then {a} else {}) ?t"
    by (rule add_handle_ok [OF i]) (use p q k f fl in simp_all)
  moreover have "hdl ?t a = ?k" "a \<in> returned ?t" "history ?t a = (tr, ms)" by (simp_all add: add_handle_def hdl_def)
  ultimately have "?P (k, ?t)" using p by (simp add: works_for_def)
  then show "safe (case x of (comm_buffer, s') \<Rightarrow> ebind (deref s' a) (\<lambda>h.
      Inr (h, (store s' a (h\<lparr>payload := p, info_buffer := comm_buffer, has_comm := True, orig_info := Orig a,
        custom_allocated := custom_allocated h \<and> \<not> reset\<rparr>))\<lparr>returned := insert a (returned s'), history := (history s')(a := (tr, ms))\<rparr>))) ?P"
    using k(2) t by (simp add: x d)
qed

lemma made_request:
  assumes "requests_inv cbs B {a} {} s"
  shows "launch a g s = made a (hdl s a) (Some g) False s"
proof -
  have "a \<in> dom (handle_at s)" unfolding owners_okD(2) [OF assms] by simp
  then have "(handle_at s)(a \<mapsto> hdl s a) = handle_at s" by (auto simp: hdl_def)
  then show ?thesis by (simp add: made_def launch_def)
qed

lemma made_malloc:
  assumes i: "requests_inv cbs B {} {} s" and m: "malloc_handle choice s = Inr (a, t)"
  shows "\<exists>s1 k. requests_inv cbs B {a} {} s1 \<and> t = made a k None True s1 \<and> custom_allocated k \<and> \<not> completed k"
proof -
  obtain raw where c: "choice = (a, raw)" using m by (cases choice) (auto simp: malloc_handle_def split: if_splits)
  have new: "handle_at s a = None"
    and t: "t = (store s a (raw\<lparr>custom_allocated := True, completed := False\<rparr>))\<lparr>malloced := insert a (malloced s)\<rparr>"
    using m c by (auto simp: malloc_handle_def split: if_splits)
  have "a \<notin> dom (handle_at s)" using new by blast
  then have "a \<notin> ucx_free s" unfolding owners_okD(2) [OF i] by blast
  then have "ucx_request choice s = Inr (a, store s a (request_init raw))" using new c by (simp add: ucx_request_def)
  then have "requests_inv cbs B {a} {} (store s a (request_init raw))" using ucx_request_ok(1) [OF i] by blast
  then show ?thesis
    unfolding t
    by (intro exI [of _ "store s a (request_init raw)"] exI [of _ "raw\<lparr>custom_allocated := True, completed := False\<rparr>"])
      (simp add: made_def store_def)
qed

lemma handle_recv_ok:
  assumes i: "requests_inv cbs B {} {} s"
  shows "safe (handle_recv cbs buf es source tag choice arrived answers s) (\<lambda>(a, s'). requests_inv cbs B {} {} s')"
  unfolding handle_recv_def
proof (rule safe_bind [OF safe_ucx_request])
  fix x assume q: "ucx_request choice s = Inr x"
  obtain a s1 where x: "x = (a, s1)" by (cases x)
  note u = ucx_request_ok [OF i q [unfolded x]]
  let ?f = "if arrived = None then Some CountFlight else None"
  let ?k = "if arrived = None then hdl s1 a else hdl s1 a\<lparr>orig_info := Called\<rparr>"
  let ?j = "initial_recv cbs buf es source tag (case arrived of None \<Rightarrow> 0 | Some n \<Rightarrow> n)"
  let ?tr = "RecvTransfer buf es source tag" and ?ms = "case arrived of None \<Rightarrow> [] | Some n \<Rightarrow> [Count n]"
  have cl: "\<not> completed (hdl s1 a)" "\<not> custom_allocated (hdl s1 a)" "orig_info (hdl s1 a) = Unset"
    using u(6) by (simp_all add: clean_def)
  have m: "(case arrived of None \<Rightarrow> Inr (launch a CountFlight s1) | Some n \<Rightarrow> early_callback a s1) = Inr (made a ?k ?f False s1)"
  proof (cases arrived)
    case (Some n)
    then show ?thesis using safe_early [OF u(1) _ cl(3)] by (simp add: made_def store_def)
  qed (simp add: made_request [OF u(1)])
  have fl: "\<forall>g. ?f = Some g \<longrightarrow> flying cbs (?tr, ?ms) (RecvInfo ?j) g" by simp
  have call: "safe (recv_callback cbs answers a t) (\<lambda>s'. requests_inv cbs B {} {} s')"
    if "arrived \<noteq> None" "requests_inv cbs B {} {a} t" "works_for t a (hdl t a)" "payload (hdl t a) = RecvInfo ?j" "history t a = (?tr, ?ms)" for t
  proof -
    have "due cbs (history t a) (payload (hdl t a))" using that(1,4,5) by (auto intro: received_start)
    then show ?thesis using callbacks_end(1) [of cbs B a a t] that by simp
  qed
  show "safe (case x of (a, s1) \<Rightarrow>
      ebind (case arrived of None \<Rightarrow> Inr (launch a CountFlight s1) | Some n \<Rightarrow> early_callback a s1) (\<lambda>s2.
      ebind (fill_handle a (RecvInfo ?j) True ?tr ?ms s2) (\<lambda>(h, s3).
      if orig_info h \<noteq> Unset then ebind (recv_callback cbs answers a s3) (\<lambda>s4. Inr (a, s4)) else Inr (a, s3))))
    (\<lambda>(a, s'). requests_inv cbs B {} {} s')"
    unfolding x prod.case m ebind.simps
  proof (rule safe_bind [OF fill_handle_ok [OF u(1)]])
    fix y assume "case y of (h, t) \<Rightarrow> h = ?k \<and> requests_inv cbs B {} (if ?f = None then {a} else {}) t \<and>
      works_for t a (hdl t a) \<and> payload (hdl t a) = RecvInfo ?j \<and> history t a = (?tr, ?ms)"
    then obtain t where y: "y = (?k, t)" and t: "requests_inv cbs B {} (if ?f = None then {a} else {}) t"
      "works_for t a (hdl t a)" "payload (hdl t a) = RecvInfo ?j" "history t a = (?tr, ?ms)" by (cases y) blast
    show "safe (case y of (h, s3) \<Rightarrow>
        if orig_info h \<noteq> Unset then ebind (recv_callback cbs answers a s3) (\<lambda>s4. Inr (a, s4)) else Inr (a, s3))
      (\<lambda>(a, s'). requests_inv cbs B {} {} s')"
    proof (cases "arrived = None")
      case False
      have "(if ?f = None then {a} else {}) = {a}" using False by simp
      then have "requests_inv cbs B {} {a} t" using t(1) by (simp only:)
      from call [OF False this t(2-4)] show ?thesis using False by (auto simp: y intro!: safe_bind)
    qed (use t(1) cl in \<open>simp add: y\<close>)
  qed (use cl fl in auto)
qed

lemma handle_send_ok:
  assumes i: "requests_inv cbs B {} {} s"
  shows "safe (handle_send cbs buf cnt es dest tag inl choice replies choice' s) (\<lambda>(a, ms, s'). requests_inv cbs B {} {} s')"
proof -
  let ?i = "initial_send buf cnt es dest tag"
  have start: "sent_so_far cbs ?i [Count cnt] (SendPending ?i)" using sent_start [of cbs ?i] by (simp add: initial_send_def)
  have call: "safe (send_callback cbs replies choice' a t) (\<lambda>(ms, s'). requests_inv cbs B {} {} s')"
    if "requests_inv cbs B {} {a} t" "works_for t a (hdl t a)" "payload (hdl t a) = SendInfo ?i" "history t a = (SendTransfer ?i, [Count cnt])" for t a
    using callbacks_end(2) [of cbs B a a t] that start by simp
  have rest: "safe (ebind (fill_handle a (SendInfo ?i) False (SendTransfer ?i) [Count cnt] (made a k f inl s1)) (\<lambda>(h, s3).
      if custom_allocated h then ebind (send_callback cbs replies choice' a s3) (\<lambda>(ms, s4). Inr (a, Count cnt # ms, s4))
      else Inr (a, [Count cnt], s3))) (\<lambda>(a, ms, s'). requests_inv cbs B {} {} s')"
    if "requests_inv cbs B {a} {} s1" "f = None \<longleftrightarrow> inl" "\<not> completed k" "custom_allocated k = inl" for a k f s1
    by (rule safe_bind [OF fill_handle_ok [OF that(1)]]) (use that start in \<open>auto intro!: safe_bind [OF call] split: if_splits\<close>)
  have "safe (if inl then malloc_handle choice s
            else ebind (ucx_request choice s) (\<lambda>(a, s1). Inr (a, launch a CountFlight s1)))
    (\<lambda>(a, s2). \<exists>s1 k f. requests_inv cbs B {a} {} s1 \<and> s2 = made a k f inl s1 \<and> (f = None \<longleftrightarrow> inl) \<and> \<not> completed k \<and> custom_allocated k = inl)"
    (is "safe _ ?Q")
  proof (cases inl)
    case True
    have "malloc_handle choice s \<noteq> Inl BadPointer" by (simp add: malloc_handle_def split: prod.split)
    then show ?thesis using made_malloc [OF i] True by (fastforce simp: safe_def)
  next
    case False
    have "?Q (a, launch a CountFlight s1)" if "ucx_request choice s = Inr (a, s1)" for a s1
      using made_request [OF ucx_request_ok(1) [OF i that]] ucx_request_ok(1,6) [OF i that] False
      by (intro case_prodI exI [of _ s1] exI [of _ "hdl s1 a"] exI [of _ "Some CountFlight"]) (simp add: clean_def)
    then show ?thesis using False by (auto intro!: safe_bind [OF safe_ucx_request])
  qed
  then show ?thesis
    unfolding handle_send_def by (rule safe_bind) (use rest in auto)
qed

lemma in_flight_info:
  assumes i: "requests_inv cbs B {} {} s" and a: "in_flight s a = Some f" and h: "handle_at s a = Some h"
  shows "\<exists>r. requests_inv cbs B (if a = r then {} else {a}) {r} (land a s) \<and> works_for (land a s) r h \<and> h = hdl (land a s) a \<and>
    flying cbs (history s r) (payload h) f"
proof -
  have hd: "h = hdl s a" using h by (simp add: hdl_def)
  have ok: "handles_ok {} s" using i by (simp add: requests_inv_def)
  then obtain r where w: "works_for s r (hdl s a)" using handles_okD(4) a by blast
  then have w': "works_for (land a s) r h" by (simp add: works_for_def hd)
  have rr: "r \<in> returned s" "a \<in> chain s r" using w a by (auto simp: works_for_def chain_def)
  then have "\<not> completed (hdl s r)" using handles_okD(6) [OF ok rr(1)] by auto
  then have "flying cbs (history s r) (payload h) f"
    using i rr a unfolding requests_inv_def history_ok_def hd by fastforce
  moreover have "in_flight s a \<noteq> None" using a by simp
  ultimately show ?thesis using land_ok [OF i _ w] w' hd by (intro exI [of _ r]) simp
qed

lemma recv_event_ok:
  assumes i: "requests_inv cbs B {} {} s" and a: "in_flight s a = Some f" and h: "handle_at s a = Some h" "payload h = RecvInfo info"
    and step: "\<And>tr ws. flying cbs (tr, ws) (RecvInfo info) f \<Longrightarrow> due cbs (tr, ws @ ms) (RecvInfo info')"
  shows "safe (recv_callback cbs answers a (log_messages h ms (store (land a s) a (h\<lparr>payload := RecvInfo info'\<rparr>))))
    (\<lambda>s'. requests_inv cbs B {} {} s')"
proof -
  obtain r where r: "requests_inv cbs B (if a = r then {} else {a}) {r} (land a s)" "works_for (land a s) r h" "h = hdl (land a s) a"
    and fl: "flying cbs (history s r) (payload h) f"
    using in_flight_info [OF i a h(1)] by blast
  have act: "a \<in> (if a = r then {} else {a}) \<or> a = r" by simp
  have w: "works_for (land a s) r (hdl (land a s) a)" using r by simp
  have o: "orig_info h = Orig r" using r(2) by (simp add: works_for_def)
  note o' = store_own [OF r(1) act singletonI w, of "RecvInfo info'", folded r(3), simplified]
  let ?s1 = "store (land a s) a (h\<lparr>payload := RecvInfo info'\<rparr>)"
  let ?t = "log_messages h ms ?s1"
  have inv: "requests_inv cbs B (if a = r then {} else {a}) {r} ?t" by (rule log_ok [OF o'(1) singletonI o])
  have wt: "works_for ?t r (hdl ?t a)" unfolding log_works o'(2) using r(2) by (simp add: works_for_def)
  have "due cbs (history ?t r) (payload (hdl ?t a))"
    using step [of "fst (history s r)" "snd (history s r)"] fl h(2) by (simp add: log_history [OF o])
  from callbacks_end(1) [OF inv wt this] show ?thesis by simp
qed

text \<open>What an arrival makes due.\<close>

lemma count_due:
  "flying cbs (tr, ws) (RecvInfo info) CountFlight \<Longrightarrow> due cbs (tr, ws @ [Count n]) (RecvInfo (info\<lparr>r_count := n\<rparr>))"
  by (cases tr) (auto simp: initial_recv_def intro: received_start)

lemma batch_due:
  "flying cbs (tr, ws) (RecvInfo info) (BatchFlight n) \<Longrightarrow> batch_arrives info n bs = Inr info' \<Longrightarrow>
     due cbs (tr, ws @ [Batch bs]) (RecvInfo info')"
  by (cases tr) (auto intro: received_step)

lemma run_event_ok:
  assumes i: "requests_inv cbs B {} {} s"
  shows "safe (run_event cbs ev s) (\<lambda>s'. requests_inv cbs B {} {} s')"
proof (cases ev)
  case (PostSend buf cnt es dest tag inl choice replies choice')
  show ?thesis unfolding PostSend run_event.simps
    by (rule safe_bind [OF handle_send_ok [OF i]]) (auto split: prod.splits)
next
  case (PostRecv buf es source tag choice arrived answers)
  show ?thesis unfolding PostRecv run_event.simps
    by (rule safe_bind [OF handle_recv_ok [OF i]]) (auto split: prod.splits)
next
  case (SendDone a replies choice)
  have "safe (ebind (send_callback cbs replies choice a (land a s)) (\<lambda>(ms, s'). Inr s')) (\<lambda>s'. requests_inv cbs B {} {} s')"
    if a: "in_flight s a = Some f" "handle_at s a = Some h" "payload h = SendInfo info" for f h info
  proof -
    obtain r where r: "requests_inv cbs B (if a = r then {} else {a}) {r} (land a s)" "works_for (land a s) r h" "h = hdl (land a s) a"
      and fl: "flying cbs (history s r) (payload h) f"
      using in_flight_info [OF i a(1,2)] by blast
    have "due cbs (history (land a s) r) (payload (hdl (land a s) a))"
      using fl a(3) r(3) by (cases "history s r"; cases "fst (history s r)"; cases f) auto
    then show ?thesis by (intro safe_bind [OF callbacks_end(2) [OF r(1)]]) (use r a in auto)
  qed
  then show ?thesis unfolding SendDone run_event.simps by (auto split: option.split request_info.split)
next
  case (CountArrived a n answers)
  show ?thesis unfolding CountArrived run_event.simps
    using recv_event_ok [OF i _ _ _ count_due] by (auto split: option.split request_info.split flight.split)
next
  case (BatchArrived a bs answers)
  show ?thesis unfolding BatchArrived run_event.simps
    using recv_event_ok [OF i _ _ _ batch_due]
    by (auto intro!: safe_bind [OF safe_batch_arrives] split: option.split request_info.split flight.split)
next
  case (Release a)
  have "safe (handle_release a s) (\<lambda>s'. requests_inv cbs B {} {} s')" if "a \<in> returned s" "completed (hdl s a)"
    using handle_release_ok [OF i that] by auto
  then show ?thesis unfolding Release run_event.simps by (auto simp: hdl_def split: option.split)
qed

lemma start_requests_ok: "requests_inv cbs (mset (buffer_cache st)) {} {} (start_requests st)"
  by (simp add: history_ok_def requests_inv_def owners_ok_def handles_ok_def buffers_ok_def start_requests_def)

lemma run_events_ok:
  assumes "requests_inv cbs B {} {} s"
  shows "safe (efold (\<lambda>s ev. run_event cbs ev s) s evs) (\<lambda>s'. requests_inv cbs B {} {} s')"
  using assms
proof (induction evs arbitrary: s)
  case (Cons ev evs)
  show ?case by (auto intro!: safe_bind [OF run_event_ok [OF Cons.prems]] Cons.IH)
qed simp

end
