(* ===== verification/Request_Properties.thy ===== *)
theory Request_Properties
  imports Request_Safety
begin

text \<open>
  What the invariant of the request handles says about \<open>UCXBufferCommunicator\<close>, for every
  sequence of operations, completions and waits, and every choice of memory by UCX.
\<close>

abbreviation run_events :: "int \<Rightarrow> buffer_pool \<Rightarrow> event list \<Rightarrow> requests res" where
  "run_events cbs st evs \<equiv> efold (\<lambda>s ev. run_event cbs ev s) (start_requests st) evs"

text \<open>
  A run: a send of three bytes through buffers of two whose messages do not complete at once,
  and a receive whose count and first batch arrive within the calls that ask for them. New
  memory is full of old values, and the request of the last batch is memory that was released before.
\<close>

definition junk :: handle where
  "junk = \<lparr>completed = True, info_buffer = 99, custom_allocated = True, has_comm = True, orig_info = Called, payload = NoInfo\<rparr>"

definition demo_transfers :: "event list" where
  "demo_transfers =
     [PostSend [1, 2, 3] 3 1 1 0 False (0, junk) [] (9, junk),
      SendDone 0 [] (1, junk),
      PostRecv None 1 1 0 (2, junk) (Some 3) [((3, junk), Some [1, 2]), ((4, junk), None)],
      SendDone 1 [] (3, junk),
      BatchArrived 4 [3] [],
      SendDone 3 [] (9, junk)]"

definition demo_events :: "event list" where
  "demo_events = demo_transfers @ [Release 0, Release 2]"

lemma demo_run:
  "\<exists>s. run_events 2 (fst (setup_cache 0 2 2)) demo_events = Inr s \<and>
     returned s = {} \<and> ucx_free s = {0, 1, 2, 3, 4} \<and> buffer_cache (pool s) = [0, 2]"
proof -
  have "case run_events 2 (fst (setup_cache 0 2 2)) demo_events of Inl e \<Rightarrow> False
    | Inr s \<Rightarrow> returned s = {} \<and> ucx_free s = {0, 1, 2, 3, 4} \<and> buffer_cache (pool s) = [0, 2]"
    by code_simp
  then show ?thesis by (auto split: sum.splits)
qed

text \<open>
  C24. No handler, operation or wait ever uses a handle that is not allocated, that has been
  released before, that is not filled, or that belongs to another transfer. After every
  step the handles that UCX has back are clean, every incomplete handle of the user has
  exactly one operation in flight and a complete one has none, handles from \<open>malloc\<close> are
  told from those of UCX, and every communication buffer is in the queue or belongs to one
  handle. When the user holds no handle, UCX has all its requests back, nothing is left in
  flight or allocated, and all buffers are in the queue.
\<close>
theorem request_handles_safe:
  "run_events cbs st evs \<noteq> Inl BadPointer \<and>
   (\<forall>s. run_events cbs st evs = Inr s \<longrightarrow>
      (\<forall>a \<in> ucx_free s. \<exists>h. handle_at s a = Some h \<and> \<not> completed h \<and> \<not> has_comm h \<and> orig_info h = Unset \<and> \<not> custom_allocated h) \<and>
      (\<forall>r \<in> returned s. \<exists>h. handle_at s r = Some h \<and> (custom_allocated h \<longleftrightarrow> r \<in> malloced s) \<and>
         card {a. in_flight s a \<noteq> None \<and> orig_info (the (handle_at s a)) = Orig r} = (if completed h then 0 else 1)) \<and>
      mset (buffer_cache (pool s)) + (\<Sum>r \<in> returned s. {#info_buffer (the (handle_at s r))#}) = mset (buffer_cache st) \<and>
      (returned s = {} \<longrightarrow> in_flight s = Map.empty \<and> malloced s = {} \<and> dom (handle_at s) = ucx_free s \<and>
         mset (buffer_cache (pool s)) = mset (buffer_cache st)))"
proof (intro conjI allI impI)
  let ?B = "mset (buffer_cache st)"
  note ok = run_events_ok [OF start_requests_ok [of cbs st], of evs]
  show "run_events cbs st evs \<noteq> Inl BadPointer" using ok by (simp add: safe_def)
  fix s assume "run_events cbs st evs = Inr s"
  then have i: "requests_inv cbs ?B {} {} s" using ok by (simp add: safe_def)
  then have h: "handles_ok {} s" and b: "buffers_ok ?B s" by (simp_all add: requests_inv_def)
  have at: "handle_at s a = Some (hdl s a)" if "a \<in> ucx_free s \<union> dom (in_flight s) \<union> returned s" for a
  proof -
    have "a \<in> dom (handle_at s)" unfolding owners_okD(2) [OF i] using that by simp
    then show ?thesis by (auto simp: hdl_def)
  qed
  show "\<forall>a \<in> ucx_free s. \<exists>h. handle_at s a = Some h \<and> \<not> completed h \<and> \<not> has_comm h \<and> orig_info h = Unset \<and> \<not> custom_allocated h"
    using handles_okD(1) [OF h] at by (auto simp: clean_def)
  show "\<forall>r \<in> returned s. \<exists>h. handle_at s r = Some h \<and> (custom_allocated h \<longleftrightarrow> r \<in> malloced s) \<and>
      card {a. in_flight s a \<noteq> None \<and> orig_info (the (handle_at s a)) = Orig r} = (if completed h then 0 else 1)"
  proof
    fix r assume r: "r \<in> returned s"
    have "card (chain s r) = (if completed (hdl s r) then 0 else 1)"
      using handles_okD(6,7) [OF h r] by (auto simp: is_singleton_def)
    moreover have "chain s r = {a. in_flight s a \<noteq> None \<and> orig_info (the (handle_at s a)) = Orig r}"
      by (simp only: chain_def hdl_def)
    moreover have "handle_at s r = Some (hdl s r)" using at r by blast
    ultimately show "\<exists>h. handle_at s r = Some h \<and> (custom_allocated h \<longleftrightarrow> r \<in> malloced s) \<and>
        card {a. in_flight s a \<noteq> None \<and> orig_info (the (handle_at s a)) = Orig r} = (if completed h then 0 else 1)"
      using handles_okD(3) [OF h r] by (intro exI [of _ "hdl s r"]) simp
  qed
  show m: "mset (buffer_cache (pool s)) + (\<Sum>r \<in> returned s. {#info_buffer (the (handle_at s r))#}) = ?B"
    using b by (simp add: buffers_ok_def hdl_def)
  assume none: "returned s = {}"
  have d: "dom (in_flight s) = {}" using handles_okD(4) [OF h] none unfolding works_for_def by blast
  then show "in_flight s = Map.empty" by simp
  show "malloced s = {}" using owners_okD(5) [OF i] none by simp
  show "dom (handle_at s) = ucx_free s" unfolding owners_okD(2) [OF i] d none by simp
  show "mset (buffer_cache (pool s)) = ?B" using m none by simp
qed

theorem request_handles_safe_witness:
  "\<exists>s. run_events 2 (fst (setup_cache 0 2 2)) demo_events = Inr s \<and>
     in_flight s = Map.empty \<and> malloced s = {} \<and> dom (handle_at s) = {0, 1, 2, 3, 4}"
proof -
  obtain s where s: "run_events 2 (fst (setup_cache 0 2 2)) demo_events = Inr s" "returned s = {}" "ucx_free s = {0, 1, 2, 3, 4}"
    using demo_run by blast
  from request_handles_safe [of 2 "fst (setup_cache 0 2 2)" demo_events, THEN conjunct2, rule_format, OF s(1)] s
  show ?thesis by blast
qed

text \<open>A transfer is what its functions compute, however many calls of the handlers it takes.\<close>

lemma run_send_more: "run_send cbs i calls = Inr (ms, Sent) \<Longrightarrow> run_send cbs i (calls @ rest) = Inr (ms, Sent)"
proof (induction calls arbitrary: i ms)
  case (Cons a calls)
  obtain ms1 st1 where 1: "send_handler cbs i a = Inr (ms1, st1)" using Cons.prems by (auto simp: ebind_Inr_iff)
  show ?case
  proof (cases st1)
    case (SendPending i1)
    then obtain ms2 where "run_send cbs i1 calls = Inr (ms2, Sent)" "ms = ms1 @ ms2"
      using Cons.prems 1 by (auto simp: ebind_Inr_iff)
    then show ?thesis using Cons.IH 1 SendPending by simp
  qed (use Cons.prems 1 in simp)
qed simp

lemma sent_messages:
  assumes ok: "transfer_ok cbs data cnt es" and s: "sent_so_far cbs (initial_send data cnt es dest tag) ws Sent"
  shows "ws = Count cnt # batches cbs data cnt es 0 (n_batches cbs cnt es)"
proof -
  obtain calls ms where r: "run_send cbs (initial_send data cnt es dest tag) calls = Inr (ms, Sent)" and ws: "ws = Count cnt # ms"
    using s by (auto simp: sent_so_far_def initial_send_def)
  let ?calls = "calls @ replicate (Suc (n_batches cbs cnt es)) []"
  have "buffer_send cbs data cnt es dest tag ?calls = Inr (ws, Sent)"
    using run_send_more [OF r] ws by (simp add: buffer_send_def)
  moreover have "buffer_send cbs data cnt es dest tag ?calls = Inr (Count cnt # batches cbs data cnt es 0 (n_batches cbs cnt es), Sent)"
    by (rule buffer_send_ok [OF ok]) simp
  ultimately show ?thesis by simp
qed

lemma received_message:
  "received_so_far cbs (initial_recv cbs buf es source tag) ws (Received b) \<Longrightarrow> recv_helper cbs buf es source tag ws = Inr (b, [])"
  using recv_after_run [where rest = "[]"] by (auto simp: received_so_far_def recv_helper_def initial_recv_def)

text \<open>
  C25. Whatever callbacks UCX makes on either side, and whatever other transfers are under way
  on the two communicators: when the handles of a send and of a receive are complete and the
  messages the send has sent are those the receive has received, in order, the buffer of the
  receive holds the data of the send.
\<close>
theorem handle_transfers_deliver:
  assumes "run_events cbs st evs = Inr s" and "run_events cbs st' evs' = Inr s'"
    and a: "a \<in> returned s" "completed (hdl s a)" "history s a = (SendTransfer (initial_send data cnt es dest tag), ws)"
    and b: "b \<in> returned s'" "completed (hdl s' b)" "history s' b = (RecvTransfer buf es source tag', ws)"
    and ok: "0 < es" "es \<le> cbs" "0 \<le> cnt" "int (length data) = cnt * es" "\<forall>m. buf = Some m \<longrightarrow> length data \<le> length m"
  shows "\<exists>i. payload (hdl s' b) = RecvInfo i \<and>
    r_buffer i = (case buf of None \<Rightarrow> if data = [] then None else Some data | Some m \<Rightarrow> Some (data @ drop (length data) m))"
proof -
  have tr: "transfer_ok cbs data cnt es" using ok by (simp add: transfer_ok_def)
  have h: "history_ok cbs {} s" "history_ok cbs {} s'"
    using run_events_ok [OF start_requests_ok [of cbs st], of evs] run_events_ok [OF start_requests_ok [of cbs st'], of evs'] assms(1,2)
    by (simp_all add: safe_def requests_inv_def)
  have "ended cbs (history s a) (payload (hdl s a))" using h(1) a unfolding history_ok_def by auto
  then have "sent_so_far cbs (initial_send data cnt es dest tag) ws Sent" using a(3) by (cases "payload (hdl s a)") auto
  from sent_messages [OF tr this] have ws: "ws = Count cnt # batches cbs data cnt es 0 (n_batches cbs cnt es)" .
  have "ended cbs (history s' b) (payload (hdl s' b))" using h(2) b unfolding history_ok_def by auto
  then obtain i where i: "payload (hdl s' b) = RecvInfo i"
    "received_so_far cbs (initial_recv cbs buf es source tag') ws (Received (r_buffer i))" using b(3) by (cases "payload (hdl s' b)") auto
  have "recv_helper cbs buf es source tag' ws = Inr (received buf data, [])"
    using recv_helper_ok [OF tr ok(5), of source tag' "[]"] by (simp add: ws)
  then have "r_buffer i = received buf data" using received_message [OF i(2)] by simp
  then show ?thesis using i(1) by (auto simp: received_def split: option.split)
qed

lemma demo_transfers_run:
  "\<exists>s. run_events 2 (fst (setup_cache 0 2 2)) demo_transfers = Inr s \<and>
     returned s = {0, 2} \<and> completed (hdl s 0) \<and> completed (hdl s 2) \<and>
     history s 0 = (SendTransfer (initial_send [1, 2, 3] 3 1 1 0),
       [Count 3, Batch [1, 2], Batch [3]]) \<and>
     history s 2 = (RecvTransfer None 1 1 0, [Count 3, Batch [1, 2], Batch [3]])"
proof -
  have "case run_events 2 (fst (setup_cache 0 2 2)) demo_transfers of Inl e \<Rightarrow> False
    | Inr s \<Rightarrow> returned s = {0, 2} \<and> completed (hdl s 0) \<and> completed (hdl s 2) \<and>
       history s 0 = (SendTransfer (initial_send [1, 2, 3] 3 1 1 0),
         [Count 3, Batch [1, 2], Batch [3]]) \<and>
       history s 2 = (RecvTransfer None 1 1 0, [Count 3, Batch [1, 2], Batch [3]])"
    by code_simp
  then show ?thesis by (auto split: sum.splits)
qed

theorem handle_transfers_deliver_witness:
  "\<exists>s i. run_events 2 (fst (setup_cache 0 2 2)) demo_transfers = Inr s \<and> payload (hdl s 2) = RecvInfo i \<and>
     r_buffer i = Some [1, 2, 3]"
proof -
  obtain s where s: "run_events 2 (fst (setup_cache 0 2 2)) demo_transfers = Inr s" "0 \<in> returned s" "2 \<in> returned s"
    "completed (hdl s 0)" "completed (hdl s 2)"
    "history s 0 = (SendTransfer (initial_send [1, 2, 3] 3 1 1 0),
       [Count 3, Batch [1, 2], Batch [3]])"
    "history s 2 = (RecvTransfer None 1 1 0, [Count 3, Batch [1, 2], Batch [3]])"
    using demo_transfers_run by blast
  from handle_transfers_deliver [OF s(1) s(1) s(2,4,6) s(3,5,7)] show ?thesis using s(1) by simp
qed

end
