(* ===== verification/Spec2Isabelle.thy ===== *)
theory Spec2Isabelle
  imports Transfer_Properties Options Communicator_Properties End_To_End
    Distribute_Table Setup_Properties Generate_Properties Input_Properties Kernel_Launch Warmup Request_Properties
begin

text \<open>
  A model of distributed-join: joins of cuDF tables that are distributed over the GPUs of
  several MPI ranks. This theory collects the development; all parts lie in the theories
  it imports. Paths are relative to the repository's \<open>src/\<close>.

  The program. Every rank runs the same code. \<open>distributed_inner_join\<close>
  (\<open>src/distributed_join.cpp\<close>) hash-partitions the local tables twice: first into NVLink
  domains, then, inside a domain, into one partition per rank and batch. Partitions travel
  with \<open>AllToAllCommunicator\<close> (\<open>src/all_to_all_comm.cpp\<close>): sizes first, then the columns of
  a table as buffers, each possibly compressed with nvcomp (\<open>src/compression.hpp\<close>), string
  columns as characters and sizes (\<open>src/strings_column.cu\<close>). The buffers go over a
  \<open>Communicator\<close> (\<open>src/communicator.cpp\<close>): plain UCX, UCX through a pool of registered
  buffers, or NCCL through staging buffers. While the main thread communicates a batch, a
  second thread joins the batches before it. Around this: \<open>shuffle_on\<close>, \<open>distribute_table\<close>
  and \<open>collect_tables\<close>, setup and teardown, a memory resource that registers what it
  allocates, and the generator of benchmark tables.

  How it is modelled. A collective operation is a function on the list of the ranks' local
  values, so that a definition shows what every rank does and a round of communication is
  an exchange between the entries (theory Transport). Code of one rank with its own state
  is a function on a record. Failures (exceptions, failed assertions, accesses out of
  bounds, exits) are values: the type \<open>res\<close> with the constructors of \<open>failure\<close> (Prelude).
  Device memory is a list of bytes, and every copy checks its bounds (\<open>read_mem\<close>,
  \<open>write_mem\<close>). \<open>size_type\<close> offsets and tags are 32- and 64-bit words, and the row index of the
  generating kernels wraps around in 32 bits (\<open>next_index\<close>, \<open>loop_rows\<close>); 64-bit byte counts are
  unbounded integers (they would wrap around only beyond \<open>2 ^ 63\<close> bytes), and so is the number
  of the batch of a transfer.

  Theories, from the bottom up:

  \<^item> Prelude: failures and their combinators, bounded memory, running sums and subranges.
  \<^item> Comm_Group, Transport: \<open>CommunicationGroup\<close>, and the exchange of messages as a locale
    \<open>p2p_transport\<close>, of which every communicator is shown to be an instance.
  \<^item> Size_Exchange, Table, Compression, All_To_All: \<open>communicate_sizes\<close>, columns and tables,
    the compression functors and options, \<open>send_data_by_offset\<close> to
    \<open>postprocess_all_to_all_comm\<close>. All_To_All_Correct, All_To_All_World,
    All_To_All_Delivery, Delivery, Postprocess: every buffer arrives.
  \<^item> Strings_Column, Column_Rows, Table_Comm: string sizes and offsets, and the class
    \<open>AllToAllCommunicator\<close>; Table_Comm_Correct, Table_Delivery, Table_Rows: every row
    arrives.
  \<^item> Options, Examples: how the ranks agree on compression options; instances for witnesses.
  \<^item> Relational, Reference_Ops, Shuffle, Distributed_Join, Join_Threads, Join_Correct: the
    contract of cuDF and an implementation that meets it, \<open>shuffle_on\<close>, the join, its two
    threads as a step relation over shared flags and tables, and why the join is correct.
  \<^item> Communicator, Waiting, Buffer_Cache, Buffer_Communicator, NCCL_Communicator: tags and
    requests of \<open>MPILikeCommunicator\<close> and \<open>UCXCommunicator\<close>, \<open>wait\<close> and \<open>waitall\<close>, the
    pool of buffers of \<open>UCXBufferCommunicator\<close>, its callbacks on one transfer and its rounds,
    which take their buffers out of the pool or end with the exception that there is none, and
    NCCL.
    Request_Handles, Request_Invariant, Request_Safety: the same callbacks on a heap of
    request handles that UCX allocates and reuses.
  \<^item> Runtime, Registered_Memory, Setup: the calls that create and release resources, those of
    every round of communication included (requests, staging blocks of NCCL, \<open>malloc\<close> and
    \<open>free\<close>), as lists that are checked against the protocol \<open>api_step\<close> of the libraries.
  \<^item> Distribute_Table, Warmup: \<open>src/distribute_table.cpp\<close> and \<open>warmup_all_to_all\<close>.
  \<^item> Lottery, Input_Tables, Kernel_Launch, Int_Bytes, Generate_Table: the generator; its
    kernels are threads that interleave at single accesses to shared memory.
  \<^item> Join_Properties, Join_Communicators, End_To_End, Transfer_Properties,
    Communicator_Properties, Request_Properties, Setup_Properties, Generate_Properties,
    Input_Properties: the properties, each with a witness.

  What is shown. C1 to C9: the distributed join is the inner join of the whole tables, over
  every transport and over each communicator of the program; with more than one batch this
  asks that the tables have no string columns and that every rank gets rows of both tables in
  every batch, because the program can fail otherwise (C7, C16). Together with distribution and
  collection it gives what one GPU gives; the shuffle, its types, the domain size; the two
  threads of every rank compute this join under every fair schedule and never read a table
  too early. C10 to C18: groups, sizes, buffers, strings and tables arrive unchanged,
  whatever the compression, and the ranks agree on its options, if the buffers of the root are
  long enough for the selector of nvcomp. C19 to C26: tags, waiting,
  transfers in batches, the pool of buffers, the safety of the request handles, NCCL. C27
  to C33: distribution and collection are inverse; setup, rounds of communication and
  teardown respect the protocols, with an exact account of what is never released (C29). C34 to C40: the generator, for random numbers below 1 (C38 shows what 1
  does). The properties of kind error are defects of the
  code, most of which other properties exclude by their hypotheses: the merge of joined and empty batches
  (C7), string tables with more than one batch (C16), buffers smaller than an element (C22),
  the leak of the warm-up (C30), the equality of memory resources (C33), the lottery (C37,
  C38) and the keys that two ranks share (C40).

  Bounds and fuel. Row counts and offsets stay below \<open>2 ^ 31\<close> (the predicate \<open>fits\<close>), ranks
  below \<open>2 ^ 31\<close>, and below 65537 for the buffer communicator, as the code demands. What the
  libraries answer to a callback (complete at once or later) is a list of answers; the
  hypotheses that it is long enough bound it by the number of batches, which the data
  determines. \<open>run_draw\<close> counts steps of a schedule: C34 and C36 show that some number is
  enough and that more changes nothing, if the rows of a table and the threads together do
  not exceed \<open>2 ^ 31\<close>; beyond that a row index can wrap around. \<open>loop_rows\<close> needs one more round than rows (C35).
  \<open>waitall\<close> is a partial function whose value \<open>None\<close> means that it never returns (C20).

  Parameters. Code that is not part of the repository is an argument, with its documented
  behaviour as a hypothesis: cuDF (\<open>cudf_ops_ok\<close>), nvcomp (\<open>nvcomp_ok\<close>; its
  selector may end the program with a floating point exception on buffers of fewer than
  \<open>selector_elements\<close> elements), the matching of
  messages by MPI and NCCL (\<open>p2p_transport\<close>, \<open>nccl_staging\<close>) and of tags by UCX
  (\<open>ucx_tagged\<close>), \<open>MPI_Bcast\<close>, \<open>MPI_Allgather\<close> and \<open>MPI_Gather\<close> (\<open>broadcast\<close>, \<open>allgather\<close>,
  \<open>gather\<close>), the completions of UCX (\<open>status\<close>, \<open>progress\<close>), the random numbers of curand
  (\<open>uniforms\<close>) and the scheduler of threads. A hash value is an arbitrary function of hash,
  seed, number of partitions, types and key (\<open>partitioner\<close>).

  Not modelled. Timing and the reports it prints, NVTX ranges, CUDA streams and the
  synchronisation with them (an operation is complete when it returns), the texts of error
  messages (a failed check is the failure \<open>Exit 1\<close> or an exception), the preallocated
  pinned buffer, the copy constructors of the memory resource, headers that only declare,
  the benchmark drivers and the build. Of the test programs only the workflow of
  \<open>compare_against_single_gpu\<close> is a definition (End_To_End). The two threads of a rank
  interleave step by step; the ranks communicate in rounds, because every rank calls the
  collective operations in the same order and its main thread alone communicates.
\<close>

end
